(* ===== verification/Prelude.thy ===== *)
theory Prelude
  imports Complex_Main "HOL-Library.List_Lexorder" "HOL-Library.Char_ord"
begin

text \<open>
  What every component of the development shares: the names of the model's basic types, the
  sum type of results with its sequencing operator, the collections the component proofs add
  their facts to, and the generic facts on lists and options the components have in common.

  A fallible operation of the code is a function into \<open>'e + 'a\<close>: \<open>Inl\<close> is a thrown error,
  \<open>Inr\<close> a value. An operation on the database is a function from the state to such a result,
  with the new state beside the value. A thrown error carries no state: the code runs every
  such operation in a transaction and rolls it back.
\<close>

section \<open>Names of the basic types\<close>

type_synonym uuid = nat
type_synonym time = int  \<comment> \<open>milliseconds, as \<open>Date.getTime()\<close> reads them\<close>

section \<open>Fact collections\<close>

named_theorems tx_simps \<open>unfolding rules of transactions\<close>
named_theorems frame_simps \<open>tables an operation leaves alone\<close>
named_theorems inv_intros \<open>preservation of the table invariants\<close>

section \<open>Results and transactions\<close>

type_synonym ('e, 's, 'a) tx = "'s \<Rightarrow> 'e + ('a \<times> 's)"

definition ret :: "'a \<Rightarrow> ('e, 's, 'a) tx" where
  "ret x = (\<lambda>s. Inr (x, s))"

definition raise :: "'e \<Rightarrow> ('e, 's, 'a) tx" where
  "raise e = (\<lambda>s. Inl e)"

definition andThen :: "('e, 's, 'a) tx \<Rightarrow> ('a \<Rightarrow> ('e, 's, 'b) tx) \<Rightarrow> ('e, 's, 'b) tx" where
  "andThen m f = (\<lambda>s. case m s of Inl e \<Rightarrow> Inl e | Inr (x, s') \<Rightarrow> f x s')"

definition get_state :: "('e, 's, 's) tx" where
  "get_state = (\<lambda>s. Inr (s, s))"

definition modify :: "('s \<Rightarrow> 's) \<Rightarrow> ('e, 's, unit) tx" where
  "modify f = (\<lambda>s. Inr ((), f s))"

text \<open>A loop over a list whose body is a transaction; it stops at the first error.\<close>

fun for_each :: "'b list \<Rightarrow> ('b \<Rightarrow> ('e, 's, unit) tx) \<Rightarrow> ('e, 's, unit) tx" where
  "for_each [] f = ret ()"
| "for_each (x # xs) f = andThen (f x) (\<lambda>_. for_each xs f)"

lemma ret_apply [simp]: "ret x s = Inr (x, s)"
  by (simp add: ret_def)

lemma raise_apply [simp]: "raise e s = Inl e"
  by (simp add: raise_def)

lemma get_state_apply [simp]: "get_state s = Inr (s, s)"
  by (simp add: get_state_def)

lemma modify_apply [simp]: "modify f s = Inr ((), f s)"
  by (simp add: modify_def)

lemma andThen_Inr_iff:
  "andThen m f s = Inr r \<longleftrightarrow> (\<exists>x s'. m s = Inr (x, s') \<and> f x s' = Inr r)"
  by (auto simp: andThen_def split: sum.splits prod.splits)

lemma andThen_Inl_iff:
  "andThen m f s = Inl e \<longleftrightarrow> m s = Inl e \<or> (\<exists>x s'. m s = Inr (x, s') \<and> f x s' = Inl e)"
  by (auto simp: andThen_def split: sum.splits prod.splits)

lemma andThen_ok [simp]: "m s = Inr (x, s') \<Longrightarrow> andThen m f s = f x s'"
  by (simp add: andThen_def)

lemma andThen_err [simp]: "m s = Inl e \<Longrightarrow> andThen m f s = Inl e"
  by (simp add: andThen_def)

lemma andThenE:
  assumes "andThen m f s = Inr r"
  obtains x s' where "m s = Inr (x, s')" and "f x s' = Inr r"
  using assms by (auto simp: andThen_Inr_iff)

text \<open>
  A property of the state that every iteration keeps is kept by the loop.
\<close>

lemma for_each_invariant:
  assumes "for_each xs f s = Inr ((), s')" and "P s"
    and "\<And>x t t'. x \<in> set xs \<Longrightarrow> P t \<Longrightarrow> f x t = Inr ((), t') \<Longrightarrow> P t'"
  shows "P s'"
  using assms
proof (induction xs arbitrary: s)
  case Nil
  then show ?case by simp
next
  case (Cons x xs)
  from Cons.prems(1) obtain s1 where "f x s = Inr ((), s1)" "for_each xs f s1 = Inr ((), s')"
    by (auto elim: andThenE)
  with Cons show ?case
    by (metis list.set_intros)
qed

section \<open>Lists and options\<close>

text \<open>\<open>Array.prototype.findIndex\<close>, with \<open>None\<close> for the code's \<open>-1\<close>.\<close>

fun find_index_from :: "nat \<Rightarrow> ('a \<Rightarrow> bool) \<Rightarrow> 'a list \<Rightarrow> nat option" where
  "find_index_from i P [] = None"
| "find_index_from i P (x # xs) = (if P x then Some i else find_index_from (Suc i) P xs)"

abbreviation find_index :: "('a \<Rightarrow> bool) \<Rightarrow> 'a list \<Rightarrow> nat option" where
  "find_index \<equiv> find_index_from 0"

text \<open>Reading past the end of an array is \<open>undefined\<close>.\<close>

definition nth_opt :: "'a list \<Rightarrow> nat \<Rightarrow> 'a option" where
  "nth_opt xs i = (if i < length xs then Some (xs ! i) else None)"

definition optional :: "'a option \<Rightarrow> 'a \<Rightarrow> 'a" where
  \<comment> \<open>the operator \<open>??\<close> on an optional value\<close>
  "optional x d = (case x of None \<Rightarrow> d | Some y \<Rightarrow> y)"

lemma optional_simps [simp]: "optional None d = d" "optional (Some x) d = x"
  by (simp_all add: optional_def)

lemma nth_opt_append1: "nth_opt xs i = Some x \<Longrightarrow> nth_opt (xs @ ys) i = Some x"
  by (auto simp: nth_opt_def nth_append split: if_splits)

lemma nth_opt_Some_iff: "nth_opt xs i = Some x \<longleftrightarrow> i < length xs \<and> xs ! i = x"
  by (auto simp: nth_opt_def)

lemma nth_opt_None_iff: "nth_opt xs i = None \<longleftrightarrow> length xs \<le> i"
  by (auto simp: nth_opt_def)

lemma find_index_from_Some:
  "find_index_from k P xs = Some i \<Longrightarrow> k \<le> i \<and> i - k < length xs \<and> P (xs ! (i - k))"
proof (induction xs arbitrary: k)
  case Nil
  then show ?case by simp
next
  case (Cons x xs)
  show ?case
  proof (cases "P x")
    case True
    with Cons.prems show ?thesis by simp
  next
    case False
    with Cons.prems have "Suc k \<le> i \<and> i - Suc k < length xs \<and> P (xs ! (i - Suc k))"
      by (intro Cons.IH) simp
    moreover from this obtain j where "i - k = Suc j" "j = i - Suc k" by (metis Suc_diff_le diff_Suc_Suc)
    ultimately show ?thesis by simp
  qed
qed

lemma find_index_from_None: "find_index_from k P xs = None \<longleftrightarrow> (\<forall>x \<in> set xs. \<not> P x)"
  by (induction xs arbitrary: k) auto

lemma find_index_from_append:
  "find_index_from k P (xs @ ys) =
     (case find_index_from k P xs of Some i \<Rightarrow> Some i
      | None \<Rightarrow> find_index_from (k + length xs) P ys)"
  by (induction xs arbitrary: k) (auto split: option.splits)

text \<open>A map that turns a member off, and none on, leaves fewer of them.\<close>

lemma length_filter_map_less:
  assumes "\<And>y. P (g y) \<Longrightarrow> P y" and "x \<in> set xs" and "P x" and "\<not> P (g x)"
  shows "length (filter P (map g xs)) < length (filter P xs)"
  using assms(2)
proof (induction xs)
  case (Cons y ys)
  have le: "length (filter P (map g zs)) \<le> length (filter P zs)" for zs
    by (induction zs) (use assms(1) in auto)
  show ?case
  proof (cases "y = x")
    case True
    then show ?thesis using assms(3,4) le [of ys] by simp
  next
    case False
    then show ?thesis using Cons assms(1) [of y] by auto
  qed
qed simp

section \<open>Numbers in ids\<close>

definition quoted :: "string \<Rightarrow> string" where
  "quoted s = [CHR 0x22] @ s @ [CHR 0x22]"

text \<open>\<open>String(n)\<close> of a whole number: its decimal digits.\<close>

fun show_nat :: "nat \<Rightarrow> string" where
  "show_nat n = (if n < 10 then [char_of (48 + n)] else show_nat (n div 10) @ [char_of (48 + n mod 10)])"

declare show_nat.simps [simp del]

definition read_digits :: "string \<Rightarrow> nat" where
  "read_digits s = foldl (\<lambda>a c. 10 * a + (of_char c - 48)) 0 s"

lemma read_show_nat: "read_digits (show_nat n) = n"
proof (induction n rule: show_nat.induct)
  case (1 n)
  show ?case
  proof (cases "n < 10")
    case True
    then show ?thesis
      by (subst show_nat.simps) (simp add: read_digits_def)
  next
    case False
    with 1 show ?thesis
      by (subst show_nat.simps) (simp add: read_digits_def)
  qed
qed

lemma show_nat_inj [simp]: "show_nat m = show_nat n \<longleftrightarrow> m = n"
  by (metis read_show_nat)

lemma show_nat_nonempty [simp]: "show_nat n \<noteq> []"
  by (subst show_nat.simps) simp

end
