(* ===== verification/JsValue.thy ===== *)
theory JsValue
  imports Prelude "HOL-Library.Multiset"
begin

text \<open>
  The values the code calls \<open>unknown\<close> (inputs, results, payloads, details), what the event log
  stores of them, the canonical encoding replay compares inputs by
  (\<open>packages/core/src/workflow/canonical.ts\<close>) and the masking of sensitive fields
  (\<open>packages/core/src/event-store/codec.ts\<close>).

  The stored form of a value is modelled as the value \<open>JSON.parse(JSON.stringify(v))\<close> gives back,
  not as its text: the text determines that value and is determined by it, so two texts are
  equal exactly when the two values are. A \<open>Date\<close> is represented by its ISO text, which is
  what JSON stores of it. Object keys are compared as character lists.
\<close>

section \<open>Values\<close>

text \<open>
  A number is a finite double (kept as the rational it denotes), negative zero, an infinity or
  not-a-number: JSON stores the last three as \<open>null\<close> and negative zero as \<open>0\<close>.
\<close>

datatype jsnum = Fin rat | NegZero | NaN | Infinite bool

datatype jsv =
    VUndef
  | VNull
  | VBool bool
  | VNum jsnum
  | VStr string
  | VDate string
  | VArr "jsv list"
  | VObj "(string \<times> jsv) list"

definition is_finite_num :: "jsnum \<Rightarrow> bool" where
  "is_finite_num n = (case n of Fin _ \<Rightarrow> True | NegZero \<Rightarrow> True | _ \<Rightarrow> False)"

definition num_value :: "jsnum \<Rightarrow> rat" where
  "num_value n = (case n of Fin q \<Rightarrow> q | _ \<Rightarrow> 0)"

text \<open>The operator \<open>===\<close> on numbers: \<open>NaN\<close> differs from itself, the two zeros are equal.\<close>

definition num_strict_eq :: "jsnum \<Rightarrow> jsnum \<Rightarrow> bool" where
  "num_strict_eq a b =
     (if is_finite_num a \<and> is_finite_num b then num_value a = num_value b
      else a = b \<and> a \<noteq> NaN)"

section \<open>What the log stores of a value\<close>

fun json_stored :: "jsv \<Rightarrow> jsv option"
and json_stored_items :: "jsv list \<Rightarrow> jsv list"
and json_stored_fields :: "(string \<times> jsv) list \<Rightarrow> (string \<times> jsv) list" where
  "json_stored VUndef = None"
| "json_stored VNull = Some VNull"
| "json_stored (VBool b) = Some (VBool b)"
| "json_stored (VNum n) =
     Some (case n of Fin q \<Rightarrow> VNum (Fin q) | NegZero \<Rightarrow> VNum (Fin 0) | _ \<Rightarrow> VNull)"
| "json_stored (VStr s) = Some (VStr s)"
| "json_stored (VDate txt) = Some (VStr txt)"
| "json_stored (VArr xs) = Some (VArr (json_stored_items xs))"
| "json_stored (VObj kvs) = Some (VObj (json_stored_fields kvs))"
| "json_stored_items [] = []"
| "json_stored_items (x # xs) = optional (json_stored x) VNull # json_stored_items xs"
| "json_stored_fields [] = []"
| "json_stored_fields ((k, v) # kvs) =
     (case json_stored v of
        None \<Rightarrow> json_stored_fields kvs
      | Some j \<Rightarrow> (k, j) # json_stored_fields kvs)"

section \<open>The canonical encoding\<close>

fun sort_keys :: "jsv \<Rightarrow> jsv"
and sort_keys_items :: "jsv list \<Rightarrow> jsv list"
and sort_keys_fields :: "(string \<times> jsv) list \<Rightarrow> (string \<times> jsv) list" where
  "sort_keys (VArr xs) = VArr (sort_keys_items xs)"
| "sort_keys (VObj kvs) = VObj (sort_key fst (sort_keys_fields kvs))"
| "sort_keys v = v"
| "sort_keys_items [] = []"
| "sort_keys_items (x # xs) = sort_keys x # sort_keys_items xs"
| "sort_keys_fields [] = []"
| "sort_keys_fields ((k, v) # kvs) = (k, sort_keys v) # sort_keys_fields kvs"

text \<open>\<open>None\<close> is the encoding \<open>"undefined"\<close>, which no stored value has.\<close>

definition canonical_encoding :: "jsv \<Rightarrow> jsv option" where
  "canonical_encoding v =
     (case json_stored v of None \<Rightarrow> None | Some j \<Rightarrow> Some (sort_keys j))"

definition same_encoding :: "jsv \<Rightarrow> jsv \<Rightarrow> bool" where
  "same_encoding recorded live \<longleftrightarrow> canonical_encoding recorded = canonical_encoding live"

section \<open>Masking\<close>

text \<open>
  \<open>Object.entries\<close> of a \<open>Date\<close> is empty, so a masked \<open>Date\<close> is an empty object.
\<close>

fun mask_value :: "string list \<Rightarrow> jsv \<Rightarrow> jsv"
and mask_items :: "string list \<Rightarrow> jsv list \<Rightarrow> jsv list"
and mask_entries :: "string list \<Rightarrow> (string \<times> jsv) list \<Rightarrow> (string \<times> jsv) list" where
  "mask_value ks (VArr xs) = VArr (mask_items ks xs)"
| "mask_value ks (VObj kvs) = VObj (mask_entries ks kvs)"
| "mask_value ks (VDate _) = VObj []"
| "mask_value ks v = v"
| "mask_items ks [] = []"
| "mask_items ks (x # xs) = mask_value ks x # mask_items ks xs"
| "mask_entries ks [] = []"
| "mask_entries ks ((k, v) # kvs) =
     (k, if k \<in> set ks then VStr ''[masked]'' else mask_value ks v) # mask_entries ks kvs"

definition mask_sensitive_fields :: "jsv \<Rightarrow> string list \<Rightarrow> jsv" where
  "mask_sensitive_fields v ks = mask_value ks v"

section \<open>Facts\<close>

lemma num_strict_eq_sym: "num_strict_eq a b \<longleftrightarrow> num_strict_eq b a"
  by (auto simp: num_strict_eq_def)

lemma num_strict_eq_refl: "num_strict_eq a a \<longleftrightarrow> a \<noteq> NaN"
  by (auto simp: num_strict_eq_def is_finite_num_def)

text \<open>What was stored is stored again as it is.\<close>

lemma json_stored_idem:
  "json_stored v = Some j \<Longrightarrow> json_stored j = Some j"
  "json_stored_items (json_stored_items xs) = json_stored_items xs"
  "json_stored_fields (json_stored_fields kvs) = json_stored_fields kvs"
proof (induction v and xs and kvs arbitrary: j and and
       rule: json_stored_json_stored_items_json_stored_fields.induct)
  case (4 n)
  then show ?case by (cases n) auto
next
  case (10 x xs)
  then show ?case by (cases "json_stored x") auto
next
  case (12 k v kvs)
  then show ?case by (cases "json_stored v") auto
qed auto

lemma canonical_encoding_stored:
  "json_stored v = Some j \<Longrightarrow> canonical_encoding j = canonical_encoding v"
  by (simp add: canonical_encoding_def json_stored_idem(1))

lemma same_encoding_refl [simp]: "same_encoding v v"
  by (simp add: same_encoding_def)

lemma same_encoding_sym: "same_encoding a b \<Longrightarrow> same_encoding b a"
  by (simp add: same_encoding_def)

lemma same_encoding_trans: "same_encoding a b \<Longrightarrow> same_encoding b c \<Longrightarrow> same_encoding a c"
  by (simp add: same_encoding_def)

lemma same_encoding_stored: "json_stored v = Some j \<Longrightarrow> same_encoding j v"
  by (simp add: same_encoding_def canonical_encoding_stored)

text \<open>Fields of an object, as lists of pairs, under the two maps.\<close>

lemma json_stored_fields_conv:
  "json_stored_fields kvs =
     concat (map (\<lambda>(k, v). case json_stored v of None \<Rightarrow> [] | Some j \<Rightarrow> [(k, j)]) kvs)"
  by (induction kvs) (auto split: option.splits)

lemma sort_keys_fields_conv: "sort_keys_fields kvs = map (\<lambda>(k, v). (k, sort_keys v)) kvs"
  by (induction kvs) auto

lemma distinct_keys_stored:
  "distinct (map fst kvs) \<Longrightarrow> distinct (map fst (sort_keys_fields (json_stored_fields kvs)))"
proof (induction kvs)
  case Nil
  then show ?case by simp
next
  case (Cons kv kvs)
  have "fst ` set (sort_keys_fields (json_stored_fields kvs)) \<subseteq> fst ` set kvs"
    by (force simp: json_stored_fields_conv sort_keys_fields_conv split: option.splits)
  with Cons show ?case
    by (cases kv) (auto split: option.splits)
qed

lemma filter_key_singleton:
  "distinct (map f xs) \<Longrightarrow> k \<in> set xs \<Longrightarrow> filter (\<lambda>x. f k = f x) xs = [k]"
proof (induction xs)
  case Nil
  then show ?case by simp
next
  case (Cons x xs)
  show ?case
  proof (cases "k = x")
    case True
    with Cons.prems have "filter (\<lambda>y. f k = f y) xs = []"
      by (auto simp: filter_empty_conv)
    with True show ?thesis by simp
  next
    case False
    with Cons show ?thesis by (auto simp: image_iff)
  qed
qed

text \<open>With distinct keys, sorting forgets the order the pairs came in.\<close>

lemma sort_key_mset_cong:
  assumes "mset xs = mset ys" and "distinct (map f xs)"
  shows "sort_key f xs = sort_key f ys"
proof (rule properties_for_sort_key)
  show "mset (sort_key f ys) = mset xs" using assms(1) by simp
  show "sorted (map f (sort_key f ys))" by simp
  have "mset (map f xs) = mset (map f ys)"
    using assms(1) by simp
  then have d: "distinct (map f ys)"
    using assms(2) mset_eq_imp_distinct_iff by blast
  fix k assume "k \<in> set (sort_key f ys)"
  then have k: "k \<in> set ys" "k \<in> set xs"
    using assms(1) by (auto dest: mset_eq_setD)
  have "mset (map f (sort_key f ys)) = mset (map f ys)" by simp
  then have "distinct (map f (sort_key f ys))"
    using d mset_eq_imp_distinct_iff by blast
  then show "filter (\<lambda>x. f k = f x) (sort_key f ys) = filter (\<lambda>x. f k = f x) xs"
    using k by (simp add: filter_key_singleton assms(2))
qed

lemma mset_concat_map: "mset (concat (map g xs)) = (\<Sum>x\<in>#mset xs. mset (g x))"
  by (induction xs) auto

lemma canonical_encoding_field_order:
  assumes "mset kvs = mset kvs'" and "distinct (map fst kvs)"
  shows "canonical_encoding (VObj kvs) = canonical_encoding (VObj kvs')"
proof -
  have "mset (json_stored_fields kvs) = mset (json_stored_fields kvs')"
    by (simp only: json_stored_fields_conv mset_concat_map assms(1))
  then have "mset (sort_keys_fields (json_stored_fields kvs)) =
      mset (sort_keys_fields (json_stored_fields kvs'))"
    by (simp add: sort_keys_fields_conv)
  then have "sort_key fst (sort_keys_fields (json_stored_fields kvs)) =
      sort_key fst (sort_keys_fields (json_stored_fields kvs'))"
    using assms(2) by (intro sort_key_mset_cong distinct_keys_stored)
  then show ?thesis by (simp add: canonical_encoding_def)
qed

text \<open>Which values carry a field that is not the mask: the reading side of masking.\<close>

fun reveals :: "string list \<Rightarrow> jsv \<Rightarrow> bool"
and reveals_items :: "string list \<Rightarrow> jsv list \<Rightarrow> bool"
and reveals_entries :: "string list \<Rightarrow> (string \<times> jsv) list \<Rightarrow> bool" where
  "reveals ks (VArr xs) = reveals_items ks xs"
| "reveals ks (VObj kvs) = reveals_entries ks kvs"
| "reveals ks v = False"
| "reveals_items ks [] = False"
| "reveals_items ks (x # xs) = (reveals ks x \<or> reveals_items ks xs)"
| "reveals_entries ks [] = False"
| "reveals_entries ks ((k, v) # kvs) =
     ((k \<in> set ks \<and> v \<noteq> VStr ''[masked]'') \<or> reveals ks v \<or> reveals_entries ks kvs)"

lemma mask_reveals_nothing:
  "\<not> reveals ks (mask_value ks v)"
  "\<not> reveals_items ks (mask_items ks xs)"
  "\<not> reveals_entries ks (mask_entries ks kvs)"
  by (induction v and xs and kvs rule: reveals_reveals_items_reveals_entries.induct) auto

lemma mask_idem:
  "mask_value ks (mask_value ks v) = mask_value ks v"
  "mask_items ks (mask_items ks xs) = mask_items ks xs"
  "mask_entries ks (mask_entries ks kvs) = mask_entries ks kvs"
  by (induction v and xs and kvs rule: reveals_reveals_items_reveals_entries.induct) auto

end
