(* ===== verification/Errors.thy ===== *)
theory Errors
  imports JsValue
begin

text \<open>
  Thrown values, their recorded form and the way back
  (\<open>packages/core/src/workflow/error-serialization.ts\<close>,
  \<open>packages/core/src/workflow/errors.ts\<close>), and the errors the engine's own operations raise
  (\<open>packages/core/src/event-store/errors.ts\<close>, \<open>packages/core/src/run/errors.ts\<close>).
\<close>

section \<open>Thrown values\<close>

text \<open>The classes the engine tells apart with \<open>instanceof\<close>; every other class is plain.\<close>

datatype eclass =
    PlainErrorClass
  | NonDeterminismErrorClass
  | ForbiddenApiErrorClass
  | WorkflowActiveAfterQuiescenceErrorClass
  | VersionMismatchErrorClass
  | CancelledErrorClass
  | ChildLimitExceededErrorClass
  | StepFailedErrorClass
  | InvalidSleepDurationErrorClass
  | RangeErrorClass

text \<open>
  An \<open>Error\<close> object: its class, \<open>name\<close>, \<open>message\<close> and \<open>stack\<close>, its enumerable own properties,
  the non-enumerable \<open>details\<close> property (\<open>VUndef\<close> when it has none) and its \<open>cause\<close>. Anything
  can be thrown, so a thrown value may also be no \<open>Error\<close> at all.
\<close>

datatype thrown =
    ThrownError eclass string string "string option" "(string \<times> jsv) list" jsv "thrown option"
  | ThrownValue jsv

datatype serialized_error =
  SerializedError (se_name: string) (se_message: string) (se_stack: "string option")
    (se_details: jsv) (se_cause: "serialized_error option")

datatype recorded_error =
  RecordedError (re_name: string) (re_message: string) (re_details: jsv)
    (re_cause: "recorded_error option")

fun thrown_class :: "thrown \<Rightarrow> eclass" where
  "thrown_class (ThrownError c _ _ _ _ _ _) = c"
| "thrown_class (ThrownValue _) = PlainErrorClass"

fun thrown_name :: "thrown \<Rightarrow> string" where
  "thrown_name (ThrownError _ n _ _ _ _ _) = n"
| "thrown_name (ThrownValue _) = ''Error''"

fun thrown_message :: "thrown \<Rightarrow> string" where
  "thrown_message (ThrownError _ _ m _ _ _ _) = m"
| "thrown_message (ThrownValue _) = []"

definition is_integrity_error :: "thrown \<Rightarrow> bool" where
  "is_integrity_error e \<longleftrightarrow>
     thrown_class e \<in> {NonDeterminismErrorClass, ForbiddenApiErrorClass,
       WorkflowActiveAfterQuiescenceErrorClass, VersionMismatchErrorClass}"

definition new_error :: "eclass \<Rightarrow> string \<Rightarrow> string \<Rightarrow> thrown" where
  "new_error c n m = ThrownError c n m None [] VUndef None"

text \<open>
  The engine's error classes. The stack and the diagnostic fields a reader may print are left
  out; the message keeps the part the code fixes.
\<close>

definition non_determinism_error :: "string \<Rightarrow> thrown" where
  "non_determinism_error step_id =
     new_error NonDeterminismErrorClass ''NonDeterminismError'' step_id"

definition cancelled_error :: thrown where
  "cancelled_error =
     new_error CancelledErrorClass ''CancelledError'' ''the workflow run was cancelled''"

definition child_limit_exceeded_error :: "nat \<Rightarrow> thrown" where
  "child_limit_exceeded_error limit =
     ThrownError ChildLimitExceededErrorClass ''ChildLimitExceededError''
       (''a workflow run may start at most '' @ show_nat limit @ '' child workflows'')
       None [(''limit'', VNum (Fin (of_nat limit)))] VUndef None"

definition version_mismatch_error :: thrown where
  "version_mismatch_error =
     new_error VersionMismatchErrorClass ''VersionMismatchError'' ''version mismatch''"

definition step_failed_error :: "string \<Rightarrow> string \<Rightarrow> thrown \<Rightarrow> thrown" where
  "step_failed_error step_id step_type cause =
     ThrownError StepFailedErrorClass ''StepFailedError''
       (''step '' @ quoted step_id @ '' ('' @ step_type @ '') failed after exhausting its retries: ''
          @ thrown_message cause)
       None [(''stepId'', VStr step_id), (''stepType'', VStr step_type)] VUndef (Some cause)"

definition sleep_duration_error :: "jsnum \<Rightarrow> thrown option" where
  "sleep_duration_error d =
     (if is_finite_num d \<and> 0 \<le> num_value d then None
      else Some (ThrownError InvalidSleepDurationErrorClass ''InvalidSleepDurationError''
             ''sleep duration must be a finite, non-negative number of milliseconds''
             None [(''durationMs'', VNum d)] VUndef None))"

section \<open>Serializing\<close>

definition MAX_CAUSE_DEPTH :: nat where
  "MAX_CAUSE_DEPTH = 5"

definition RESERVED_ERROR_KEYS :: "string list" where
  "RESERVED_ERROR_KEYS = [''name'', ''message'', ''stack'', ''cause'']"

text \<open>
  \<open>collectDetails\<close>: the enumerable own properties as JSON stores them; \<open>VUndef\<close> when none is
  left. (A property JSON cannot encode at all, such as a cyclic object, has no counterpart here.)
\<close>

definition collect_details :: "(string \<times> jsv) list \<Rightarrow> jsv" where
  "collect_details own =
     (let kept = json_stored_fields (filter (\<lambda>(k, v). k \<notin> set RESERVED_ERROR_KEYS) own)
      in if kept = [] then VUndef else VObj kept)"

text \<open>\<open>toMessage\<close> of a value that is no \<open>Error\<close>; \<open>enc\<close> is the text \<open>JSON.stringify\<close> gives.\<close>

definition to_message :: "(jsv \<Rightarrow> string) \<Rightarrow> jsv \<Rightarrow> string" where
  "to_message enc v = (case v of VStr s \<Rightarrow> s | _ \<Rightarrow> enc v)"

fun serialize_at_depth :: "(jsv \<Rightarrow> string) \<Rightarrow> thrown \<Rightarrow> nat \<Rightarrow> serialized_error" where
  "serialize_at_depth enc (ThrownValue v) depth =
     SerializedError ''Error'' (to_message enc v) None VUndef None"
| "serialize_at_depth enc (ThrownError c n m st own hidden cause) depth =
     SerializedError n m st (collect_details own)
       (case cause of None \<Rightarrow> None
        | Some r \<Rightarrow> if MAX_CAUSE_DEPTH \<le> depth then None
                    else Some (serialize_at_depth enc r (Suc depth)))"

definition serialize_error :: "(jsv \<Rightarrow> string) \<Rightarrow> thrown \<Rightarrow> serialized_error" where
  "serialize_error enc reason = serialize_at_depth enc reason 0"

text \<open>
  \<open>toRecordedError\<close> drops the top stack only; the schema of the stored event drops the stacks
  of the causes, which is the form kept here (as \<open>recordedErrorOf\<close> in the recorder does).
\<close>

fun recorded_error_of :: "serialized_error \<Rightarrow> recorded_error" where
  "recorded_error_of (SerializedError n m st d cause) =
     RecordedError n m d (map_option recorded_error_of cause)"

definition to_recorded_error :: "(jsv \<Rightarrow> string) \<Rightarrow> thrown \<Rightarrow> recorded_error" where
  "to_recorded_error enc reason = recorded_error_of (serialize_error enc reason)"

section \<open>Deserializing\<close>

fun deserialize_error :: "serialized_error \<Rightarrow> thrown" where
  "deserialize_error (SerializedError n m st d cause) =
     ThrownError PlainErrorClass n m st [] d (map_option deserialize_error cause)"

fun reconstruct_error :: "recorded_error \<Rightarrow> thrown" where
  "reconstruct_error (RecordedError n m d cause) =
     ThrownError PlainErrorClass n m None [] d (map_option reconstruct_error cause)"

section \<open>Errors of the engine's operations\<close>

datatype engine_error =
    ConcurrencyError uuid nat "nat option"
  | InvalidTransitionError string string
  | SequenceGapError nat nat
  | PayloadTooLargeError nat nat
  | RunNotFoundError uuid
  | ForeignKeyViolation string
  | UniqueViolation string
  | CheckViolation string
  | SchemaError string
  | RangeError string
  | UsageError string

section \<open>Facts\<close>

lemma new_error_class [simp]: "thrown_class (new_error c n m) = c"
  by (simp add: new_error_def)

lemma integrity_new_error [simp]: "is_integrity_error (non_determinism_error i)"
  "is_integrity_error version_mismatch_error" "\<not> is_integrity_error cancelled_error"
  by (simp_all add: is_integrity_error_def non_determinism_error_def version_mismatch_error_def
        cancelled_error_def)

text \<open>How many causes hang off a recorded error.\<close>

fun cause_depth :: "recorded_error \<Rightarrow> nat" where
  "cause_depth (RecordedError n m d cause) =
     (case cause of None \<Rightarrow> 0 | Some c \<Rightarrow> Suc (cause_depth c))"

lemma cause_depth_serialized:
  "depth \<le> MAX_CAUSE_DEPTH \<Longrightarrow>
     cause_depth (recorded_error_of (serialize_at_depth enc e depth)) + depth \<le> MAX_CAUSE_DEPTH"
proof (induction enc e depth rule: serialize_at_depth.induct)
  case (1 enc v depth)
  then show ?case by simp
next
  case (2 enc c n m st own hidden cause depth)
  show ?case
  proof (cases cause)
    case None
    with "2.prems" show ?thesis by simp
  next
    case (Some r)
    show ?thesis
    proof (cases "MAX_CAUSE_DEPTH \<le> depth")
      case True
      with Some "2.prems" show ?thesis by simp
    next
      case False
      with Some have "cause_depth (recorded_error_of (serialize_at_depth enc r (Suc depth)))
          + Suc depth \<le> MAX_CAUSE_DEPTH"
        by (intro "2.IH") auto
      with Some False show ?thesis by simp
    qed
  qed
qed

text \<open>A recorded error without its details: what a second recording keeps of it.\<close>

fun without_details :: "recorded_error \<Rightarrow> recorded_error" where
  "without_details (RecordedError n m d cause) =
     RecordedError n m VUndef (map_option without_details cause)"

lemma re_record_at_depth:
  "cause_depth e + depth \<le> MAX_CAUSE_DEPTH \<Longrightarrow>
     recorded_error_of (serialize_at_depth enc (reconstruct_error e) depth) = without_details e"
proof (induction e arbitrary: depth)
  case (RecordedError n m d cause)
  show ?case
  proof (cases cause)
    case None
    then show ?thesis
      by (simp add: collect_details_def)
  next
    case (Some r)
    with RecordedError.prems have "\<not> MAX_CAUSE_DEPTH \<le> depth"
      and le: "cause_depth r + Suc depth \<le> MAX_CAUSE_DEPTH"
      by auto
    moreover have "recorded_error_of (serialize_at_depth enc (reconstruct_error r) (Suc depth))
        = without_details r"
      using RecordedError.IH Some le by auto
    ultimately show ?thesis
      using Some by (simp add: collect_details_def)
  qed
qed

end
