(* ===== verification/Events.thy ===== *)
theory Events
  imports Errors
begin

text \<open>
  The events of a run's history (\<open>packages/core/src/event-store/events.ts\<close>), the commands a
  decision produces (\<open>packages/core/src/workflow/commands.ts\<close>) and the event that records each
  command (\<open>packages/core/src/workflow/command-events.ts\<close>).

  A timestamp the events keep as ISO-8601 text is kept as the instant it denotes. An absent
  optional field is \<open>None\<close>; an absent \<open>unknown\<close> field is \<open>VUndef\<close>.
\<close>

section \<open>Events\<close>

datatype close_policy = PolicyCancel | PolicyTerminate | PolicyAbandon

datatype timeout_kind = RunTimeout | ExecutionTimeout

datatype event =
    RunStarted (workflowType: string) (ev_input: jsv)
  | RunCompleted (ev_result: jsv)
  | RunFailed (ev_error: recorded_error)
  | RunTimedOut "timeout_kind option"
  | RunCancelled "string option"
  | RunTerminated "string option"
  | CancelRequested "string option"
  | RunContinuedAsNew jsv
  | StepScheduled string string jsv
  | StepCompleted string jsv
  | StepFailed string recorded_error "bool option"
  | StepAttemptFailed string nat recorded_error "time option"
  | TimerStarted string time "jsnum option"
  | TimerFired string
  | SignalReceived string jsv
  | ChildStarted string string jsv close_policy "rat option" "rat option"
  | ChildCompleted string jsv
  | ChildFailed string recorded_error
  | PatchRecorded string "string option"
  | TimeRecorded time
  | CompensationFailed nat recorded_error

text \<open>The discriminator \<open>type\<close>.\<close>

fun event_type :: "event \<Rightarrow> string" where
  "event_type (RunStarted _ _) = ''run_started''"
| "event_type (RunCompleted _) = ''run_completed''"
| "event_type (RunFailed _) = ''run_failed''"
| "event_type (RunTimedOut _) = ''run_timed_out''"
| "event_type (RunCancelled _) = ''run_cancelled''"
| "event_type (RunTerminated _) = ''run_terminated''"
| "event_type (CancelRequested _) = ''cancel_requested''"
| "event_type (RunContinuedAsNew _) = ''run_continued_as_new''"
| "event_type (StepScheduled _ _ _) = ''step_scheduled''"
| "event_type (StepCompleted _ _) = ''step_completed''"
| "event_type (StepFailed _ _ _) = ''step_failed''"
| "event_type (StepAttemptFailed _ _ _ _) = ''step_attempt_failed''"
| "event_type (TimerStarted _ _ _) = ''timer_started''"
| "event_type (TimerFired _) = ''timer_fired''"
| "event_type (SignalReceived _ _) = ''signal_received''"
| "event_type (ChildStarted _ _ _ _ _ _) = ''child_started''"
| "event_type (ChildCompleted _ _) = ''child_completed''"
| "event_type (ChildFailed _ _) = ''child_failed''"
| "event_type (PatchRecorded _ _) = ''patch_recorded''"
| "event_type (TimeRecorded _) = ''time_recorded''"
| "event_type (CompensationFailed _ _) = ''compensation_failed''"

text \<open>
  What \<open>workflowEventSchema.parse\<close> refuses among the values of the type: empty names and ids, an
  attempt number below one, a timeout that is not positive, a duration that is no number. (Zod's
  \<open>z.number()\<close> refuses \<open>NaN\<close> and the infinities.)
\<close>

definition positive_opt :: "rat option \<Rightarrow> bool" where
  "positive_opt x = (case x of None \<Rightarrow> True | Some q \<Rightarrow> 0 < q)"

fun event_valid :: "event \<Rightarrow> bool" where
  "event_valid (RunStarted wt _) = (wt \<noteq> [])"
| "event_valid (StepScheduled sid st _) = (sid \<noteq> [] \<and> st \<noteq> [])"
| "event_valid (StepCompleted sid _) = (sid \<noteq> [])"
| "event_valid (StepFailed sid _ _) = (sid \<noteq> [])"
| "event_valid (StepAttemptFailed sid n _ _) = (sid \<noteq> [] \<and> 0 < n)"
| "event_valid (TimerStarted tid _ d) =
     (tid \<noteq> [] \<and> (case d of None \<Rightarrow> True | Some n \<Rightarrow> is_finite_num n))"
| "event_valid (TimerFired tid) = (tid \<noteq> [])"
| "event_valid (SignalReceived s _) = (s \<noteq> [])"
| "event_valid (ChildStarted cid wt _ _ rt et) =
     (cid \<noteq> [] \<and> wt \<noteq> [] \<and> positive_opt rt \<and> positive_opt et)"
| "event_valid (ChildCompleted cid _) = (cid \<noteq> [])"
| "event_valid (ChildFailed cid _) = (cid \<noteq> [])"
| "event_valid (PatchRecorded pid b) = (pid \<noteq> [] \<and> b \<noteq> Some [])"
| "event_valid _ = True"

definition parse_event :: "event \<Rightarrow> engine_error + event" where
  "parse_event e = (if event_valid e then Inr e else Inl (SchemaError (event_type e)))"

fun parse_events :: "event list \<Rightarrow> engine_error + event list" where
  "parse_events [] = Inr []"
| "parse_events (e # es) =
     (case parse_event e of Inl x \<Rightarrow> Inl x
      | Inr e' \<Rightarrow> (case parse_events es of Inl x \<Rightarrow> Inl x | Inr es' \<Rightarrow> Inr (e' # es')))"

lemma parse_events_Inr: "parse_events es = Inr es' \<longleftrightarrow> es' = es \<and> (\<forall>e \<in> set es. event_valid e)"
  by (induction es arbitrary: es') (auto simp: parse_event_def split: sum.splits if_splits)

section \<open>Commands\<close>

datatype command =
    ScheduleStep string string jsv
  | StartTimer string time jsnum
  | StartChild string string jsv close_policy "rat option" "rat option"
  | RecordPatch string "string option"
  | RecordTime time
  | RecordCompensationFailure nat recorded_error
  | CompleteRun jsv
  | FailRun recorded_error
  | CancelRun "string option"
  | ContinueAsNew jsv

fun command_type :: "command \<Rightarrow> string" where
  "command_type (ScheduleStep _ _ _) = ''schedule_step''"
| "command_type (StartTimer _ _ _) = ''start_timer''"
| "command_type (StartChild _ _ _ _ _ _) = ''start_child''"
| "command_type (RecordPatch _ _) = ''record_patch''"
| "command_type (RecordTime _) = ''record_time''"
| "command_type (RecordCompensationFailure _ _) = ''record_compensation_failure''"
| "command_type (CompleteRun _) = ''complete_run''"
| "command_type (FailRun _) = ''fail_run''"
| "command_type (CancelRun _) = ''cancel_run''"
| "command_type (ContinueAsNew _) = ''continue_as_new''"

fun command_to_event :: "command \<Rightarrow> event" where
  "command_to_event (ScheduleStep sid st inp) = StepScheduled sid st inp"
| "command_to_event (StartTimer tid fire_at d) = TimerStarted tid fire_at (Some d)"
| "command_to_event (StartChild cid wt inp pol rt et) = ChildStarted cid wt inp pol rt et"
| "command_to_event (RecordPatch pid b) = PatchRecorded pid b"
| "command_to_event (RecordTime t) = TimeRecorded t"
| "command_to_event (RecordCompensationFailure i e) = CompensationFailed i e"
| "command_to_event (CompleteRun r) = RunCompleted r"
| "command_to_event (FailRun e) = RunFailed e"
| "command_to_event (ContinueAsNew inp) = RunContinuedAsNew inp"
| "command_to_event (CancelRun r) = RunCancelled r"

lemma command_to_event_inj: "inj command_to_event"
proof (rule injI)
  fix c d assume "command_to_event c = command_to_event d"
  then show "c = d" by (cases c; cases d) auto
qed

text \<open>The events that close a run, \<open>CLOSING_EVENT_TYPES\<close> of the recorder.\<close>

fun is_closing_event :: "event \<Rightarrow> bool" where
  "is_closing_event (RunCompleted _) = True"
| "is_closing_event (RunFailed _) = True"
| "is_closing_event (RunTimedOut _) = True"
| "is_closing_event (RunCancelled _) = True"
| "is_closing_event (RunTerminated _) = True"
| "is_closing_event (RunContinuedAsNew _) = True"
| "is_closing_event _ = False"

end
