(* ===== verification/RunState.thy ===== *)
theory RunState
  imports Events
begin

text \<open>
  A run's state machine (\<open>packages/core/src/run/state-machine.ts\<close>) and the read model folded from
  its events (\<open>packages/core/src/run/projection.ts\<close>).
\<close>

section \<open>The state machine\<close>

datatype run_state =
  RUNNING | COMPLETED | FAILED | TIMED_OUT | CANCELLED | TERMINATED | CONTINUED_AS_NEW

definition RUN_STATES :: "run_state list" where
  "RUN_STATES =
     [RUNNING, COMPLETED, FAILED, TIMED_OUT, CANCELLED, TERMINATED, CONTINUED_AS_NEW]"

fun state_name :: "run_state \<Rightarrow> string" where
  "state_name RUNNING = ''RUNNING''"
| "state_name COMPLETED = ''COMPLETED''"
| "state_name FAILED = ''FAILED''"
| "state_name TIMED_OUT = ''TIMED_OUT''"
| "state_name CANCELLED = ''CANCELLED''"
| "state_name TERMINATED = ''TERMINATED''"
| "state_name CONTINUED_AS_NEW = ''CONTINUED_AS_NEW''"

fun run_state_transitions :: "run_state \<Rightarrow> run_state list" where
  "run_state_transitions RUNNING =
     [COMPLETED, FAILED, TIMED_OUT, CANCELLED, TERMINATED, CONTINUED_AS_NEW]"
| "run_state_transitions COMPLETED = []"
| "run_state_transitions FAILED = []"
| "run_state_transitions TIMED_OUT = []"
| "run_state_transitions CANCELLED = []"
| "run_state_transitions TERMINATED = []"
| "run_state_transitions CONTINUED_AS_NEW = []"

definition is_terminal_state :: "run_state \<Rightarrow> bool" where
  "is_terminal_state s \<longleftrightarrow> run_state_transitions s = []"

definition assert_transition :: "run_state \<Rightarrow> run_state \<Rightarrow> engine_error + unit" where
  "assert_transition from to =
     (if to \<in> set (run_state_transitions from) then Inr ()
      else Inl (InvalidTransitionError (state_name from) (state_name to)))"

definition assert_run_accepts_command :: "run_state \<Rightarrow> command \<Rightarrow> engine_error + unit" where
  "assert_run_accepts_command s c =
     (if is_terminal_state s then Inl (InvalidTransitionError (state_name s) (command_type c))
      else Inr ())"

lemma is_terminal_state_iff [simp]: "is_terminal_state s \<longleftrightarrow> s \<noteq> RUNNING"
  by (cases s) (simp_all add: is_terminal_state_def)

section \<open>The projection\<close>

record stored_event =
  sequence_number :: nat
  stored :: event
  created_at :: time

record run_projection =
  p_state :: run_state
  p_input :: jsv
  p_result :: jsv
  p_error :: "recorded_error option"
  p_closed_at :: "time option"
  p_last_seq :: nat

definition create_initial_projection :: run_projection where
  "create_initial_projection =
     \<lparr>p_state = RUNNING, p_input = VObj [], p_result = VNull, p_error = None,
      p_closed_at = None, p_last_seq = 0\<rparr>"

fun terminal_state_for :: "event \<Rightarrow> run_state option" where
  "terminal_state_for (RunCompleted _) = Some COMPLETED"
| "terminal_state_for (RunFailed _) = Some FAILED"
| "terminal_state_for (RunTimedOut _) = Some TIMED_OUT"
| "terminal_state_for (RunCancelled _) = Some CANCELLED"
| "terminal_state_for (RunTerminated _) = Some TERMINATED"
| "terminal_state_for (RunContinuedAsNew _) = Some CONTINUED_AS_NEW"
| "terminal_state_for _ = None"

text \<open>The operator \<open>??\<close> on an \<open>unknown\<close>: \<open>undefined\<close> and \<open>null\<close> give the default.\<close>

definition nullish :: "jsv \<Rightarrow> jsv \<Rightarrow> jsv" where
  "nullish v d = (if v = VUndef \<or> v = VNull then d else v)"

definition apply_event_to_projection ::
    "run_projection \<Rightarrow> stored_event \<Rightarrow> engine_error + run_projection" where
  "apply_event_to_projection p se =
     (if sequence_number se \<noteq> p_last_seq p + 1
      then Inl (SequenceGapError (p_last_seq p + 1) (sequence_number se))
      else if is_terminal_state (p_state p)
      then Inl (InvalidTransitionError (state_name (p_state p)) (event_type (stored se)))
      else
        let advanced = p\<lparr>p_last_seq := sequence_number se\<rparr> in
        case terminal_state_for (stored se) of
          Some target \<Rightarrow>
            (case assert_transition (p_state p) target of
               Inl e \<Rightarrow> Inl e
             | Inr _ \<Rightarrow>
                 let closed = advanced\<lparr>p_state := target, p_closed_at := Some (created_at se)\<rparr> in
                 (case stored se of
                    RunCompleted r \<Rightarrow> Inr (closed\<lparr>p_result := nullish r VNull\<rparr>)
                  | RunFailed e \<Rightarrow> Inr (closed\<lparr>p_error := Some e\<rparr>)
                  | _ \<Rightarrow> Inr closed))
        | None \<Rightarrow>
            (case stored se of
               RunStarted _ i \<Rightarrow> Inr (advanced\<lparr>p_input := nullish i (VObj [])\<rparr>)
             | _ \<Rightarrow> Inr advanced))"

fun fold_run_events :: "stored_event list \<Rightarrow> run_projection \<Rightarrow> engine_error + run_projection" where
  "fold_run_events [] p = Inr p"
| "fold_run_events (se # ses) p =
     (case apply_event_to_projection p se of
        Inl e \<Rightarrow> Inl e
      | Inr p' \<Rightarrow> fold_run_events ses p')"

section \<open>Facts\<close>

text \<open>A history in the order the log hands it out: consecutive numbers after \<open>n\<close>.\<close>

fun consecutive_from :: "nat \<Rightarrow> stored_event list \<Rightarrow> bool" where
  "consecutive_from n [] = True"
| "consecutive_from n (se # ses) = (sequence_number se = n + 1 \<and> consecutive_from (n + 1) ses)"

lemma consecutive_from_append:
  "consecutive_from n (xs @ ys) \<longleftrightarrow> consecutive_from n xs \<and> consecutive_from (n + length xs) ys"
  by (induction xs arbitrary: n) auto

lemma consecutive_from_drop:
  "consecutive_from n xs \<Longrightarrow> k \<le> length xs \<Longrightarrow> consecutive_from (n + k) (drop k xs)"
  using consecutive_from_append [of n "take k xs" "drop k xs"] by (simp add: min_absorb2)

lemma closing_event_iff: "is_closing_event e \<longleftrightarrow> terminal_state_for e \<noteq> None"
  by (cases e) auto

lemma terminal_state_for_reachable:
  "terminal_state_for e = Some t \<Longrightarrow> t \<in> set (run_state_transitions RUNNING)"
  by (cases e) auto

lemma apply_event_running:
  assumes "p_state p = RUNNING" and "sequence_number se = p_last_seq p + 1"
  shows "\<exists>p'. apply_event_to_projection p se = Inr p' \<and> p_last_seq p' = p_last_seq p + 1 \<and>
           p_state p' = (case terminal_state_for (stored se) of None \<Rightarrow> RUNNING | Some t \<Rightarrow> t) \<and>
           p_closed_at p' = (case terminal_state_for (stored se) of
                               None \<Rightarrow> p_closed_at p | Some _ \<Rightarrow> Some (created_at se))"
  using assms
  by (cases "stored se")
     (simp_all add: apply_event_to_projection_def assert_transition_def Let_def)

lemma apply_event_Inr:
  assumes "apply_event_to_projection p se = Inr p'"
  shows "p_state p = RUNNING" and "sequence_number se = p_last_seq p + 1"
    and "p_last_seq p' = p_last_seq p + 1"
    and "p_state p' = (case terminal_state_for (stored se) of None \<Rightarrow> RUNNING | Some t \<Rightarrow> t)"
proof -
  show run: "p_state p = RUNNING" and seq: "sequence_number se = p_last_seq p + 1"
    using assms by (auto simp: apply_event_to_projection_def split: if_splits)
  from apply_event_running [OF run seq] assms
  show "p_last_seq p' = p_last_seq p + 1"
    and "p_state p' = (case terminal_state_for (stored se) of None \<Rightarrow> RUNNING | Some t \<Rightarrow> t)"
    by auto
qed

lemma fold_run_events_append:
  "fold_run_events (xs @ ys) p =
     (case fold_run_events xs p of Inl e \<Rightarrow> Inl e | Inr q \<Rightarrow> fold_run_events ys q)"
  by (induction xs arbitrary: p) (auto split: sum.splits)

lemma fold_run_events_last_seq:
  "fold_run_events ses p = Inr q \<Longrightarrow> p_last_seq q = p_last_seq p + length ses"
proof (induction ses arbitrary: p)
  case Nil
  then show ?case by simp
next
  case (Cons se ses)
  then show ?case
    by (auto split: sum.splits dest!: apply_event_Inr(3))
qed

lemma fold_run_events_consecutive:
  "fold_run_events ses p = Inr q \<Longrightarrow> consecutive_from (p_last_seq p) ses"
proof (induction ses arbitrary: p)
  case Nil
  then show ?case by simp
next
  case (Cons se ses)
  then show ?case
    by (fastforce split: sum.splits dest: apply_event_Inr(2,3))
qed

text \<open>The final state is the one the first closing event names, and that event is the last.\<close>

lemma fold_run_events_state:
  assumes "p_state p = RUNNING" and "consecutive_from (p_last_seq p) ses"
  shows "(\<exists>q. fold_run_events ses p = Inr q) \<longleftrightarrow>
           (\<forall>se \<in> set (butlast ses). \<not> is_closing_event (stored se))"
  using assms
proof (induction ses arbitrary: p)
  case Nil
  then show ?case by simp
next
  case (Cons se ses)
  from Cons.prems apply_event_running [of p se] obtain p' where
    ap: "apply_event_to_projection p se = Inr p'" "p_last_seq p' = p_last_seq p + 1"
      "p_state p' = (case terminal_state_for (stored se) of None \<Rightarrow> RUNNING | Some t \<Rightarrow> t)"
    by auto
  show ?case
  proof (cases "is_closing_event (stored se)")
    case False
    then have "p_state p' = RUNNING"
      using ap(3) by (simp add: closing_event_iff)
    then have "(\<exists>q. fold_run_events ses p' = Inr q) \<longleftrightarrow>
        (\<forall>se \<in> set (butlast ses). \<not> is_closing_event (stored se))"
      using Cons.prems(2) ap(2) by (intro Cons.IH) auto
    with False ap(1) show ?thesis by auto
  next
    case True
    then obtain t where "terminal_state_for (stored se) = Some t" "t \<noteq> RUNNING"
      by (cases "stored se") (auto simp: closing_event_iff)
    with ap(3) have t: "p_state p' \<noteq> RUNNING" by simp
    show ?thesis
    proof (cases ses)
      case Nil
      with ap(1) show ?thesis by simp
    next
      case (Cons se2 rest)
      with t have "\<exists>e. apply_event_to_projection p' se2 = Inl e"
        by (auto simp: apply_event_to_projection_def)
      with Cons ap(1) True show ?thesis by auto
    qed
  qed
qed

end
