(* ===== verification/Database.thy ===== *)
theory Database
  imports RunState
begin

text \<open>
  The tables of \<open>packages/core/migrations\<close> as the engine's TypeScript uses them, one record per
  row and one list per table, in insertion order. Every operation of the development is a
  function on this state, standing for one transaction: the code serializes the writes to one
  run by a row lock, and a transaction that throws is rolled back, so the result of a throwing
  operation has no state.

  \<open>gen_random_uuid()\<close> is the counter \<open>d_next\<close>: a new id differs from every id given out before,
  which is all the code relies on. \<open>now()\<close>, the database's clock, is an argument.
\<close>

section \<open>Rows\<close>

datatype waiting_on = WaitExternal | WaitDeadLetter

record run_row =
  r_id :: uuid
  r_namespace :: uuid
  r_workflow_type :: string
  r_status :: run_state
  r_input :: jsv
  r_result :: jsv
  r_error :: "recorded_error option"
  r_parent :: "uuid option"
  r_parent_child :: "string option"
  r_parent_policy :: "close_policy option"
  r_started_at :: time
  r_closed_at :: "time option"
  r_created_at :: time
  r_last_seq :: nat
  r_schedule :: "uuid option"
  r_first_run :: uuid
  r_continued_from :: "uuid option"
  r_chain_index :: nat
  r_idempotency_key :: "string option"
  r_traceparent :: "string option"
  r_waiting :: "waiting_on option"
  r_recovery_count :: nat
  r_last_recovered_at :: "time option"
  r_queue :: string
  r_run_timeout_ms :: "int option"
  r_execution_deadline :: "time option"

record event_row =
  er_run :: uuid
  er_event :: stored_event

record snapshot_row =
  sn_run :: uuid
  sn_last_seq :: nat
  sn_pruned :: nat
  sn_projection :: run_projection

datatype task_type = WORKFLOW_TASK | STEP_TASK

datatype task_state = TPENDING | TLEASED | TCOMPLETED | TQUARANTINED

record task_row =
  t_id :: uuid
  t_namespace :: uuid
  t_run :: uuid
  t_queue :: string
  t_type :: task_type
  t_state :: task_state
  t_payload :: jsv
  t_visible_at :: time
  t_attempts :: nat
  t_created_at :: time
  t_updated_at :: time
  t_lease_token :: "uuid option"
  t_leased_by :: "string option"
  t_leased_by_version :: "string option"
  t_leased_at :: "time option"
  t_reclaim_count :: nat
  t_quarantined_at :: "time option"
  t_quarantine_reason :: "string option"

record step_result_row =
  sr_run :: uuid
  sr_step :: string
  sr_attempt_key :: string
  sr_result :: jsv
  sr_error :: "serialized_error option"

record task_result_row =
  tr_run :: uuid
  tr_key :: string
  tr_first :: nat
  tr_last :: nat

datatype timer_state = TimerPending | TimerDone | TimerCancelled

record timer_row =
  tm_id :: uuid
  tm_run :: uuid
  tm_timer :: string
  tm_fire_at :: time
  tm_state :: timer_state
  tm_fired_at :: "time option"

record attempt_row =
  at_run :: uuid
  at_step :: string
  at_attempt :: nat
  at_error :: serialized_error
  at_retry_at :: "time option"

record dead_letter_row =
  dl_id :: uuid
  dl_namespace :: uuid
  dl_run :: uuid
  dl_step :: string
  dl_queue :: string
  dl_payload :: jsv
  dl_attempts :: nat
  dl_error :: serialized_error
  dl_reason :: string
  dl_created_at :: time
  dl_requeued_at :: "time option"

record stickiness_row =
  st_run :: uuid
  st_worker :: string
  st_expires_at :: time

record db =
  d_next :: nat
  d_runs :: "run_row list"
  d_events :: "event_row list"
  d_snapshots :: "snapshot_row list"
  d_tasks :: "task_row list"
  d_step_results :: "step_result_row list"
  d_task_results :: "task_result_row list"
  d_timers :: "timer_row list"
  d_attempts :: "attempt_row list"
  d_dead_letters :: "dead_letter_row list"
  d_stickiness :: "stickiness_row list"

definition empty_db :: db where
  "empty_db =
     \<lparr>d_next = 0, d_runs = [], d_events = [], d_snapshots = [], d_tasks = [],
      d_step_results = [], d_task_results = [], d_timers = [], d_attempts = [],
      d_dead_letters = [], d_stickiness = []\<rparr>"

section \<open>Reading and writing rows\<close>

definition find_run :: "db \<Rightarrow> uuid \<Rightarrow> run_row option" where
  "find_run d rid = find (\<lambda>r. r_id r = rid) (d_runs d)"

definition update_run :: "uuid \<Rightarrow> (run_row \<Rightarrow> run_row) \<Rightarrow> db \<Rightarrow> db" where
  "update_run rid f d = d\<lparr>d_runs := map (\<lambda>r. if r_id r = rid then f r else r) (d_runs d)\<rparr>"

definition find_snapshot :: "db \<Rightarrow> uuid \<Rightarrow> snapshot_row option" where
  "find_snapshot d rid = find (\<lambda>s. sn_run s = rid) (d_snapshots d)"

text \<open>An \<open>insert into tasks\<close> that leaves the lease columns at their defaults.\<close>

definition new_task :: "uuid \<Rightarrow> uuid \<Rightarrow> uuid \<Rightarrow> string \<Rightarrow> task_type \<Rightarrow> jsv \<Rightarrow> time \<Rightarrow> time \<Rightarrow> task_row" where
  "new_task tid ns rid q ty payload visible now =
     \<lparr>t_id = tid, t_namespace = ns, t_run = rid, t_queue = q, t_type = ty, t_state = TPENDING,
      t_payload = payload, t_visible_at = visible, t_attempts = 0, t_created_at = now,
      t_updated_at = now, t_lease_token = None, t_leased_by = None, t_leased_by_version = None,
      t_leased_at = None, t_reclaim_count = 0, t_quarantined_at = None,
      t_quarantine_reason = None\<rparr>"

definition insert_task ::
    "uuid \<Rightarrow> uuid \<Rightarrow> string \<Rightarrow> task_type \<Rightarrow> jsv \<Rightarrow> time \<Rightarrow> time \<Rightarrow> db \<Rightarrow> db" where
  "insert_task ns rid q ty payload visible now d =
     d\<lparr>d_next := Suc (d_next d),
       d_tasks := d_tasks d @ [new_task (d_next d) ns rid q ty payload visible now]\<rparr>"

text \<open>The operator \<open>->>\<close> on a payload column, where the field is text.\<close>

definition payload_text :: "jsv \<Rightarrow> string \<Rightarrow> string option" where
  "payload_text p k =
     (case p of
        VObj kvs \<Rightarrow> (case map_of kvs k of Some (VStr s) \<Rightarrow> Some s | _ \<Rightarrow> None)
      | _ \<Rightarrow> None)"

section \<open>Keys\<close>

text \<open>The primary keys, and that the id supply is ahead of every id in use.\<close>

definition keys_ok :: "db \<Rightarrow> bool" where
  "keys_ok d \<longleftrightarrow>
     distinct (map r_id (d_runs d)) \<and> (\<forall>r \<in> set (d_runs d). r_id r < d_next d) \<and>
     distinct (map t_id (d_tasks d)) \<and> (\<forall>t \<in> set (d_tasks d). t_id t < d_next d)"

lemma find_run_Some:
  "find_run d rid = Some r \<Longrightarrow> r \<in> set (d_runs d) \<and> r_id r = rid"
  by (auto simp: find_run_def find_Some_iff)

lemma find_run_in:
  assumes "distinct (map r_id (d_runs d))" and "r \<in> set (d_runs d)"
  shows "find_run d (r_id r) = Some r"
proof -
  have "\<exists>x. find_run d (r_id r) = Some x"
    using assms(2) find_None_iff [of "\<lambda>x. r_id x = r_id r" "d_runs d"]
    by (cases "find_run d (r_id r)") (auto simp: find_run_def)
  then obtain x where x: "find_run d (r_id r) = Some x" by blast
  then have "x \<in> set (d_runs d)" "r_id x = r_id r"
    by (auto dest: find_run_Some)
  with assms have "x = r" by (auto simp: distinct_map inj_on_def)
  with x show ?thesis by simp
qed

lemma find_map_update:
  assumes "\<And>r. r_id (f r) = r_id r"
  shows "find (\<lambda>r. r_id r = rid) (map (\<lambda>r. if r_id r = rid' then f r else r) rs) =
     (if rid = rid' then map_option f (find (\<lambda>r. r_id r = rid) rs)
      else find (\<lambda>r. r_id r = rid) rs)"
  using assms by (induction rs) auto

lemma find_run_update_run:
  assumes "\<And>r. r_id (f r) = r_id r"
  shows "find_run (update_run rid' f d) rid =
     (if rid = rid' then map_option f (find_run d rid) else find_run d rid)"
  using find_map_update [OF assms] by (simp add: find_run_def update_run_def)

lemma update_run_frame [frame_simps, simp]:
  "d_next (update_run rid f d) = d_next d"
  "d_events (update_run rid f d) = d_events d"
  "d_snapshots (update_run rid f d) = d_snapshots d"
  "d_tasks (update_run rid f d) = d_tasks d"
  "d_step_results (update_run rid f d) = d_step_results d"
  "d_task_results (update_run rid f d) = d_task_results d"
  "d_timers (update_run rid f d) = d_timers d"
  "d_attempts (update_run rid f d) = d_attempts d"
  "d_dead_letters (update_run rid f d) = d_dead_letters d"
  "d_stickiness (update_run rid f d) = d_stickiness d"
  by (simp_all add: update_run_def)

lemma insert_task_frame [frame_simps, simp]:
  "d_runs (insert_task ns rid q ty p v now d) = d_runs d"
  "d_events (insert_task ns rid q ty p v now d) = d_events d"
  "d_snapshots (insert_task ns rid q ty p v now d) = d_snapshots d"
  "d_step_results (insert_task ns rid q ty p v now d) = d_step_results d"
  "d_task_results (insert_task ns rid q ty p v now d) = d_task_results d"
  "d_timers (insert_task ns rid q ty p v now d) = d_timers d"
  "d_attempts (insert_task ns rid q ty p v now d) = d_attempts d"
  "d_dead_letters (insert_task ns rid q ty p v now d) = d_dead_letters d"
  "d_stickiness (insert_task ns rid q ty p v now d) = d_stickiness d"
  by (simp_all add: insert_task_def)

lemma insert_task_tasks [simp]:
  "d_tasks (insert_task ns rid q ty p v now d) =
     d_tasks d @ [new_task (d_next d) ns rid q ty p v now]"
  "d_next (insert_task ns rid q ty p v now d) = Suc (d_next d)"
  by (simp_all add: insert_task_def)

lemma find_run_insert_task [simp]: "find_run (insert_task ns rid q ty p v now d) x = find_run d x"
  by (simp add: find_run_def)

lemma find_snapshot_frames [simp]:
  "find_snapshot (insert_task ns rid q ty p v now d) x = find_snapshot d x"
  "find_snapshot (update_run rid' f d) x = find_snapshot d x"
  by (simp_all add: find_snapshot_def)

lemma keys_ok_insert_task [inv_intros]: "keys_ok d \<Longrightarrow> keys_ok (insert_task ns rid q ty p v now d)"
  by (auto simp: keys_ok_def insert_task_def new_task_def less_Suc_eq)

lemma keys_ok_update_run [inv_intros]:
  assumes "keys_ok d" and "\<And>r. r_id (f r) = r_id r"
  shows "keys_ok (update_run rid f d)"
proof -
  have "map r_id (map (\<lambda>r. if r_id r = rid then f r else r) (d_runs d)) = map r_id (d_runs d)"
    using assms(2) by simp
  with assms show ?thesis
    unfolding keys_ok_def update_run_def by (auto simp del: map_map)
qed

end
