(* ===== verification/Cron.thy ===== *)
theory Cron
  imports Database
begin

text \<open>
  Cron expressions (\<open>packages/core/src/schedules/cron.ts\<close>): the parser, the search for the next
  instant and the instants of a range.

  A JavaScript \<open>Set\<close> of numbers is a list, of which only the members matter. The time zone
  database of the runtime is the argument \<open>zones\<close>: the offset of a zone from UTC at every instant, or
  nothing for a name it does not know. The calendar \<open>Intl.DateTimeFormat\<close> reads an instant in is
  the Gregorian one, written out; the weekday it gives is the one of years from 100 on.
\<close>

section \<open>Strings\<close>

definition is_digit :: "char \<Rightarrow> bool" where
  "is_digit c \<longleftrightarrow> 48 \<le> (of_char c :: nat) \<and> (of_char c :: nat) \<le> 57"

text \<open>What \<open>\\s\<close> matches, and \<open>trim\<close> cuts, among the characters of one byte.\<close>

definition is_space :: "char \<Rightarrow> bool" where
  "is_space c \<longleftrightarrow> (of_char c :: nat) \<in> set [9, 10, 11, 12, 13, 32, 160]"

definition to_lower_char :: "char \<Rightarrow> char" where
  "to_lower_char c =
     (if 65 \<le> (of_char c :: nat) \<and> (of_char c :: nat) \<le> 90 then char_of ((of_char c :: nat) + 32) else c)"

definition to_lower_case :: "string \<Rightarrow> string" where
  "to_lower_case s = map to_lower_char s"

text \<open>\<open>String.prototype.split\<close> at a character and at \<open>/\\s+/\<close>: never empty.\<close>

fun split_at :: "char \<Rightarrow> string \<Rightarrow> string list" where
  "split_at c [] = [[]]"
| "split_at c (x # xs) =
     (if x = c then [] # split_at c xs
      else case split_at c xs of [] \<Rightarrow> [[x]] | w # ws \<Rightarrow> (x # w) # ws)"

function split_spaces :: "string \<Rightarrow> string list" where
  "split_spaces [] = [[]]"
| "split_spaces (x # xs) =
     (if is_space x then [] # split_spaces (dropWhile is_space xs)
      else case split_spaces xs of [] \<Rightarrow> [[x]] | w # ws \<Rightarrow> (x # w) # ws)"
  by pat_completeness auto
termination by (relation "measure length") (auto simp: le_imp_less_Suc length_dropWhile_le)

definition trim :: "string \<Rightarrow> string" where
  "trim s = rev (dropWhile is_space (rev (dropWhile is_space s)))"

definition all_digits :: "string \<Rightarrow> bool" where
  "all_digits s \<longleftrightarrow> s \<noteq> [] \<and> list_all is_digit s"

section \<open>Schedules\<close>

datatype schedule_error =
    InvalidScheduleError string
  | ScheduleAlreadyExistsError string
  | ScheduleNotFoundError uuid
  | ScheduleFailed engine_error

record cron_schedule =
  cs_expression :: string
  cs_time_zone :: string
  cs_minutes :: "nat list"
  cs_hours :: "nat list"
  cs_days_of_month :: "nat list"
  cs_months :: "nat list"
  cs_days_of_week :: "nat list"
  cs_restricts_day_of_month :: bool
  cs_restricts_day_of_week :: bool

record field_spec =
  fs_name :: string
  fs_min :: nat
  fs_max :: nat
  fs_names :: "string list"
  fs_offset :: nat

definition MONTH_NAMES :: "string list" where
  "MONTH_NAMES = [''jan'', ''feb'', ''mar'', ''apr'', ''may'', ''jun'', ''jul'', ''aug'', ''sep'', ''oct'', ''nov'', ''dec'']"

definition WEEKDAY_NAMES :: "string list" where
  "WEEKDAY_NAMES = [''sun'', ''mon'', ''tue'', ''wed'', ''thu'', ''fri'', ''sat'']"

definition minute_spec :: field_spec where
  "minute_spec = \<lparr>fs_name = ''minute'', fs_min = 0, fs_max = 59, fs_names = [], fs_offset = 0\<rparr>"

definition hour_spec :: field_spec where
  "hour_spec = \<lparr>fs_name = ''hour'', fs_min = 0, fs_max = 23, fs_names = [], fs_offset = 0\<rparr>"

definition day_of_month_spec :: field_spec where
  "day_of_month_spec = \<lparr>fs_name = ''day of month'', fs_min = 1, fs_max = 31, fs_names = [], fs_offset = 0\<rparr>"

definition month_spec :: field_spec where
  "month_spec = \<lparr>fs_name = ''month'', fs_min = 1, fs_max = 12, fs_names = MONTH_NAMES, fs_offset = 1\<rparr>"

definition day_of_week_spec :: field_spec where
  "day_of_week_spec = \<lparr>fs_name = ''day of week'', fs_min = 0, fs_max = 7, fs_names = WEEKDAY_NAMES, fs_offset = 0\<rparr>"

definition MACROS :: "(string \<times> string) list" where
  "MACROS =
     [(''@yearly'', ''0 0 1 1 *''), (''@annually'', ''0 0 1 1 *''), (''@monthly'', ''0 0 1 * *''),
      (''@weekly'', ''0 0 * * 0''), (''@daily'', ''0 0 * * *''), (''@midnight'', ''0 0 * * *''),
      (''@hourly'', ''0 * * * *'')]"

section \<open>Parsing\<close>

definition parse_value :: "string \<Rightarrow> field_spec \<Rightarrow> schedule_error + nat" where
  "parse_value s spec =
     (case find_index (\<lambda>n. n = to_lower_case s) (fs_names spec) of
        Some i \<Rightarrow> Inr (i + fs_offset spec)
      | None \<Rightarrow>
          if \<not> all_digits s then Inl (InvalidScheduleError (''invalid '' @ fs_name spec @ '' value '' @ quoted s))
          else if read_digits s < fs_min spec \<or> fs_max spec < read_digits s
          then Inl (InvalidScheduleError (fs_name spec @ '' value '' @ show_nat (read_digits s) @ '' is outside ''
                 @ show_nat (fs_min spec) @ ''-'' @ show_nat (fs_max spec)))
          else Inr (read_digits s))"

text \<open>The loop \<open>for (let value = from; value <= to; value += step)\<close>.\<close>

definition stepped :: "nat \<Rightarrow> nat \<Rightarrow> nat \<Rightarrow> nat list" where
  "stepped from to step = filter (\<lambda>v. (v - from) mod step = 0) [from ..< Suc to]"

text \<open>The bounds of one part of a field; \<open>has_step\<close> tells whether a step follows them.\<close>

definition parse_range :: "string \<Rightarrow> bool \<Rightarrow> field_spec \<Rightarrow> schedule_error + nat \<times> nat" where
  "parse_range range_text has_step spec =
     (if range_text = ''*'' then Inr (fs_min spec, fs_max spec)
      else if CHR ''-'' \<in> set range_text then
        (case split_at CHR ''-'' range_text of
           [start_text, end_text] \<Rightarrow>
             (case parse_value start_text spec of
                Inl e \<Rightarrow> Inl e
              | Inr from \<Rightarrow>
                  (case parse_value end_text spec of
                     Inl e \<Rightarrow> Inl e
                   | Inr to \<Rightarrow>
                       if to < from
                       then Inl (InvalidScheduleError (fs_name spec @ '' range '' @ quoted range_text @ '' runs backwards''))
                       else Inr (from, to)))
         | _ \<Rightarrow> Inl (InvalidScheduleError (''invalid '' @ fs_name spec @ '' range '' @ quoted range_text)))
      else
        (case parse_value range_text spec of
           Inl e \<Rightarrow> Inl e
         | Inr from \<Rightarrow> Inr (from, if has_step then fs_max spec else from)))"

text \<open>One part of a field, between commas.\<close>

definition parse_part :: "string \<Rightarrow> string \<Rightarrow> field_spec \<Rightarrow> schedule_error + nat list" where
  "parse_part field part spec =
     (let texts = split_at CHR ''/'' part; range_text = hd texts; step_text = nth_opt texts 1 in
      if 2 < length texts \<or> range_text = []
      then Inl (InvalidScheduleError (''invalid '' @ fs_name spec @ '' field '' @ quoted field))
      else if (case step_text of None \<Rightarrow> False | Some s \<Rightarrow> \<not> all_digits s \<or> read_digits s = 0)
      then Inl (InvalidScheduleError (''invalid '' @ fs_name spec @ '' step '' @ quoted (optional step_text [])))
      else case parse_range range_text (step_text \<noteq> None) spec of
        Inl e \<Rightarrow> Inl e
      | Inr (from, to) \<Rightarrow> Inr (stepped from to (case step_text of None \<Rightarrow> 1 | Some s \<Rightarrow> read_digits s)))"

fun parse_parts :: "string \<Rightarrow> string list \<Rightarrow> field_spec \<Rightarrow> schedule_error + nat list" where
  "parse_parts field [] spec = Inr []"
| "parse_parts field (part # parts) spec =
     (case parse_part field part spec of
        Inl e \<Rightarrow> Inl e
      | Inr vs \<Rightarrow> (case parse_parts field parts spec of Inl e \<Rightarrow> Inl e | Inr ws \<Rightarrow> Inr (vs @ ws)))"

definition parse_field :: "string \<Rightarrow> field_spec \<Rightarrow> schedule_error + nat list" where
  "parse_field field spec = parse_parts field (split_at CHR '','' field) spec"

type_synonym zone_table = "string \<Rightarrow> (time \<Rightarrow> int) option"

definition create_formatter :: "zone_table \<Rightarrow> string \<Rightarrow> schedule_error + (time \<Rightarrow> int)" where
  "create_formatter zones zone =
     (case zones zone of
        None \<Rightarrow> Inl (InvalidScheduleError (''unknown time zone '' @ quoted zone))
      | Some f \<Rightarrow> Inr f)"

definition starts_with_star :: "string \<Rightarrow> bool" where
  "starts_with_star s \<longleftrightarrow> take 1 s = ''*''"

definition parse_cron :: "zone_table \<Rightarrow> string \<Rightarrow> string \<Rightarrow> schedule_error + cron_schedule" where
  "parse_cron zones expression zone =
     (case create_formatter zones zone of
        Inl e \<Rightarrow> Inl e
      | Inr _ \<Rightarrow>
          let resolved = optional (map_of MACROS (to_lower_case (trim expression))) (trim expression) in
          (case split_spaces resolved of
             [mi, ho, dm, mo, dw] \<Rightarrow>
               (case parse_field dw day_of_week_spec of Inl e \<Rightarrow> Inl e | Inr dws \<Rightarrow>
               (case parse_field mi minute_spec of Inl e \<Rightarrow> Inl e | Inr mis \<Rightarrow>
               (case parse_field ho hour_spec of Inl e \<Rightarrow> Inl e | Inr hos \<Rightarrow>
               (case parse_field dm day_of_month_spec of Inl e \<Rightarrow> Inl e | Inr dms \<Rightarrow>
               (case parse_field mo month_spec of Inl e \<Rightarrow> Inl e | Inr mos \<Rightarrow>
                 Inr \<lparr>cs_expression = resolved, cs_time_zone = zone, cs_minutes = mis, cs_hours = hos,
                      cs_days_of_month = dms, cs_months = mos,
                      cs_days_of_week = map (\<lambda>day. if day = 7 then 0 else day) dws,
                      cs_restricts_day_of_month = (\<not> starts_with_star dm),
                      cs_restricts_day_of_week = (\<not> starts_with_star dw)\<rparr>)))))
           | found \<Rightarrow> Inl (InvalidScheduleError (''a cron expression needs 5 fields, got ''
                 @ show_nat (length found) @ '' in '' @ quoted expression))))"

section \<open>The calendar\<close>

definition MINUTE_MS :: int where
  "MINUTE_MS = 60000"

definition DAY_MS :: int where
  "DAY_MS = 86400000"

text \<open>
  Month and day of the month of a day counted from 1970-01-01: eras of 400 years, the year
  counted from March so that the leap day is its last.
\<close>

definition month_and_day :: "int \<Rightarrow> nat \<times> nat" where
  "month_and_day days =
     (let doe = (days + 719468) mod 146097;
          yoe = (doe - doe div 1460 + doe div 36524 - doe div 146096) div 365;
          doy = doe - (365 * yoe + yoe div 4 - yoe div 100);
          mp = (5 * doy + 2) div 153
      in (nat (if mp < 10 then mp + 3 else mp - 9), nat (doy - (153 * mp + 2) div 5 + 1)))"

definition year_of :: "int \<Rightarrow> int" where
  "year_of days =
     (let era = (days + 719468) div 146097; doe = (days + 719468) mod 146097;
          yoe = (doe - doe div 1460 + doe div 36524 - doe div 146096) div 365
      in yoe + era * 400 + (if fst (month_and_day days) \<le> 2 then 1 else 0))"

text \<open>\<open>Date.prototype.toISOString\<close> of an instant in the range of dates.\<close>

fun padded :: "nat \<Rightarrow> int \<Rightarrow> string" where
  \<comment> \<open>the last \<open>width\<close> decimal digits\<close>
  "padded 0 n = []"
| "padded (Suc width) n = padded width (n div 10) @ [char_of (nat (48 + n mod 10))]"

definition iso_string :: "time \<Rightarrow> string" where
  "iso_string t =
     (let days = t div DAY_MS; ms = t mod DAY_MS; y = year_of days;
          year = (if 0 \<le> y \<and> y \<le> 9999 then padded 4 y
                  else (if y < 0 then ''-'' else ''+'') @ padded 6 \<bar>y\<bar>)
      in year @ ''-'' @ padded 2 (int (fst (month_and_day days))) @ ''-'' @ padded 2 (int (snd (month_and_day days))) @
         ''T'' @ padded 2 (ms div 3600000) @ '':'' @ padded 2 (ms div 60000 mod 60) @ '':'' @
         padded 2 (ms div 1000 mod 60) @ ''.'' @ padded 3 (ms mod 1000) @ ''Z'')"

record local_parts =
  lp_month :: nat
  lp_day :: nat
  lp_weekday :: nat
  lp_hour :: nat
  lp_minute :: nat

definition read_local_parts :: "(time \<Rightarrow> int) \<Rightarrow> time \<Rightarrow> local_parts" where
  "read_local_parts offset instant =
     (let l = instant + offset instant; days = l div DAY_MS; minutes = l mod DAY_MS div MINUTE_MS in
      \<lparr>lp_month = fst (month_and_day days), lp_day = snd (month_and_day days),
       lp_weekday = nat ((days + 4) mod 7),
       lp_hour = nat (minutes div 60), lp_minute = nat (minutes mod 60)\<rparr>)"

section \<open>The next instant\<close>

definition day_matches :: "cron_schedule \<Rightarrow> local_parts \<Rightarrow> bool" where
  "day_matches s parts =
     (let dom = lp_day parts \<in> set (cs_days_of_month s); dow = lp_weekday parts \<in> set (cs_days_of_week s) in
      if cs_restricts_day_of_month s \<and> cs_restricts_day_of_week s then dom \<or> dow else dom \<and> dow)"

definition MAX_SEARCH_STEPS :: int where
  "MAX_SEARCH_STEPS = 200000"

text \<open>The loop of \<open>nextCronTime\<close>; \<open>steps\<close> counts down.\<close>

function cron_search :: "int \<Rightarrow> (time \<Rightarrow> int) \<Rightarrow> cron_schedule \<Rightarrow> time \<Rightarrow> schedule_error + time" where
  "cron_search steps offset s candidate =
     (if steps \<le> 0 then Inl (InvalidScheduleError (quoted (cs_expression s) @ '' never matches''))
      else
        let parts = read_local_parts offset candidate; into_day = int (lp_hour parts * 60 + lp_minute parts) in
        if lp_month parts \<notin> set (cs_months s) \<or> \<not> day_matches s parts
        then cron_search (steps - 1) offset s (candidate + (24 * 60 - into_day) * MINUTE_MS)
        else if lp_hour parts \<notin> set (cs_hours s)
        then cron_search (steps - 1) offset s (candidate + (60 - int (lp_minute parts)) * MINUTE_MS)
        else if lp_minute parts \<notin> set (cs_minutes s)
        then cron_search (steps - 1) offset s (candidate + MINUTE_MS)
        else Inr candidate)"
  by pat_completeness auto
termination by (relation "measure (\<lambda>(steps, _). nat steps)") auto

declare cron_search.simps [simp del]

definition next_cron_time :: "zone_table \<Rightarrow> cron_schedule \<Rightarrow> time \<Rightarrow> schedule_error + time" where
  "next_cron_time zones s after =
     (case create_formatter zones (cs_time_zone s) of
        Inl e \<Rightarrow> Inl e
      | Inr offset \<Rightarrow> cron_search MAX_SEARCH_STEPS offset s (after div MINUTE_MS * MINUTE_MS + MINUTE_MS))"

text \<open>The loop of \<open>cronTimesBetween\<close>; \<open>room\<close> is what is left of the limit.\<close>

fun times_between :: "nat \<Rightarrow> zone_table \<Rightarrow> cron_schedule \<Rightarrow> time \<Rightarrow> time \<Rightarrow> schedule_error + time list" where
  "times_between 0 zones s cursor to = Inr []"
| "times_between (Suc room) zones s cursor to =
     (case next_cron_time zones s cursor of
        Inl e \<Rightarrow> Inl e
      | Inr next \<Rightarrow>
          if to \<le> next then Inr []
          else (case times_between room zones s next to of Inl e \<Rightarrow> Inl e | Inr ts \<Rightarrow> Inr (next # ts)))"

definition cron_times_between ::
    "zone_table \<Rightarrow> cron_schedule \<Rightarrow> time \<Rightarrow> time \<Rightarrow> nat \<Rightarrow> schedule_error + time list" where
  "cron_times_between zones s from to limit = times_between limit zones s (from - 1) to"

section \<open>The search finds the first instant\<close>

text \<open>The instants a schedule is meant for: those whose local reading has its month, day, hour and minute.\<close>

definition cron_matches :: "(time \<Rightarrow> int) \<Rightarrow> cron_schedule \<Rightarrow> time \<Rightarrow> bool" where
  "cron_matches offset s t \<longleftrightarrow>
     (let parts = read_local_parts offset t in
      lp_month parts \<in> set (cs_months s) \<and> day_matches s parts \<and>
      lp_hour parts \<in> set (cs_hours s) \<and> lp_minute parts \<in> set (cs_minutes s))"

lemma minute_of_day:
  "int (lp_hour (read_local_parts offset c) * 60 + lp_minute (read_local_parts offset c))
     = (c + offset c) mod DAY_MS div MINUTE_MS"
  "lp_minute (read_local_parts offset c) < 60"
  "(c + offset c) mod DAY_MS div MINUTE_MS < 24 * 60"
proof -
  have "0 \<le> (c + offset c) mod DAY_MS div MINUTE_MS"
    by (simp add: DAY_MS_def MINUTE_MS_def pos_imp_zdiv_nonneg_iff)
  then show "int (lp_hour (read_local_parts offset c) * 60 + lp_minute (read_local_parts offset c))
     = (c + offset c) mod DAY_MS div MINUTE_MS" "lp_minute (read_local_parts offset c) < 60"
    by (simp_all add: read_local_parts_def Let_def pos_imp_zdiv_nonneg_iff nat_less_iff)
  have "(c + offset c) mod DAY_MS < 24 * 60 * MINUTE_MS" by (simp add: DAY_MS_def MINUTE_MS_def)
  then show "(c + offset c) mod DAY_MS div MINUTE_MS < 24 * 60"
    by (simp add: MINUTE_MS_def)
qed

lemma cron_search_matches:
  assumes "cron_search n offset s c = Inr t"
  shows "c \<le> t \<and> t mod MINUTE_MS = c mod MINUTE_MS \<and> cron_matches offset s t"
  using assms
proof (induction n offset s c rule: cron_search.induct)
  case (1 n offset s c)
  have m: "lp_hour (read_local_parts offset c) * 60 + lp_minute (read_local_parts offset c) < 24 * 60"
    using minute_of_day(1,3) [where c = c and offset = offset] by linarith
  have step: "c \<le> c + k * MINUTE_MS \<and> (c + k * MINUTE_MS) mod MINUTE_MS = c mod MINUTE_MS" if "0 \<le> k" for k
    using that by (simp add: MINUTE_MS_def)
  show ?case
  proof (cases "n \<le> 0")
    case True
    with "1.prems" show ?thesis by (simp add: cron_search.simps)
  next
    case False
    let ?p = "read_local_parts offset c"
    consider (day) "lp_month ?p \<notin> set (cs_months s) \<or> \<not> day_matches s ?p"
      | (hour) "\<not> (lp_month ?p \<notin> set (cs_months s) \<or> \<not> day_matches s ?p)" "lp_hour ?p \<notin> set (cs_hours s)"
      | (minute) "\<not> (lp_month ?p \<notin> set (cs_months s) \<or> \<not> day_matches s ?p)" "\<not> lp_hour ?p \<notin> set (cs_hours s)"
          "lp_minute ?p \<notin> set (cs_minutes s)"
      | (found) "cron_matches offset s c"
      by (auto simp: cron_matches_def Let_def)
    then show ?thesis
    proof cases
      case day
      with "1.prems" False have "cron_search (n - 1) offset s (c + (24 * 60 - int (lp_hour ?p * 60 + lp_minute ?p)) * MINUTE_MS) = Inr t"
        by (subst (asm) cron_search.simps) (simp add: Let_def)
      from "1.IH"(1) [OF False refl refl day this] step [of "24 * 60 - int (lp_hour ?p * 60 + lp_minute ?p)"] m
      show ?thesis by linarith
    next
      case hour
      with "1.prems" False have "cron_search (n - 1) offset s (c + (60 - int (lp_minute ?p)) * MINUTE_MS) = Inr t"
        by (subst (asm) cron_search.simps) (simp add: Let_def)
      from "1.IH"(2) [OF False refl refl hour this] step [of "60 - int (lp_minute ?p)"] minute_of_day(2) [of offset c]
      show ?thesis by linarith
    next
      case minute
      with "1.prems" False have "cron_search (n - 1) offset s (c + MINUTE_MS) = Inr t"
        by (subst (asm) cron_search.simps) (simp add: Let_def)
      from "1.IH"(3) [OF False refl refl minute this] step [of 1] show ?thesis by simp
    next
      case found
      with "1.prems" False have "t = c"
        by (subst (asm) cron_search.simps) (auto simp: Let_def cron_matches_def)
      with found show ?thesis by simp
    qed
  qed
qed
lemma minutes_of_instant:
  "u div DAY_MS = u div MINUTE_MS div 1440" "u mod DAY_MS div MINUTE_MS = u div MINUTE_MS mod 1440"
proof -
  have day: "DAY_MS = MINUTE_MS * 1440" by (simp add: DAY_MS_def MINUTE_MS_def)
  show "u div DAY_MS = u div MINUTE_MS div 1440" unfolding day by (rule zdiv_zmult2_eq) simp
  have "u mod DAY_MS = MINUTE_MS * (u div MINUTE_MS mod 1440) + u mod MINUTE_MS"
    unfolding day by (rule zmod_zmult2_eq) simp
  then show "u mod DAY_MS div MINUTE_MS = u div MINUTE_MS mod 1440" by (simp add: MINUTE_MS_def)
qed

lemma same_block:
  fixes m u :: int
  assumes "m \<le> u" and "u < m + (k - m mod k)" and "0 < k"
  shows "u div k = m div k"
proof -
  have "u = m div k * k + (m mod k + (u - m))" by simp
  moreover have "0 \<le> m mod k + (u - m)" "m mod k + (u - m) < k" using assms by simp_all
  ultimately show ?thesis by (metis add.commute assms(3) div_mult_self1 div_pos_pos_trivial less_irrefl add_0)
qed

text \<open>
  A zone whose offset never changes. Inside a local day, hour or minute the parts the search
  skips over stay the same.
\<close>

lemma local_parts_eq:
  "read_local_parts (\<lambda>_. off) t =
     (let m = (t + off) div MINUTE_MS in
      \<lparr>lp_month = fst (month_and_day (m div 1440)), lp_day = snd (month_and_day (m div 1440)),
       lp_weekday = nat ((m div 1440 + 4) mod 7),
       lp_hour = nat (m mod 1440 div 60), lp_minute = nat (m mod 1440 mod 60)\<rparr>)"
  by (simp add: read_local_parts_def minutes_of_instant Let_def)

lemma same_day_parts:
  assumes "u div 1440 = v div 1440" and "u = (t + off) div MINUTE_MS" and "v = (t' + off) div MINUTE_MS"
  shows "lp_month (read_local_parts (\<lambda>_. off) t) = lp_month (read_local_parts (\<lambda>_. off) t')"
    and "day_matches s (read_local_parts (\<lambda>_. off) t) = day_matches s (read_local_parts (\<lambda>_. off) t')"
  using assms by (simp_all add: local_parts_eq day_matches_def Let_def)

lemma minutes_between:
  assumes "c \<le> u" and "u < c + k * MINUTE_MS" and "(c + off) mod MINUTE_MS = 0"
  shows "(c + off) div MINUTE_MS \<le> (u + off) div MINUTE_MS" and "(u + off) div MINUTE_MS < (c + off) div MINUTE_MS + k"
proof -
  show "(c + off) div MINUTE_MS \<le> (u + off) div MINUTE_MS"
    using assms(1) by (simp add: zdiv_mono1 MINUTE_MS_def)
  have "c + off = (c + off) div MINUTE_MS * MINUTE_MS" using assms(3) by (metis add.right_neutral div_mult_mod_eq)
  then have "u + off < ((c + off) div MINUTE_MS + k) * MINUTE_MS" using assms(2) by (simp add: algebra_simps)
  then show "(u + off) div MINUTE_MS < (c + off) div MINUTE_MS + k"
    by (simp add: MINUTE_MS_def)
qed

lemma skipped_day:
  assumes c: "(c + off) mod MINUTE_MS = 0" "c \<le> u" and p: "p = read_local_parts (\<lambda>_. off) c"
    and "u < c + (24 * 60 - int (lp_hour p * 60 + lp_minute p)) * MINUTE_MS"
    and "lp_month p \<notin> set (cs_months s) \<or> \<not> day_matches s p"
  shows "\<not> cron_matches (\<lambda>_. off) s u"
proof -
  let ?m = "(c + off) div MINUTE_MS" and ?u = "(u + off) div MINUTE_MS"
  have "int (lp_hour p * 60 + lp_minute p) = ?m mod 1440"
    using minute_of_day(1) [of "\<lambda>_. off" c] by (simp add: p minutes_of_instant)
  with assms(4) have u: "u < c + (1440 - ?m mod 1440) * MINUTE_MS" by simp
  have "?u div 1440 = ?m div 1440"
    by (rule same_block [OF minutes_between [OF c(2) u c(1)]]) simp
  from same_day_parts [OF this refl refl] assms(5) show ?thesis by (auto simp: cron_matches_def Let_def p)
qed

lemma skipped_hour:
  assumes c: "(c + off) mod MINUTE_MS = 0" "c \<le> u" and p: "p = read_local_parts (\<lambda>_. off) c"
    and "u < c + (60 - int (lp_minute p)) * MINUTE_MS" and "lp_hour p \<notin> set (cs_hours s)"
  shows "\<not> cron_matches (\<lambda>_. off) s u"
proof -
  let ?m = "(c + off) div MINUTE_MS" and ?u = "(u + off) div MINUTE_MS"
  have hour: "m mod 1440 div 60 = m div 60 mod 24" "m mod 1440 mod 60 = m mod 60" for m :: int
    using zmod_zmult2_eq [of 24 m 60] by (simp_all add: mod_mod_cancel)
  have "int (lp_minute p) = ?m mod 60"
    by (simp add: p local_parts_eq Let_def hour)
  with assms(4) have u: "u < c + (60 - ?m mod 60) * MINUTE_MS" by simp
  have "?u div 60 = ?m div 60"
    by (rule same_block [OF minutes_between [OF c(2) u c(1)]]) simp
  with assms(5) show ?thesis by (auto simp: cron_matches_def Let_def p local_parts_eq hour)
qed

lemma skipped_minute:
  assumes c: "(c + off) mod MINUTE_MS = 0" "c \<le> u" and p: "p = read_local_parts (\<lambda>_. off) c"
    and "u < c + MINUTE_MS" and "lp_minute p \<notin> set (cs_minutes s)"
  shows "\<not> cron_matches (\<lambda>_. off) s u"
proof -
  have "(u + off) div MINUTE_MS = (c + off) div MINUTE_MS"
    using minutes_between [OF c(2) _ c(1), of 1] assms(4) by simp
  with assms(5) show ?thesis by (auto simp: cron_matches_def Let_def p local_parts_eq)
qed

lemma cron_search_first:
  assumes "offset = (\<lambda>_. off)" and "(c + off) mod MINUTE_MS = 0" and "c \<le> u"
    and "case cron_search n offset s c of Inr t \<Rightarrow> u < t | Inl _ \<Rightarrow> u < c + n * MINUTE_MS"
  shows "\<not> cron_matches offset s u"
  using assms
proof (induction n offset s c rule: cron_search.induct)
  case (1 n offset s c)
  note prems = "1.prems"(2-4) [unfolded "1.prems"(1)]
  note IH = "1.IH" [OF _ refl refl]
  let ?p = "read_local_parts offset c"
  let ?jump = "\<lambda>k. cron_search (n - 1) offset s (c + k * MINUTE_MS)"
  have jump: "\<not> cron_matches offset s u"
    if k: "0 < k" and run: "cron_search n offset s c = ?jump k" and n: "\<not> n \<le> 0"
      and skipped: "u < c + k * MINUTE_MS \<Longrightarrow> \<not> cron_matches offset s u"
      and ih: "(c + k * MINUTE_MS + off) mod MINUTE_MS = 0 \<Longrightarrow> c + k * MINUTE_MS \<le> u \<Longrightarrow>
        (case ?jump k of Inr t \<Rightarrow> u < t | Inl _ \<Rightarrow> u < c + k * MINUTE_MS + (n - 1) * MINUTE_MS) \<Longrightarrow>
        \<not> cron_matches offset s u" for k
  proof (cases "u < c + k * MINUTE_MS")
    case False
    have "c + n * MINUTE_MS \<le> c + k * MINUTE_MS + (n - 1) * MINUTE_MS"
      using k by (simp add: algebra_simps MINUTE_MS_def)
    then have "case ?jump k of Inr t \<Rightarrow> u < t | Inl _ \<Rightarrow> u < c + k * MINUTE_MS + (n - 1) * MINUTE_MS"
      using "1.prems"(4) unfolding run by (auto split: sum.splits)
    moreover have "(c + k * MINUTE_MS + off) mod MINUTE_MS = 0"
      using prems(1) by (metis add.commute add.left_commute mod_mult_self1)
    ultimately show ?thesis using ih False by simp
  qed (rule skipped)
  have hm: "lp_hour ?p * 60 + lp_minute ?p < 24 * 60" "lp_minute ?p < 60"
    using minute_of_day [where c = c and offset = offset] by linarith+
  show ?case
  proof (cases "n \<le> 0")
    case True
    with prems show ?thesis by (simp add: cron_search.simps MINUTE_MS_def)
  next
    case False
    consider (day) "lp_month ?p \<notin> set (cs_months s) \<or> \<not> day_matches s ?p"
      | (hour) "\<not> (lp_month ?p \<notin> set (cs_months s) \<or> \<not> day_matches s ?p)" "lp_hour ?p \<notin> set (cs_hours s)"
      | (minute) "\<not> (lp_month ?p \<notin> set (cs_months s) \<or> \<not> day_matches s ?p)" "\<not> lp_hour ?p \<notin> set (cs_hours s)"
          "lp_minute ?p \<notin> set (cs_minutes s)"
      | (found) "cron_matches offset s c"
      by (auto simp: cron_matches_def Let_def)
    then show ?thesis
    proof cases
      case day
      show ?thesis
      proof (rule jump [OF _ _ False skipped_day [OF prems(1,2) refl, folded "1.prems"(1), OF _ day]])
        show "0 < 24 * 60 - int (lp_hour ?p * 60 + lp_minute ?p)" using hm by linarith
        show "cron_search n offset s c = ?jump (24 * 60 - int (lp_hour ?p * 60 + lp_minute ?p))"
          using False day by (subst cron_search.simps) (simp add: Let_def)
      qed (use IH(1) [OF False day "1.prems"(1)] in auto)
    next
      case hour
      show ?thesis
      proof (rule jump [OF _ _ False skipped_hour [OF prems(1,2) refl, folded "1.prems"(1), OF _ hour(2)]])
        show "0 < 60 - int (lp_minute ?p)" using hm by linarith
        show "cron_search n offset s c = ?jump (60 - int (lp_minute ?p))"
          using False hour by (subst cron_search.simps) (simp add: Let_def)
      qed (use IH(2) [OF False hour "1.prems"(1)] in auto)
    next
      case minute
      show ?thesis
      proof (rule jump [where k = 1, OF _ _ False])
        show "cron_search n offset s c = ?jump 1"
          using False minute by (subst cron_search.simps) (simp add: Let_def)
        show "\<not> cron_matches offset s u" if "u < c + 1 * MINUTE_MS"
          using skipped_minute [OF prems(1,2) refl, folded "1.prems"(1), OF _ minute(3)] that by simp
      qed (simp, simp only: mult_1, rule IH(3) [OF False minute "1.prems"(1)], assumption+)
    next
      case found
      with False have "cron_search n offset s c = Inr c"
        by (subst cron_search.simps) (auto simp: Let_def cron_matches_def)
      with "1.prems"(3,4) show ?thesis by simp
    qed
  qed
qed

definition fixed_zone :: "zone_table \<Rightarrow> string \<Rightarrow> int \<Rightarrow> bool" where
  "fixed_zone zones zone off \<longleftrightarrow> zones zone = Some (\<lambda>_. off) \<and> off mod MINUTE_MS = 0"

lemma next_cron_time_first:
  assumes "fixed_zone zones (cs_time_zone s) off"
  shows "case next_cron_time zones s after of
      Inr t \<Rightarrow> after < t \<and> t mod MINUTE_MS = 0 \<and> cron_matches (\<lambda>_. off) s t \<and>
        (\<forall>u. after < u \<longrightarrow> u < t \<longrightarrow> u mod MINUTE_MS = 0 \<longrightarrow> \<not> cron_matches (\<lambda>_. off) s u)
    | Inl _ \<Rightarrow> \<forall>u. after < u \<longrightarrow> u \<le> after + MAX_SEARCH_STEPS * MINUTE_MS \<longrightarrow> u mod MINUTE_MS = 0 \<longrightarrow>
        \<not> cron_matches (\<lambda>_. off) s u"
proof -
  let ?c = "after div MINUTE_MS * MINUTE_MS + MINUTE_MS"
  have run: "next_cron_time zones s after = cron_search MAX_SEARCH_STEPS (\<lambda>_. off) s ?c"
    using assms by (simp_all add: fixed_zone_def next_cron_time_def create_formatter_def)
  have "?c + off = off + (after div MINUTE_MS + 1) * MINUTE_MS" by (simp add: algebra_simps)
  then have aligned: "(?c + off) mod MINUTE_MS = 0" using assms by (simp add: fixed_zone_def)
  have after: "after < ?c" "?c \<le> after + MINUTE_MS" by (simp_all add: MINUTE_MS_def)
  have next_minute: "?c \<le> u" if "after < u" "u mod MINUTE_MS = 0" for u
  proof -
    have u: "u div MINUTE_MS * MINUTE_MS = u" using that(2) by (metis add.right_neutral div_mult_mod_eq)
    have "after div MINUTE_MS * MINUTE_MS \<le> after" by (simp add: MINUTE_MS_def)
    then have "after div MINUTE_MS < u div MINUTE_MS"
      using that(1) u mult_right_mono [of "u div MINUTE_MS" "after div MINUTE_MS" MINUTE_MS]
      by (fastforce simp: MINUTE_MS_def)
    then have "(after div MINUTE_MS + 1) * MINUTE_MS \<le> u div MINUTE_MS * MINUTE_MS"
      by (intro mult_right_mono) (simp_all add: MINUTE_MS_def)
    with u show ?thesis by (simp add: algebra_simps)
  qed
  note first = cron_search_first [OF refl aligned, where n = MAX_SEARCH_STEPS and s = s]
  show ?thesis
  proof (cases "next_cron_time zones s after")
    case (Inl e)
    have "u < ?c + MAX_SEARCH_STEPS * MINUTE_MS" if "u \<le> after + MAX_SEARCH_STEPS * MINUTE_MS" for u
      using that after(1) by linarith
    with Inl first next_minute show ?thesis by (auto simp: run)
  next
    case (Inr t)
    then have "cron_search MAX_SEARCH_STEPS (\<lambda>_. off) s ?c = Inr t" by (simp add: run)
    note t = cron_search_matches [OF this]
    then have "t mod MINUTE_MS = 0" by simp
    with t Inr first next_minute after(1) show ?thesis by (auto simp: run)
  qed
qed

lemma times_between_all:
  assumes zone: "fixed_zone zones (cs_time_zone s) off" and "times_between room zones s cursor to = Inr ts"
  shows "sorted_wrt (<) ts \<and> length ts \<le> room \<and>
     (\<forall>t \<in> set ts. cursor < t \<and> t < to \<and> t mod MINUTE_MS = 0 \<and> cron_matches (\<lambda>_. off) s t) \<and>
     (\<forall>u. cursor < u \<longrightarrow> u mod MINUTE_MS = 0 \<longrightarrow> cron_matches (\<lambda>_. off) s u \<longrightarrow>
        u < (if length ts < room then to else last (cursor # ts) + 1) \<longrightarrow> u \<in> set ts)"
  using assms
proof (induction room zones s cursor to arbitrary: ts rule: times_between.induct)
  case (2 room zones s cursor to)
  note first = next_cron_time_first [OF "2.prems"(1), of cursor]
  obtain n where n: "next_cron_time zones s cursor = Inr n"
    using "2.prems"(2) by (cases "next_cron_time zones s cursor") auto
  with first have hit: "cursor < n" "n mod MINUTE_MS = 0" "cron_matches (\<lambda>_. off) s n"
    and gap: "\<And>u. cursor < u \<Longrightarrow> u < n \<Longrightarrow> u mod MINUTE_MS = 0 \<Longrightarrow> \<not> cron_matches (\<lambda>_. off) s u" by auto
  show ?case
  proof (cases "to \<le> n")
    case True
    with n "2.prems"(2) have "ts = []" by simp
    with gap True show ?thesis by (auto dest: order.strict_trans2)
  next
    case False
    with n "2.prems"(2) obtain ts' where ts: "ts = n # ts'" and rest: "times_between room zones s n to = Inr ts'"
      by (auto split: sum.splits)
    note ih = "2.IH" [OF n False "2.prems"(1) rest]
    have bound: "(if length ts < Suc room then to else last (cursor # ts) + 1) =
        (if length ts' < room then to else last (n # ts') + 1)" by (simp add: ts)
    have "u \<in> set ts" if u: "cursor < u" "u mod MINUTE_MS = 0" "cron_matches (\<lambda>_. off) s u"
      "u < (if length ts < Suc room then to else last (cursor # ts) + 1)" for u
    proof (cases "n < u")
      case True
      from ih have "u \<in> set ts'"
        using conjunct2 [OF conjunct2 [OF conjunct2 [OF ih]], rule_format, OF True u(2,3) u(4) [unfolded bound]] by simp
      then show ?thesis by (simp add: ts)
    next
      case False
      with gap [OF u(1) _ u(2)] u(3) show ?thesis by (force simp: ts)
    qed
    moreover have "cursor < t \<and> t < to \<and> t mod MINUTE_MS = 0 \<and> cron_matches (\<lambda>_. off) s t" if "t \<in> set ts" for t
    proof (cases "t = n")
      case False
      with that have "t \<in> set ts'" by (simp add: ts)
      with conjunct1 [OF conjunct2 [OF conjunct2 [OF ih]]] hit(1) show ?thesis by fastforce
    qed (use hit False in simp)
    moreover have "sorted_wrt (<) ts \<and> length ts \<le> Suc room" using ih by (simp add: ts)
    ultimately show ?thesis by blast
  qed
qed auto

lemma cron_times_between_all:
  assumes "fixed_zone zones (cs_time_zone s) off" and "cron_times_between zones s from to limit = Inr ts" and "length ts < limit"
  shows "sorted_wrt (<) ts \<and> set ts = {t. from \<le> t \<and> t < to \<and> t mod MINUTE_MS = 0 \<and> cron_matches (\<lambda>_. off) s t}"
proof -
  note all = times_between_all [OF assms(1) assms(2) [unfolded cron_times_between_def]]
  have "t \<in> set ts \<longleftrightarrow> from \<le> t \<and> t < to \<and> t mod MINUTE_MS = 0 \<and> cron_matches (\<lambda>_. off) s t" for t
  proof
    assume "t \<in> set ts"
    with all have "from - 1 < t \<and> t < to \<and> t mod MINUTE_MS = 0 \<and> cron_matches (\<lambda>_. off) s t" by blast
    then show "from \<le> t \<and> t < to \<and> t mod MINUTE_MS = 0 \<and> cron_matches (\<lambda>_. off) s t" by simp
  next
    assume t: "from \<le> t \<and> t < to \<and> t mod MINUTE_MS = 0 \<and> cron_matches (\<lambda>_. off) s t"
    then have "from - 1 < t" by simp
    with all t assms(3) show "t \<in> set ts" by simp
  qed
  with conjunct1 [OF all] show ?thesis by (simp add: set_eq_iff)
qed
section \<open>Parsed fields are in range\<close>

definition spec_ok :: "field_spec \<Rightarrow> bool" where
  "spec_ok spec \<longleftrightarrow> fs_min spec \<le> fs_max spec \<and>
     (fs_names spec = [] \<or> fs_min spec \<le> fs_offset spec \<and> length (fs_names spec) + fs_offset spec \<le> Suc (fs_max spec))"

lemma specs_ok [simp]:
  "spec_ok minute_spec" "spec_ok hour_spec" "spec_ok day_of_month_spec" "spec_ok month_spec" "spec_ok day_of_week_spec"
  by (simp_all add: spec_ok_def minute_spec_def hour_spec_def day_of_month_spec_def month_spec_def
      day_of_week_spec_def MONTH_NAMES_def WEEKDAY_NAMES_def)

lemma parse_value_range:
  assumes "spec_ok spec" and "parse_value s spec = Inr v"
  shows "fs_min spec \<le> v \<and> v \<le> fs_max spec"
proof (cases "find_index (\<lambda>n. n = to_lower_case s) (fs_names spec)")
  case None
  with assms(2) show ?thesis by (auto simp: parse_value_def split: if_splits)
next
  case (Some i)
  from find_index_from_Some [OF this] have "i < length (fs_names spec)" by simp
  with Some assms show ?thesis by (auto simp: parse_value_def spec_ok_def)
qed

lemma stepped_range:
  assumes "from \<le> to"
  shows "stepped from to step \<noteq> []" and "v \<in> set (stepped from to step) \<Longrightarrow> from \<le> v \<and> v \<le> to"
proof -
  have "from \<in> set (stepped from to step)" using assms by (auto simp: stepped_def simp del: upt_Suc)
  then show "stepped from to step \<noteq> []" by auto
  show "v \<in> set (stepped from to step) \<Longrightarrow> from \<le> v \<and> v \<le> to"
    by (auto simp: stepped_def simp del: upt_Suc)
qed

lemma parse_range_range:
  assumes "spec_ok spec" and "parse_range s has_step spec = Inr (a, b)"
  shows "a \<le> b \<and> fs_min spec \<le> a \<and> b \<le> fs_max spec"
  using assms parse_value_range [OF assms(1)]
  by (auto simp: parse_range_def spec_ok_def not_less split: list.splits if_splits sum.splits)

lemma parse_part_range:
  assumes "spec_ok spec" and "parse_part field part spec = Inr vs"
  shows "vs \<noteq> [] \<and> (\<forall>v \<in> set vs. fs_min spec \<le> v \<and> v \<le> fs_max spec)"
proof -
  obtain s h a b k where ab: "parse_range s h spec = Inr (a, b)" and vs: "vs = stepped a b k"
    using assms(2) by (auto simp: parse_part_def Let_def split: if_splits sum.splits)
  from parse_range_range [OF assms(1) ab] show ?thesis
    using stepped_range [of a b] unfolding vs by (meson le_trans)
qed

lemma parse_field_range:
  assumes spec: "spec_ok spec" and run: "parse_field field spec = Inr vs"
  shows "vs \<noteq> [] \<and> (\<forall>v \<in> set vs. fs_min spec \<le> v \<and> v \<le> fs_max spec)"
proof -
  have "(ps \<noteq> [] \<longrightarrow> vs \<noteq> []) \<and> (\<forall>v \<in> set vs. fs_min spec \<le> v \<and> v \<le> fs_max spec)"
    if "parse_parts f ps spec = Inr vs" for f ps vs
    using that
  proof (induction ps arbitrary: vs)
    case (Cons p ps)
    then obtain us ws where "parse_part f p spec = Inr us" "parse_parts f ps spec = Inr ws" "vs = us @ ws"
      by (auto split: sum.splits)
    with Cons.IH parse_part_range [OF spec] show ?case by auto
  qed simp
  moreover have "split_at c p \<noteq> []" for c p by (induction p) (auto split: list.splits)
  ultimately show ?thesis using run unfolding parse_field_def by blast
qed

definition in_range :: "nat \<Rightarrow> nat \<Rightarrow> nat list \<Rightarrow> bool" where
  "in_range a b vs \<longleftrightarrow> vs \<noteq> [] \<and> (\<forall>v \<in> set vs. a \<le> v \<and> v \<le> b)"

lemma parse_cron_range:
  assumes "parse_cron zones expression zone = Inr s"
  shows "in_range 0 59 (cs_minutes s)" "in_range 0 23 (cs_hours s)" "in_range 1 31 (cs_days_of_month s)"
    "in_range 1 12 (cs_months s)" "in_range 0 6 (cs_days_of_week s)"
proof -
  obtain mi ho dm mo dw mis hos dms mos dws where
    f: "parse_field dw day_of_week_spec = Inr dws" "parse_field mi minute_spec = Inr mis"
       "parse_field ho hour_spec = Inr hos" "parse_field dm day_of_month_spec = Inr dms"
       "parse_field mo month_spec = Inr mos"
    and s: "cs_minutes s = mis" "cs_hours s = hos" "cs_days_of_month s = dms" "cs_months s = mos"
       "cs_days_of_week s = map (\<lambda>day. if day = 7 then 0 else day) dws"
    using assms by (auto simp: parse_cron_def Let_def split: sum.splits list.splits)
  show "in_range 0 59 (cs_minutes s)" "in_range 0 23 (cs_hours s)" "in_range 1 31 (cs_days_of_month s)"
    "in_range 1 12 (cs_months s)"
    using f(2-5) [THEN parse_field_range [rotated]] unfolding s
    by (simp_all add: in_range_def minute_spec_def hour_spec_def day_of_month_spec_def month_spec_def
        spec_ok_def MONTH_NAMES_def)
  have "in_range 0 7 dws"
    using parse_field_range [OF _ f(1)] by (simp add: in_range_def day_of_week_spec_def spec_ok_def WEEKDAY_NAMES_def)
  then show "in_range 0 6 (cs_days_of_week s)" unfolding s by (fastforce simp: in_range_def)
qed

section \<open>The errors are the ones the manager catches\<close>

lemma parse_value_Inl: "parse_value s spec = Inl e \<Longrightarrow> \<exists>m. e = InvalidScheduleError m"
  by (auto simp: parse_value_def split: option.splits if_splits)

lemma parse_range_Inl: "parse_range s h spec = Inl e \<Longrightarrow> \<exists>m. e = InvalidScheduleError m"
  by (auto simp: parse_range_def dest: parse_value_Inl split: list.splits if_splits sum.splits)

lemma parse_part_Inl: "parse_part f p spec = Inl e \<Longrightarrow> \<exists>m. e = InvalidScheduleError m"
  by (auto simp: parse_part_def Let_def dest: parse_range_Inl split: if_splits sum.splits)

lemma parse_field_Inl: "parse_field f spec = Inl e \<Longrightarrow> \<exists>m. e = InvalidScheduleError m"
proof -
  have "parse_parts f ps spec = Inl e \<Longrightarrow> \<exists>m. e = InvalidScheduleError m" for ps
    by (induction ps) (auto dest: parse_part_Inl split: sum.splits)
  then show "parse_field f spec = Inl e \<Longrightarrow> \<exists>m. e = InvalidScheduleError m" by (simp add: parse_field_def)
qed

lemma create_formatter_Inl: "create_formatter zones z = Inl e \<Longrightarrow> \<exists>m. e = InvalidScheduleError m"
  by (auto simp: create_formatter_def split: option.splits)

lemma parse_cron_Inl: "parse_cron zones x z = Inl e \<Longrightarrow> \<exists>m. e = InvalidScheduleError m"
  by (auto simp: parse_cron_def Let_def dest: create_formatter_Inl parse_field_Inl split: sum.splits list.splits)

lemma cron_search_Inl: "cron_search n offset s c = Inl e \<Longrightarrow> \<exists>m. e = InvalidScheduleError m"
proof (induction n offset s c rule: cron_search.induct)
  case (1 n offset s c)
  show ?case
    using "1.prems" "1.IH" by (subst (asm) cron_search.simps) (auto simp: Let_def split: if_splits)
qed

lemma next_cron_time_Inl: "next_cron_time zones s t = Inl e \<Longrightarrow> \<exists>m. e = InvalidScheduleError m"
  by (auto simp: next_cron_time_def dest: create_formatter_Inl cron_search_Inl split: sum.splits)
end
