(* ===== verification/EventStore.thy ===== *)
theory EventStore
  imports Database
begin

text \<open>
  The append-only log (\<open>packages/core/src/event-store/event-store.ts\<close>), the read model stored
  beside it (\<open>packages/core/src/run/projection-store.ts\<close>) and the codec wrappers
  (\<open>packages/core/src/event-store/codec.ts\<close>).

  A row of \<open>run_events\<close> holds the event itself: encoding by the default codec and decoding by the
  schema give it back. The interface the rest of the engine relies on is the locale
  \<open>event_log\<close>; the table is one implementation of it.
\<close>

section \<open>The log\<close>

text \<open>\<open>readEventsOnClient\<close>: the events after \<open>from\<close>, ordered by sequence number.\<close>

definition run_events :: "db \<Rightarrow> uuid \<Rightarrow> stored_event list" where
  "run_events d rid = map er_event (filter (\<lambda>e. er_run e = rid) (d_events d))"

definition read_events_on_client :: "db \<Rightarrow> uuid \<Rightarrow> nat \<Rightarrow> stored_event list" where
  "read_events_on_client d rid from =
     sort_key sequence_number (filter (\<lambda>se. from < sequence_number se) (run_events d rid))"

text \<open>\<open>EventStore.read\<close>, with the optional \<open>limit\<close>.\<close>

definition store_read :: "db \<Rightarrow> uuid \<Rightarrow> nat \<Rightarrow> nat option \<Rightarrow> stored_event list" where
  "store_read d rid from limit =
     (case limit of None \<Rightarrow> read_events_on_client d rid from
      | Some n \<Rightarrow> take n (read_events_on_client d rid from))"

definition max_sequence :: "stored_event list \<Rightarrow> nat" where
  "max_sequence ses = foldr max (map sequence_number ses) 0"

definition snapshot_seq :: "db \<Rightarrow> uuid \<Rightarrow> nat" where
  "snapshot_seq d rid = (case find_snapshot d rid of None \<Rightarrow> 0 | Some s \<Rightarrow> sn_last_seq s)"

definition read_current_sequence :: "db \<Rightarrow> uuid \<Rightarrow> nat" where
  "read_current_sequence d rid = max (max_sequence (run_events d rid)) (snapshot_seq d rid)"

fun number_events :: "time \<Rightarrow> nat \<Rightarrow> event list \<Rightarrow> stored_event list" where
  "number_events now seq [] = []"
| "number_events now seq (e # es) =
     \<lparr>sequence_number = seq + 1, stored = e, created_at = now\<rparr> # number_events now (seq + 1) es"

text \<open>
  The \<open>insert\<close> itself, with the constraints of the table: the run exists and no row has one of
  the new sequence numbers.
\<close>

definition insert_event_rows ::
    "time \<Rightarrow> uuid \<Rightarrow> nat \<Rightarrow> event list \<Rightarrow> (engine_error, db, stored_event list) tx" where
  "insert_event_rows now rid seq es = (\<lambda>d.
     let new = number_events now seq es in
     if find_run d rid = None then Inl (ForeignKeyViolation ''run_events_run_id_fkey'')
     else if \<exists>se \<in> set (run_events d rid). sequence_number se \<in> sequence_number ` set new
     then Inl (UniqueViolation ''run_events_run_id_sequence_number_key'')
     else Inr (new, d\<lparr>d_events := d_events d @ map (event_row.make rid) new\<rparr>))"

definition append_events_on_client ::
    "time \<Rightarrow> uuid \<Rightarrow> nat \<Rightarrow> event list \<Rightarrow> (engine_error, db, stored_event list) tx" where
  "append_events_on_client now rid expected es = (\<lambda>d.
     let current = read_current_sequence d rid in
     if current \<noteq> expected then Inl (ConcurrencyError rid expected (Some current))
     else if es = [] then Inr ([], d)
     else insert_event_rows now rid expected es d)"

text \<open>
  \<open>EventStore.append\<close>: a unique violation, the sign of a race the check could not see, is
  reported as a \<open>ConcurrencyError\<close> without the actual number.
\<close>

definition store_append ::
    "time \<Rightarrow> uuid \<Rightarrow> nat \<Rightarrow> event list \<Rightarrow> (engine_error, db, stored_event list) tx" where
  "store_append now rid expected es = (\<lambda>d.
     if es = [] then Inr ([], d)
     else case parse_events es of
       Inl e \<Rightarrow> Inl e
     | Inr valid \<Rightarrow>
         (case append_events_on_client now rid expected valid d of
            Inl (UniqueViolation _) \<Rightarrow> Inl (ConcurrencyError rid expected None)
          | Inl e \<Rightarrow> Inl e
          | Inr r \<Rightarrow> Inr r))"

text \<open>
  The same append as the two statements the database sees, so that the statements of two
  appenders can interleave: the check reads, the insert writes.
\<close>

definition append_check :: "uuid \<Rightarrow> nat \<Rightarrow> db \<Rightarrow> bool" where
  "append_check rid expected d \<longleftrightarrow> read_current_sequence d rid = expected"

section \<open>The codec wrappers\<close>

record 'a codec =
  encode :: "'a \<Rightarrow> engine_error + string"
  decode :: "string \<Rightarrow> engine_error + 'a"

definition DEFAULT_MAX_PAYLOAD_BYTES :: nat where
  "DEFAULT_MAX_PAYLOAD_BYTES = 1048576"

definition create_size_limited_codec :: "'a codec \<Rightarrow> nat \<Rightarrow> 'a codec" where
  "create_size_limited_codec c max_bytes =
     \<lparr>encode = (\<lambda>v. case encode c v of
         Inl e \<Rightarrow> Inl e
       | Inr t \<Rightarrow> if max_bytes < length t then Inl (PayloadTooLargeError (length t) max_bytes)
                  else Inr t),
      decode = decode c\<rparr>"

text \<open>\<open>gz\<close> and \<open>ungz\<close> stand for gzip with base64 and their inverses, of the runtime's library.\<close>

definition create_gzip_codec ::
    "(string \<Rightarrow> string) \<Rightarrow> (string \<Rightarrow> engine_error + string) \<Rightarrow> 'a codec \<Rightarrow> 'a codec" where
  "create_gzip_codec gz ungz c =
     \<lparr>encode = (\<lambda>v. case encode c v of Inl e \<Rightarrow> Inl e | Inr t \<Rightarrow> Inr (gz t)),
      decode = (\<lambda>t. case ungz t of Inl e \<Rightarrow> Inl e | Inr u \<Rightarrow> decode c u)\<rparr>"

section \<open>The stored projection\<close>

definition projection_from_row :: "run_row \<Rightarrow> run_projection" where
  "projection_from_row r =
     \<lparr>p_state = r_status r, p_input = r_input r, p_result = r_result r, p_error = r_error r,
      p_closed_at = r_closed_at r, p_last_seq = r_last_seq r\<rparr>"

definition write_projection :: "uuid \<Rightarrow> run_projection \<Rightarrow> db \<Rightarrow> db" where
  "write_projection rid p =
     update_run rid (\<lambda>r. r\<lparr>r_status := p_state p, r_input := p_input p, r_result := p_result p,
       r_error := p_error p, r_closed_at := p_closed_at p, r_last_seq := p_last_seq p\<rparr>)"

text \<open>
  \<open>foldInto\<close>: the fold starts from \<open>start_from\<close> the row, over the events after that start. (The
  loop of the code repeats when another transaction moved the row between its two reads; a
  transaction of the model sees one state.)
\<close>

definition fold_into ::
    "(run_row \<Rightarrow> db \<Rightarrow> run_projection) \<Rightarrow> uuid \<Rightarrow> (engine_error, db, run_projection) tx" where
  "fold_into start_from rid = (\<lambda>d.
     case find_run d rid of
       None \<Rightarrow> Inl (RunNotFoundError rid)
     | Some row \<Rightarrow>
         let start = start_from row d in
         (case fold_run_events (read_events_on_client d rid (p_last_seq start)) start of
            Inl e \<Rightarrow> Inl e
          | Inr next \<Rightarrow> Inr (next, write_projection rid next d)))"

definition refresh_projection :: "uuid \<Rightarrow> (engine_error, db, run_projection) tx" where
  "refresh_projection = fold_into (\<lambda>row d. projection_from_row row)"

definition rebuild_projection :: "uuid \<Rightarrow> (engine_error, db, run_projection) tx" where
  "rebuild_projection rid =
     fold_into (\<lambda>row d. case find_snapshot d rid of
         None \<Rightarrow> create_initial_projection | Some s \<Rightarrow> sn_projection s) rid"

section \<open>The invariant of the log\<close>

text \<open>
  Every history is gapless: it continues the number its snapshot stopped at, one by one, and the
  table is the final judge that no number is taken twice.
\<close>

definition log_ok :: "db \<Rightarrow> bool" where
  "log_ok d \<longleftrightarrow> (\<forall>rid. consecutive_from (snapshot_seq d rid) (run_events d rid))"

lemma consecutive_from_bounds:
  "consecutive_from n ses \<Longrightarrow> se \<in> set ses \<Longrightarrow> n < sequence_number se \<and> sequence_number se \<le> n + length ses"
  by (induction ses arbitrary: n) fastforce+

lemma consecutive_last: "consecutive_from n ses \<Longrightarrow> ses \<noteq> [] \<Longrightarrow> sequence_number (last ses) = n + length ses"
  by (induction ses arbitrary: n) auto

lemma consecutive_from_sorted: "consecutive_from n ses \<Longrightarrow> sorted (map sequence_number ses)"
proof (induction ses arbitrary: n)
  case Nil
  then show ?case by simp
next
  case (Cons se ses)
  then have "\<forall>x \<in> set ses. n + 1 < sequence_number x"
    using consecutive_from_bounds [of "n + 1" ses] by auto
  with Cons show ?case by (auto intro: less_imp_le)
qed

lemma consecutive_from_filter:
  "consecutive_from n ses \<Longrightarrow> n \<le> from \<Longrightarrow>
     filter (\<lambda>se. from < sequence_number se) ses = drop (from - n) ses"
proof (induction ses arbitrary: n)
  case Nil
  then show ?case by simp
next
  case (Cons se ses)
  show ?case
  proof (cases "from = n")
    case True
    with Cons.prems have "\<forall>x \<in> set ses. from < sequence_number x"
      using consecutive_from_bounds [of "n + 1" ses] by fastforce
    with True Cons.prems show ?thesis by (simp add: filter_id_conv)
  next
    case False
    with Cons.prems have "from - n = Suc (from - (n + 1))" by simp
    moreover have "filter (\<lambda>se. from < sequence_number se) ses = drop (from - (n + 1)) ses"
      using Cons.prems False by (intro Cons.IH) auto
    ultimately show ?thesis using Cons.prems False by simp
  qed
qed

lemma max_sequence_consecutive:
  "consecutive_from n ses \<Longrightarrow> max (max_sequence ses) n = n + length ses"
proof (induction ses arbitrary: n)
  case Nil
  then show ?case by (simp add: max_sequence_def)
next
  case (Cons se ses)
  then have "max (max_sequence ses) (n + 1) = n + 1 + length ses" by simp
  with Cons.prems show ?case by (auto simp: max_sequence_def)
qed

lemma read_events_ok:
  assumes "log_ok d" and "snapshot_seq d rid \<le> from"
  shows "read_events_on_client d rid from = drop (from - snapshot_seq d rid) (run_events d rid)"
proof -
  have c: "consecutive_from (snapshot_seq d rid) (run_events d rid)"
    using assms(1) by (simp add: log_ok_def)
  then have "sorted (map sequence_number (filter (\<lambda>se. from < sequence_number se) (run_events d rid)))"
    by (intro sorted_filter) (rule consecutive_from_sorted)
  then show ?thesis
    unfolding read_events_on_client_def
    by (simp add: sort_key_id_if_sorted consecutive_from_filter [OF c assms(2)])
qed

lemma read_current_sequence_ok:
  "log_ok d \<Longrightarrow> read_current_sequence d rid = snapshot_seq d rid + length (run_events d rid)"
  by (simp add: read_current_sequence_def log_ok_def max_sequence_consecutive)

lemma number_events_consecutive: "consecutive_from n (number_events now n es)"
  by (induction es arbitrary: n) auto

lemma length_number_events [simp]: "length (number_events now n es) = length es"
  by (induction es arbitrary: n) auto

lemma map_stored_number_events [simp]: "map stored (number_events now n es) = es"
  by (induction es arbitrary: n) auto

lemma number_events_append:
  "number_events now n (xs @ ys) = number_events now n xs @ number_events now (n + length xs) ys"
  by (induction xs arbitrary: n) auto

lemma number_events_bounds:
  "se \<in> set (number_events now n es) \<Longrightarrow> n < sequence_number se \<and> sequence_number se \<le> n + length es"
  using consecutive_from_bounds [OF number_events_consecutive, of se now n es] by simp

lemma run_events_append_rows:
  "run_events (d\<lparr>d_events := d_events d @ map (event_row.make rid) new\<rparr>) rid' =
     (if rid' = rid then run_events d rid @ new else run_events d rid')"
  by (simp add: run_events_def event_row.make_def comp_def filter_empty_conv)

lemma snapshot_seq_events [simp]: "snapshot_seq (d\<lparr>d_events := es\<rparr>) rid = snapshot_seq d rid"
  by (simp add: snapshot_seq_def find_snapshot_def)

text \<open>What a successful append did, in one rule.\<close>

lemma append_events_Inr:
  assumes "append_events_on_client now rid expected es d = Inr (new, d')"
  shows "read_current_sequence d rid = expected"
    and "new = number_events now expected es"
    and "d' = d\<lparr>d_events := d_events d @ map (event_row.make rid) new\<rparr>"
    and "run_events d' rid' = (if rid' = rid then run_events d rid @ new else run_events d rid')"
    and "es \<noteq> [] \<longrightarrow> find_run d rid \<noteq> None"
proof -
  show "read_current_sequence d rid = expected" "new = number_events now expected es"
    and d': "d' = d\<lparr>d_events := d_events d @ map (event_row.make rid) new\<rparr>"
    and "es \<noteq> [] \<longrightarrow> find_run d rid \<noteq> None"
    using assms
    by (auto simp: append_events_on_client_def insert_event_rows_def Let_def split: if_splits)
  show "run_events d' rid' = (if rid' = rid then run_events d rid @ new else run_events d rid')"
    unfolding d' by (rule run_events_append_rows)
qed

lemma append_events_frame:
  assumes "append_events_on_client now rid expected es d = Inr (new, d')"
  shows "d_runs d' = d_runs d" "d_snapshots d' = d_snapshots d" "d_tasks d' = d_tasks d"
    "d_step_results d' = d_step_results d" "d_task_results d' = d_task_results d"
    "d_timers d' = d_timers d" "d_attempts d' = d_attempts d" "d_next d' = d_next d"
    "d_dead_letters d' = d_dead_letters d" "d_stickiness d' = d_stickiness d"
    "find_run d' x = find_run d x" "snapshot_seq d' x = snapshot_seq d x"
    "find_snapshot d' x = find_snapshot d x"
  by (simp_all add: append_events_Inr(3) [OF assms] find_run_def find_snapshot_def)

lemma append_events_log_ok [inv_intros]:
  assumes "append_events_on_client now rid expected es d = Inr (new, d')" and "log_ok d"
  shows "log_ok d'"
  unfolding log_ok_def
proof
  fix x
  have "expected = snapshot_seq d rid + length (run_events d rid)"
    using append_events_Inr(1) [OF assms(1)] read_current_sequence_ok [OF assms(2)] by simp
  then have "consecutive_from (snapshot_seq d rid) (run_events d rid @ new)"
    using assms(2) number_events_consecutive
    by (simp add: append_events_Inr(2) [OF assms(1)] consecutive_from_append log_ok_def)
  with assms(2) show "consecutive_from (snapshot_seq d' x) (run_events d' x)"
    by (simp add: append_events_frame [OF assms(1)] append_events_Inr(4) [OF assms(1)] log_ok_def)
qed

text \<open>
  At a gapless log, an append at the current number succeeds; the unique constraint is not hit.
\<close>

lemma append_events_ok:
  assumes "log_ok d" and "find_run d rid \<noteq> None" and "expected = read_current_sequence d rid"
  shows "\<exists>d'. append_events_on_client now rid expected es d = Inr (number_events now expected es, d')"
proof -
  have "\<not> (\<exists>se \<in> set (run_events d rid).
      sequence_number se \<in> sequence_number ` set (number_events now expected es))"
  proof (clarsimp)
    fix x y assume x: "x \<in> set (run_events d rid)" and y: "y \<in> set (number_events now expected es)"
      and "sequence_number x = sequence_number y"
    moreover have "sequence_number x \<le> expected"
      using consecutive_from_bounds [of "snapshot_seq d rid" "run_events d rid" x] x assms(1,3)
      by (simp add: log_ok_def read_current_sequence_ok)
    moreover have "expected < sequence_number y"
      using number_events_bounds [OF y] by simp
    ultimately show False by simp
  qed
  with assms show ?thesis
    by (auto simp: append_events_on_client_def insert_event_rows_def Let_def)
qed

lemma log_ok_frame [inv_intros]:
  "log_ok d \<Longrightarrow> d_events d' = d_events d \<Longrightarrow> d_snapshots d' = d_snapshots d \<Longrightarrow> log_ok d'"
  by (simp add: log_ok_def run_events_def snapshot_seq_def find_snapshot_def)

section \<open>The interface of the log\<close>

text \<open>
  What the projection, the recorder, the timers and the compactor rely on: histories are gapless,
  an append happens only at the current number, writes exactly the numbered events and leaves
  every other history alone.
\<close>

locale event_log =
  fixes hist :: "'s \<Rightarrow> uuid \<Rightarrow> stored_event list"
    and base :: "'s \<Rightarrow> uuid \<Rightarrow> nat"
    and append_log :: "time \<Rightarrow> uuid \<Rightarrow> nat \<Rightarrow> event list \<Rightarrow> ('e, 's, stored_event list) tx"
    and inv :: "'s \<Rightarrow> bool"
  assumes gapless: "inv s \<Longrightarrow> consecutive_from (base s r) (hist s r)"
    and append_inv: "inv s \<Longrightarrow> append_log now r n es s = Inr (new, s') \<Longrightarrow> inv s'"
    and append_at: "inv s \<Longrightarrow> append_log now r n es s = Inr (new, s') \<Longrightarrow>
                      n = base s r + length (hist s r) \<and> new = number_events now n es"
    and append_hist: "inv s \<Longrightarrow> append_log now r n es s = Inr (new, s') \<Longrightarrow>
                      hist s' r' = (if r' = r then hist s r @ new else hist s r')"
    and append_base: "append_log now r n es s = Inr (new, s') \<Longrightarrow> base s' r' = base s r'"
begin

lemma second_append_refused:
  assumes "inv s" and "append_log now r n es s = Inr (new, s')" and "es \<noteq> []"
  shows "append_log now' r n fs s' \<noteq> Inr (new', s'')"
proof
  assume second: "append_log now' r n fs s' = Inr (new', s'')"
  have first: "n = base s r + length (hist s r)" and new: "new = number_events now n es"
    using append_at [OF assms(1,2)] by auto
  have "n = base s' r + length (hist s' r)"
    using append_at [OF append_inv [OF assms(1,2)] second] by blast
  also have "hist s' r = hist s r @ new"
    using append_hist [OF assms(1,2), of r] by simp
  also have "base s' r = base s r"
    by (rule append_base [OF assms(2)])
  finally have "base s r + length (hist s r) + length new = base s r + length (hist s r)"
    using first by (simp only: length_append add.assoc)
  then have "length new = 0" by simp
  with new assms(3) show False by simp
qed

lemma history_extends:
  assumes "inv s" and "append_log now r n es s = Inr (new, s')"
  shows "\<exists>tail. hist s' r' = hist s r' @ tail \<and> (r' \<noteq> r \<longrightarrow> tail = [])"
  using append_hist [OF assms] by (cases "r' = r") auto

lemma fold_after_append:
  assumes "inv s" and "append_log now r n es s = Inr (new, s')"
    and "fold_run_events (hist s r) p = Inr q"
  shows "fold_run_events (hist s' r) p = fold_run_events new q"
  using append_hist [OF assms(1,2), of r] assms(3) by (simp add: fold_run_events_append)

end

interpretation run_log: event_log run_events snapshot_seq append_events_on_client log_ok
proof unfold_locales
  fix s r assume "log_ok s"
  then show "consecutive_from (snapshot_seq s r) (run_events s r)" by (simp add: log_ok_def)
next
  fix s now r n es new s'
  assume ok: "log_ok s" and ap: "append_events_on_client now r n es s = Inr (new, s')"
  show "log_ok s'" by (rule append_events_log_ok [OF ap ok])
  show "n = snapshot_seq s r + length (run_events s r) \<and> new = number_events now n es"
    using append_events_Inr(1,2) [OF ap] read_current_sequence_ok [OF ok] by simp
  show "run_events s' r' = (if r' = r then run_events s r @ new else run_events s r')" for r'
    by (rule append_events_Inr(4) [OF ap])
next
  fix s now r n es new s' r'
  assume ap: "append_events_on_client now r n es s = Inr (new, s')"
  show "snapshot_seq s' r' = snapshot_seq s r'" by (rule append_events_frame(12) [OF ap])
qed

section \<open>The stored projection follows the log\<close>

definition projection_start :: "db \<Rightarrow> uuid \<Rightarrow> run_projection" where
  "projection_start d rid =
     (case find_snapshot d rid of None \<Rightarrow> create_initial_projection | Some s \<Rightarrow> sn_projection s)"

text \<open>
  A run's row is a stop of the fold over its history: the fold of the part it has seen. A row
  no event was folded into yet differs from the initial projection in its input, which the
  first event sets.
\<close>

definition row_synced :: "db \<Rightarrow> run_row \<Rightarrow> bool" where
  "row_synced d r \<longleftrightarrow>
     (let start = projection_start d (r_id r); h = run_events d (r_id r) in
      p_last_seq start = snapshot_seq d (r_id r) \<and> p_last_seq start \<le> r_last_seq r \<and>
      (fold_run_events (take (r_last_seq r - p_last_seq start) h) start
          = Inr (projection_from_row r)
       \<or> r_last_seq r = 0 \<and> projection_from_row r = create_initial_projection\<lparr>p_input := r_input r\<rparr>
         \<and> start = create_initial_projection
         \<and> (\<exists>wt i t rest. h = \<lparr>sequence_number = 1, stored = RunStarted wt i, created_at = t\<rparr> # rest)))"

lemma find_run_write_projection:
  "find_run (write_projection rid p d) x =
     (if x = rid then map_option (\<lambda>r. r\<lparr>r_status := p_state p, r_input := p_input p,
        r_result := p_result p, r_error := p_error p, r_closed_at := p_closed_at p,
        r_last_seq := p_last_seq p\<rparr>) (find_run d x)
      else find_run d x)"
  by (simp add: write_projection_def find_run_update_run)

lemma write_projection_frame [frame_simps, simp]:
  "d_next (write_projection rid p d) = d_next d"
  "d_events (write_projection rid p d) = d_events d"
  "d_snapshots (write_projection rid p d) = d_snapshots d"
  "d_tasks (write_projection rid p d) = d_tasks d"
  "d_step_results (write_projection rid p d) = d_step_results d"
  "d_task_results (write_projection rid p d) = d_task_results d"
  "d_timers (write_projection rid p d) = d_timers d"
  "d_attempts (write_projection rid p d) = d_attempts d"
  "d_dead_letters (write_projection rid p d) = d_dead_letters d"
  "d_stickiness (write_projection rid p d) = d_stickiness d"
  by (simp_all add: write_projection_def)

lemma first_event_sets_input:
  "apply_event_to_projection (create_initial_projection\<lparr>p_input := i\<rparr>)
      \<lparr>sequence_number = 1, stored = RunStarted wt j, created_at = t\<rparr> =
   apply_event_to_projection create_initial_projection
      \<lparr>sequence_number = 1, stored = RunStarted wt j, created_at = t\<rparr>"
  by (simp add: apply_event_to_projection_def create_initial_projection_def Let_def)

text \<open>Refreshing a synced row and rebuilding it from the log fold to the same projection.\<close>

lemma refresh_eq_rebuild:
  assumes "log_ok d" and "find_run d rid = Some r" and "row_synced d r"
  shows "refresh_projection rid d = rebuild_projection rid d"
proof -
  have id: "r_id r = rid" using assms(2) by (auto dest: find_run_Some)
  let ?start = "projection_start d rid" and ?h = "run_events d rid"
  have seq: "p_last_seq ?start = snapshot_seq d rid" "p_last_seq ?start \<le> r_last_seq r"
    using assms(3) by (auto simp: row_synced_def Let_def id)
  have start: "(case find_snapshot d rid of None \<Rightarrow> create_initial_projection
      | Some s \<Rightarrow> sn_projection s) = ?start"
    by (simp add: projection_start_def)
  have reads: "read_events_on_client d rid (r_last_seq r) =
      drop (r_last_seq r - snapshot_seq d rid) ?h"
    "read_events_on_client d rid (p_last_seq ?start) = ?h"
    using read_events_ok [OF assms(1)] seq by simp_all
  have "fold_run_events ?h ?start = fold_run_events (drop (r_last_seq r - snapshot_seq d rid) ?h)
      (projection_from_row r)"
  proof (cases "fold_run_events (take (r_last_seq r - p_last_seq ?start) ?h) ?start
      = Inr (projection_from_row r)")
    case True
    then show ?thesis
      using fold_run_events_append [of "take (r_last_seq r - p_last_seq ?start) ?h"
          "drop (r_last_seq r - p_last_seq ?start) ?h" ?start] seq(1)
      by simp
  next
    case False
    then obtain wt i t rest where h: "?h = \<lparr>sequence_number = 1, stored = RunStarted wt i, created_at = t\<rparr> # rest"
      and r: "r_last_seq r = 0" "projection_from_row r = create_initial_projection\<lparr>p_input := r_input r\<rparr>"
      and s: "?start = create_initial_projection"
      using assms(3) by (auto simp: row_synced_def Let_def id)
    with seq show ?thesis
      using first_event_sets_input [of "r_input r" wt i t, simplified]
      by (simp add: h r s)
  qed
  then show ?thesis
    using assms(2) reads seq
    by (simp add: refresh_projection_def rebuild_projection_def fold_into_def start Let_def
        projection_from_row_def)
qed

text \<open>And the refreshed row is synced again.\<close>

lemma fold_last_seq_start:
  "fold_run_events ses p = Inr q \<Longrightarrow> p_last_seq p \<le> p_last_seq q"
  by (simp add: fold_run_events_last_seq)

lemma refresh_synced:
  assumes "log_ok d" and "find_run d rid = Some r" and "row_synced d r"
    and "refresh_projection rid d = Inr (p, d')"
  shows "\<exists>r'. find_run d' rid = Some r' \<and> row_synced d' r' \<and> projection_from_row r' = p \<and>
           p_last_seq p = snapshot_seq d rid + length (run_events d rid)"
proof -
  have id: "r_id r = rid" using assms(2) by (auto dest: find_run_Some)
  let ?start = "projection_start d rid" and ?h = "run_events d rid"
  have seq: "p_last_seq ?start = snapshot_seq d rid"
    using assms(3) by (auto simp: row_synced_def Let_def id)
  have "rebuild_projection rid d = Inr (p, d')"
    using refresh_eq_rebuild [OF assms(1-3)] assms(4) by simp
  moreover have "read_events_on_client d rid (p_last_seq ?start) = ?h"
    using read_events_ok [OF assms(1)] seq by simp
  ultimately have f: "fold_run_events ?h ?start = Inr p" and d': "d' = write_projection rid p d"
    using assms(2)
    by (auto simp: rebuild_projection_def fold_into_def projection_start_def Let_def
        split: sum.splits)
  define r' where "r' = r\<lparr>r_status := p_state p, r_input := p_input p, r_result := p_result p,
    r_error := p_error p, r_closed_at := p_closed_at p, r_last_seq := p_last_seq p\<rparr>"
  have fr: "find_run d' rid = Some r'"
    using assms(2) by (simp add: d' find_run_write_projection r'_def)
  have pr: "projection_from_row r' = p" by (simp add: projection_from_row_def r'_def)
  have len: "p_last_seq p = p_last_seq ?start + length ?h"
    by (rule fold_run_events_last_seq [OF f])
  have same: "run_events d' rid = ?h" "snapshot_seq d' rid = snapshot_seq d rid"
    "projection_start d' rid = ?start"
    by (simp_all add: d' run_events_def snapshot_seq_def find_snapshot_def projection_start_def)
  have "row_synced d' r'"
    using f len seq pr by (simp add: row_synced_def Let_def same r'_def id)
  with fr pr len seq show ?thesis by auto
qed

section \<open>The invariant of the run table\<close>

lemma write_projection_ids [simp]:
  "map r_id (d_runs (write_projection rid p d)) = map r_id (d_runs d)"
  by (simp add: write_projection_def update_run_def)

text \<open>
  Every row is a stop of the fold over its history, and an open run's history holds no closing
  event: the row is brought up to date in the transaction that closes the run.
\<close>

definition row_ok :: "db \<Rightarrow> run_row \<Rightarrow> bool" where
  "row_ok d r \<longleftrightarrow> row_synced d r \<and>
     (r_status r = RUNNING \<longrightarrow> (\<forall>se \<in> set (run_events d (r_id r)). \<not> is_closing_event (stored se)))"

definition runs_ok :: "db \<Rightarrow> bool" where
  "runs_ok d \<longleftrightarrow> log_ok d \<and> distinct (map r_id (d_runs d)) \<and>
     (\<forall>rid r. find_run d rid = Some r \<longrightarrow> row_ok d r)"

lemma runs_okI: "log_ok d \<Longrightarrow> distinct (map r_id (d_runs d)) \<Longrightarrow> (\<And>rid r. find_run d rid = Some r \<Longrightarrow> row_ok d r) \<Longrightarrow> runs_ok d"
  by (simp add: runs_ok_def)

lemma row_synced_bound:
  assumes "row_synced d r"
  shows "r_last_seq r \<le> snapshot_seq d (r_id r) + length (run_events d (r_id r))"
    and "snapshot_seq d (r_id r) \<le> r_last_seq r"
proof -
  let ?start = "projection_start d (r_id r)" and ?h = "run_events d (r_id r)"
  have seq: "p_last_seq ?start = snapshot_seq d (r_id r)" "p_last_seq ?start \<le> r_last_seq r"
    using assms by (auto simp: row_synced_def Let_def)
  then show "snapshot_seq d (r_id r) \<le> r_last_seq r" by simp
  show "r_last_seq r \<le> snapshot_seq d (r_id r) + length ?h"
  proof (cases "r_last_seq r = 0")
    case False
    then have "fold_run_events (take (r_last_seq r - p_last_seq ?start) ?h) ?start
        = Inr (projection_from_row r)"
      using assms by (auto simp: row_synced_def Let_def)
    from fold_run_events_last_seq [OF this] seq show ?thesis
      by (simp add: projection_from_row_def)
  qed simp
qed

text \<open>Appending to any history leaves every row where it was in the fold.\<close>

lemma row_synced_append:
  assumes "row_synced d r" and "append_events_on_client now rid n es d = Inr (new, d')"
  shows "row_synced d' r"
proof -
  have start: "projection_start d' (r_id r) = projection_start d (r_id r)"
    and base: "snapshot_seq d' (r_id r) = snapshot_seq d (r_id r)"
    by (simp_all add: projection_start_def append_events_frame [OF assms(2)])
  obtain tail where tail: "run_events d' (r_id r) = run_events d (r_id r) @ tail"
    using append_events_Inr(4) [OF assms(2), of "r_id r"] by (cases "r_id r = rid") auto
  have "r_last_seq r - snapshot_seq d (r_id r) \<le> length (run_events d (r_id r))"
    using row_synced_bound [OF assms(1)] by linarith
  moreover have "p_last_seq (projection_start d (r_id r)) = snapshot_seq d (r_id r)"
    using assms(1) by (simp add: row_synced_def Let_def)
  ultimately show ?thesis
    using assms(1) by (auto simp: row_synced_def Let_def start base tail)
qed

lemma row_ok_append_other:
  assumes "row_ok d r" and "append_events_on_client now rid n es d = Inr (new, d')"
    and "r_id r = rid \<Longrightarrow> r_status r = RUNNING \<Longrightarrow> \<forall>e \<in> set es. \<not> is_closing_event e"
  shows "row_ok d' r"
proof -
  have "set (map stored new) = set es"
    by (simp only: append_events_Inr(2) [OF assms(2)] map_stored_number_events)
  then have new: "stored ` set new = set es" by simp
  show ?thesis
    unfolding row_ok_def
  proof (intro conjI impI)
    show "row_synced d' r"
      using row_synced_append assms(1,2) by (auto simp: row_ok_def)
    assume run: "r_status r = RUNNING"
    then have old: "\<forall>se \<in> set (run_events d (r_id r)). \<not> is_closing_event (stored se)"
      using assms(1) by (simp add: row_ok_def)
    show "\<forall>se \<in> set (run_events d' (r_id r)). \<not> is_closing_event (stored se)"
    proof (cases "r_id r = rid")
      case True
      with assms(3) run have "\<forall>e \<in> stored ` set new. \<not> is_closing_event e" by (simp add: new)
      with True old show ?thesis
        using append_events_Inr(4) [OF assms(2), of "r_id r"] by auto
    next
      case False
      with old show ?thesis
        using append_events_Inr(4) [OF assms(2), of "r_id r"] by simp
    qed
  qed
qed

lemma runs_ok_append [inv_intros]:
  assumes "runs_ok d" and "append_events_on_client now rid n es d = Inr (new, d')"
    and "\<And>r. find_run d rid = Some r \<Longrightarrow> r_status r = RUNNING \<Longrightarrow> \<forall>e \<in> set es. \<not> is_closing_event e"
  shows "runs_ok d'"
proof (rule runs_okI)
  show "log_ok d'" using append_events_log_ok assms(1,2) by (auto simp: runs_ok_def)
  show "distinct (map r_id (d_runs d'))"
    using assms(1) by (simp add: append_events_frame [OF assms(2)] runs_ok_def)
  fix x r assume "find_run d' x = Some r"
  then have r: "find_run d x = Some r" by (simp add: append_events_frame [OF assms(2)])
  then have "r_id r = x" by (auto dest: find_run_Some)
  with r assms show "row_ok d' r"
    by (intro row_ok_append_other [OF _ assms(2)]) (auto simp: runs_ok_def)
qed

text \<open>
  Tables other than runs, events and snapshots do not matter, nor do the columns the fold does
  not write.
\<close>

definition same_fold_columns :: "run_row \<Rightarrow> run_row \<Rightarrow> bool" where
  "same_fold_columns r r' \<longleftrightarrow> r_id r' = r_id r \<and> r_last_seq r' = r_last_seq r \<and>
     projection_from_row r' = projection_from_row r"

lemma row_ok_frame:
  assumes "row_ok d r" and "same_fold_columns r r'"
    and "d_events d' = d_events d" and "d_snapshots d' = d_snapshots d"
  shows "row_ok d' r'"
proof -
  have "run_events d' = run_events d" "snapshot_seq d' = snapshot_seq d"
    "projection_start d' = projection_start d"
    using assms(3,4)
    by (auto simp: run_events_def snapshot_seq_def find_snapshot_def projection_start_def fun_eq_iff)
  moreover have "r_id r' = r_id r" "r_last_seq r' = r_last_seq r" "r_status r' = r_status r"
    "r_input r' = r_input r" "projection_from_row r' = projection_from_row r"
    using assms(2) by (auto simp: same_fold_columns_def projection_from_row_def)
  ultimately show ?thesis
    using assms(1) by (simp add: row_ok_def row_synced_def)
qed

lemma row_synced_frame:
  assumes "row_synced d r" and "same_fold_columns r r'"
    and "d_events d' = d_events d" and "d_snapshots d' = d_snapshots d"
  shows "row_synced d' r'"
proof -
  have "run_events d' = run_events d" "snapshot_seq d' = snapshot_seq d"
    "projection_start d' = projection_start d"
    using assms(3,4)
    by (auto simp: run_events_def snapshot_seq_def find_snapshot_def projection_start_def fun_eq_iff)
  moreover have "r_id r' = r_id r" "r_last_seq r' = r_last_seq r"
    "r_input r' = r_input r" "projection_from_row r' = projection_from_row r"
    using assms(2) by (auto simp: same_fold_columns_def projection_from_row_def)
  ultimately show ?thesis
    using assms(1) by (simp add: row_synced_def)
qed

lemma runs_ok_frame:
  assumes "runs_ok d" and "d_events d' = d_events d" and "d_snapshots d' = d_snapshots d"
    and "\<And>rid r'. find_run d' rid = Some r' \<Longrightarrow> \<exists>r. find_run d rid = Some r \<and> same_fold_columns r r'"
    and "map r_id (d_runs d') = map r_id (d_runs d)"
  shows "runs_ok d'"
proof (rule runs_okI)
  show "log_ok d'" using assms(1-3) log_ok_frame by (auto simp: runs_ok_def)
  show "distinct (map r_id (d_runs d'))" unfolding assms(5) using assms(1) by (simp add: runs_ok_def)
  fix rid r' assume "find_run d' rid = Some r'"
  then obtain r where "find_run d rid = Some r" "same_fold_columns r r'" using assms(4) by blast
  with assms(1) show "row_ok d' r'"
    by (intro row_ok_frame [OF _ _ assms(2,3)]) (auto simp: runs_ok_def)
qed

lemma runs_ok_same_runs:
  assumes "runs_ok d" and "d_events d' = d_events d" and "d_snapshots d' = d_snapshots d"
    and "d_runs d' = d_runs d"
  shows "runs_ok d'"
  using assms by (intro runs_ok_frame [OF assms(1-3)]) (auto simp: find_run_def same_fold_columns_def)

text \<open>
  The refresh of a run whose row was open and whose history has just got its closing event: it
  succeeds, moves the row to the state the event names, and the table is in order again.
\<close>

definition closing_pending :: "db \<Rightarrow> uuid \<Rightarrow> event \<Rightarrow> bool" where
  "closing_pending d rid e \<longleftrightarrow>
     log_ok d \<and> distinct (map r_id (d_runs d)) \<and> is_closing_event e \<and>
     (\<exists>r. find_run d rid = Some r \<and> r_status r = RUNNING \<and> row_synced d r) \<and>
     (\<exists>front se. run_events d rid = front @ [se] \<and> stored se = e \<and>
        (\<forall>x \<in> set front. \<not> is_closing_event (stored x))) \<and>
     (\<forall>x r. x \<noteq> rid \<longrightarrow> find_run d x = Some r \<longrightarrow> row_ok d r)"

lemma closing_pending_append:
  assumes "runs_ok d" and r: "find_run d rid = Some r" "r_status r = RUNNING"
    and "is_closing_event e" and ap: "append_events_on_client now rid n [e] d = Inr (new, d')"
  shows "closing_pending d' rid e"
proof -
  have id: "r_id r = rid" using r(1) by (auto dest: find_run_Some)
  have ok: "row_ok d r" and log: "log_ok d" and dist: "distinct (map r_id (d_runs d'))"
    unfolding append_events_frame(1) [OF ap] using assms(1) r(1) by (auto simp: runs_ok_def)
  have "find_run d' rid = Some r" using r(1) by (simp add: append_events_frame [OF ap])
  moreover have "row_synced d' r" using row_synced_append [OF _ ap] ok by (simp add: row_ok_def)
  moreover have "run_events d' rid = run_events d rid @ [\<lparr>sequence_number = n + 1, stored = e, created_at = now\<rparr>]"
    using append_events_Inr(2,4) [OF ap] by simp
  moreover have "\<forall>x \<in> set (run_events d rid). \<not> is_closing_event (stored x)"
    using ok r(2) id by (simp add: row_ok_def)
  moreover have "\<forall>x rx. x \<noteq> rid \<longrightarrow> find_run d' x = Some rx \<longrightarrow> row_ok d' rx"
  proof (intro allI impI)
    fix x rx assume "x \<noteq> rid" "find_run d' x = Some rx"
    then have "find_run d x = Some rx" "r_id rx \<noteq> rid"
      by (auto simp: append_events_frame [OF ap] dest: find_run_Some)
    with assms(1) show "row_ok d' rx"
      by (intro row_ok_append_other [OF _ ap]) (auto simp: runs_ok_def)
  qed
  ultimately show ?thesis
    using append_events_log_ok [OF ap log] dist assms(4) r(2) by (auto simp: closing_pending_def)
qed

lemma refresh_closing:
  assumes "closing_pending d rid e"
  shows "\<exists>p. refresh_projection rid d = Inr (p, write_projection rid p d) \<and>
     Some (p_state p) = terminal_state_for e \<and> runs_ok (write_projection rid p d)"
proof -
  from assms obtain r where log: "log_ok d" and dist: "distinct (map r_id (d_runs d))" and close: "is_closing_event e"
    and r: "find_run d rid = Some r" "r_status r = RUNNING" and sync: "row_synced d r"
    and others: "\<And>x rx. x \<noteq> rid \<Longrightarrow> find_run d x = Some rx \<Longrightarrow> row_ok d rx"
    by (auto simp: closing_pending_def)
  from assms obtain front se where h: "run_events d rid = front @ [se]" "stored se = e"
    "\<forall>x \<in> set front. \<not> is_closing_event (stored x)"
    by (auto simp: closing_pending_def)
  have id: "r_id r = rid" using r(1) by (auto dest: find_run_Some)
  let ?k = "r_last_seq r - snapshot_seq d rid"
  let ?new = "drop ?k (run_events d rid)"
  have base: "snapshot_seq d rid \<le> r_last_seq r" "r_last_seq r \<le> snapshot_seq d rid + length (run_events d rid)"
    using row_synced_bound [OF sync] id by simp_all
  have reads: "read_events_on_client d rid (r_last_seq r) = ?new"
    using read_events_ok [OF log base(1)] by simp
  have "consecutive_from (snapshot_seq d rid + ?k) ?new"
    using log base by (intro consecutive_from_drop) (auto simp: log_ok_def)
  then have cons: "consecutive_from (p_last_seq (projection_from_row r)) ?new"
    using base by (simp add: projection_from_row_def)
  have "set (butlast ?new) \<subseteq> set front"
    unfolding h(1) by (auto simp: butlast_append drop_Cons' split: if_splits dest: in_set_dropD in_set_butlastD)
  then have nc: "\<forall>se \<in> set (butlast ?new). \<not> is_closing_event (stored se)"
    using h(3) by auto
  have "p_state (projection_from_row r) = RUNNING" using r(2) by (simp add: projection_from_row_def)
  from fold_run_events_state [OF this cons] nc
  obtain p where p: "fold_run_events ?new (projection_from_row r) = Inr p" by blast
  then have ref: "refresh_projection rid d = Inr (p, write_projection rid p d)"
    using r(1) reads by (simp add: refresh_projection_def fold_into_def Let_def projection_from_row_def)
  obtain r' where r': "find_run (write_projection rid p d) rid = Some r'"
    "row_synced (write_projection rid p d) r'" "projection_from_row r' = p"
    and last: "p_last_seq p = snapshot_seq d rid + length (run_events d rid)"
    using refresh_synced [OF log r(1) sync ref] by blast
  have "?k < length (run_events d rid)"
  proof (rule ccontr)
    assume "\<not> ?k < length (run_events d rid)"
    then have all: "r_last_seq r = snapshot_seq d rid + length (run_events d rid)" using base by linarith
    let ?start = "projection_start d rid"
    have "p_last_seq ?start = snapshot_seq d rid"
      using sync id by (simp add: row_synced_def Let_def)
    moreover have "r_last_seq r \<noteq> 0" using all h(1) by simp
    ultimately have "fold_run_events (run_events d rid) ?start = Inr (projection_from_row r)"
      using sync id all by (auto simp: row_synced_def Let_def)
    then obtain q where "fold_run_events front ?start = Inr q"
      "apply_event_to_projection q se = Inr (projection_from_row r)"
      unfolding h(1) by (auto simp: fold_run_events_append split: sum.splits)
    from apply_event_Inr(4) [OF this(2)] h(2) close r(2) show False
      by (cases e) (auto simp: projection_from_row_def)
  qed
  then obtain mid where mid: "?new = mid @ [se]"
    unfolding h(1) by (auto simp: drop_append)
  from p obtain q where "apply_event_to_projection q se = Inr p"
    unfolding mid by (auto simp: fold_run_events_append split: sum.splits)
  from apply_event_Inr(4) [OF this] h(2) close
  have st: "Some (p_state p) = terminal_state_for e" by (cases e) auto
  have "runs_ok (write_projection rid p d)"
  proof (rule runs_okI)
    show "log_ok (write_projection rid p d)" using log by (rule log_ok_frame) simp_all
    show "distinct (map r_id (d_runs (write_projection rid p d)))" using dist by simp
    fix x rx assume x: "find_run (write_projection rid p d) x = Some rx"
    show "row_ok (write_projection rid p d) rx"
    proof (cases "x = rid")
      case True
      with x r' have "rx = r'" by simp
      moreover have "r_status r' \<noteq> RUNNING"
        using r'(3) st close by (cases e) (auto simp: projection_from_row_def)
      ultimately show ?thesis using r'(2) by (simp add: row_ok_def)
    next
      case False
      with x have "find_run d x = Some rx" by (simp add: find_run_write_projection)
      then show ?thesis
        using row_ok_frame [OF others [OF False], of rx rx] by (simp add: same_fold_columns_def)
    qed
  qed
  with ref st show ?thesis by blast
qed

end
