(* ===== verification/Growth.thy ===== *)
theory Growth
  imports EventStore
begin

text \<open>
  What the engine's transactions have in common: the append at the current end of a history, the
  workflow task that wakes a run, and the relation \<open>extends\<close> every transaction but compaction
  stays within. \<open>engine_ok\<close> is the invariant the transactions keep.
\<close>

section \<open>Appending at the current end\<close>

definition append_at_current :: "time \<Rightarrow> uuid \<Rightarrow> event list \<Rightarrow> (engine_error, db, stored_event list) tx" where
  "append_at_current now rid es =
     (\<lambda>d. append_events_on_client now rid (read_current_sequence d rid) es d)"

definition insert_workflow_task :: "run_row \<Rightarrow> jsv \<Rightarrow> time \<Rightarrow> time \<Rightarrow> db \<Rightarrow> db" where
  "insert_workflow_task r payload visible now =
     insert_task (r_namespace r) (r_id r) (r_queue r) WORKFLOW_TASK payload visible now"

section \<open>What an operation may do to the runs\<close>

text \<open>
  Histories only grow, a closed run keeps its outcome and gets no further task, and no operation
  changes where a run belongs. Every operation of the engine except compaction stays within this relation.
\<close>

definition same_links :: "run_row \<Rightarrow> run_row \<Rightarrow> bool" where
  "same_links r r' \<longleftrightarrow> r_id r' = r_id r \<and> r_namespace r' = r_namespace r \<and>
     r_workflow_type r' = r_workflow_type r \<and> r_parent r' = r_parent r \<and>
     r_parent_child r' = r_parent_child r \<and> r_parent_policy r' = r_parent_policy r \<and>
     r_first_run r' = r_first_run r \<and> r_queue r' = r_queue r \<and> r_chain_index r' = r_chain_index r \<and>
     r_idempotency_key r' = r_idempotency_key r \<and> r_continued_from r' = r_continued_from r"

definition waiting_tasks :: "db \<Rightarrow> uuid \<Rightarrow> task_row set" where
  "waiting_tasks d rid = {t \<in> set (d_tasks d). t_run t = rid \<and> t_state t = TPENDING}"

text \<open>Results stay recorded, tasks and timers stay on the tables, timeouts stay positive.\<close>

definition task_keys :: "db \<Rightarrow> (uuid \<times> task_type \<times> jsv) set" where
  "task_keys d = (\<lambda>t. (t_run t, t_type t, t_payload t)) ` set (d_tasks d)"

definition timer_keys :: "db \<Rightarrow> (uuid \<times> string \<times> time) set" where
  "timer_keys d = (\<lambda>t. (tm_run t, tm_timer t, tm_fire_at t)) ` set (d_timers d)"

definition timeouts_ok :: "db \<Rightarrow> bool" where
  "timeouts_ok d \<longleftrightarrow> list_all (\<lambda>r. case r_run_timeout_ms r of None \<Rightarrow> True | Some n \<Rightarrow> 0 < n) (d_runs d)"

definition keeps :: "db \<Rightarrow> db \<Rightarrow> bool" where
  "keeps d d' \<longleftrightarrow>
     (\<exists>tail. d_step_results d' = d_step_results d @ tail) \<and>
     (\<exists>tail. d_task_results d' = d_task_results d @ tail) \<and>
     task_keys d \<subseteq> task_keys d' \<and> timer_keys d \<subseteq> timer_keys d' \<and>
     (timeouts_ok d \<longrightarrow> timeouts_ok d')"

lemma keeps_refl [simp]: "keeps d d"
  by (simp add: keeps_def)

lemma keeps_trans: "keeps a b \<Longrightarrow> keeps b c \<Longrightarrow> keeps a c"
  unfolding keeps_def by fastforce

lemma keeps_same_tables:
  "d_step_results d' = d_step_results d \<Longrightarrow> d_task_results d' = d_task_results d \<Longrightarrow>
   d_tasks d' = d_tasks d \<Longrightarrow> d_timers d' = d_timers d \<Longrightarrow> (timeouts_ok d \<Longrightarrow> timeouts_ok d') \<Longrightarrow> keeps d d'"
  by (simp add: keeps_def task_keys_def timer_keys_def)

lemma timeouts_ok_same_runs: "d_runs d' = d_runs d \<Longrightarrow> timeouts_ok d \<Longrightarrow> timeouts_ok d'"
  by (simp add: timeouts_ok_def)

definition extends :: "db \<Rightarrow> db \<Rightarrow> bool" where
  "extends d d' \<longleftrightarrow>
     d_snapshots d' = d_snapshots d \<and> keeps d d' \<and>
     d_next d \<le> d_next d' \<and>
     (\<forall>x. \<exists>tail. run_events d' x = run_events d x @ tail) \<and>
     (\<forall>x. run_events d' x = run_events d x \<or> find_run d' x \<noteq> None) \<and>
     (\<forall>x. find_run d x = None \<longrightarrow> find_run d' x \<noteq> None \<longrightarrow> d_next d \<le> x \<and> x < d_next d') \<and>
     (\<forall>x r. find_run d x = Some r \<longrightarrow>
        (\<exists>r'. find_run d' x = Some r' \<and> same_links r r' \<and>
           (r_status r \<noteq> RUNNING \<longrightarrow> projection_from_row r' = projection_from_row r))) \<and>
     (\<forall>x r. find_run d x = Some r \<longrightarrow> r_status r \<noteq> RUNNING \<longrightarrow>
        waiting_tasks d' x \<subseteq> waiting_tasks d x \<and> run_events d' x = run_events d x)"

lemma same_links_refl [simp]: "same_links r r"
  by (simp add: same_links_def)

lemma same_links_trans: "same_links a b \<Longrightarrow> same_links b c \<Longrightarrow> same_links a c"
  by (simp add: same_links_def)

lemma extends_refl [simp, intro]: "extends d d"
  by (auto simp: extends_def)

lemma extends_trans [trans]:
  assumes "extends a b" and "extends b c"
  shows "extends a c"
  unfolding extends_def
proof (intro conjI allI impI)
  show "d_snapshots c = d_snapshots a" using assms by (simp add: extends_def)
  have "keeps a b" "keeps b c" using assms by (simp_all add: extends_def)
  then show "keeps a c" by (rule keeps_trans)
  show "d_next a \<le> d_next c" using assms unfolding extends_def by linarith
  fix x
  show "run_events c x = run_events a x \<or> find_run c x \<noteq> None"
    using assms unfolding extends_def by (metis option.distinct(1) option.exhaust)
  from assms obtain t1 t2 where "run_events b x = run_events a x @ t1" "run_events c x = run_events b x @ t2"
    unfolding extends_def by metis
  then show "\<exists>tail. run_events c x = run_events a x @ tail" by simp
next
  fix x assume new: "find_run a x = None" "find_run c x \<noteq> None"
  have le: "d_next a \<le> d_next b" "d_next b \<le> d_next c" using assms by (simp_all add: extends_def)
  have "d_next a \<le> x \<and> x < d_next c"
  proof (cases "find_run b x")
    case None
    with new(2) assms(2) have "d_next b \<le> x \<and> x < d_next c" unfolding extends_def by blast
    with le show ?thesis by simp
  next
    case (Some r)
    with new(1) assms(1) have "d_next a \<le> x \<and> x < d_next b" unfolding extends_def by blast
    with le show ?thesis by simp
  qed
  then show "d_next a \<le> x" "x < d_next c" by simp_all
next
  fix x r assume "find_run a x = Some r"
  with assms(1) obtain r1 where r1: "find_run b x = Some r1" "same_links r r1"
    "r_status r \<noteq> RUNNING \<Longrightarrow> projection_from_row r1 = projection_from_row r"
    unfolding extends_def by blast
  with assms(2) obtain r2 where "find_run c x = Some r2" "same_links r1 r2"
    "r_status r1 \<noteq> RUNNING \<Longrightarrow> projection_from_row r2 = projection_from_row r1"
    unfolding extends_def by blast
  moreover have "r_status r1 = r_status r" if "projection_from_row r1 = projection_from_row r"
    using that by (simp add: projection_from_row_def)
  ultimately show "\<exists>r'. find_run c x = Some r' \<and> same_links r r' \<and>
      (r_status r \<noteq> RUNNING \<longrightarrow> projection_from_row r' = projection_from_row r)"
    using r1 by (metis same_links_trans)
next
  fix x r assume r: "find_run a x = Some r" "r_status r \<noteq> RUNNING"
  with assms(1) have "\<exists>r1. find_run b x = Some r1 \<and> r_status r1 \<noteq> RUNNING"
    unfolding extends_def by (metis projection_from_row_def run_projection.select_convs(1))
  then have "waiting_tasks c x \<subseteq> waiting_tasks b x" "run_events c x = run_events b x"
    using assms(2) unfolding extends_def by blast+
  moreover have "waiting_tasks b x \<subseteq> waiting_tasks a x" "run_events b x = run_events a x"
    using r assms(1) unfolding extends_def by blast+
  ultimately show "waiting_tasks c x \<subseteq> waiting_tasks a x" "run_events c x = run_events a x" by auto
qed

lemma extends_closed:
  assumes "extends d d'" and "find_run d x = Some r" and "r_status r \<noteq> RUNNING"
  shows "\<exists>r'. find_run d' x = Some r' \<and> r_status r' = r_status r"
  using assms unfolding extends_def by (metis projection_from_row_def run_projection.select_convs(1))

lemma extends_waiting:
  "extends d d' \<Longrightarrow> find_run d x = Some r \<Longrightarrow> r_status r \<noteq> RUNNING \<Longrightarrow> waiting_tasks d' x \<subseteq> waiting_tasks d x"
  unfolding extends_def by blast

lemma extends_frozen:
  "extends d d' \<Longrightarrow> find_run d x = Some r \<Longrightarrow> r_status r \<noteq> RUNNING \<Longrightarrow> run_events d' x = run_events d x"
  unfolding extends_def by blast

lemma extends_append:
  assumes "append_events_on_client now rid n es d = Inr (new, d')"
    and "find_run d rid = Some q" and "r_status q = RUNNING"
  shows "extends d d'"
proof -
  have "run_events d' x = run_events d x \<or> find_run d x \<noteq> None" for x
    using append_events_Inr(2,4,5) [OF assms(1)] by (cases "es = []") auto
  moreover have "keeps d d'"
    using timeouts_ok_same_runs [of d' d]
    by (intro keeps_same_tables) (simp_all add: append_events_frame [OF assms(1)])
  moreover have "run_events d' x = run_events d x" if "find_run d x = Some r" "r_status r \<noteq> RUNNING" for x r
    using append_events_Inr(4) [OF assms(1), of x] that assms(2,3) by (cases "x = rid") auto
  ultimately show ?thesis
    using append_events_Inr(4) [OF assms(1)]
    by (simp add: extends_def append_events_frame [OF assms(1)] waiting_tasks_def)
qed

lemma extends_same_runs:
  assumes "d_runs d' = d_runs d" and "d_events d' = d_events d" and "d_snapshots d' = d_snapshots d"
    and "d_next d \<le> d_next d'" and "keeps d d'"
    and "\<And>x r. find_run d x = Some r \<Longrightarrow> r_status r \<noteq> RUNNING \<Longrightarrow> waiting_tasks d' x \<subseteq> waiting_tasks d x"
  shows "extends d d'"
  using assms by (simp add: extends_def run_events_def find_run_def)

lemma extends_write_projection:
  assumes "find_run d rid = Some r" and "r_status r = RUNNING"
  shows "extends d (write_projection rid p d)"
proof -
  have "keeps d (write_projection rid p d)"
    by (rule keeps_same_tables) (auto simp: timeouts_ok_def write_projection_def update_run_def list_all_iff)
  with assms show ?thesis
    by (auto simp: extends_def run_events_def find_run_write_projection same_links_def waiting_tasks_def)
qed

section \<open>Appending and waking a run\<close>

lemma append_at_current_ok:
  assumes "runs_ok d" and "find_run d rid \<noteq> None"
  shows "\<exists>new d'. append_at_current now rid es d = Inr (new, d') \<and>
     append_events_on_client now rid (read_current_sequence d rid) es d = Inr (new, d')"
  using append_events_ok [of d rid "read_current_sequence d rid" now es] assms
  by (auto simp: append_at_current_def runs_ok_def)

lemma insert_workflow_task_frame [simp]:
  "d_runs (insert_workflow_task r p v now d) = d_runs d"
  "d_events (insert_workflow_task r p v now d) = d_events d"
  "d_snapshots (insert_workflow_task r p v now d) = d_snapshots d"
  by (simp_all add: insert_workflow_task_def)

text \<open>An append of one event that closes nothing, followed by a workflow task for the run.\<close>

lemma append_and_wake_ok:
  assumes ok: "runs_ok d" and q: "find_run d rid = Some q" "r_status q = RUNNING" and e: "\<not> is_closing_event e"
  shows "\<exists>new d'. append_at_current now rid [e] d = Inr (new, d') \<and> d_runs d' = d_runs d \<and>
     runs_ok (insert_workflow_task q p v now' d') \<and> extends d (insert_workflow_task q p v now' d') \<and>
     run_events (insert_workflow_task q p v now' d') rid = run_events d rid @ new \<and> map stored new = [e]"
proof -
  obtain new d' where ap: "append_at_current now rid [e] d = Inr (new, d')"
    "append_events_on_client now rid (read_current_sequence d rid) [e] d = Inr (new, d')"
    using append_at_current_ok [OF ok] q(1) by blast
  let ?d = "insert_workflow_task q p v now' d'"
  have "runs_ok d'" using e by (intro runs_ok_append [OF ok ap(2)]) auto
  then have "runs_ok ?d" by (rule runs_ok_same_runs) simp_all
  moreover have "extends d ?d"
  proof -
    have "waiting_tasks ?d x \<subseteq> waiting_tasks d' x" if "find_run d' x = Some r" "r_status r \<noteq> RUNNING" for x r
    proof -
      have "r_id q = rid" using q(1) by (auto dest: find_run_Some)
      moreover from this have "x \<noteq> r_id q" using that q by (auto simp: append_events_frame [OF ap(2)])
      ultimately show ?thesis by (auto simp: waiting_tasks_def insert_workflow_task_def new_task_def)
    qed
    moreover have "keeps d' ?d"
      by (auto simp: keeps_def task_keys_def timer_keys_def insert_workflow_task_def timeouts_ok_def)
    ultimately have "extends d' ?d" by (intro extends_same_runs) (simp_all add: insert_workflow_task_def)
    with extends_append [OF ap(2) q] show ?thesis by (rule extends_trans)
  qed
  moreover have "run_events ?d rid = run_events d rid @ new"
    using append_events_Inr(4) [OF ap(2), of rid] by (simp add: run_events_def)
  moreover have "map stored new = [e]"
    by (simp add: append_events_Inr(2) [OF ap(2)])
  moreover have "d_runs d' = d_runs d" by (rule append_events_frame(1) [OF ap(2)])
  ultimately show ?thesis
    using ap(1) by (intro exI [of _ new] exI [of _ d'] conjI) simp_all
qed

section \<open>Unused ids\<close>

text \<open>An id the supply has not given out names nothing.\<close>

definition fresh_ok :: "db \<Rightarrow> bool" where
  "fresh_ok d \<longleftrightarrow> (\<forall>x. d_next d \<le> x \<longrightarrow>
     find_run d x = None \<and> run_events d x = [] \<and> find_snapshot d x = None)"

definition engine_ok :: "db \<Rightarrow> bool" where
  "engine_ok d \<longleftrightarrow> runs_ok d \<and> fresh_ok d \<and> timeouts_ok d"

text \<open>What the rows themselves do not matter to.\<close>

definition base_ok :: "db \<Rightarrow> bool" where
  "base_ok d \<longleftrightarrow> log_ok d \<and> distinct (map r_id (d_runs d)) \<and> fresh_ok d \<and> timeouts_ok d"

lemma engine_ok_base: "engine_ok d \<Longrightarrow> base_ok d"
  by (simp add: engine_ok_def base_ok_def runs_ok_def)

lemma fresh_ok_extends:
  assumes "fresh_ok d" and "extends d d'"
  shows "fresh_ok d'"
  unfolding fresh_ok_def
proof (intro allI impI)
  fix x assume x: "d_next d' \<le> x"
  have le: "d_next d \<le> d_next d'" using assms(2) by (simp add: extends_def)
  with x assms(1) have old: "find_run d x = None" "run_events d x = []" "find_snapshot d x = None"
    by (auto simp: fresh_ok_def)
  have none: "find_run d' x = None"
  proof (rule ccontr)
    assume "find_run d' x \<noteq> None"
    with old(1) assms(2) have "x < d_next d'" unfolding extends_def by blast
    with x show False by simp
  qed
  have "run_events d' x = run_events d x" using assms(2) none unfolding extends_def by blast
  moreover have "find_snapshot d' x = find_snapshot d x"
    using assms(2) by (simp add: extends_def find_snapshot_def)
  ultimately show "find_run d' x = None \<and> run_events d' x = [] \<and> find_snapshot d' x = None"
    using none old by simp
qed

lemma engine_okI [inv_intros]: "runs_ok d' \<Longrightarrow> extends d d' \<Longrightarrow> engine_ok d \<Longrightarrow> engine_ok d'"
  using fresh_ok_extends by (auto simp: engine_ok_def extends_def keeps_def)

lemma engine_ok_empty [simp]: "engine_ok empty_db"
  by (simp add: engine_ok_def runs_ok_def log_ok_def fresh_ok_def run_events_def find_run_def
      find_snapshot_def empty_db_def snapshot_seq_def timeouts_ok_def)

end
