(* ===== verification/CloseRun.thy ===== *)
theory CloseRun
  imports Growth
begin

text \<open>
  Closing a run and what it sets off: the outcome in the parent's history, the close policy of
  the open children, the withdrawal of the waiting tasks
  (\<open>packages/core/src/cancellation/close-run.ts\<close>), the graceful cancellation request
  (\<open>cancellation/request-cancellation.ts\<close>), the control operations
  (\<open>cancellation/run-control.ts\<close>) and the run timeouts (\<open>timeouts/run-timeouts.ts\<close>).

  \<open>closeRunIfTerminal\<close> calls itself for the children a closing parent terminates. The model gives
  that recursion a fuel; \<open>close_run_if_terminal\<close> starts it with the number of open runs plus
  two, and \<open>close_run_fuel_enough\<close> shows that this is never used up: every nested call closes a run
  that was open.
\<close>

section \<open>Cancellation requests\<close>

definition is_cancel_requested :: "event \<Rightarrow> bool" where
  "is_cancel_requested e = (case e of CancelRequested _ \<Rightarrow> True | _ \<Rightarrow> False)"

definition request_cancellation_on_client ::
    "time \<Rightarrow> run_row \<Rightarrow> string option \<Rightarrow> (engine_error, db, bool \<times> nat) tx" where
  "request_cancellation_on_client now r reason = (\<lambda>d.
     case find (\<lambda>se. is_cancel_requested (stored se)) (read_events_on_client d (r_id r) 0) of
       Some pending \<Rightarrow> Inr ((False, sequence_number pending), d)
     | None \<Rightarrow>
         andThen (append_at_current now (r_id r) [CancelRequested reason])
           (\<lambda>new. andThen
              (modify (insert_workflow_task r (VObj [(''reason'', VStr ''cancel'')]) now now))
              (\<lambda>_. ret (True, case new of [] \<Rightarrow> read_current_sequence d (r_id r) + 1
                              | se # _ \<Rightarrow> sequence_number se))) d)"

section \<open>Closing\<close>

definition child_outcome_event :: "string \<Rightarrow> run_state \<Rightarrow> run_projection \<Rightarrow> event" where
  "child_outcome_event cid st p =
     (case st of
        COMPLETED \<Rightarrow> ChildCompleted cid (p_result p)
      | FAILED \<Rightarrow> ChildFailed cid
          (optional (p_error p) (RecordedError ''Error'' ''child workflow failed'' VUndef None))
      | TIMED_OUT \<Rightarrow> ChildFailed cid
          (RecordedError ''TimedOutError'' ''child workflow timed out'' VUndef None)
      | CANCELLED \<Rightarrow> ChildFailed cid
          (RecordedError ''CancelledError'' ''child workflow was cancelled'' VUndef None)
      | _ \<Rightarrow> ChildFailed cid
          (RecordedError ''TerminatedError'' ''child workflow was terminated'' VUndef None))"

text \<open>The run's parent and the child id it has there: its own, or that of the head of its chain.\<close>

definition child_link :: "db \<Rightarrow> uuid \<Rightarrow> (uuid \<times> string) option" where
  "child_link d rid =
     (case find_run d rid of
        None \<Rightarrow> None
      | Some run \<Rightarrow>
          (case find_run d (r_first_run run) of
             None \<Rightarrow> None
           | Some head \<Rightarrow>
               (case r_parent run of
                  None \<Rightarrow> None
                | Some prid \<Rightarrow>
                    (case r_parent_child run of
                       Some cid \<Rightarrow> Some (prid, cid)
                     | None \<Rightarrow> map_option (Pair prid) (r_parent_child head)))))"

definition notify_parent :: "time \<Rightarrow> uuid \<Rightarrow> run_projection \<Rightarrow> (engine_error, db, unit) tx" where
  "notify_parent now rid p = (\<lambda>d.
     if p_state p = CONTINUED_AS_NEW then Inr ((), d)
     else case child_link d rid of
       None \<Rightarrow> Inr ((), d)
     | Some (prid, cid) \<Rightarrow>
         (case find_run d prid of
            None \<Rightarrow> Inr ((), d)
          | Some parent \<Rightarrow>
              if r_status parent \<noteq> RUNNING then Inr ((), d)
              else andThen (append_at_current now prid [child_outcome_event cid (p_state p) p])
                (\<lambda>_. modify (insert_workflow_task parent
                   (VObj [(''reason'', VStr ''child_closed''), (''childId'', VStr cid)]) now now)) d))"

definition withdraw_tasks :: "time \<Rightarrow> uuid \<Rightarrow> db \<Rightarrow> db" where
  "withdraw_tasks now rid d =
     d\<lparr>d_tasks := map (\<lambda>t. if t_run t = rid \<and> t_state t = TPENDING
         then t\<lparr>t_state := TCOMPLETED, t_updated_at := now\<rparr> else t) (d_tasks d)\<rparr>"

definition open_children :: "db \<Rightarrow> uuid \<Rightarrow> run_row list" where
  "open_children d rid =
     sort_key r_id (filter (\<lambda>r. r_parent r = Some rid \<and> r_status r = RUNNING) (d_runs d))"

text \<open>
  The refresh inside the transaction, \<open>refreshProjectionOnClient\<close>, folds the events after the
  row's number onto the row, as \<open>refresh_projection\<close> does.
\<close>

definition apply_close_policy ::
    "(uuid \<Rightarrow> (engine_error, db, run_state) tx) \<Rightarrow> time \<Rightarrow> run_row \<Rightarrow> (engine_error, db, unit) tx" where
  "apply_close_policy close now child =
     (case r_parent_policy child of
        Some PolicyCancel \<Rightarrow>
          andThen (request_cancellation_on_client now child (Some ''parent run closed'')) (\<lambda>_. ret ())
      | Some PolicyTerminate \<Rightarrow>
          andThen (append_at_current now (r_id child) [RunTerminated (Some ''parent run closed'')])
            (\<lambda>_. andThen (close (r_id child)) (\<lambda>_. ret ()))
      | _ \<Rightarrow> ret ())"

definition apply_parent_close_policies ::
    "(uuid \<Rightarrow> (engine_error, db, run_state) tx) \<Rightarrow> time \<Rightarrow> uuid \<Rightarrow> (engine_error, db, unit) tx" where
  "apply_parent_close_policies close now rid =
     (\<lambda>d. for_each (open_children d rid) (apply_close_policy close now) d)"

fun close_run :: "nat \<Rightarrow> time \<Rightarrow> uuid \<Rightarrow> (engine_error, db, run_state) tx" where
  "close_run 0 now rid = raise (UsageError ''close_run: out of fuel'')"
| "close_run (Suc fuel) now rid =
     andThen (refresh_projection rid) (\<lambda>p.
       if is_terminal_state (p_state p)
       then andThen (modify (withdraw_tasks now rid)) (\<lambda>_.
            andThen (notify_parent now rid p) (\<lambda>_.
            andThen (apply_parent_close_policies (\<lambda>x. close_run fuel now x) now rid) (\<lambda>_.
            ret (p_state p))))
       else ret (p_state p))"

definition running_count :: "db \<Rightarrow> nat" where
  "running_count d = length (filter (\<lambda>r. r_status r = RUNNING) (d_runs d))"

definition close_run_if_terminal :: "time \<Rightarrow> uuid \<Rightarrow> (engine_error, db, run_state) tx" where
  "close_run_if_terminal now rid = (\<lambda>d. close_run (running_count d + 2) now rid d)"

section \<open>Control operations\<close>

definition cancel_run :: "time \<Rightarrow> uuid \<Rightarrow> string option \<Rightarrow> (engine_error, db, bool \<times> nat) tx" where
  "cancel_run now rid reason = (\<lambda>d.
     case find_run d rid of
       None \<Rightarrow> Inl (RunNotFoundError rid)
     | Some r \<Rightarrow>
         if r_status r \<noteq> RUNNING then Inl (UsageError ''RunAlreadyClosedError'')
         else request_cancellation_on_client now r reason d)"

definition terminate_run :: "time \<Rightarrow> uuid \<Rightarrow> string option \<Rightarrow> (engine_error, db, nat) tx" where
  "terminate_run now rid reason = (\<lambda>d.
     case find_run d rid of
       None \<Rightarrow> Inl (RunNotFoundError rid)
     | Some r \<Rightarrow>
         if r_status r \<noteq> RUNNING then Inl (UsageError ''RunAlreadyClosedError'')
         else andThen (append_at_current now rid [RunTerminated reason]) (\<lambda>new.
              andThen (close_run_if_terminal now rid) (\<lambda>_.
              ret (case new of [] \<Rightarrow> read_current_sequence d rid + 1
                   | se # _ \<Rightarrow> sequence_number se))) d)"

section \<open>Run timeouts\<close>

definition RUN_TIMEOUT_TIMER_ID :: string where
  "RUN_TIMEOUT_TIMER_ID = ''run-timeout''"

definition EXECUTION_TIMEOUT_TIMER_ID :: string where
  "EXECUTION_TIMEOUT_TIMER_ID = ''execution-timeout''"

definition is_timeout_timer_id :: "string \<Rightarrow> bool" where
  "is_timeout_timer_id tid \<longleftrightarrow> tid = RUN_TIMEOUT_TIMER_ID \<or> tid = EXECUTION_TIMEOUT_TIMER_ID"

definition validate_timeout_ms :: "string \<Rightarrow> rat option \<Rightarrow> engine_error + int option" where
  "validate_timeout_ms name v =
     (case v of
        None \<Rightarrow> Inr None
      | Some q \<Rightarrow> if q \<le> 0 then Inl (RangeError name) else Inr (Some \<lceil>q\<rceil>))"

text \<open>\<open>insert into timers \<dots> on conflict (run_id, timer_id) do nothing\<close>\<close>

definition insert_timer_on_client :: "uuid \<Rightarrow> string \<Rightarrow> time \<Rightarrow> db \<Rightarrow> bool \<times> db" where
  "insert_timer_on_client rid tid fire_at d =
     (if \<exists>t \<in> set (d_timers d). tm_run t = rid \<and> tm_timer t = tid then (False, d)
      else (True, d\<lparr>d_next := Suc (d_next d),
              d_timers := d_timers d @ [\<lparr>tm_id = d_next d, tm_run = rid, tm_timer = tid,
                tm_fire_at = fire_at, tm_state = TimerPending, tm_fired_at = None\<rparr>]\<rparr>))"

definition apply_run_timeouts_on_client ::
    "uuid \<Rightarrow> time \<Rightarrow> rat option \<Rightarrow> rat option \<Rightarrow> time option \<Rightarrow> (engine_error, db, unit) tx" where
  "apply_run_timeouts_on_client rid started_at run_timeout execution_timeout deadline = (\<lambda>d.
     case validate_timeout_ms ''runTimeoutMs'' run_timeout of Inl e \<Rightarrow> Inl e | Inr run_ms \<Rightarrow>
     case validate_timeout_ms ''executionTimeoutMs'' execution_timeout of Inl e \<Rightarrow> Inl e | Inr exec_ms \<Rightarrow>
     let execution_deadline = (case deadline of Some t \<Rightarrow> Some t
           | None \<Rightarrow> map_option (\<lambda>ms. started_at + ms) exec_ms) in
     if run_ms = None \<and> execution_deadline = None then Inr ((), d)
     else
       let d1 = update_run rid (\<lambda>r. r\<lparr>r_run_timeout_ms := run_ms,
             r_execution_deadline := execution_deadline\<rparr>) d;
           d2 = (case run_ms of None \<Rightarrow> d1
             | Some ms \<Rightarrow> snd (insert_timer_on_client rid RUN_TIMEOUT_TIMER_ID (started_at + ms) d1));
           d3 = (case execution_deadline of None \<Rightarrow> d2
             | Some t \<Rightarrow> snd (insert_timer_on_client rid EXECUTION_TIMEOUT_TIMER_ID t d2))
       in Inr ((), d3))"

definition time_out_run_on_client :: "time \<Rightarrow> uuid \<Rightarrow> string \<Rightarrow> (engine_error, db, bool) tx" where
  "time_out_run_on_client now rid tid = (\<lambda>d.
     case find_run d rid of
       None \<Rightarrow> Inr (False, d)
     | Some r \<Rightarrow>
         if is_terminal_state (r_status r) then Inr (False, d)
         else andThen (append_at_current now rid
                [RunTimedOut (Some (if tid = EXECUTION_TIMEOUT_TIMER_ID then ExecutionTimeout else RunTimeout))])
              (\<lambda>_. andThen (close_run_if_terminal now rid) (\<lambda>_. ret True)) d)"

section \<open>Closing always succeeds\<close>

text \<open>Where nothing closes, the count of open runs stays.\<close>

lemma running_count_same: "d_runs d' = d_runs d \<Longrightarrow> running_count d' = running_count d"
  by (simp add: running_count_def)

lemma request_cancellation_ok:
  assumes ok: "runs_ok d" and r: "find_run d (r_id c) = Some c" "r_status c = RUNNING"
  shows "\<exists>res d'. request_cancellation_on_client now c reason d = Inr (res, d') \<and> runs_ok d' \<and>
     extends d d' \<and> d_runs d' = d_runs d \<and>
     list_ex (\<lambda>se. is_cancel_requested (stored se)) (run_events d' (r_id c))"
proof (cases "find (\<lambda>se. is_cancel_requested (stored se)) (read_events_on_client d (r_id c) 0)")
  case (Some se)
  then have "se \<in> set (read_events_on_client d (r_id c) 0)" "is_cancel_requested (stored se)"
    by (auto simp: find_Some_iff)
  then have "list_ex (\<lambda>se. is_cancel_requested (stored se)) (run_events d (r_id c))"
    by (auto simp: read_events_on_client_def list_ex_iff)
  with Some ok show ?thesis by (auto simp: request_cancellation_on_client_def)
next
  case None
  from append_and_wake_ok [OF ok r, of "CancelRequested reason" now
      "VObj [(''reason'', VStr ''cancel'')]" now now]
  obtain new d' where ap: "append_at_current now (r_id c) [CancelRequested reason] d = Inr (new, d')"
    "d_runs d' = d_runs d"
    "runs_ok (insert_workflow_task c (VObj [(''reason'', VStr ''cancel'')]) now now d')"
    "extends d (insert_workflow_task c (VObj [(''reason'', VStr ''cancel'')]) now now d')"
    "run_events (insert_workflow_task c (VObj [(''reason'', VStr ''cancel'')]) now now d') (r_id c)
       = run_events d (r_id c) @ new" "map stored new = [CancelRequested reason]"
    by auto
  from ap(6) have "list_ex (\<lambda>se. is_cancel_requested (stored se)) new"
    by (auto simp: is_cancel_requested_def)
  with None ap show ?thesis by (auto simp: request_cancellation_on_client_def andThen_def)
qed

lemma notify_parent_ok:
  assumes ok: "runs_ok d"
  shows "\<exists>d'. notify_parent now rid p d = Inr ((), d') \<and> runs_ok d' \<and> extends d d' \<and> d_runs d' = d_runs d"
proof -
  have stay: "\<exists>d'. Inr ((), d) = Inr ((), d') \<and> runs_ok d' \<and> extends d d' \<and> d_runs d' = d_runs d"
    using ok by auto
  show ?thesis
  proof (cases "p_state p = CONTINUED_AS_NEW \<or> child_link d rid = None")
    case True
    then show ?thesis using stay by (auto simp: notify_parent_def)
  next
    case False
    then obtain prid cid where link: "child_link d rid = Some (prid, cid)" "p_state p \<noteq> CONTINUED_AS_NEW"
      by auto
    show ?thesis
    proof (cases "find_run d prid")
      case None
      with link stay show ?thesis by (simp add: notify_parent_def)
    next
      case (Some parent)
      show ?thesis
      proof (cases "r_status parent = RUNNING")
        case False
        with Some link stay show ?thesis by (simp add: notify_parent_def)
      next
        case True
        let ?e = "child_outcome_event cid (p_state p) p"
        let ?p = "VObj [(''reason'', VStr ''child_closed''), (''childId'', VStr cid)]"
        have "\<not> is_closing_event ?e" by (simp add: child_outcome_event_def split: run_state.splits)
        from append_and_wake_ok [OF ok Some True this, of now ?p now now]
        obtain new d' where "append_at_current now prid [?e] d = Inr (new, d')" "d_runs d' = d_runs d"
          "runs_ok (insert_workflow_task parent ?p now now d')"
          "extends d (insert_workflow_task parent ?p now now d')"
          by auto
        with link Some True show ?thesis by (simp add: notify_parent_def andThen_def)
      qed
    qed
  qed
qed

lemma withdraw_tasks_frame [simp]:
  "d_runs (withdraw_tasks now rid d) = d_runs d" "d_events (withdraw_tasks now rid d) = d_events d"
  "d_snapshots (withdraw_tasks now rid d) = d_snapshots d"
  "find_run (withdraw_tasks now rid d) x = find_run d x"
  by (simp_all add: withdraw_tasks_def find_run_def)

lemma task_keys_withdrawn: "task_keys (withdraw_tasks now rid d) = task_keys d"
proof -
  define w where "w = (\<lambda>t :: task_row. if t_run t = rid \<and> t_state t = TPENDING
    then t\<lparr>t_state := TCOMPLETED, t_updated_at := now\<rparr> else t)"
  have same: "(t_run (w u), t_type (w u), t_payload (w u)) = (t_run u, t_type u, t_payload u)" for u
    by (simp add: w_def)
  have "d_tasks (withdraw_tasks now rid d) = map w (d_tasks d)" by (simp add: withdraw_tasks_def w_def)
  then have "set (d_tasks (withdraw_tasks now rid d)) = w ` set (d_tasks d)" by (simp only: set_map)
  then show ?thesis by (simp only: task_keys_def image_image same)
qed

lemma waiting_withdrawn: "waiting_tasks (withdraw_tasks now rid d) rid = {}"
proof -
  define w where "w = (\<lambda>t :: task_row. if t_run t = rid \<and> t_state t = TPENDING
    then t\<lparr>t_state := TCOMPLETED, t_updated_at := now\<rparr> else t)"
  have all: "t_run (w u) = rid \<Longrightarrow> t_state (w u) \<noteq> TPENDING" for u by (simp add: w_def split: if_splits)
  have "d_tasks (withdraw_tasks now rid d) = map w (d_tasks d)" by (simp add: withdraw_tasks_def w_def)
  then have "set (d_tasks (withdraw_tasks now rid d)) = w ` set (d_tasks d)" by (simp only: set_map)
  with all have "\<forall>t \<in> set (d_tasks (withdraw_tasks now rid d)). t_run t = rid \<longrightarrow> t_state t \<noteq> TPENDING"
    by simp
  then show ?thesis unfolding waiting_tasks_def by simp
qed

lemma running_count_write_projection:
  assumes "find_run d rid = Some r" and "r_status r = RUNNING" and "p_state p \<noteq> RUNNING"
  shows "running_count (write_projection rid p d) < running_count d"
proof -
  let ?f = "\<lambda>r. if r_id r = rid then r\<lparr>r_status := p_state p, r_input := p_input p,
      r_result := p_result p, r_error := p_error p, r_closed_at := p_closed_at p,
      r_last_seq := p_last_seq p\<rparr> else r"
  have le: "length (filter (\<lambda>r. r_status r = RUNNING) (map ?f rs)) \<le>
      length (filter (\<lambda>r. r_status r = RUNNING) rs)" for rs
    using assms(3) by (induction rs) auto
  have lt: "find (\<lambda>r. r_id r = rid) rs = Some r \<Longrightarrow>
      length (filter (\<lambda>r. r_status r = RUNNING) (map ?f rs)) < length (filter (\<lambda>r. r_status r = RUNNING) rs)" for rs
  proof (induction rs)
    case Nil
    then show ?case by simp
  next
    case (Cons x rs)
    then show ?case using assms(2,3) le [of rs] by (auto split: if_splits simp: less_Suc_eq_le)
  qed
  show ?thesis
    using lt [of "d_runs d"] assms(1)
    by (simp add: running_count_def write_projection_def update_run_def find_run_def)
qed

text \<open>
  A run the cascade cannot reach keeps its row: it is not the run being closed, and its parent,
  if it has one, is neither that run nor open.
\<close>

definition sheltered :: "db \<Rightarrow> uuid \<Rightarrow> run_row \<Rightarrow> bool" where
  "sheltered d rid r \<longleftrightarrow> r_id r \<noteq> rid \<and>
     (\<forall>z. r_parent r = Some z \<longrightarrow>
        z \<noteq> rid \<and> (\<exists>rz. find_run d z = Some rz \<and> r_status rz \<noteq> RUNNING))"

lemma sheltered_extends: "sheltered d rid r \<Longrightarrow> extends d d' \<Longrightarrow> sheltered d' rid r"
  unfolding sheltered_def by (metis extends_closed)

text \<open>What the close policy of a child asks for has happened to it.\<close>

definition policy_done :: "db \<Rightarrow> run_row \<Rightarrow> bool" where
  "policy_done d c =
     (case r_parent_policy c of
        Some PolicyTerminate \<Rightarrow> (\<exists>r. find_run d (r_id c) = Some r \<and> r_status r = TERMINATED)
      | Some PolicyCancel \<Rightarrow> list_ex (\<lambda>se. is_cancel_requested (stored se)) (run_events d (r_id c))
      | _ \<Rightarrow> True)"

lemma policy_done_extends:
  assumes before: "policy_done d c" and ext: "extends d d'"
  shows "policy_done d' c"
proof (cases "r_parent_policy c")
  case (Some pol)
  obtain tail where "run_events d' (r_id c) = run_events d (r_id c) @ tail"
    using ext unfolding extends_def by blast
  with Some before extends_closed [OF ext] show ?thesis
    by (cases pol) (fastforce simp: policy_done_def)+
qed (simp add: policy_done_def)

definition closes_ok :: "time \<Rightarrow> db \<Rightarrow> uuid \<Rightarrow> event \<Rightarrow> run_state \<Rightarrow> db \<Rightarrow> bool" where
  "closes_ok now d rid e st d' \<longleftrightarrow>
     runs_ok d' \<and> extends d d' \<and> running_count d' < running_count d \<and>
     terminal_state_for e = Some st \<and>
     (\<exists>r. find_run d' rid = Some r \<and> r_status r = st) \<and> waiting_tasks d' rid = {} \<and>
     run_events d' rid = run_events d rid \<and>
     (\<forall>c. find_run d (r_id c) = Some c \<longrightarrow> r_status c = RUNNING \<longrightarrow> r_parent c = Some rid \<longrightarrow>
        r_id c \<noteq> rid \<longrightarrow> policy_done d' c) \<and>
     (\<forall>x r. find_run d x = Some r \<longrightarrow> sheltered d rid r \<longrightarrow> find_run d' x = Some r)"

text \<open>The state between two children of a closing parent.\<close>

definition cascade_state :: "nat \<Rightarrow> uuid \<Rightarrow> run_row list \<Rightarrow> db \<Rightarrow> bool" where
  "cascade_state bound rid cs d \<longleftrightarrow>
     runs_ok d \<and> running_count d \<le> bound \<and>
     (\<exists>r. find_run d rid = Some r \<and> r_status r \<noteq> RUNNING) \<and>
     (\<forall>c \<in> set cs. find_run d (r_id c) = Some c \<and> r_status c = RUNNING \<and> r_parent c = Some rid)"

lemma cascade_step:
  assumes st: "cascade_state bound rid (c # cs) d" and dist: "r_id c \<notin> r_id ` set cs"
    and close: "\<And>d1 e. closing_pending d1 (r_id c) e \<Longrightarrow> running_count d1 \<le> bound \<Longrightarrow>
       \<exists>s d2. close (r_id c) d1 = Inr (s, d2) \<and> closes_ok now d1 (r_id c) e s d2"
  shows "\<exists>d'. apply_close_policy close now c d = Inr ((), d') \<and> cascade_state bound rid cs d' \<and>
     extends d d' \<and> policy_done d' c \<and>
     (\<forall>x r. find_run d x = Some r \<longrightarrow> sheltered d rid r \<longrightarrow> find_run d' x = Some r)"
proof -
  from st have ok: "runs_ok d" and cnt: "running_count d \<le> bound"
    and c: "find_run d (r_id c) = Some c" "r_status c = RUNNING" "r_parent c = Some rid"
    and rest: "\<And>u. u \<in> set cs \<Longrightarrow> find_run d (r_id u) = Some u \<and> r_status u = RUNNING \<and> r_parent u = Some rid"
    unfolding cascade_state_def by simp_all
  obtain rr where rr: "find_run d rid = Some rr" "r_status rr \<noteq> RUNNING"
    using st unfolding cascade_state_def by blast
  have quiet: ?thesis if "apply_close_policy close now c d = Inr ((), d')" "runs_ok d'"
      "extends d d'" "d_runs d' = d_runs d" "policy_done d' c" for d'
  proof (intro exI [of _ d'] conjI allI impI)
    have "find_run d' = find_run d" using that(4) by (simp add: find_run_def fun_eq_iff)
    then show "cascade_state bound rid cs d'" and "find_run d x = Some r \<Longrightarrow> find_run d' x = Some r" for x r
      using that(2,4) st running_count_same [OF that(4)] by (auto simp: cascade_state_def)
  qed (rule that)+
  show ?thesis
  proof (cases "r_parent_policy c")
    case None
    then show ?thesis using ok by (intro quiet [of d]) (simp_all add: apply_close_policy_def policy_done_def)
  next
    case (Some pol)
    show ?thesis
    proof (cases pol)
      case PolicyAbandon
      with Some ok show ?thesis
        by (intro quiet [of d]) (simp_all add: apply_close_policy_def policy_done_def)
    next
      case PolicyCancel
      from request_cancellation_ok [OF ok, of c now "Some ''parent run closed''"] c
      obtain res d' where "request_cancellation_on_client now c (Some ''parent run closed'') d = Inr (res, d')"
        "runs_ok d'" "extends d d'" "d_runs d' = d_runs d"
        "list_ex (\<lambda>se. is_cancel_requested (stored se)) (run_events d' (r_id c))" by auto
      with Some PolicyCancel show ?thesis
        by (intro quiet [of d']) (simp_all add: apply_close_policy_def policy_done_def)
    next
      case PolicyTerminate
      let ?e = "RunTerminated (Some ''parent run closed'')"
      from append_at_current_ok [OF ok, of "r_id c" now "[?e]"] c
      obtain new d1 where ap: "append_at_current now (r_id c) [?e] d = Inr (new, d1)"
        "append_events_on_client now (r_id c) (read_current_sequence d (r_id c)) [?e] d = Inr (new, d1)"
        by auto
      have "closing_pending d1 (r_id c) ?e"
        using closing_pending_append [OF ok c(1,2) _ ap(2)] by simp
      moreover have runs1: "d_runs d1 = d_runs d" by (rule append_events_frame(1) [OF ap(2)])
      ultimately obtain s d2 where d2: "close (r_id c) d1 = Inr (s, d2)" "closes_ok now d1 (r_id c) ?e s d2"
        using close [of d1 ?e] cnt running_count_same [OF runs1] by auto
      have step: "apply_close_policy close now c d = Inr ((), d2)"
        using Some PolicyTerminate ap(1) d2(1) by (simp add: apply_close_policy_def)
      have same: "find_run d1 = find_run d" using runs1 by (auto simp: find_run_def)
      have ext: "extends d d2"
        using extends_append [OF ap(2) c(1,2)] d2(2) by (auto simp: closes_ok_def intro: extends_trans)
      have "r_id c \<noteq> rid" using c(1,2) rr by auto
      then have sib: "sheltered d1 (r_id c) u" if "u \<in> set cs" for u
        using that rest [OF that] rr dist by (auto simp: sheltered_def same image_iff)
      have "cascade_state bound rid cs d2"
        unfolding cascade_state_def
      proof (intro conjI ballI)
        show "runs_ok d2" "running_count d2 \<le> bound"
          using d2(2) cnt running_count_same [OF runs1] by (auto simp: closes_ok_def)
        show "\<exists>r. find_run d2 rid = Some r \<and> r_status r \<noteq> RUNNING"
          using extends_closed [OF ext rr(1,2)] rr(2) by auto
      next
        fix u assume u: "u \<in> set cs"
        then have "find_run d1 (r_id u) = Some u" using rest by (simp add: same)
        with sib [OF u] d2(2) show "find_run d2 (r_id u) = Some u" by (simp add: closes_ok_def)
        show "r_status u = RUNNING" "r_parent u = Some rid" using rest u by auto
      qed
      moreover have "find_run d2 x = Some r"
        if "find_run d x = Some r" "sheltered d rid r" for x r
      proof -
        have "r_id r = x" using that(1) by (auto dest: find_run_Some)
        have "r_id r \<noteq> r_id c"
        proof
          assume "r_id r = r_id c"
          then have "r = c" using that(1) c(1) \<open>r_id r = x\<close> by (metis option.inject)
          then show False using that(2) c(3) by (simp add: sheltered_def)
        qed
        then have "sheltered d1 (r_id c) r"
          using that(2) c(1,2) by (auto simp: sheltered_def same)
        with that(1) d2(2) show ?thesis by (simp add: closes_ok_def same)
      qed
      moreover have "policy_done d2 c"
        using d2(2) Some PolicyTerminate by (auto simp: closes_ok_def policy_done_def)
      ultimately show ?thesis using step ext by blast
    qed
  qed
qed

lemma cascade_loop:
  assumes "cascade_state bound rid cs d" and "distinct (map r_id cs)"
    and close: "\<And>c d1 e. c \<in> set cs \<Longrightarrow> closing_pending d1 (r_id c) e \<Longrightarrow> running_count d1 \<le> bound \<Longrightarrow>
       \<exists>s d2. close (r_id c) d1 = Inr (s, d2) \<and> closes_ok now d1 (r_id c) e s d2"
  shows "\<exists>d'. for_each cs (apply_close_policy close now) d = Inr ((), d') \<and> cascade_state bound rid [] d' \<and>
     extends d d' \<and> (\<forall>c \<in> set cs. policy_done d' c) \<and> (\<forall>x r. find_run d x = Some r \<longrightarrow> sheltered d rid r \<longrightarrow> find_run d' x = Some r)"
  using assms
proof (induction cs arbitrary: d)
  case Nil
  then show ?case by auto
next
  case (Cons c cs)
  from Cons.prems(2) have dist: "r_id c \<notin> r_id ` set cs" by simp
  obtain d1 where d1: "apply_close_policy close now c d = Inr ((), d1)" "cascade_state bound rid cs d1"
    "extends d d1" "policy_done d1 c"
    "\<And>x r. find_run d x = Some r \<Longrightarrow> sheltered d rid r \<Longrightarrow> find_run d1 x = Some r"
    using cascade_step [OF Cons.prems(1) dist, of close now] Cons.prems(3) [OF list.set_intros(1)] by blast
  obtain d2 where d2: "for_each cs (apply_close_policy close now) d1 = Inr ((), d2)"
    "cascade_state bound rid [] d2" "extends d1 d2" "\<And>u. u \<in> set cs \<Longrightarrow> policy_done d2 u"
    "\<And>x r. find_run d1 x = Some r \<Longrightarrow> sheltered d1 rid r \<Longrightarrow> find_run d2 x = Some r"
    using Cons.IH [OF d1(2)] Cons.prems(2) Cons.prems(3) [OF list.set_intros(2)]
    by (metis distinct.simps(2) list.simps(9))
  have "find_run d2 x = Some r" if "find_run d x = Some r" "sheltered d rid r" for x r
    using that d1(5) d2(5) sheltered_extends [OF _ d1(3)] by blast
  moreover have "for_each (c # cs) (apply_close_policy close now) d = Inr ((), d2)"
    using d1(1) d2(1) by simp
  moreover have "extends d d2" by (rule extends_trans [OF d1(3) d2(3)])
  moreover have "policy_done d2 u" if "u \<in> set (c # cs)" for u
    using that d2(4) policy_done_extends [OF d1(4) d2(3)] by auto
  ultimately show ?case using d2(2) by blast
qed

lemma open_children_spec:
  assumes "distinct (map r_id (d_runs d))"
  shows "distinct (map r_id (open_children d rid))"
    and "c \<in> set (open_children d rid) \<longleftrightarrow>
       find_run d (r_id c) = Some c \<and> r_status c = RUNNING \<and> r_parent c = Some rid"
  using assms find_run_in [OF assms]
  by (auto simp: open_children_def distinct_map inj_on_def dest: find_run_Some)

lemma running_count_pos: "find_run d rid = Some r \<Longrightarrow> r_status r = RUNNING \<Longrightarrow> 0 < running_count d"
  by (auto simp: running_count_def filter_empty_conv dest!: find_run_Some)

lemma terminal_closing: "terminal_state_for e = Some st \<Longrightarrow> st \<noteq> RUNNING \<and> is_terminal_state st"
  by (cases e) auto

lemma close_run_ok:
  assumes "closing_pending d rid e" and "running_count d \<le> fuel"
  shows "\<exists>st d'. close_run fuel now rid d = Inr (st, d') \<and> closes_ok now d rid e st d'"
  using assms
proof (induction fuel arbitrary: d rid e)
  case 0
  then show ?case using running_count_pos by (fastforce simp: closing_pending_def)
next
  case (Suc n)
  obtain r where r: "find_run d rid = Some r" "r_status r = RUNNING"
    using Suc.prems(1) by (auto simp: closing_pending_def)
  obtain p where p: "refresh_projection rid d = Inr (p, write_projection rid p d)"
    "Some (p_state p) = terminal_state_for e" "runs_ok (write_projection rid p d)"
    using refresh_closing [OF Suc.prems(1)] by blast
  have closed: "p_state p \<noteq> RUNNING" "is_terminal_state (p_state p)"
    using terminal_closing [OF p(2) [symmetric]] by simp_all
  let ?d1 = "write_projection rid p d"
  let ?d2 = "withdraw_tasks now rid ?d1"
  have less: "running_count ?d1 < running_count d"
    by (rule running_count_write_projection [OF r closed(1)])
  have "runs_ok ?d2" using p(3) by (rule runs_ok_same_runs) simp_all
  from notify_parent_ok [OF this]
  obtain d3 where d3: "notify_parent now rid p ?d2 = Inr ((), d3)" "runs_ok d3" "extends ?d2 d3"
    "d_runs d3 = d_runs ?d2" by blast
  have same: "find_run d3 x = find_run ?d1 x" for x using d3(4) by (simp add: find_run_def)
  have less3: "running_count d3 < running_count d"
    using less running_count_same [of d3 ?d1] d3(4) by simp
  have ext3: "extends d d3"
  proof -
    have "extends ?d1 ?d2"
    proof (rule extends_same_runs)
      show "keeps ?d1 ?d2"
        unfolding keeps_def
      proof (intro conjI)
        show "task_keys ?d1 \<subseteq> task_keys ?d2" by (simp add: task_keys_withdrawn)
      qed (simp_all add: withdraw_tasks_def timer_keys_def timeouts_ok_def)
    qed (auto simp: waiting_tasks_def withdraw_tasks_def)
    then show ?thesis
      using extends_write_projection [OF r] d3(3) by (blast intro: extends_trans)
  qed
  obtain r3 where r3: "find_run d3 rid = Some r3" "r_status r3 = p_state p"
    using r(1) by (auto simp: same find_run_write_projection)
  have dist: "distinct (map r_id (d_runs d3))" using d3(2) by (simp add: runs_ok_def)
  let ?cs = "open_children d3 rid"
  have cs: "cascade_state (running_count d3) rid ?cs d3"
    unfolding cascade_state_def
  proof (intro conjI)
    show "runs_ok d3" by (rule d3(2))
    show "\<exists>r. find_run d3 rid = Some r \<and> r_status r \<noteq> RUNNING" using r3 closed(1) by metis
    show "\<forall>c \<in> set ?cs. find_run d3 (r_id c) = Some c \<and> r_status c = RUNNING \<and> r_parent c = Some rid"
      using open_children_spec(2) [OF dist] by blast
  qed simp
  have close: "\<exists>st d2. close_run n now (r_id c) d1 = Inr (st, d2) \<and> closes_ok now d1 (r_id c) e st d2"
    if "closing_pending d1 (r_id c) e" "running_count d1 \<le> running_count d3" for c d1 e
    using Suc.IH [OF that(1)] that(2) less3 Suc.prems(2) by simp
  obtain d4 where d4: "for_each ?cs (apply_close_policy (\<lambda>x. close_run n now x) now) d3 = Inr ((), d4)"
    "cascade_state (running_count d3) rid [] d4" "extends d3 d4" "\<And>c. c \<in> set ?cs \<Longrightarrow> policy_done d4 c"
    "\<And>x r. find_run d3 x = Some r \<Longrightarrow> sheltered d3 rid r \<Longrightarrow> find_run d4 x = Some r"
    using cascade_loop [OF cs open_children_spec(1) [OF dist], of "\<lambda>x. close_run n now x" now]
      close by blast
  have run: "close_run (Suc n) now rid d = Inr (p_state p, d4)"
    using p(1) closed(2) d3(1) d4(1) by (simp add: apply_parent_close_policies_def andThen_def)
  have "closes_ok now d rid e (p_state p) d4"
    unfolding closes_ok_def
  proof (intro conjI allI impI)
    show "runs_ok d4" "running_count d4 < running_count d"
      using d4(2) less3 by (auto simp: cascade_state_def)
    show "extends d d4" by (rule extends_trans [OF ext3 d4(3)])
    show "terminal_state_for e = Some (p_state p)" using p(2) by simp
    show "\<exists>r. find_run d4 rid = Some r \<and> r_status r = p_state p"
      using extends_closed [OF d4(3) r3(1)] r3(2) closed(1) by auto
    have "waiting_tasks ?d2 rid = {}" by (rule waiting_withdrawn)
    moreover have "waiting_tasks d3 rid \<subseteq> waiting_tasks ?d2 rid"
      by (rule extends_waiting [OF d3(3), of rid r3]) (use r3 closed(1) same in simp_all)
    moreover have "waiting_tasks d4 rid \<subseteq> waiting_tasks d3 rid"
      by (rule extends_waiting [OF d4(3) r3(1)]) (use r3 closed(1) in simp)
    ultimately show "waiting_tasks d4 rid = {}" by blast
    have "run_events d3 rid = run_events ?d2 rid"
      by (rule extends_frozen [OF d3(3), of rid r3]) (use r3 closed(1) same in simp_all)
    moreover have "run_events d4 rid = run_events d3 rid"
      by (rule extends_frozen [OF d4(3) r3(1)]) (use r3 closed(1) in simp)
    moreover have "run_events ?d2 rid = run_events d rid" by (simp add: run_events_def)
    ultimately show "run_events d4 rid = run_events d rid" by simp
  next
    fix c assume c: "find_run d (r_id c) = Some c" "r_status c = RUNNING" "r_parent c = Some rid" "r_id c \<noteq> rid"
    then have "find_run d3 (r_id c) = Some c" by (simp add: same find_run_write_projection)
    with c show "policy_done d4 c" using d4(4) open_children_spec(2) [OF dist] by blast
  next
    fix x rx assume rx: "find_run d x = Some rx" and sh: "sheltered d rid rx"
    then have "find_run d3 x = Some rx"
      by (auto simp: same find_run_write_projection sheltered_def dest: find_run_Some)
    then show "find_run d4 x = Some rx"
      using d4(5) sheltered_extends [OF sh ext3] by blast
  qed
  with run show ?case by blast
qed

section \<open>Tables closing leaves alone\<close>

definition side_tables ::
    "db \<Rightarrow> step_result_row list \<times> task_result_row list \<times> timer_row list \<times> attempt_row list \<times> dead_letter_row list" where
  "side_tables d = (d_step_results d, d_task_results d, d_timers d, d_attempts d, d_dead_letters d)"

lemma side_tables_append:
  "append_events_on_client now rid n es d = Inr (new, d') \<Longrightarrow> side_tables d' = side_tables d"
  by (simp add: side_tables_def append_events_frame)

lemma side_tables_simps [simp]:
  "side_tables (write_projection rid p d) = side_tables d"
  "side_tables (withdraw_tasks now rid d) = side_tables d"
  "side_tables (insert_workflow_task r payload v now d) = side_tables d"
  "side_tables (insert_task ns rid q ty payload v now d) = side_tables d"
  by (simp_all add: side_tables_def withdraw_tasks_def insert_workflow_task_def)

lemma side_tables_request:
  "request_cancellation_on_client now r reason d = Inr (x, d') \<Longrightarrow> side_tables d' = side_tables d"
  by (auto simp: request_cancellation_on_client_def append_at_current_def andThen_Inr_iff
      dest: side_tables_append split: option.splits)

lemma side_tables_notify:
  "notify_parent now rid p d = Inr (x, d') \<Longrightarrow> side_tables d' = side_tables d"
  by (auto simp: notify_parent_def append_at_current_def andThen_Inr_iff
      split: option.splits if_splits) (erule side_tables_append)

lemma side_tables_close_run:
  "close_run fuel now rid d = Inr (st, d') \<Longrightarrow> side_tables d' = side_tables d"
proof (induction fuel arbitrary: rid d st d')
  case 0
  then show ?case by simp
next
  case (Suc n)
  have policy: "side_tables t' = side_tables t"
    if "apply_close_policy (\<lambda>x. close_run n now x) now c t = Inr (u, t')" for c t u t'
    using that Suc.IH
    by (auto simp: apply_close_policy_def append_at_current_def andThen_Inr_iff
        dest: side_tables_append side_tables_request split: option.splits close_policy.splits)
  obtain p d1 where p: "refresh_projection rid d = Inr (p, d1)" and d1: "side_tables d1 = side_tables d"
    using Suc.prems
    by (auto simp: refresh_projection_def fold_into_def Let_def andThen_Inr_iff split: option.splits sum.splits)
  show ?case
  proof (cases "is_terminal_state (p_state p)")
    case False
    with Suc.prems p d1 show ?thesis by simp
  next
    case True
    with Suc.prems p obtain u d3 where d3: "notify_parent now rid p (withdraw_tasks now rid d1) = Inr (u, d3)"
      and d4: "for_each (open_children d3 rid) (apply_close_policy (\<lambda>x. close_run n now x) now) d3 = Inr ((), d')"
      by (auto simp: andThen_Inr_iff apply_parent_close_policies_def)
    have "side_tables d' = side_tables d3"
      by (rule for_each_invariant [OF d4, of "\<lambda>t. side_tables t = side_tables d3"]) (auto dest: policy)
    with side_tables_notify [OF d3] d1 show ?thesis by simp
  qed
qed

end
