(* ===== verification/Runs.thy ===== *)
theory Runs
  imports CloseRun
begin

text \<open>
  Creating runs: a client's start request (\<open>packages/api/src/run-service.ts\<close>), a child
  (\<open>packages/core/src/children/child-runs.ts\<close>) and the next run of a chain
  (\<open>packages/core/src/continuation/continued-run.ts\<close>), with the reads of a chain
  (\<open>continuation/run-chain.ts\<close>).

  Each of the three inserts the row, its timeouts, the first event and the first workflow task
  in one transaction. \<open>clock\<close> is the engine's clock, \<open>now\<close> the database's.
\<close>

section \<open>Rows\<close>

text \<open>
  The columns an insert leaves to their defaults; the trigger \<open>workflow_runs_set_first_run_id\<close>
  makes a run without \<open>first_run_id\<close> the head of its own chain.
\<close>

definition new_run_row :: "uuid \<Rightarrow> uuid \<Rightarrow> string \<Rightarrow> jsv \<Rightarrow> string \<Rightarrow> string option \<Rightarrow> time \<Rightarrow> run_row" where
  "new_run_row rid ns wt inp q trace now =
     \<lparr>r_id = rid, r_namespace = ns, r_workflow_type = wt, r_status = RUNNING, r_input = inp,
      r_result = VNull, r_error = None, r_parent = None, r_parent_child = None,
      r_parent_policy = None, r_started_at = now, r_closed_at = None, r_created_at = now,
      r_last_seq = 0, r_schedule = None, r_first_run = rid, r_continued_from = None,
      r_chain_index = 0, r_idempotency_key = None, r_traceparent = trace, r_waiting = None,
      r_recovery_count = 0, r_last_recovered_at = None, r_queue = q, r_run_timeout_ms = None,
      r_execution_deadline = None\<rparr>"

definition insert_run :: "run_row \<Rightarrow> db \<Rightarrow> db" where
  "insert_run r d = d\<lparr>d_next := Suc (d_next d), d_runs := d_runs d @ [r]\<rparr>"

text \<open>
  What follows the insert in all three: \<open>applyRunTimeoutsOnClient\<close>, the \<open>run_started\<close> event at
  sequence number one and the first workflow task.
\<close>

definition open_new_run ::
    "time \<Rightarrow> time \<Rightarrow> run_row \<Rightarrow> rat option \<Rightarrow> rat option \<Rightarrow> time option \<Rightarrow> jsv \<Rightarrow> jsv
       \<Rightarrow> (engine_error, db, uuid) tx" where
  "open_new_run clock now r run_timeout execution_timeout deadline inp payload =
     andThen (modify (insert_run r)) (\<lambda>_.
     andThen (apply_run_timeouts_on_client (r_id r) clock run_timeout execution_timeout deadline) (\<lambda>_.
     andThen (append_events_on_client now (r_id r) 0 [RunStarted (r_workflow_type r) inp]) (\<lambda>_.
     andThen (modify (insert_task (r_namespace r) (r_id r) (r_queue r) WORKFLOW_TASK payload now now)) (\<lambda>_.
     ret (r_id r)))))"

section \<open>Children\<close>

definition create_child_run_on_client ::
    "time \<Rightarrow> time \<Rightarrow> uuid \<Rightarrow> uuid \<Rightarrow> string \<Rightarrow> string option \<Rightarrow>
     string \<Rightarrow> string \<Rightarrow> jsv \<Rightarrow> close_policy \<Rightarrow> rat option \<Rightarrow> rat option \<Rightarrow>
     (engine_error, db, uuid \<times> bool) tx" where
  "create_child_run_on_client clock now prid ns q trace cid wt inp pol run_timeout execution_timeout = (\<lambda>d.
     case find (\<lambda>r. r_parent r = Some prid \<and> r_parent_child r = Some cid) (d_runs d) of
       Some existing \<Rightarrow> Inr ((r_id existing, False), d)
     | None \<Rightarrow>
         if find_run d prid = None then Inl (ForeignKeyViolation ''workflow_runs_parent_run_id_fkey'')
         else andThen (open_new_run clock now
             ((new_run_row (d_next d) ns wt (nullish inp (VObj [])) q trace now)
                \<lparr>r_parent := Some prid, r_parent_child := Some cid, r_parent_policy := Some pol\<rparr>)
             run_timeout execution_timeout None inp
             (VObj [(''reason'', VStr ''child_started''), (''parentRunId'', VStr (show_nat prid)),
                    (''childId'', VStr cid)]))
           (\<lambda>new. ret (new, True)) d)"

section \<open>Continuing as new\<close>

definition create_continued_run_on_client ::
    "time \<Rightarrow> time \<Rightarrow> uuid \<Rightarrow> jsv \<Rightarrow> (engine_error, db, uuid) tx" where
  "create_continued_run_on_client clock now rid inp = (\<lambda>d.
     case find_run d rid of
       None \<Rightarrow> Inl (UsageError ''workflow run does not exist'')
     | Some row \<Rightarrow>
         open_new_run clock now
           ((new_run_row (d_next d) (r_namespace row) (r_workflow_type row) (nullish inp (VObj []))
               (r_queue row) (r_traceparent row) now)
              \<lparr>r_parent := r_parent row, r_parent_policy := r_parent_policy row,
               r_schedule := r_schedule row, r_first_run := r_first_run row,
               r_continued_from := Some rid, r_chain_index := r_chain_index row + 1\<rparr>)
           (map_option of_int (r_run_timeout_ms row)) None (r_execution_deadline row) inp
           (VObj [(''reason'', VStr ''continue_as_new''), (''continuedFromRunId'', VStr (show_nat rid))]) d)"

definition read_run_chain :: "db \<Rightarrow> uuid \<Rightarrow> run_row list" where
  "read_run_chain d first = sort_key r_chain_index (filter (\<lambda>r. r_first_run r = first) (d_runs d))"

definition find_current_run :: "db \<Rightarrow> uuid \<Rightarrow> run_row option" where
  "find_current_run d first =
     (case read_run_chain d first of [] \<Rightarrow> None | c # cs \<Rightarrow> Some (last (c # cs)))"

section \<open>Start requests\<close>

record start_run_input =
  si_workflow_type :: string
  si_input :: jsv
  si_idempotency_key :: "string option"
  si_traceparent :: "string option"
  si_run_timeout_ms :: "rat option"
  si_execution_timeout_ms :: "rat option"

datatype start_error =
    UnknownWorkflowTypeError string
  | IdempotencyConflictError string uuid
  | StartFailed engine_error

text \<open>
  \<open>isDeepStrictEqual\<close> of the stored input and the request's: both are JSON values here, whose
  objects compare without regard to the order of their keys.
\<close>

definition deep_equal :: "jsv \<Rightarrow> jsv \<Rightarrow> bool" where
  "deep_equal a b \<longleftrightarrow> sort_keys a = sort_keys b"

definition find_by_key :: "db \<Rightarrow> uuid \<Rightarrow> start_run_input \<Rightarrow> start_error + run_row option" where
  "find_by_key d ns si =
     (case si_idempotency_key si of
        None \<Rightarrow> Inr None
      | Some key \<Rightarrow>
          (case find (\<lambda>r. r_namespace r = ns \<and> r_idempotency_key r = Some key) (d_runs d) of
             None \<Rightarrow> Inr None
           | Some row \<Rightarrow>
               if r_workflow_type row = si_workflow_type si \<and>
                  deep_equal (r_input row) (nullish (si_input si) VNull)
               then Inr (Some row)
               else Inl (IdempotencyConflictError key (r_id row))))"

definition service_insert_run ::
    "time \<Rightarrow> time \<Rightarrow> string \<Rightarrow> uuid \<Rightarrow> start_run_input \<Rightarrow> (engine_error, db, uuid option) tx" where
  "service_insert_run clock now q ns si = (\<lambda>d.
     let inp = nullish (si_input si) VNull in
     if (case si_idempotency_key si of None \<Rightarrow> False
          | Some key \<Rightarrow> list_ex (\<lambda>r. r_namespace r = ns \<and> r_idempotency_key r = Some key) (d_runs d))
     then Inr (None, d)
     else andThen (open_new_run clock now
           ((new_run_row (d_next d) ns (si_workflow_type si) inp q (si_traceparent si) now)
              \<lparr>r_idempotency_key := si_idempotency_key si\<rparr>)
           (si_run_timeout_ms si) (si_execution_timeout_ms si) None inp
           (VObj [(''reason'', VStr ''start'')]))
         (\<lambda>rid. ret (Some rid)) d)"

text \<open>\<open>registered\<close> is the service's workflow registry, when it was given one.\<close>

definition start_run ::
    "(string \<Rightarrow> bool) option \<Rightarrow> time \<Rightarrow> time \<Rightarrow> string \<Rightarrow> uuid \<Rightarrow> start_run_input
       \<Rightarrow> (start_error, db, bool \<times> uuid) tx" where
  "start_run registered clock now q ns si = (\<lambda>d.
     if (case registered of None \<Rightarrow> False | Some known \<Rightarrow> \<not> known (si_workflow_type si))
     then Inl (UnknownWorkflowTypeError (si_workflow_type si))
     else case find_by_key d ns si of
       Inl e \<Rightarrow> Inl e
     | Inr (Some row) \<Rightarrow> Inr ((False, r_id row), d)
     | Inr None \<Rightarrow>
         (case service_insert_run clock now q ns si d of
            Inl e \<Rightarrow> Inl (StartFailed e)
          | Inr (Some rid, d') \<Rightarrow> Inr ((True, rid), d')
          | Inr (None, d') \<Rightarrow>
              (case find_by_key d' ns si of
                 Inl e \<Rightarrow> Inl e
               | Inr None \<Rightarrow> Inl (StartFailed (UsageError ''duplicate start without a holder of its key''))
               | Inr (Some row) \<Rightarrow> Inr ((False, r_id row), d'))))"

section \<open>A new run is in order\<close>

lemma insert_run_frame [simp]:
  "d_events (insert_run r d) = d_events d" "d_snapshots (insert_run r d) = d_snapshots d"
  "d_tasks (insert_run r d) = d_tasks d" "d_next (insert_run r d) = Suc (d_next d)"
  "d_runs (insert_run r d) = d_runs d @ [r]" "d_task_results (insert_run r d) = d_task_results d"
  by (simp_all add: insert_run_def)

lemma insert_timer_frame:
  assumes "insert_timer_on_client rid tid t d = (b, d')"
  shows "d_events d' = d_events d" "d_snapshots d' = d_snapshots d" "d_tasks d' = d_tasks d"
    "d_runs d' = d_runs d" "d_next d \<le> d_next d'" "d_step_results d' = d_step_results d"
    "d_task_results d' = d_task_results d" "timer_keys d \<subseteq> timer_keys d'"
  using assms by (auto simp: insert_timer_on_client_def timer_keys_def split: if_splits)

text \<open>The timeouts touch two columns of the row and the timers only.\<close>

definition valid_timeout :: "rat option \<Rightarrow> bool" where
  "valid_timeout v = (case v of None \<Rightarrow> True | Some q \<Rightarrow> 0 < q)"

lemma validate_timeout_ms_Inr: "valid_timeout v \<longleftrightarrow> (\<exists>x. validate_timeout_ms n v = Inr x)"
  by (auto simp: valid_timeout_def validate_timeout_ms_def split: option.splits)

lemma apply_run_timeouts_Inr:
  assumes "apply_run_timeouts_on_client rid c rt et dl d = Inr (u, d')"
  shows "d_events d' = d_events d" "d_snapshots d' = d_snapshots d" "d_tasks d' = d_tasks d"
    "d_next d \<le> d_next d'" "d_step_results d' = d_step_results d" "d_task_results d' = d_task_results d"
    "timer_keys d \<subseteq> timer_keys d'" "timeouts_ok d \<Longrightarrow> timeouts_ok d'"
    "\<exists>a b. d_runs d' = map (\<lambda>r. if r_id r = rid then r\<lparr>r_run_timeout_ms := optional a (r_run_timeout_ms r),
        r_execution_deadline := optional b (r_execution_deadline r)\<rparr> else r) (d_runs d)"
proof -
  have id: "d_runs d = map (\<lambda>r. if r_id r = rid then r\<lparr>r_run_timeout_ms := optional None (r_run_timeout_ms r),
      r_execution_deadline := optional None (r_execution_deadline r)\<rparr> else r) (d_runs d)"
    by (simp add: map_idI)
  obtain run_ms exec_ms where v: "validate_timeout_ms ''runTimeoutMs'' rt = Inr run_ms"
    "validate_timeout_ms ''executionTimeoutMs'' et = Inr exec_ms"
    using assms by (auto simp: apply_run_timeouts_on_client_def split: sum.splits)
  define dead where "dead = (case dl of Some t \<Rightarrow> Some t | None \<Rightarrow> map_option (\<lambda>ms. c + ms) exec_ms)"
  define d1 where "d1 = update_run rid (\<lambda>r. r\<lparr>r_run_timeout_ms := run_ms, r_execution_deadline := dead\<rparr>) d"
  define d2 where "d2 = (case run_ms of None \<Rightarrow> d1
    | Some ms \<Rightarrow> snd (insert_timer_on_client rid RUN_TIMEOUT_TIMER_ID (c + ms) d1))"
  define d3 where "d3 = (case dead of None \<Rightarrow> d2
    | Some t \<Rightarrow> snd (insert_timer_on_client rid EXECUTION_TIMEOUT_TIMER_ID t d2))"
  have "apply_run_timeouts_on_client rid c rt et dl d =
      (if run_ms = None \<and> dead = None then Inr ((), d) else Inr ((), d3))"
    by (simp only: apply_run_timeouts_on_client_def v Let_def sum.case d3_def d2_def d1_def dead_def)
  with assms have d': "d' = (if run_ms = None \<and> dead = None then d else d3)"
    by (cases "run_ms = None \<and> dead = None") auto
  have f2: "d_events d2 = d_events d1 \<and> d_snapshots d2 = d_snapshots d1 \<and> d_tasks d2 = d_tasks d1 \<and>
      d_runs d2 = d_runs d1 \<and> d_next d1 \<le> d_next d2 \<and> d_step_results d2 = d_step_results d1 \<and>
      d_task_results d2 = d_task_results d1 \<and> timer_keys d1 \<subseteq> timer_keys d2"
    using insert_timer_frame [OF prod.collapse [symmetric]] by (simp add: d2_def split: option.splits)
  have f3: "d_events d3 = d_events d2 \<and> d_snapshots d3 = d_snapshots d2 \<and> d_tasks d3 = d_tasks d2 \<and>
      d_runs d3 = d_runs d2 \<and> d_next d2 \<le> d_next d3 \<and> d_step_results d3 = d_step_results d2 \<and>
      d_task_results d3 = d_task_results d2 \<and> timer_keys d2 \<subseteq> timer_keys d3"
    using insert_timer_frame [OF prod.collapse [symmetric]] by (simp add: d3_def split: option.splits)
  have f1: "d_events d1 = d_events d" "d_snapshots d1 = d_snapshots d" "d_tasks d1 = d_tasks d"
    "d_next d1 = d_next d" "d_step_results d1 = d_step_results d" "d_task_results d1 = d_task_results d"
    "timer_keys d1 = timer_keys d" by (simp_all add: d1_def timer_keys_def)
  show "d_events d' = d_events d" "d_snapshots d' = d_snapshots d" "d_tasks d' = d_tasks d"
    "d_next d \<le> d_next d'" "d_step_results d' = d_step_results d" "d_task_results d' = d_task_results d"
    using f1 f2 f3 by (simp_all add: d')
  show "timer_keys d \<subseteq> timer_keys d'" using f1 f2 f3 by (auto simp: d')
  have "case run_ms of None \<Rightarrow> True | Some n \<Rightarrow> 0 < n"
    using v(1) by (auto simp: validate_timeout_ms_def zero_less_ceiling not_le split: option.splits if_splits)
  then have "timeouts_ok d1" if "timeouts_ok d"
    using that by (auto simp: timeouts_ok_def d1_def update_run_def list_all_iff)
  then show "timeouts_ok d'" if "timeouts_ok d"
    using that f2 f3 timeouts_ok_same_runs [of d2 d1] timeouts_ok_same_runs [of d3 d2] by (simp add: d')
  show "\<exists>a b. d_runs d' = map (\<lambda>r. if r_id r = rid then r\<lparr>r_run_timeout_ms := optional a (r_run_timeout_ms r),
      r_execution_deadline := optional b (r_execution_deadline r)\<rparr> else r) (d_runs d)"
  proof (cases "run_ms = None \<and> dead = None")
    case True
    with id show ?thesis by (auto simp: d')
  next
    case False
    then have "d' = d3" unfolding d' by (rule if_not_P)
    then have "d_runs d' = d_runs d1" using f2 f3 by simp
    then show ?thesis
      by (intro exI [of _ "Some run_ms"] exI [of _ "Some dead"]) (simp add: d1_def update_run_def)
  qed
qed

lemma apply_run_timeouts_ok:
  "valid_timeout rt \<Longrightarrow> valid_timeout et \<Longrightarrow> \<exists>d'. apply_run_timeouts_on_client rid c rt et dl d = Inr ((), d')"
  using validate_timeout_ms_Inr [of rt "''runTimeoutMs''"] validate_timeout_ms_Inr [of et "''executionTimeoutMs''"]
  by (auto simp: apply_run_timeouts_on_client_def Let_def)

lemma find_run_insert_run:
  assumes "find_run d (r_id r) = None"
  shows "find_run (insert_run r d) x = (if x = r_id r then Some r else find_run d x)"
proof -
  have "find (\<lambda>u. r_id u = x) (rs @ [r]) =
      (case find (\<lambda>u. r_id u = x) rs of None \<Rightarrow> if r_id r = x then Some r else None | Some u \<Rightarrow> Some u)" for rs
    by (induction rs) auto
  with assms show ?thesis by (auto simp: find_run_def split: option.splits)
qed

definition fresh_row :: "db \<Rightarrow> run_row \<Rightarrow> bool" where
  "fresh_row d r \<longleftrightarrow> r_id r = d_next d \<and> r_run_timeout_ms r = None \<and> r_status r = RUNNING \<and> r_last_seq r = 0 \<and>
     projection_from_row r = create_initial_projection\<lparr>p_input := r_input r\<rparr>"

text \<open>What the three operations give: a run in order, its first event and its first task.\<close>

definition opened :: "db \<Rightarrow> run_row \<Rightarrow> jsv \<Rightarrow> jsv \<Rightarrow> time \<Rightarrow> db \<Rightarrow> bool" where
  "opened d r inp payload now d' \<longleftrightarrow>
     log_ok d' \<and> distinct (map r_id (d_runs d')) \<and> extends d d' \<and> d_task_results d' = d_task_results d \<and>
     (\<forall>x u. find_run d x = Some u \<longrightarrow>
        (row_ok d u \<longrightarrow> row_ok d' u) \<and> (row_synced d u \<longrightarrow> row_synced d' u)) \<and>
     (\<forall>r'. find_run d' (r_id r) = Some r' \<longrightarrow> row_ok d' r') \<and>
     (\<exists>r'. d_runs d' = d_runs d @ [r'] \<and> find_run d' (r_id r) = Some r' \<and> same_links r r' \<and> same_fold_columns r r') \<and>
     (\<forall>x. x \<noteq> r_id r \<longrightarrow> find_run d' x = find_run d x \<and> run_events d' x = run_events d x) \<and>
     run_events d' (r_id r) =
       [\<lparr>sequence_number = 1, stored = RunStarted (r_workflow_type r) inp, created_at = now\<rparr>] \<and>
     (\<exists>tid. d_tasks d' = d_tasks d @
       [new_task tid (r_namespace r) (r_id r) (r_queue r) WORKFLOW_TASK payload now now])"

lemma open_new_run_ok:
  assumes ok: "base_ok d" and row: "fresh_row d r" and "valid_timeout rt" "valid_timeout et"
  shows "\<exists>d'. open_new_run clock now r rt et dl inp payload d = Inr (r_id r, d') \<and> opened d r inp payload now d'"
proof -
  let ?id = "r_id r"
  have id: "?id = d_next d" using row by (simp add: fresh_row_def)
  have none: "find_run d ?id = None" "run_events d ?id = []" "find_snapshot d ?id = None"
    using ok id by (auto simp: base_ok_def fresh_ok_def)
  have log: "log_ok d" and dist: "distinct (map r_id (d_runs d))"
    using ok by (auto simp: base_ok_def)
  let ?d1 = "insert_run r d"
  obtain d2 where d2: "apply_run_timeouts_on_client ?id clock rt et dl ?d1 = Inr ((), d2)"
    using apply_run_timeouts_ok assms(3,4) by blast
  note f2 = apply_run_timeouts_Inr [OF d2]
  obtain a b where runs2: "d_runs d2 = map (\<lambda>u. if r_id u = ?id then u\<lparr>r_run_timeout_ms := optional a (r_run_timeout_ms u),
      r_execution_deadline := optional b (r_execution_deadline u)\<rparr> else u) (d_runs ?d1)"
    using f2(9) by blast
  define r' where "r' = r\<lparr>r_run_timeout_ms := optional a (r_run_timeout_ms r),
      r_execution_deadline := optional b (r_execution_deadline r)\<rparr>"
  have cols: "same_links r r'" "same_fold_columns r r'"
    by (simp_all add: r'_def same_links_def same_fold_columns_def projection_from_row_def)
  have find2: "find_run d2 x = (if x = ?id then Some r' else find_run d x)" for x
  proof -
    have "find_run d2 x = (if x = ?id then map_option (\<lambda>u. u\<lparr>r_run_timeout_ms := optional a (r_run_timeout_ms u),
        r_execution_deadline := optional b (r_execution_deadline u)\<rparr>) (find_run ?d1 x) else find_run ?d1 x)"
      unfolding find_run_def runs2 by (rule find_map_update) simp
    then show ?thesis by (simp add: find_run_insert_run [OF none(1)] r'_def)
  qed
  have rows2: "d_runs d2 = d_runs d @ [r']"
  proof -
    have "map (\<lambda>u. if r_id u = ?id then u\<lparr>r_run_timeout_ms := optional a (r_run_timeout_ms u),
        r_execution_deadline := optional b (r_execution_deadline u)\<rparr> else u) (d_runs d) = d_runs d"
      using none(1) find_run_in [OF dist] by (intro map_idI) (metis option.distinct(1))
    then show ?thesis by (simp add: runs2 r'_def)
  qed
  have ids2: "distinct (map r_id (d_runs d2))"
  proof -
    have "map r_id (d_runs d2) = map r_id (d_runs d) @ [?id]" by (simp add: runs2)
    moreover have "?id \<notin> r_id ` set (d_runs d)"
      using none(1) find_run_in [OF dist] by force
    ultimately show ?thesis using dist by (simp del: map_map)
  qed
  have ev2: "run_events d2 x = run_events d x" "find_snapshot d2 x = find_snapshot d x"
    "snapshot_seq d2 x = snapshot_seq d x" for x
    using f2(1,2) by (simp_all add: run_events_def find_snapshot_def snapshot_seq_def)
  have "log_ok d2" using log f2(1,2) by (intro log_ok_frame [OF log]) simp_all
  moreover have "read_current_sequence d2 ?id = 0"
    using none by (simp add: read_current_sequence_def ev2 max_sequence_def snapshot_seq_def)
  ultimately obtain d3 where d3: "append_events_on_client now ?id 0 [RunStarted (r_workflow_type r) inp] d2 =
      Inr (number_events now 0 [RunStarted (r_workflow_type r) inp], d3)"
    using append_events_ok [of d2 ?id 0 now] find2 [of ?id] by fastforce
  note f3 = append_events_frame [OF d3]
  have ev3: "run_events d3 x = (if x = ?id then [\<lparr>sequence_number = 1, stored = RunStarted (r_workflow_type r) inp,
      created_at = now\<rparr>] else run_events d x)" for x
    using append_events_Inr(4) [OF d3, of x] none(2) by (simp add: ev2)
  let ?d4 = "insert_task (r_namespace r) ?id (r_queue r) WORKFLOW_TASK payload now now d3"
  have ev4: "run_events ?d4 x = run_events d3 x" "find_run ?d4 x = find_run d2 x"
    "find_snapshot ?d4 x = find_snapshot d x" "find_snapshot d3 x = find_snapshot d x" for x
    by (simp_all add: run_events_def f3 ev2)
  have run: "open_new_run clock now r rt et dl inp payload d = Inr (?id, ?d4)"
    using d2 d3 by (simp add: open_new_run_def andThen_def)
  have "row_ok ?d4 r'"
  proof -
    have "r_status r' = RUNNING" "r_last_seq r' = 0" "r_id r' = ?id"
      "projection_from_row r' = create_initial_projection\<lparr>p_input := r_input r'\<rparr>"
      using row cols by (auto simp: fresh_row_def same_fold_columns_def projection_from_row_def r'_def)
    then show ?thesis
      by (simp add: row_ok_def row_synced_def Let_def projection_start_def ev4 ev3 none snapshot_seq_def
          create_initial_projection_def)
  qed
  moreover have "(row_ok d u \<longrightarrow> row_ok ?d4 u) \<and> (row_synced d u \<longrightarrow> row_synced ?d4 u)"
    if u: "find_run d x = Some u" for x u
  proof (intro conjI impI)
    have "r_id u = x" using u by (auto dest: find_run_Some)
    with u none(1) have ne: "r_id u \<noteq> ?id" by auto
    have cols: "same_fold_columns u u" by (simp add: same_fold_columns_def)
    assume "row_synced d u"
    then have "row_synced d2 u" by (rule row_synced_frame [OF _ cols]) (simp_all add: f2)
    then have "row_synced d3 u" by (rule row_synced_append [OF _ d3])
    then show "row_synced ?d4 u" by (rule row_synced_frame [OF _ cols]) simp_all
  next
    have "r_id u = x" using u by (auto dest: find_run_Some)
    with u none(1) have ne: "r_id u \<noteq> ?id" by auto
    have cols: "same_fold_columns u u" by (simp add: same_fold_columns_def)
    assume "row_ok d u"
    then have "row_ok d2 u" by (rule row_ok_frame [OF _ cols]) (simp_all add: f2)
    with ne have "row_ok d3 u" by (intro row_ok_append_other [OF _ d3]) auto
    then show "row_ok ?d4 u" by (rule row_ok_frame [OF _ cols]) simp_all
  qed
  moreover have "log_ok ?d4"
    by (rule log_ok_frame [OF append_events_log_ok [OF d3 \<open>log_ok d2\<close>]]) simp_all
  moreover have "distinct (map r_id (d_runs ?d4))" using ids2 by (simp add: f3)
  moreover have "extends d ?d4"
    unfolding extends_def
  proof (intro conjI allI impI)
    have "timeouts_ok d \<Longrightarrow> timeouts_ok ?d1" using row by (simp add: timeouts_ok_def fresh_row_def)
    then have "timeouts_ok d \<Longrightarrow> timeouts_ok ?d4"
      using f2(8) timeouts_ok_same_runs [of ?d4 d2] by (simp add: f3)
    then show "keeps d ?d4"
      using f2(3,5,6,7) by (auto simp: keeps_def f3 task_keys_def timer_keys_def insert_run_def)
    show "d_snapshots ?d4 = d_snapshots d" by (simp add: f3 f2)
    show "d_next d \<le> d_next ?d4" using f2(4) by (simp add: f3)
    show "\<exists>tail. run_events ?d4 x = run_events d x @ tail" for x by (simp add: ev4 ev3 none)
    show "run_events ?d4 x = run_events d x \<or> find_run ?d4 x \<noteq> None" for x
      by (simp add: ev4 ev3 f3 find2)
    fix x assume "find_run d x = None" "find_run ?d4 x \<noteq> None"
    then have "x = d_next d" by (simp add: f3 find2 id split: if_splits)
    then show "d_next d \<le> x" "x < d_next ?d4" using f2(4) by (simp_all add: f3)
  next
    fix x u assume u: "find_run d x = Some u"
    then have ne: "x \<noteq> ?id" using none(1) by auto
    with u show "\<exists>u'. find_run ?d4 x = Some u' \<and> same_links u u' \<and>
        (r_status u \<noteq> RUNNING \<longrightarrow> projection_from_row u' = projection_from_row u)"
      by (simp add: f3 find2)
    show "run_events ?d4 x = run_events d x" using ne by (simp add: ev4 ev3)
    show "waiting_tasks ?d4 x \<subseteq> waiting_tasks d x"
      using ne f2(3) by (auto simp: waiting_tasks_def f3 new_task_def)
  qed
  moreover have "d_tasks ?d4 = d_tasks d @ [new_task (d_next d3) (r_namespace r) ?id (r_queue r) WORKFLOW_TASK payload now now]"
    using f2(3) by (simp add: f3)
  ultimately have "opened d r inp payload now ?d4"
    unfolding opened_def using cols f2(6) by (auto simp: ev4 ev3 f3 find2 rows2)
  with run show ?thesis by blast
qed

lemma opened_runs_ok:
  assumes "opened d r inp p now d'" and "runs_ok d"
  shows "runs_ok d'"
proof (rule runs_okI)
  show "log_ok d'" "distinct (map r_id (d_runs d'))" using assms(1) by (simp_all add: opened_def)
  fix x u assume u: "find_run d' x = Some u"
  show "row_ok d' u"
  proof (cases "x = r_id r")
    case True
    with u assms(1) show ?thesis by (auto simp: opened_def)
  next
    case False
    with u assms have "find_run d x = Some u" by (simp add: opened_def)
    with assms show ?thesis by (auto simp: opened_def runs_ok_def)
  qed
qed

lemma opened_extends: "opened d r inp p now d' \<Longrightarrow> extends d d'"
  by (simp add: opened_def)

lemma opened_closing_pending:
  assumes op: "opened d r inp p now d'" and cp: "closing_pending d rid e" and ne: "rid \<noteq> r_id r"
  shows "closing_pending d' rid e"
proof -
  have same: "find_run d' rid = find_run d rid" "run_events d' rid = run_events d rid"
    using op ne by (simp_all add: opened_def)
  have others: "row_ok d' u" if "x \<noteq> rid" "find_run d' x = Some u" for x u
  proof (cases "x = r_id r")
    case True
    with op that show ?thesis by (auto simp: opened_def)
  next
    case False
    with op that have "find_run d x = Some u" by (simp add: opened_def)
    moreover from this cp that(1) have "row_ok d u" by (auto simp: closing_pending_def)
    ultimately show ?thesis using op by (auto simp: opened_def)
  qed
  obtain u where "find_run d rid = Some u" "r_status u = RUNNING" "row_synced d u"
    using cp by (auto simp: closing_pending_def)
  moreover from this op have "row_synced d' u" by (auto simp: opened_def)
  ultimately show ?thesis
    using op cp others unfolding closing_pending_def same by (auto simp: opened_def)
qed

section \<open>Children and chains are in order\<close>

lemma fresh_row_new_run_row [simp]:
  "fresh_row d (new_run_row (d_next d) ns wt inp q trace now)"
  by (simp add: fresh_row_def new_run_row_def projection_from_row_def create_initial_projection_def)

lemma create_child_Inr:
  assumes ok: "base_ok d" and par: "find_run d prid \<noteq> None"
    and "valid_timeout rt" "valid_timeout et"
    and new: "find (\<lambda>r. r_parent r = Some prid \<and> r_parent_child r = Some cid) (d_runs d) = None"
  shows "\<exists>d' r. create_child_run_on_client clock now prid ns q tr cid wt inp pol rt et d = Inr ((d_next d, True), d') \<and>
     r_id r = d_next d \<and> r_namespace r = ns \<and> r_queue r = q \<and> r_workflow_type r = wt \<and>
     r_parent r = Some prid \<and> r_parent_child r = Some cid \<and> r_parent_policy r = Some pol \<and>
     r_first_run r = d_next d \<and> r_status r = RUNNING \<and>
     opened d r inp (VObj [(''reason'', VStr ''child_started''), (''parentRunId'', VStr (show_nat prid)),
                    (''childId'', VStr cid)]) now d'"
proof -
  let ?r = "(new_run_row (d_next d) ns wt (nullish inp (VObj [])) q tr now)
    \<lparr>r_parent := Some prid, r_parent_child := Some cid, r_parent_policy := Some pol\<rparr>"
  let ?p = "VObj [(''reason'', VStr ''child_started''), (''parentRunId'', VStr (show_nat prid)),
                    (''childId'', VStr cid)]"
  have "fresh_row d ?r"
    by (simp add: fresh_row_def new_run_row_def projection_from_row_def create_initial_projection_def)
  from open_new_run_ok [OF ok this assms(3,4), of clock now None inp ?p]
  obtain d' where d': "open_new_run clock now ?r rt et None inp ?p d = Inr (r_id ?r, d')" "opened d ?r inp ?p now d'"
    by blast
  have "create_child_run_on_client clock now prid ns q tr cid wt inp pol rt et d = Inr ((r_id ?r, True), d')"
    using par new d'(1) by (simp add: create_child_run_on_client_def)
  with d'(2) show ?thesis
    by (intro exI [of _ d'] exI [of _ ?r]) (simp add: new_run_row_def)
qed

lemma create_child_again:
  assumes "find (\<lambda>r. r_parent r = Some prid \<and> r_parent_child r = Some cid) (d_runs d) = Some e"
  shows "create_child_run_on_client clock now prid ns q tr cid wt inp pol rt et d = Inr ((r_id e, False), d)"
  using assms by (simp add: create_child_run_on_client_def)

lemma create_continued_Inr:
  assumes ok: "base_ok d" and r0: "find_run d rid = Some r0"
    and t: "valid_timeout (map_option of_int (r_run_timeout_ms r0))"
  shows "\<exists>d' r. create_continued_run_on_client clock now rid inp d = Inr (d_next d, d') \<and>
     r_id r = d_next d \<and> r_namespace r = r_namespace r0 \<and> r_workflow_type r = r_workflow_type r0 \<and>
     r_queue r = r_queue r0 \<and> r_parent r = r_parent r0 \<and> r_parent_child r = None \<and>
     r_first_run r = r_first_run r0 \<and> r_continued_from r = Some rid \<and>
     r_chain_index r = r_chain_index r0 + 1 \<and> r_status r = RUNNING \<and>
     opened d r inp (VObj [(''reason'', VStr ''continue_as_new''),
       (''continuedFromRunId'', VStr (show_nat rid))]) now d'"
proof -
  let ?r = "(new_run_row (d_next d) (r_namespace r0) (r_workflow_type r0) (nullish inp (VObj []))
               (r_queue r0) (r_traceparent r0) now)
              \<lparr>r_parent := r_parent r0, r_parent_policy := r_parent_policy r0,
               r_schedule := r_schedule r0, r_first_run := r_first_run r0,
               r_continued_from := Some rid, r_chain_index := r_chain_index r0 + 1\<rparr>"
  let ?p = "VObj [(''reason'', VStr ''continue_as_new''), (''continuedFromRunId'', VStr (show_nat rid))]"
  have "fresh_row d ?r"
    by (simp add: fresh_row_def new_run_row_def projection_from_row_def create_initial_projection_def)
  moreover have "valid_timeout None" by (simp add: valid_timeout_def)
  ultimately obtain d' where d': "open_new_run clock now ?r (map_option of_int (r_run_timeout_ms r0)) None
      (r_execution_deadline r0) inp ?p d = Inr (r_id ?r, d')" "opened d ?r inp ?p now d'"
    using open_new_run_ok [OF ok _ t] by blast
  have "create_continued_run_on_client clock now rid inp d = Inr (r_id ?r, d')"
    using r0 d'(1) by (simp add: create_continued_run_on_client_def)
  with d'(2) show ?thesis
    by (intro exI [of _ d'] exI [of _ ?r]) (simp add: new_run_row_def)
qed

section \<open>Starting is idempotent\<close>

lemma find_append_one:
  "find P (xs @ [x]) = (case find P xs of None \<Rightarrow> if P x then Some x else None | Some y \<Rightarrow> Some y)"
  by (induction xs) auto

lemma start_run_new:
  assumes ok: "base_ok d" and reg: "case registered of None \<Rightarrow> True | Some known \<Rightarrow> known (si_workflow_type si)"
    and free: "find_by_key d ns si = Inr None"
    and t: "valid_timeout (si_run_timeout_ms si)" "valid_timeout (si_execution_timeout_ms si)"
  shows "\<exists>d' r. start_run registered clock now q ns si d = Inr ((True, d_next d), d') \<and>
     r_id r = d_next d \<and> r_namespace r = ns \<and> r_workflow_type r = si_workflow_type si \<and>
     r_queue r = q \<and> r_idempotency_key r = si_idempotency_key si \<and> r_input r = nullish (si_input si) VNull \<and>
     r_status r = RUNNING \<and> r_parent r = None \<and>
     opened d r (nullish (si_input si) VNull) (VObj [(''reason'', VStr ''start'')]) now d'"
proof -
  let ?r = "(new_run_row (d_next d) ns (si_workflow_type si) (nullish (si_input si) VNull) q (si_traceparent si) now)
      \<lparr>r_idempotency_key := si_idempotency_key si\<rparr>"
  let ?p = "VObj [(''reason'', VStr ''start'')]"
  have "fresh_row d ?r"
    by (simp add: fresh_row_def new_run_row_def projection_from_row_def create_initial_projection_def)
  from open_new_run_ok [OF ok this t, of clock now None "nullish (si_input si) VNull" ?p]
  obtain d' where d': "open_new_run clock now ?r (si_run_timeout_ms si) (si_execution_timeout_ms si) None
      (nullish (si_input si) VNull) ?p d = Inr (r_id ?r, d')" "opened d ?r (nullish (si_input si) VNull) ?p now d'"
    by blast
  have "\<not> (case si_idempotency_key si of None \<Rightarrow> False
      | Some key \<Rightarrow> list_ex (\<lambda>r. r_namespace r = ns \<and> r_idempotency_key r = Some key) (d_runs d))"
    using free by (auto simp: find_by_key_def list_ex_iff find_None_iff split: option.splits if_splits)
  then have "service_insert_run clock now q ns si d = Inr (Some (r_id ?r), d')"
    using d'(1) by (simp add: service_insert_run_def Let_def)
  with reg free have "start_run registered clock now q ns si d = Inr ((True, r_id ?r), d')"
    by (cases registered) (simp_all add: start_run_def)
  with d'(2) show ?thesis
    by (intro exI [of _ d'] exI [of _ ?r]) (simp add: new_run_row_def)
qed

lemma find_by_key_after_start:
  assumes free: "find_by_key d ns si = Inr None" and key: "si_idempotency_key si = Some key"
    and op: "opened d r (nullish (si_input si) VNull) p now d'"
    and r: "r_namespace r = ns" "r_idempotency_key r = Some key" "r_workflow_type r = si_workflow_type si"
      "r_input r = nullish (si_input si) VNull"
    and again: "si_idempotency_key si' = Some key"
  shows "\<exists>r'. r_id r' = r_id r \<and> find_by_key d' ns si' =
     (if si_workflow_type si' = si_workflow_type si \<and>
         deep_equal (nullish (si_input si) VNull) (nullish (si_input si') VNull)
      then Inr (Some r') else Inl (IdempotencyConflictError key (r_id r)))"
proof -
  from op obtain r' where r': "d_runs d' = d_runs d @ [r']" "same_links r r'" "same_fold_columns r r'"
    by (auto simp: opened_def)
  have "r_input r' = r_input r" using r'(3) by (simp add: same_fold_columns_def projection_from_row_def)
  moreover have "find (\<lambda>r. r_namespace r = ns \<and> r_idempotency_key r = Some key) (d_runs d) = None"
    using free key by (auto simp: find_by_key_def split: option.splits if_splits)
  ultimately show ?thesis
    using r r' again by (intro exI [of _ r']) (auto simp: find_by_key_def find_append_one same_links_def)
qed

end
