(* ===== verification/TaskQueue.thy ===== *)
theory TaskQueue
  imports Database "HOL-Library.Product_Lexorder"
begin

text \<open>
  The task queue (\<open>packages/core/src/queue/task-queue.ts\<close>) and the step task a decision enqueues
  (\<open>packages/core/src/queue/step-task-enqueue.ts\<close>).

  \<open>now\<close> is the instant the statement reads (the clock of the options, or the database's). A lease
  token is a fresh id. Millisecond arguments are integers, so the code's \<open>Number.isInteger\<close> holds
  of every argument and only its sign test is left. \<open>for update skip locked\<close> makes concurrent
  dequeues behave as dequeues in some order, each a transition of the model; \<open>returning\<close> promises
  no order and the model hands the tasks out in the order they were chosen.
\<close>

section \<open>Operations\<close>

record leased_task =
  lt_id :: uuid
  lt_namespace :: uuid
  lt_run :: uuid
  lt_queue :: string
  lt_type :: task_type
  lt_payload :: jsv
  lt_attempts :: nat
  lt_lease_token :: uuid
  lt_visible_at :: time

record dequeue_options =
  dq_queue :: string
  dq_visibility_timeout :: int
  dq_limit :: "int option"
  dq_worker :: "string option"
  dq_version :: "string option"
  dq_sticky_for :: "string option"

definition DEFAULT_POISON_THRESHOLD :: nat where
  "DEFAULT_POISON_THRESHOLD = 3"

definition task_queue_name :: "string \<Rightarrow> string \<Rightarrow> string" where
  "task_queue_name ns q = ns @ ''/'' @ q"

definition assert_positive_integer :: "string \<Rightarrow> int \<Rightarrow> engine_error + unit" where
  "assert_positive_integer name v = (if v \<le> 0 then Inl (RangeError name) else Inr ())"

definition assert_non_negative_integer :: "string \<Rightarrow> int \<Rightarrow> engine_error + unit" where
  "assert_non_negative_integer name v = (if v < 0 then Inl (RangeError name) else Inr ())"

definition update_task :: "uuid \<Rightarrow> (task_row \<Rightarrow> task_row) \<Rightarrow> db \<Rightarrow> db" where
  "update_task tid f d = d\<lparr>d_tasks := map (\<lambda>t. if t_id t = tid then f t else t) (d_tasks d)\<rparr>"

definition find_task :: "db \<Rightarrow> uuid \<Rightarrow> task_row option" where
  "find_task d tid = find (\<lambda>t. t_id t = tid) (d_tasks d)"

definition enqueue ::
    "time \<Rightarrow> uuid \<Rightarrow> uuid \<Rightarrow> string \<Rightarrow> task_type \<Rightarrow> jsv \<Rightarrow> int option \<Rightarrow> (engine_error, db, uuid) tx" where
  "enqueue now ns rid q ty payload delay = (\<lambda>d.
     let delay_ms = optional delay 0 in
     case assert_non_negative_integer ''delayMs'' delay_ms of
       Inl e \<Rightarrow> Inl e
     | Inr _ \<Rightarrow>
         if find_run d rid = None then Inl (ForeignKeyViolation ''tasks_run_id_fkey'')
         else Inr (d_next d,
                insert_task ns rid q ty (nullish payload (VObj [])) (now + delay_ms) now d))"

text \<open>The row the dequeue looks at: in the queue, open, visible, and not another worker's.\<close>

definition deliverable :: "dequeue_options \<Rightarrow> time \<Rightarrow> db \<Rightarrow> task_row \<Rightarrow> bool" where
  "deliverable opt now d t \<longleftrightarrow>
     t_queue t = dq_queue opt \<and> (t_state t = TPENDING \<or> t_state t = TLEASED) \<and> t_visible_at t \<le> now \<and>
     (case dq_sticky_for opt of
        None \<Rightarrow> True
      | Some w \<Rightarrow> t_type t \<noteq> WORKFLOW_TASK \<or>
          \<not> (\<exists>st \<in> set (d_stickiness d). st_run st = t_run t \<and> st_worker st \<noteq> w \<and> now < st_expires_at st))"

definition delivery_order :: "task_row \<Rightarrow> time \<times> time \<times> nat" where
  "delivery_order t = (t_visible_at t, t_created_at t, t_id t)"

definition next_tasks :: "dequeue_options \<Rightarrow> nat \<Rightarrow> time \<Rightarrow> db \<Rightarrow> task_row list" where
  "next_tasks opt limit now d =
     take limit (sort_key delivery_order (filter (deliverable opt now d) (d_tasks d)))"

definition poisoned :: "nat \<Rightarrow> task_row \<Rightarrow> bool" where
  "poisoned threshold t \<longleftrightarrow> t_state t = TLEASED \<and> threshold \<le> t_reclaim_count t + 1"

definition park_task :: "time \<Rightarrow> task_row \<Rightarrow> task_row" where
  "park_task now t =
     t\<lparr>t_state := TQUARANTINED, t_lease_token := None, t_leased_by := None,
       t_leased_by_version := None, t_leased_at := None, t_reclaim_count := t_reclaim_count t + 1,
       t_quarantined_at := Some now, t_updated_at := now,
       t_quarantine_reason := Some (''lease lost '' @ show_nat (t_reclaim_count t + 1) @ '' times'')\<rparr>"

definition lease_task :: "dequeue_options \<Rightarrow> time \<Rightarrow> uuid \<Rightarrow> task_row \<Rightarrow> task_row" where
  "lease_task opt now token t =
     t\<lparr>t_state := TLEASED, t_lease_token := Some token, t_attempts := t_attempts t + 1,
       t_reclaim_count := t_reclaim_count t + (if t_state t = TLEASED then 1 else 0),
       t_leased_by := dq_worker opt, t_leased_by_version := dq_version opt,
       t_leased_at := Some now, t_visible_at := now + dq_visibility_timeout opt,
       t_updated_at := now\<rparr>"

definition to_leased_task :: "uuid \<Rightarrow> task_row \<Rightarrow> leased_task" where
  "to_leased_task token t =
     \<lparr>lt_id = t_id t, lt_namespace = t_namespace t, lt_run = t_run t, lt_queue = t_queue t,
      lt_type = t_type t, lt_payload = t_payload t, lt_attempts = t_attempts t,
      lt_lease_token = token, lt_visible_at = t_visible_at t\<rparr>"

fun take_tasks ::
    "dequeue_options \<Rightarrow> nat \<Rightarrow> time \<Rightarrow> task_row list \<Rightarrow> db \<Rightarrow> leased_task list \<times> db" where
  "take_tasks opt threshold now [] d = ([], d)"
| "take_tasks opt threshold now (t # ts) d =
     (if poisoned threshold t
      then take_tasks opt threshold now ts (update_task (t_id t) (park_task now) d)
      else
        let token = d_next d;
            (rest, d') = take_tasks opt threshold now ts
              (update_task (t_id t) (lease_task opt now token) (d\<lparr>d_next := Suc token\<rparr>))
        in (to_leased_task token (lease_task opt now token t) # rest, d'))"

definition dequeue ::
    "nat \<Rightarrow> time \<Rightarrow> dequeue_options \<Rightarrow> (engine_error, db, leased_task list) tx" where
  "dequeue threshold now opt = (\<lambda>d.
     let limit = optional (dq_limit opt) 1 in
     case assert_positive_integer ''visibilityTimeoutMs'' (dq_visibility_timeout opt) of
       Inl e \<Rightarrow> Inl e
     | Inr _ \<Rightarrow>
         (case assert_positive_integer ''limit'' limit of
            Inl e \<Rightarrow> Inl e
          | Inr _ \<Rightarrow> Inr (take_tasks opt threshold now (next_tasks opt (nat limit) now d) d)))"

text \<open>
  \<open>where id = $1 and lease_token = $2 and state = 'LEASED'\<close>: the update applies to the lease
  holder only and reports whether it did.
\<close>

definition holds_lease :: "uuid \<Rightarrow> uuid \<Rightarrow> task_row \<Rightarrow> bool" where
  "holds_lease tid token t \<longleftrightarrow> t_id t = tid \<and> t_lease_token t = Some token \<and> t_state t = TLEASED"

definition update_leased ::
    "(task_row \<Rightarrow> bool) \<Rightarrow> (task_row \<Rightarrow> task_row) \<Rightarrow> uuid \<Rightarrow> uuid \<Rightarrow> db \<Rightarrow> bool \<times> db" where
  "update_leased guard f tid token d =
     (\<exists>t \<in> set (d_tasks d). holds_lease tid token t \<and> guard t,
      d\<lparr>d_tasks := map (\<lambda>t. if holds_lease tid token t \<and> guard t then f t else t) (d_tasks d)\<rparr>)"

definition ack :: "time \<Rightarrow> uuid \<Rightarrow> uuid \<Rightarrow> db \<Rightarrow> bool \<times> db" where
  "ack now = update_leased (\<lambda>_. True)
     (\<lambda>t. t\<lparr>t_state := TCOMPLETED, t_lease_token := None, t_leased_by := None,
            t_leased_by_version := None, t_updated_at := now\<rparr>)"

definition nack_row :: "time \<Rightarrow> int \<Rightarrow> uuid \<Rightarrow> uuid \<Rightarrow> db \<Rightarrow> bool \<times> db" where
  "nack_row now delay = update_leased (\<lambda>_. True)
     (\<lambda>t. t\<lparr>t_state := TPENDING, t_lease_token := None, t_leased_by := None,
            t_leased_by_version := None, t_visible_at := now + delay, t_updated_at := now\<rparr>)"

definition nack :: "time \<Rightarrow> uuid \<Rightarrow> uuid \<Rightarrow> int \<Rightarrow> (engine_error, db, bool) tx" where
  "nack now tid token delay = (\<lambda>d.
     case assert_non_negative_integer ''delayMs'' delay of
       Inl e \<Rightarrow> Inl e | Inr _ \<Rightarrow> Inr (nack_row now delay tid token d))"

definition quarantine :: "time \<Rightarrow> string \<Rightarrow> uuid \<Rightarrow> uuid \<Rightarrow> db \<Rightarrow> bool \<times> db" where
  "quarantine now reason = update_leased (\<lambda>_. True)
     (\<lambda>t. t\<lparr>t_state := TQUARANTINED, t_lease_token := None, t_leased_by := None,
            t_leased_by_version := None, t_leased_at := None, t_quarantined_at := Some now,
            t_quarantine_reason := Some reason, t_updated_at := now\<rparr>)"

definition extend_lease :: "time \<Rightarrow> uuid \<Rightarrow> uuid \<Rightarrow> int \<Rightarrow> (engine_error, db, bool) tx" where
  "extend_lease now tid token timeout = (\<lambda>d.
     case assert_positive_integer ''visibilityTimeoutMs'' timeout of
       Inl e \<Rightarrow> Inl e
     | Inr _ \<Rightarrow> Inr (update_leased (\<lambda>t. now < t_visible_at t)
         (\<lambda>t. t\<lparr>t_visible_at := now + timeout, t_updated_at := now\<rparr>) tid token d))"

text \<open>\<open>enqueueStepTaskOnClient\<close>: one step task per step of a run.\<close>

definition step_payload :: "string \<Rightarrow> string \<Rightarrow> jsv \<Rightarrow> jsv" where
  "step_payload sid st inp =
     VObj ([(''stepId'', VStr sid), (''stepType'', VStr st)] @ json_stored_fields [(''input'', inp)])"

definition enqueue_step_task_on_client ::
    "uuid \<Rightarrow> uuid \<Rightarrow> string \<Rightarrow> string \<Rightarrow> string \<Rightarrow> jsv \<Rightarrow> time \<Rightarrow> time \<Rightarrow> db \<Rightarrow> bool \<times> db" where
  "enqueue_step_task_on_client ns rid q sid st inp visible now d =
     (if \<exists>t \<in> set (d_tasks d). t_run t = rid \<and> t_type t = STEP_TASK
           \<and> payload_text (t_payload t) ''stepId'' = Some sid
      then (False, d)
      else (True, insert_task ns rid q STEP_TASK (step_payload sid st inp) visible now d))"

section \<open>The invariant of the queue\<close>

text \<open>
  A task has a lease token exactly while it is leased, tokens are not shared and come from the
  id supply, and a task that lost its lease \<open>threshold\<close> times is not in circulation.
\<close>

definition task_ok :: "nat \<Rightarrow> nat \<Rightarrow> task_row \<Rightarrow> bool" where
  "task_ok threshold supply t \<longleftrightarrow>
     (t_state t = TLEASED \<longleftrightarrow> t_lease_token t \<noteq> None) \<and>
     (\<forall>k. t_lease_token t = Some k \<longrightarrow> k < supply) \<and>
     (t_state t \<noteq> TQUARANTINED \<longrightarrow> t_reclaim_count t < threshold) \<and>
     t_id t < supply"

definition queue_ok :: "nat \<Rightarrow> db \<Rightarrow> bool" where
  "queue_ok threshold d \<longleftrightarrow>
     distinct (map t_id (d_tasks d)) \<and> (\<forall>t \<in> set (d_tasks d). task_ok threshold (d_next d) t) \<and>
     (\<forall>t \<in> set (d_tasks d). \<forall>u \<in> set (d_tasks d).
        t_lease_token t \<noteq> None \<longrightarrow> t_lease_token t = t_lease_token u \<longrightarrow> t = u)"

definition lease_holder :: "db \<Rightarrow> uuid \<Rightarrow> uuid option" where
  "lease_holder d tid =
     (case find_task d tid of None \<Rightarrow> None
      | Some t \<Rightarrow> if t_state t = TLEASED then t_lease_token t else None)"

lemma task_ok_mono: "task_ok th s t \<Longrightarrow> s \<le> s' \<Longrightarrow> task_ok th s' t"
  by (auto simp: task_ok_def)

lemma find_task_Some: "find_task d tid = Some t \<Longrightarrow> t \<in> set (d_tasks d) \<and> t_id t = tid"
  by (auto simp: find_task_def find_Some_iff)

lemma find_unique:
  "distinct (map f xs) \<Longrightarrow> x \<in> set xs \<Longrightarrow> find (\<lambda>y. f y = f x) xs = Some x"
  by (induction xs) (auto simp: image_iff)

lemma find_task_in:
  "queue_ok th d \<Longrightarrow> t \<in> set (d_tasks d) \<Longrightarrow> find_task d (t_id t) = Some t"
  unfolding find_task_def by (rule find_unique) (auto simp: queue_ok_def)

lemma find_mapped_if:
  "(\<And>t. P t \<Longrightarrow> t_id (f t) = t_id t) \<Longrightarrow>
   find (\<lambda>t. t_id t = tid) (map (\<lambda>t. if P t then f t else t) ts) =
     map_option (\<lambda>t. if P t then f t else t) (find (\<lambda>t. t_id t = tid) ts)"
  by (induction ts) auto

lemma map_t_id_update:
  "(\<And>t. t_id (f t) = t_id t) \<Longrightarrow> map t_id (map (\<lambda>t. if P t then f t else t) ts) = map t_id ts"
  by (induction ts) auto

section \<open>Updates by the lease holder\<close>

lemma update_leased_eq:
  assumes "queue_ok th d"
  shows "update_leased guard f tid token d =
    (if lease_holder d tid = Some token \<and> guard (the (find_task d tid))
     then (True, update_task tid f d) else (False, d))"
proof (cases "\<exists>t \<in> set (d_tasks d). holds_lease tid token t")
  case True
  then obtain t where t: "t \<in> set (d_tasks d)" "t_id t = tid" "t_lease_token t = Some token"
      "t_state t = TLEASED"
    by (auto simp: holds_lease_def)
  with assms have ft: "find_task d tid = Some t" by (auto dest: find_task_in)
  have only: "\<And>u. u \<in> set (d_tasks d) \<Longrightarrow> t_id u = tid \<Longrightarrow> u = t"
    using assms t(1,2) by (auto simp: queue_ok_def distinct_map inj_on_def)
  have holds: "\<And>u. u \<in> set (d_tasks d) \<Longrightarrow> holds_lease tid token u \<longleftrightarrow> t_id u = tid"
    unfolding holds_lease_def using only t by metis
  have "lease_holder d tid = Some token"
    using ft t by (simp add: lease_holder_def)
  moreover have "(\<exists>u \<in> set (d_tasks d). holds_lease tid token u \<and> guard u) \<longleftrightarrow> guard t"
    using holds only t(1,2) by metis
  moreover have "map (\<lambda>u. if holds_lease tid token u \<and> guard u then f u else u) (d_tasks d) =
      (if guard t then map (\<lambda>u. if t_id u = tid then f u else u) (d_tasks d) else d_tasks d)"
  proof (cases "guard t")
    case True
    have "map (\<lambda>u. if holds_lease tid token u \<and> guard u then f u else u) (d_tasks d) =
        map (\<lambda>u. if t_id u = tid then f u else u) (d_tasks d)"
      by (rule map_cong [OF refl]) (metis True holds only)
    with True show ?thesis by simp
  next
    case False
    have "map (\<lambda>u. if holds_lease tid token u \<and> guard u then f u else u) (d_tasks d) = d_tasks d"
      by (rule map_idI) (metis False holds only)
    with False show ?thesis by simp
  qed
  ultimately show ?thesis
    using ft by (auto simp: update_leased_def update_task_def)
next
  case False
  then have "lease_holder d tid \<noteq> Some token"
    by (auto simp: lease_holder_def holds_lease_def dest!: find_task_Some split: option.splits if_splits)
  moreover have "map (\<lambda>u. if holds_lease tid token u \<and> guard u then f u else u) (d_tasks d) = d_tasks d"
    using False by (auto intro!: map_idI)
  ultimately show ?thesis
    using False by (auto simp: update_leased_def)
qed

lemma find_task_update_task:
  assumes "\<And>t. t_id (f t) = t_id t"
  shows "find_task (update_task tid f d) x =
     (if x = tid then map_option f (find_task d x) else find_task d x)"
proof -
  have "find (\<lambda>t. t_id t = x) (map (\<lambda>t. if t_id t = tid then f t else t) ts) =
      (if x = tid then map_option f (find (\<lambda>t. t_id t = x) ts) else find (\<lambda>t. t_id t = x) ts)" for ts
    using assms by (induction ts) auto
  then show ?thesis by (simp add: find_task_def update_task_def)
qed

lemma update_task_frame [frame_simps, simp]:
  "d_runs (update_task tid f d) = d_runs d"
  "d_next (update_task tid f d) = d_next d"
  "d_events (update_task tid f d) = d_events d"
  "d_snapshots (update_task tid f d) = d_snapshots d"
  "d_step_results (update_task tid f d) = d_step_results d"
  "d_task_results (update_task tid f d) = d_task_results d"
  "d_timers (update_task tid f d) = d_timers d"
  "d_attempts (update_task tid f d) = d_attempts d"
  "d_dead_letters (update_task tid f d) = d_dead_letters d"
  "d_stickiness (update_task tid f d) = d_stickiness d"
  by (simp_all add: update_task_def)

text \<open>
  An update of one row keeps the queue in order if the new row is in order and shares its token
  with no other row.
\<close>

lemma queue_ok_update_task:
  assumes ok: "queue_ok th d" and ids: "\<And>t. t_id (f t) = t_id t"
    and row: "\<And>t. t \<in> set (d_tasks d) \<Longrightarrow> t_id t = tid \<Longrightarrow> task_ok th (d_next d) (f t)"
    and tok: "\<And>t u. t \<in> set (d_tasks d) \<Longrightarrow> t_id t = tid \<Longrightarrow> u \<in> set (d_tasks d) \<Longrightarrow> u \<noteq> t \<Longrightarrow>
      t_lease_token (f t) = None \<or> t_lease_token (f t) \<noteq> t_lease_token u"
  shows "queue_ok th (update_task tid f d)"
proof -
  let ?g = "\<lambda>t. if t_id t = tid then f t else t"
  have inj: "t = u" if "t \<in> set (d_tasks d)" "u \<in> set (d_tasks d)" "t_id t = t_id u" for t u
    using ok that by (auto simp: queue_ok_def distinct_map inj_on_def)
  have "map t_id (map ?g (d_tasks d)) = map t_id (d_tasks d)"
    using ids by (rule map_t_id_update)
  then have "distinct (map t_id (map ?g (d_tasks d)))"
    using ok by (simp only: queue_ok_def)
  moreover have "\<forall>t \<in> set (map ?g (d_tasks d)). task_ok th (d_next d) t"
    using ok row by (auto simp: queue_ok_def)
  moreover have "\<forall>x \<in> set (map ?g (d_tasks d)). \<forall>y \<in> set (map ?g (d_tasks d)).
      t_lease_token x \<noteq> None \<longrightarrow> t_lease_token x = t_lease_token y \<longrightarrow> x = y"
  proof (intro ballI impI)
    fix x y assume "x \<in> set (map ?g (d_tasks d))" "y \<in> set (map ?g (d_tasks d))"
    then obtain t u where tu: "t \<in> set (d_tasks d)" "x = ?g t" "u \<in> set (d_tasks d)" "y = ?g u"
      unfolding set_map by blast
    assume k: "t_lease_token x \<noteq> None" "t_lease_token x = t_lease_token y"
    have "t = u"
    proof (rule ccontr)
      assume ne: "t \<noteq> u"
      show False
      proof (cases "t_id t = tid")
        case True
        with inj [OF tu(1,3)] ne have "t_id u \<noteq> tid" by auto
        with True k tu tok [OF tu(1) True tu(3)] ne show False by auto
      next
        case False
        show False
        proof (cases "t_id u = tid")
          case True
          with False k tu tok [OF tu(3) True tu(1)] ne show False by auto
        next
          case u: False
          with False k tu have "t_lease_token t \<noteq> None" "t_lease_token t = t_lease_token u" by auto
          with ok tu(1,3) ne show False unfolding queue_ok_def by blast
        qed
      qed
    qed
    with tu show "x = y" by simp
  qed
  ultimately show ?thesis
    unfolding queue_ok_def update_task_def by simp
qed

lemma queue_ok_release:
  assumes "queue_ok th d" and "\<And>t. t_id (f t) = t_id t" and "\<And>t. t_lease_token (f t) = None"
    and "\<And>t. t \<in> set (d_tasks d) \<Longrightarrow> t_id t = tid \<Longrightarrow> task_ok th (d_next d) (f t)"
  shows "queue_ok th (update_task tid f d)"
  using assms by (intro queue_ok_update_task) auto

lemma queue_ok_keep_token:
  assumes "queue_ok th d" and "\<And>t. t_id (f t) = t_id t" and "\<And>t. t_lease_token (f t) = t_lease_token t"
    and "\<And>t. t \<in> set (d_tasks d) \<Longrightarrow> t_id t = tid \<Longrightarrow> task_ok th (d_next d) (f t)"
  shows "queue_ok th (update_task tid f d)"
proof (rule queue_ok_update_task [OF assms(1,2,4)])
  fix t u assume "t \<in> set (d_tasks d)" "u \<in> set (d_tasks d)" "u \<noteq> t"
  with assms(1) have "t_lease_token t = None \<or> t_lease_token t \<noteq> t_lease_token u"
    unfolding queue_ok_def by blast
  then show "t_lease_token (f t) = None \<or> t_lease_token (f t) \<noteq> t_lease_token u"
    using assms(3) by simp
qed assumption+

lemma lease_holder_update_task:
  assumes "\<And>t. t_id (f t) = t_id t"
  shows "lease_holder (update_task tid f d) x =
     (if x = tid
      then (case find_task d x of None \<Rightarrow> None
            | Some t \<Rightarrow> if t_state (f t) = TLEASED then t_lease_token (f t) else None)
      else lease_holder d x)"
  by (simp add: lease_holder_def find_task_update_task [OF assms] split: option.splits)

section \<open>The interface of a lease\<close>

text \<open>
  What the worker relies on: an operation on a leased task applies exactly when it is given the
  token of the current lease, it then ends that lease, and it touches no other task's lease.
\<close>

locale lease_settlement =
  fixes holder :: "'s \<Rightarrow> uuid \<Rightarrow> uuid option"
    and settle :: "uuid \<Rightarrow> uuid \<Rightarrow> 's \<Rightarrow> bool \<times> 's"
    and inv :: "'s \<Rightarrow> bool"
  assumes settle_applies: "inv s \<Longrightarrow> fst (settle t k s) \<longleftrightarrow> holder s t = Some k"
    and settle_refused: "inv s \<Longrightarrow> holder s t \<noteq> Some k \<Longrightarrow> snd (settle t k s) = s"
    and settle_ends: "inv s \<Longrightarrow> holder s t = Some k \<Longrightarrow> holder (snd (settle t k s)) t = None"
    and settle_other: "inv s \<Longrightarrow> u \<noteq> t \<Longrightarrow> holder (snd (settle t k s)) u = holder s u"
    and settle_inv: "inv s \<Longrightarrow> inv (snd (settle t k s))"
begin

lemma settles_once:
  assumes "inv s" and "fst (settle t k s)"
  shows "\<not> fst (settle t k' (snd (settle t k s)))"
  using assms by (simp add: settle_applies settle_ends settle_inv)

lemma one_token_settles:
  assumes "inv s" and "fst (settle t k s)" and "fst (settle t k' s)"
  shows "k = k'"
  using assms by (simp add: settle_applies)

lemma stale_token_refused:
  assumes "inv s" and "holder s t \<noteq> Some k"
  shows "settle t k s = (False, s)"
  using assms by (simp add: settle_applies settle_refused prod_eq_iff)

end

lemma lease_settlement_update_leased:
  assumes ids: "\<And>t. t_id (f t) = t_id t" and rel: "\<And>t. t_lease_token (f t) = None"
    and st: "\<And>t. t_state (f t) \<noteq> TLEASED"
    and row: "\<And>s t. task_ok th s t \<Longrightarrow> t_state t = TLEASED \<Longrightarrow> task_ok th s (f t)"
  shows "lease_settlement lease_holder (update_leased (\<lambda>_. True) f) (queue_ok th)"
proof unfold_locales
  fix d t k assume ok: "queue_ok th d"
  note eq = update_leased_eq [OF ok, of "\<lambda>_. True" f t k]
  show "fst (update_leased (\<lambda>_. True) f t k d) \<longleftrightarrow> lease_holder d t = Some k"
    by (simp add: eq)
  show "snd (update_leased (\<lambda>_. True) f t k d) = d" if "lease_holder d t \<noteq> Some k"
    using that by (simp add: eq)
  show "lease_holder (snd (update_leased (\<lambda>_. True) f t k d)) t = None"
    if "lease_holder d t = Some k"
    using that st by (simp add: eq lease_holder_update_task [OF ids] split: option.splits)
  show "lease_holder (snd (update_leased (\<lambda>_. True) f t k d)) u = lease_holder d u" if "u \<noteq> t" for u
    using that by (simp add: eq lease_holder_update_task [OF ids])
  show "queue_ok th (snd (update_leased (\<lambda>_. True) f t k d))"
  proof (cases "lease_holder d t = Some k")
    case True
    then have "\<forall>x \<in> set (d_tasks d). t_id x = t \<longrightarrow> t_state x = TLEASED"
      using find_task_in [OF ok] by (auto simp: lease_holder_def split: option.splits if_splits)
    then have "queue_ok th (update_task t f d)"
      using ok by (intro queue_ok_release ids rel row) (auto simp: queue_ok_def)
    with True show ?thesis by (simp add: eq)
  next
    case False
    with ok show ?thesis by (simp add: eq)
  qed
qed

interpretation acked: lease_settlement lease_holder "ack now" "queue_ok th" for now th
  unfolding ack_def by (rule lease_settlement_update_leased) (auto simp: task_ok_def)

interpretation nacked: lease_settlement lease_holder "nack_row now delay" "queue_ok th" for now delay th
  unfolding nack_row_def by (rule lease_settlement_update_leased) (auto simp: task_ok_def)

interpretation quarantined: lease_settlement lease_holder "quarantine now reason" "queue_ok th"
  for now reason th
  unfolding quarantine_def by (rule lease_settlement_update_leased) (auto simp: task_ok_def)

section \<open>What a dequeue does\<close>

lemma park_task_simps [simp]: "t_id (park_task now t) = t_id t" "t_lease_token (park_task now t) = None"
  "t_state (park_task now t) = TQUARANTINED"
  by (simp_all add: park_task_def)

lemma lease_task_simps [simp]: "t_id (lease_task opt now k t) = t_id t"
  "t_lease_token (lease_task opt now k t) = Some k" "t_state (lease_task opt now k t) = TLEASED"
  by (simp_all add: lease_task_def)

lemma task_ok_park: "task_ok th s t \<Longrightarrow> task_ok th s (park_task now t)"
  by (auto simp: task_ok_def park_task_def)

lemma task_ok_lease:
  assumes "task_ok th s t" and "k < s" and "\<not> poisoned th t" and "t_state t = TPENDING \<or> t_state t = TLEASED"
  shows "task_ok th s (lease_task opt now k t)"
  using assms by (auto simp: task_ok_def lease_task_def poisoned_def)

lemma queue_ok_supply: "queue_ok th d \<Longrightarrow> d_next d \<le> n \<Longrightarrow> queue_ok th (d\<lparr>d_next := n\<rparr>)"
  unfolding queue_ok_def using task_ok_mono [of th "d_next d" _ n] by auto

lemma find_task_supply [simp]: "find_task (d\<lparr>d_next := n\<rparr>) x = find_task d x"
  by (simp add: find_task_def)

lemma queue_ok_park:
  assumes "queue_ok th d"
  shows "queue_ok th (update_task tid (park_task now) d)"
  using assms by (intro queue_ok_release) (auto simp: queue_ok_def task_ok_park)

lemma queue_ok_lease:
  assumes ok: "queue_ok th d" and t: "find_task d tid = Some t" "\<not> poisoned th t"
    "t_state t = TPENDING \<or> t_state t = TLEASED"
  shows "queue_ok th (update_task tid (lease_task opt now (d_next d)) (d\<lparr>d_next := Suc (d_next d)\<rparr>))"
    (is "queue_ok th (update_task tid ?f ?d)")
proof (rule queue_ok_update_task)
  show ok': "queue_ok th ?d" using ok by (simp add: queue_ok_supply)
  fix u assume u: "u \<in> set (d_tasks ?d)" "t_id u = tid"
  then have "find_task d tid = Some u" using find_task_in [OF ok] by auto
  with t have "\<not> poisoned th u" "t_state u = TPENDING \<or> t_state u = TLEASED" by auto
  moreover have "task_ok th (d_next ?d) u" using ok' u(1) by (auto simp: queue_ok_def)
  ultimately show "task_ok th (d_next ?d) (?f u)" by (intro task_ok_lease) auto
next
  fix u v assume "v \<in> set (d_tasks ?d)"
  then have "t_lease_token v \<noteq> Some (d_next d)"
    using ok by (auto simp: queue_ok_def task_ok_def)
  then show "t_lease_token (?f u) = None \<or> t_lease_token (?f u) \<noteq> t_lease_token v"
    by (simp add: eq_commute)
qed simp

text \<open>The outcome of a delivery for one chosen task.\<close>

definition delivered ::
    "dequeue_options \<Rightarrow> nat \<Rightarrow> time \<Rightarrow> nat \<Rightarrow> leased_task list \<Rightarrow> db \<Rightarrow> task_row \<Rightarrow> bool" where
  "delivered opt th now supply out d t \<longleftrightarrow>
     (if poisoned th t then find_task d (t_id t) = Some (park_task now t)
      else \<exists>k. supply \<le> k \<and> find_task d (t_id t) = Some (lease_task opt now k t) \<and>
               to_leased_task k (lease_task opt now k t) \<in> set out)"

lemma take_tasks_spec:
  assumes "queue_ok th d" and "distinct (map t_id ts)"
    and "\<forall>t \<in> set ts. find_task d (t_id t) = Some t \<and> (t_state t = TPENDING \<or> t_state t = TLEASED)"
    and "take_tasks opt th now ts d = (out, d')"
  shows "queue_ok th d' \<and> d_next d \<le> d_next d'
    \<and> map lt_id out = map t_id (filter (\<lambda>t. \<not> poisoned th t) ts)
    \<and> (\<forall>x. x \<notin> t_id ` set ts \<longrightarrow> find_task d' x = find_task d x)
    \<and> (\<forall>t \<in> set ts. delivered opt th now (d_next d) out d' t)"
  using assms
proof (induction ts arbitrary: d out d')
  case Nil
  then show ?case by simp
next
  case (Cons t ts)
  have fresh: "t_id t \<notin> t_id ` set ts" using Cons.prems(2) by simp
  have t: "find_task d (t_id t) = Some t" "t_state t = TPENDING \<or> t_state t = TLEASED"
    using Cons.prems(3) by auto
  show ?case
  proof (cases "poisoned th t")
    case True
    let ?d = "update_task (t_id t) (park_task now) d"
    have fu: "find_task ?d x = (if x = t_id t then Some (park_task now t) else find_task d x)" for x
      using t by (simp add: find_task_update_task)
    have tk: "take_tasks opt th now ts ?d = (out, d')" using Cons.prems(4) True by simp
    have "\<forall>u \<in> set ts. find_task ?d (t_id u) = Some u \<and> (t_state u = TPENDING \<or> t_state u = TLEASED)"
      using Cons.prems(3) fresh fu by (auto simp: image_iff)
    with Cons.IH [OF queue_ok_park [OF Cons.prems(1)] _ _ tk] Cons.prems(2)
    have IH: "queue_ok th d'" "d_next d \<le> d_next d'"
      "map lt_id out = map t_id (filter (\<lambda>t. \<not> poisoned th t) ts)"
      "\<And>x. x \<notin> t_id ` set ts \<Longrightarrow> find_task d' x = find_task ?d x"
      "\<And>u. u \<in> set ts \<Longrightarrow> delivered opt th now (d_next d) out d' u"
      by auto
    have "delivered opt th now (d_next d) out d' t"
      using True IH(4) [OF fresh] fu by (simp add: delivered_def)
    with IH True fu show ?thesis by auto
  next
    case False
    let ?k = "d_next d"
    let ?d = "update_task (t_id t) (lease_task opt now ?k) (d\<lparr>d_next := Suc ?k\<rparr>)"
    obtain rest where tk: "take_tasks opt th now ts ?d = (rest, d')"
      and out: "out = to_leased_task ?k (lease_task opt now ?k t) # rest"
      using Cons.prems(4) False by (auto simp: Let_def split: prod.splits)
    have fu: "find_task ?d x = (if x = t_id t then Some (lease_task opt now ?k t) else find_task d x)" for x
      using t by (simp add: find_task_update_task)
    have "\<forall>u \<in> set ts. find_task ?d (t_id u) = Some u \<and> (t_state u = TPENDING \<or> t_state u = TLEASED)"
      using Cons.prems(3) fresh fu by (auto simp: image_iff)
    with Cons.IH [OF queue_ok_lease [OF Cons.prems(1) t(1) False t(2)] _ _ tk] Cons.prems(2)
    have IH: "queue_ok th d'" "Suc ?k \<le> d_next d'"
      "map lt_id rest = map t_id (filter (\<lambda>t. \<not> poisoned th t) ts)"
      "\<And>x. x \<notin> t_id ` set ts \<Longrightarrow> find_task d' x = find_task ?d x"
      "\<And>u. u \<in> set ts \<Longrightarrow> delivered opt th now (Suc ?k) rest d' u"
      by auto
    have "delivered opt th now ?k out d' t"
      using False IH(4) [OF fresh] fu out by (auto simp: delivered_def)
    moreover have "delivered opt th now ?k out d' u" if "u \<in> set ts" for u
      using IH(5) [OF that] unfolding delivered_def out
      by (metis Suc_leD list.set_intros(2))
    moreover have "lt_id (to_leased_task ?k (lease_task opt now ?k t)) = t_id t"
      by (simp add: to_leased_task_def)
    ultimately show ?thesis
      using IH False fu out by auto
  qed
qed

lemma next_tasks_facts:
  assumes "queue_ok th d"
  shows "distinct (map t_id (next_tasks opt n now d))"
    and "t \<in> set (next_tasks opt n now d) \<Longrightarrow> t \<in> set (d_tasks d) \<and> deliverable opt now d t"
    and "length (next_tasks opt n now d) \<le> n"
proof -
  let ?c = "sort_key delivery_order (filter (deliverable opt now d) (d_tasks d))"
  have "distinct (map t_id (filter (deliverable opt now d) (d_tasks d)))"
    using assms by (simp add: queue_ok_def distinct_map_filter)
  then have "inj_on t_id (set ?c)" "distinct ?c"
    by (auto simp: distinct_map)
  then have "distinct (map t_id ?c)" by (simp add: distinct_map)
  then show "distinct (map t_id (next_tasks opt n now d))"
    by (simp add: next_tasks_def flip: take_map)
  show "t \<in> set (d_tasks d) \<and> deliverable opt now d t" if "t \<in> set (next_tasks opt n now d)"
    using that in_set_takeD [of t n ?c] by (auto simp: next_tasks_def)
  show "length (next_tasks opt n now d) \<le> n" by (simp add: next_tasks_def)
qed

text \<open>The whole statement, as the facts a consumer needs.\<close>

lemma dequeue_spec:
  assumes ok: "queue_ok th d" and dq: "dequeue th now opt d = Inr (out, d')"
  defines "chosen \<equiv> next_tasks opt (nat (optional (dq_limit opt) 1)) now d"
  shows "queue_ok th d'"
    and "d_next d \<le> d_next d'"
    and "map lt_id out = map t_id (filter (\<lambda>t. \<not> poisoned th t) chosen)"
    and "x \<notin> t_id ` set chosen \<Longrightarrow> find_task d' x = find_task d x"
    and "t \<in> set chosen \<Longrightarrow> delivered opt th now (d_next d) out d' t"
    and "int (length out) \<le> optional (dq_limit opt) 1"
proof -
  have pos: "0 < optional (dq_limit opt) 1"
    and tk: "take_tasks opt th now chosen d = (out, d')"
    using dq by (auto simp: dequeue_def assert_positive_integer_def chosen_def Let_def split: if_splits)
  have pre: "\<forall>t \<in> set chosen. find_task d (t_id t) = Some t \<and> (t_state t = TPENDING \<or> t_state t = TLEASED)"
    using next_tasks_facts(2) [OF ok] find_task_in [OF ok]
    by (fastforce simp: chosen_def deliverable_def)
  have "distinct (map t_id chosen)"
    using next_tasks_facts(1) [OF ok] by (simp add: chosen_def)
  note spec = take_tasks_spec [OF ok this pre tk]
  show "queue_ok th d'" "d_next d \<le> d_next d'"
    and m: "map lt_id out = map t_id (filter (\<lambda>t. \<not> poisoned th t) chosen)"
    and "x \<notin> t_id ` set chosen \<Longrightarrow> find_task d' x = find_task d x"
    and "t \<in> set chosen \<Longrightarrow> delivered opt th now (d_next d) out d' t"
    using spec by auto
  have "length out = length (filter (\<lambda>t. \<not> poisoned th t) chosen)"
    using m by (metis length_map)
  also have "\<dots> \<le> length chosen" by simp
  also have "\<dots> \<le> nat (optional (dq_limit opt) 1)"
    using next_tasks_facts(3) [OF ok] by (simp add: chosen_def)
  finally show "int (length out) \<le> optional (dq_limit opt) 1" using pos by simp
qed

text \<open>Every delivery ends the lease the task was under: the old token no longer settles.\<close>

lemma dequeue_replaces_token:
  assumes "queue_ok th d" and "dequeue th now opt d = Inr (out, d')"
    and "l \<in> set out"
  shows "lease_holder d' (lt_id l) = Some (lt_lease_token l)"
    and "d_next d \<le> lt_lease_token l"
proof -
  note spec = dequeue_spec [OF assms(1,2)]
  let ?c = "next_tasks opt (nat (optional (dq_limit opt) 1)) now d"
  have ids: "distinct (map lt_id out)"
    unfolding spec(3) using next_tasks_facts(1) [OF assms(1)] by (simp add: distinct_map_filter)
  have "lt_id l \<in> set (map lt_id out)" using assms(3) by simp
  then obtain t where t: "t \<in> set ?c" "\<not> poisoned th t" "t_id t = lt_id l"
    unfolding spec(3) by auto
  from spec(5) [OF t(1)] t(2) obtain k where k: "d_next d \<le> k"
    "find_task d' (t_id t) = Some (lease_task opt now k t)"
    "to_leased_task k (lease_task opt now k t) \<in> set out"
    by (auto simp: delivered_def)
  then have "l = to_leased_task k (lease_task opt now k t)"
    using ids assms(3) t(3) by (auto simp: distinct_map inj_on_def to_leased_task_def)
  then have "lt_lease_token l = k" by (simp add: to_leased_task_def)
  moreover have "lease_holder d' (lt_id l) = Some k"
    using k(2) unfolding t(3) by (simp add: lease_holder_def)
  ultimately show "lease_holder d' (lt_id l) = Some (lt_lease_token l)" "d_next d \<le> lt_lease_token l"
    using k(1) by simp_all
qed

lemma quarantined_not_delivered:
  assumes "queue_ok th d" and "dequeue th now opt d = Inr (out, d')"
    and "find_task d tid = Some t" and "t_state t = TQUARANTINED \<or> t_state t = TCOMPLETED"
  shows "tid \<notin> lt_id ` set out" and "find_task d' tid = Some t"
proof -
  note spec = dequeue_spec [OF assms(1,2)]
  let ?c = "next_tasks opt (nat (optional (dq_limit opt) 1)) now d"
  have no: "tid \<notin> t_id ` set ?c"
  proof
    assume "tid \<in> t_id ` set ?c"
    then obtain u where "u \<in> set ?c" "t_id u = tid" by auto
    then have "find_task d tid = Some u" "deliverable opt now d u"
      using next_tasks_facts(2) [OF assms(1)] find_task_in [OF assms(1)] by auto
    with assms(3,4) show False by (auto simp: deliverable_def)
  qed
  have "lt_id ` set out = set (map lt_id out)" by simp
  also have "\<dots> \<subseteq> t_id ` set ?c" unfolding spec(3) by auto
  finally show "tid \<notin> lt_id ` set out" using no by auto
  show "find_task d' tid = Some t" using spec(4) [OF no] assms(3) by simp
qed

end
