(* ===== verification/Recorder.thy ===== *)
theory Recorder
  imports Runs TaskQueue
begin

text \<open>
  Recording results exactly once (\<open>packages/core/src/idempotency/recorder.ts\<close>): a step's
  outcome, once per step of a run, and a workflow task's decision, once per task key, with
  everything the decision's events set off in the same transaction.

  The tracing of the code is the no-op tracing: a child inherits the traceparent of its parent.
  \<open>lockRunWithParent\<close> is the lock a transaction of the model holds anyway.
\<close>

section \<open>Step outcomes\<close>

datatype step_outcome =
    OutcomeCompleted jsv
  | OutcomeFailed serialized_error bool

definition to_step_event :: "string \<Rightarrow> step_outcome \<Rightarrow> engine_error + event" where
  "to_step_event sid out =
     parse_event (case out of
        OutcomeCompleted r \<Rightarrow> StepCompleted sid r
      | OutcomeFailed e exhausted \<Rightarrow>
          StepFailed sid (recorded_error_of e) (if exhausted then Some True else None))"

definition to_outcome :: "step_result_row \<Rightarrow> step_outcome" where
  "to_outcome row =
     (case sr_error row of Some e \<Rightarrow> OutcomeFailed e False | None \<Rightarrow> OutcomeCompleted (sr_result row))"

definition step_result_row_of :: "uuid \<Rightarrow> string \<Rightarrow> string \<Rightarrow> step_outcome \<Rightarrow> step_result_row" where
  "step_result_row_of rid sid key out =
     (case out of
        OutcomeCompleted r \<Rightarrow>
          \<lparr>sr_run = rid, sr_step = sid, sr_attempt_key = key, sr_result = nullish r VNull, sr_error = None\<rparr>
      | OutcomeFailed e _ \<Rightarrow>
          \<lparr>sr_run = rid, sr_step = sid, sr_attempt_key = key, sr_result = VNull, sr_error = Some e\<rparr>)"

definition find_step_result :: "db \<Rightarrow> uuid \<Rightarrow> string \<Rightarrow> step_result_row option" where
  "find_step_result d rid sid = find (\<lambda>s. sr_run s = rid \<and> sr_step s = sid) (d_step_results d)"

text \<open>\<open>status !== undefined && isTerminalState(status)\<close>\<close>

definition run_closed :: "db \<Rightarrow> uuid \<Rightarrow> bool" where
  "run_closed d rid = (case find_run d rid of None \<Rightarrow> False | Some r \<Rightarrow> is_terminal_state (r_status r))"

definition record_step_result ::
    "time \<Rightarrow> uuid \<Rightarrow> string \<Rightarrow> string \<Rightarrow> step_outcome \<Rightarrow> (engine_error, db, bool \<times> step_outcome) tx" where
  "record_step_result now rid sid key out = (\<lambda>d.
     case to_step_event sid out of
       Inl e \<Rightarrow> Inl e
     | Inr ev \<Rightarrow>
         if run_closed d rid then Inr ((False, out), d)
         else case find_step_result d rid sid of
           Some first \<Rightarrow> Inr ((False, to_outcome first), d)
         | None \<Rightarrow>
             if find_run d rid = None then Inl (ForeignKeyViolation ''step_results_run_id_fkey'')
             else andThen (modify (\<lambda>d. d\<lparr>d_step_results := d_step_results d @ [step_result_row_of rid sid key out]\<rparr>))
                 (\<lambda>_. andThen (append_at_current now rid [ev]) (\<lambda>_. ret (True, out))) d)"

section \<open>Decisions\<close>

text \<open>What one recorded event sets off. \<open>queue\<close> is the recorder's \<open>queueName\<close>.\<close>

definition read_namespace_id :: "db \<Rightarrow> uuid \<Rightarrow> uuid" where
  "read_namespace_id d rid = (case find_run d rid of None \<Rightarrow> 0 | Some r \<Rightarrow> r_namespace r)"

definition read_traceparent :: "db \<Rightarrow> uuid \<Rightarrow> string option" where
  "read_traceparent d rid = (case find_run d rid of None \<Rightarrow> None | Some r \<Rightarrow> r_traceparent r)"

definition event_effect ::
    "string option \<Rightarrow> time \<Rightarrow> time \<Rightarrow> uuid \<Rightarrow> event \<Rightarrow> (engine_error, db, unit) tx" where
  "event_effect queue clock now rid e = (\<lambda>d.
     case e of
       ChildStarted cid wt inp pol rt et \<Rightarrow>
         (case queue of
            None \<Rightarrow> Inl (UsageError ''recording a child workflow needs a queueName'')
          | Some q \<Rightarrow> andThen (create_child_run_on_client clock now rid (read_namespace_id d rid) q
                (read_traceparent d rid) cid wt inp pol rt et) (\<lambda>_. ret ()) d)
     | RunContinuedAsNew inp \<Rightarrow> andThen (create_continued_run_on_client clock now rid inp) (\<lambda>_. ret ()) d
     | StepScheduled sid st inp \<Rightarrow>
         (case queue of
            None \<Rightarrow> Inr ((), d)
          | Some q \<Rightarrow> Inr ((), snd (enqueue_step_task_on_client (read_namespace_id d rid) rid q sid st inp clock now d)))
     | TimerStarted tid fire_at _ \<Rightarrow> Inr ((), snd (insert_timer_on_client rid tid fire_at d))
     | _ \<Rightarrow> Inr ((), d))"

definition find_task_result :: "db \<Rightarrow> uuid \<Rightarrow> string \<Rightarrow> task_result_row option" where
  "find_task_result d rid key = find (\<lambda>t. tr_run t = rid \<and> tr_key t = key) (d_task_results d)"

definition insert_task_result :: "uuid \<Rightarrow> string \<Rightarrow> nat \<Rightarrow> nat \<Rightarrow> (engine_error, db, unit) tx" where
  "insert_task_result rid key first last_seq = (\<lambda>d.
     if find_run d rid = None then Inl (ForeignKeyViolation ''workflow_task_results_run_id_fkey'')
     else Inr ((), d\<lparr>d_task_results := d_task_results d @
            [\<lparr>tr_run = rid, tr_key = key, tr_first = first, tr_last = last_seq\<rparr>]\<rparr>))"

definition record_workflow_task_result ::
    "string option \<Rightarrow> time \<Rightarrow> time \<Rightarrow> uuid \<Rightarrow> string \<Rightarrow> nat \<Rightarrow> event list
       \<Rightarrow> (engine_error, db, bool \<times> nat \<times> nat) tx" where
  "record_workflow_task_result queue clock now rid key expected es = (\<lambda>d.
     case parse_events es of
       Inl e \<Rightarrow> Inl e
     | Inr events \<Rightarrow>
         (case find_task_result d rid key of
            Some previous \<Rightarrow> Inr ((False, tr_first previous, tr_last previous), d)
          | None \<Rightarrow>
              if run_closed d rid then Inr ((False, expected + 1, expected), d)
              else andThen (append_events_on_client now rid expected events) (\<lambda>new.
                   andThen (for_each events (event_effect queue clock now rid)) (\<lambda>_.
                   andThen (if list_ex is_closing_event events
                            then andThen (close_run_if_terminal now rid) (\<lambda>_. ret ()) else ret ()) (\<lambda>_.
                   andThen (insert_task_result rid key (expected + 1) (expected + length new)) (\<lambda>_.
                   ret (True, expected + 1, expected + length new))))) d))"

section \<open>What an effect leaves alone and what it does\<close>

definition effect_done :: "db \<Rightarrow> uuid \<Rightarrow> event \<Rightarrow> bool" where
  "effect_done d rid e =
     (case e of
        ChildStarted cid wt inp pol rt et \<Rightarrow>
          list_ex (\<lambda>r. r_parent r = Some rid \<and> r_parent_child r = Some cid) (d_runs d)
      | RunContinuedAsNew inp \<Rightarrow> list_ex (\<lambda>r. r_continued_from r = Some rid) (d_runs d)
      | StepScheduled sid st inp \<Rightarrow>
          (\<exists>p. (rid, STEP_TASK, p) \<in> task_keys d \<and> payload_text p ''stepId'' = Some sid)
      | TimerStarted tid t _ \<Rightarrow> \<exists>t. (rid, tid, t) \<in> timer_keys d
      | _ \<Rightarrow> True)"

lemma extends_row:
  assumes "extends d d'" and "distinct (map r_id (d_runs d))" and "r \<in> set (d_runs d)"
  shows "\<exists>r' \<in> set (d_runs d'). same_links r r'"
proof -
  have "find_run d (r_id r) = Some r" using assms(2,3) by (rule find_run_in)
  with assms(1) obtain r' where "find_run d' (r_id r) = Some r'" "same_links r r'"
    unfolding extends_def by blast
  then show ?thesis by (auto dest: find_run_Some)
qed

lemma effect_done_extends:
  assumes "effect_done d rid e" and ext: "extends d d'" and dist: "distinct (map r_id (d_runs d))"
  shows "effect_done d' rid e"
proof -
  have keys: "task_keys d \<subseteq> task_keys d'" "timer_keys d \<subseteq> timer_keys d'"
    using ext by (simp_all add: extends_def keeps_def)
  show ?thesis
  proof (cases e)
    case (ChildStarted cid wt inp pol rt et)
    with assms(1) obtain r where "r \<in> set (d_runs d)" "r_parent r = Some rid" "r_parent_child r = Some cid"
      by (auto simp: effect_done_def list_ex_iff)
    with extends_row [OF ext dist] ChildStarted show ?thesis
      by (fastforce simp: effect_done_def list_ex_iff same_links_def)
  next
    case (RunContinuedAsNew inp)
    with assms(1) obtain r where "r \<in> set (d_runs d)" "r_continued_from r = Some rid"
      by (auto simp: effect_done_def list_ex_iff)
    with extends_row [OF ext dist] RunContinuedAsNew show ?thesis
      by (fastforce simp: effect_done_def list_ex_iff same_links_def)
  qed (use assms(1) keys in \<open>auto simp: effect_done_def\<close>)
qed

text \<open>
  One effect, in the middle of the transaction: the run is still open in its row, and may
  already have its closing event.
\<close>

definition effect_frame :: "uuid \<Rightarrow> db \<Rightarrow> db \<Rightarrow> bool" where
  "effect_frame rid d d' \<longleftrightarrow>
     extends d d' \<and> base_ok d' \<and> (runs_ok d \<longrightarrow> runs_ok d') \<and>
     (\<forall>c. closing_pending d rid c \<longrightarrow> closing_pending d' rid c) \<and>
     find_run d' rid = find_run d rid \<and> run_events d' rid = run_events d rid \<and>
     d_task_results d' = d_task_results d"

lemma effect_frame_refl: "base_ok d \<Longrightarrow> effect_frame rid d d"
  by (simp add: effect_frame_def)

lemma effect_frame_trans: "effect_frame rid a b \<Longrightarrow> effect_frame rid b c \<Longrightarrow> effect_frame rid a c"
  unfolding effect_frame_def using extends_trans by metis

lemma closing_pending_frame:
  assumes cp: "closing_pending d rid c" and "d_runs d' = d_runs d"
    and "d_events d' = d_events d" "d_snapshots d' = d_snapshots d"
  shows "closing_pending d' rid c"
proof -
  have same: "find_run d' x = find_run d x" "run_events d' x = run_events d x" for x
    using assms(2,3) by (simp_all add: find_run_def run_events_def)
  have cols: "same_fold_columns r r" for r by (simp add: same_fold_columns_def)
  obtain u where "find_run d rid = Some u" "r_status u = RUNNING" "row_synced d u"
    using cp by (auto simp: closing_pending_def)
  moreover from this have "row_synced d' u"
    using row_synced_frame [OF _ cols assms(3,4)] by blast
  moreover have "log_ok d'" using cp log_ok_frame assms(3,4) by (auto simp: closing_pending_def)
  moreover have "row_ok d' r" if "x \<noteq> rid" "find_run d x = Some r" for x r
    using cp that row_ok_frame [OF _ cols assms(3,4)] by (auto simp: closing_pending_def)
  ultimately show ?thesis
    using cp unfolding closing_pending_def same assms(2) by auto
qed

lemma base_ok_extends:
  "base_ok d \<Longrightarrow> extends d d' \<Longrightarrow> log_ok d' \<Longrightarrow> distinct (map r_id (d_runs d')) \<Longrightarrow> base_ok d'"
  using fresh_ok_extends by (auto simp: base_ok_def extends_def keeps_def)

lemma effect_frame_opened:
  assumes op: "opened d r inp p now d'" and ok: "base_ok d" and rid: "find_run d rid \<noteq> None"
    and fresh: "r_id r = d_next d"
  shows "effect_frame rid d d'"
proof -
  have ne: "rid \<noteq> r_id r" using ok rid fresh by (auto simp: base_ok_def fresh_ok_def)
  have ext: "extends d d'" by (rule opened_extends [OF op])
  moreover have "base_ok d'"
    using op by (intro base_ok_extends [OF ok ext]) (simp_all add: opened_def)
  ultimately show ?thesis
    using opened_runs_ok [OF op] opened_closing_pending [OF op _ ne] op ne
    by (auto simp: effect_frame_def opened_def)
qed

lemma effect_frame_tables:
  assumes ok: "base_ok d" and same: "d_runs d' = d_runs d" "d_events d' = d_events d" "d_snapshots d' = d_snapshots d"
    and ext: "extends d d'" and res: "d_task_results d' = d_task_results d"
  shows "effect_frame rid d d'"
proof -
  have "log_ok d'" using ok log_ok_frame same by (auto simp: base_ok_def)
  then have "base_ok d'" using ok same by (intro base_ok_extends [OF ok ext]) (simp_all add: base_ok_def)
  then show ?thesis
    using ext same res runs_ok_same_runs closing_pending_frame
    by (auto simp: effect_frame_def find_run_def run_events_def)
qed

lemma extends_insert_task:
  assumes "find_run d rid = Some r" and "r_status r = RUNNING"
  shows "extends d (insert_task ns rid q ty p v now d)"
proof (rule extends_same_runs)
  show "keeps d (insert_task ns rid q ty p v now d)"
    by (auto simp: keeps_def task_keys_def timer_keys_def timeouts_ok_def)
  fix x u assume "find_run d x = Some u" "r_status u \<noteq> RUNNING"
  with assms have "x \<noteq> rid" by auto
  then show "waiting_tasks (insert_task ns rid q ty p v now d) x \<subseteq> waiting_tasks d x"
    by (auto simp: waiting_tasks_def new_task_def)
qed simp_all

lemma extends_insert_timer:
  assumes "insert_timer_on_client rid tid t d = (b, d')"
  shows "extends d d'"
proof (rule extends_same_runs)
  show "keeps d d'"
    using insert_timer_frame [OF assms] timeouts_ok_same_runs [of d' d]
    by (simp add: keeps_def task_keys_def)
qed (use insert_timer_frame [OF assms] in \<open>simp_all add: waiting_tasks_def\<close>)

lemma opened_row:
  assumes "opened d r inp p now d'"
  shows "\<exists>u \<in> set (d_runs d'). same_links r u"
proof -
  obtain r' where "d_runs d' = d_runs d @ [r']" "same_links r r'"
    using assms unfolding opened_def by blast
  then show ?thesis by (intro bexI [of _ r']) simp_all
qed

lemma valid_timeout_positive: "positive_opt = valid_timeout"
  by (simp add: fun_eq_iff positive_opt_def valid_timeout_def)

lemma event_effect_ok:
  assumes ok: "base_ok d" and r: "find_run d rid = Some r" "r_status r = RUNNING" and valid: "event_valid e"
  shows "\<exists>d'. event_effect (Some q) clock now rid e d = Inr ((), d') \<and> effect_frame rid d d' \<and> effect_done d' rid e"
proof (cases e)
  case (ChildStarted cid wt inp pol rt et)
  have t: "valid_timeout rt" "valid_timeout et"
    using valid ChildStarted by (simp_all add: valid_timeout_positive)
  show ?thesis
  proof (cases "find (\<lambda>u. r_parent u = Some rid \<and> r_parent_child u = Some cid) (d_runs d)")
    case None
    obtain d' u where new: "create_child_run_on_client clock now rid (read_namespace_id d rid) q (read_traceparent d rid)
        cid wt inp pol rt et d = Inr ((d_next d, True), d')"
      and u: "r_id u = d_next d" "r_parent u = Some rid" "r_parent_child u = Some cid"
      and op: "opened d u inp (VObj [(''reason'', VStr ''child_started''), (''parentRunId'', VStr (show_nat rid)),
                    (''childId'', VStr cid)]) now d'"
      using create_child_Inr [OF ok _ t None, of clock now "read_namespace_id d rid" q "read_traceparent d rid" wt inp pol] r(1)
      by auto
    obtain u' where "u' \<in> set (d_runs d')" "same_links u u'" using opened_row [OF op] by blast
    with u have "effect_done d' rid e"
      using ChildStarted by (auto simp: effect_done_def list_ex_iff same_links_def)
    moreover have "effect_frame rid d d'" using effect_frame_opened [OF op ok] r(1) u(1) by simp
    ultimately show ?thesis using new ChildStarted by (simp add: event_effect_def)
  next
    case (Some u)
    then have "u \<in> set (d_runs d)" "r_parent u = Some rid" "r_parent_child u = Some cid"
      by (auto simp: find_Some_iff)
    then have "effect_done d rid e" using ChildStarted by (auto simp: effect_done_def list_ex_iff)
    then show ?thesis
      using create_child_again [OF Some] effect_frame_refl [OF ok] ChildStarted by (simp add: event_effect_def)
  qed
next
  case (RunContinuedAsNew inp)
  have "r \<in> set (d_runs d)" using r(1) by (auto dest: find_run_Some)
  then have t: "valid_timeout (map_option of_int (r_run_timeout_ms r))"
    using ok by (auto simp: base_ok_def timeouts_ok_def list_all_iff valid_timeout_def split: option.splits)
  obtain d' u where new: "create_continued_run_on_client clock now rid inp d = Inr (d_next d, d')"
    and u: "r_id u = d_next d" "r_continued_from u = Some rid"
    and op: "opened d u inp (VObj [(''reason'', VStr ''continue_as_new''),
       (''continuedFromRunId'', VStr (show_nat rid))]) now d'"
    using create_continued_Inr [OF ok r(1) t, of clock now inp] by auto
  obtain u' where "u' \<in> set (d_runs d')" "same_links u u'" using opened_row [OF op] by blast
  with u have "effect_done d' rid e"
    using RunContinuedAsNew by (auto simp: effect_done_def list_ex_iff same_links_def)
  moreover have "effect_frame rid d d'" using effect_frame_opened [OF op ok] r(1) u(1) by simp
  ultimately show ?thesis using new RunContinuedAsNew by (simp add: event_effect_def)
next
  case (StepScheduled sid st inp)
  show ?thesis
  proof (cases "\<exists>t \<in> set (d_tasks d). t_run t = rid \<and> t_type t = STEP_TASK \<and> payload_text (t_payload t) ''stepId'' = Some sid")
    case True
    then obtain t where "t \<in> set (d_tasks d)" "t_run t = rid" "t_type t = STEP_TASK"
      "payload_text (t_payload t) ''stepId'' = Some sid" by blast
    then have "(rid, STEP_TASK, t_payload t) \<in> task_keys d" "payload_text (t_payload t) ''stepId'' = Some sid"
      by (force simp: task_keys_def)+
    then have "effect_done d rid e" using StepScheduled by (auto simp: effect_done_def)
    with True StepScheduled effect_frame_refl [OF ok] show ?thesis
      by (simp add: event_effect_def enqueue_step_task_on_client_def)
  next
    case False
    let ?d = "insert_task (read_namespace_id d rid) rid q STEP_TASK (step_payload sid st inp) clock now d"
    have "event_effect (Some q) clock now rid e d = Inr ((), ?d)"
      using False StepScheduled by (auto simp: event_effect_def enqueue_step_task_on_client_def)
    moreover have "effect_frame rid d ?d"
      by (rule effect_frame_tables [OF ok]) (simp_all add: extends_insert_task [OF r])
    moreover have "effect_done ?d rid e"
      using StepScheduled by (auto simp: effect_done_def task_keys_def new_task_def step_payload_def payload_text_def)
    ultimately show ?thesis by blast
  qed
next
  case (TimerStarted tid t dur)
  obtain b d' where ins: "insert_timer_on_client rid tid t d = (b, d')" by fastforce
  have "\<exists>t. (rid, tid, t) \<in> timer_keys d'"
    using ins by (auto simp: insert_timer_on_client_def timer_keys_def split: if_splits)
  then have "effect_done d' rid e" using TimerStarted by (simp add: effect_done_def)
  moreover have "effect_frame rid d d'"
    by (rule effect_frame_tables [OF ok _ _ _ extends_insert_timer [OF ins]])
       (use insert_timer_frame [OF ins] in simp_all)
  ultimately show ?thesis using ins TimerStarted by (simp add: event_effect_def)
qed (use effect_frame_refl [OF ok] in \<open>simp_all add: event_effect_def effect_done_def\<close>)

lemma effects_ok:
  assumes "base_ok d" and "find_run d rid = Some r" "r_status r = RUNNING" and "\<forall>e \<in> set es. event_valid e"
  shows "\<exists>d'. for_each es (event_effect (Some q) clock now rid) d = Inr ((), d') \<and> effect_frame rid d d' \<and>
     (\<forall>e \<in> set es. effect_done d' rid e)"
  using assms
proof (induction es arbitrary: d)
  case Nil
  then show ?case by (simp add: effect_frame_refl)
next
  case (Cons e es)
  obtain d1 where d1: "event_effect (Some q) clock now rid e d = Inr ((), d1)" "effect_frame rid d d1"
    "effect_done d1 rid e"
    using event_effect_ok [OF Cons.prems(1-3), of e q clock now] Cons.prems(4) by auto
  have b1: "base_ok d1" and r1: "find_run d1 rid = Some r"
    using d1(2) Cons.prems(2) by (simp_all add: effect_frame_def)
  obtain d2 where d2: "for_each es (event_effect (Some q) clock now rid) d1 = Inr ((), d2)"
    "effect_frame rid d1 d2" "\<forall>e \<in> set es. effect_done d2 rid e"
    using Cons.IH [OF b1 r1 Cons.prems(3)] Cons.prems(4) by auto
  have "effect_done d2 rid e"
    using effect_done_extends [OF d1(3)] d2(2) b1 by (auto simp: effect_frame_def base_ok_def)
  with d1(1) d2 effect_frame_trans [OF d1(2) d2(2)] show ?case by auto
qed

section \<open>A decision is recorded whole\<close>

text \<open>The events of one decision: valid, and only the last may close the run.\<close>

definition decision_shape :: "event list \<Rightarrow> bool" where
  "decision_shape es \<longleftrightarrow> list_all event_valid es \<and> list_all (\<lambda>e. \<not> is_closing_event e) (butlast es)"

definition decision_state :: "event list \<Rightarrow> run_state" where
  "decision_state es =
     (case es of [] \<Rightarrow> RUNNING
      | _ # _ \<Rightarrow> (case terminal_state_for (last es) of None \<Rightarrow> RUNNING | Some st \<Rightarrow> st))"

text \<open>The log after the append: in order, or waiting for the refresh of the run it closes.\<close>

lemma append_decision:
  assumes ok: "runs_ok d" and r: "find_run d rid = Some r" "r_status r = RUNNING"
    and shape: "decision_shape es" and ap: "append_events_on_client now rid n es d = Inr (new, d')"
  shows "if list_ex is_closing_event es then closing_pending d' rid (last es) else runs_ok d'"
proof (cases "list_ex is_closing_event es")
  case False
  then have "\<forall>e \<in> set es. \<not> is_closing_event e" by (simp add: list_ex_iff)
  with False runs_ok_append [OF ok ap] show ?thesis by simp
next
  case True
  then have ne: "es \<noteq> []" by auto
  have es: "es = butlast es @ [last es]" using ne by simp
  have front: "\<forall>e \<in> set (butlast es). \<not> is_closing_event e"
    using shape by (simp add: decision_shape_def list_all_iff)
  have "list_ex is_closing_event (butlast es @ [last es])" using True es by simp
  with front have closing: "is_closing_event (last es)" by (auto simp: list_ex_iff)
  have id: "r_id r = rid" using r(1) by (auto dest: find_run_Some)
  have row: "row_ok d r" and log: "log_ok d" and dist: "distinct (map r_id (d_runs d'))"
    unfolding append_events_frame(1) [OF ap] using ok r(1) by (auto simp: runs_ok_def)
  let ?front = "number_events now n (butlast es)"
  let ?last = "\<lparr>sequence_number = n + length (butlast es) + 1, stored = last es, created_at = now\<rparr>"
  have "new = number_events now n (butlast es @ [last es])"
    using append_events_Inr(2) [OF ap] es by simp
  then have new: "new = ?front @ [?last]" by (simp add: number_events_append)
  have h: "run_events d' rid = (run_events d rid @ ?front) @ [?last]"
    using append_events_Inr(4) [OF ap, of rid] new by simp
  have "stored ` set ?front = set (butlast es)"
    using map_stored_number_events [of now n "butlast es"] by (metis set_map)
  then have "\<forall>x \<in> set (run_events d rid @ ?front). \<not> is_closing_event (stored x)"
    using front row r(2) id by (auto simp: row_ok_def)
  moreover have "find_run d' rid = Some r" using r(1) by (simp add: append_events_frame [OF ap])
  moreover have "row_synced d' r" using row_synced_append [OF _ ap] row by (simp add: row_ok_def)
  moreover have "row_ok d' rx" if "x \<noteq> rid" "find_run d' x = Some rx" for x rx
  proof -
    have rx: "find_run d x = Some rx" using that by (simp add: append_events_frame [OF ap])
    then have "r_id rx = x" by (auto dest: find_run_Some)
    with that(1) have "r_id rx \<noteq> rid" by simp
    with rx ok show ?thesis by (intro row_ok_append_other [OF _ ap]) (auto simp: runs_ok_def)
  qed
  ultimately have "closing_pending d' rid (last es)"
    using append_events_log_ok [OF ap log] dist closing r(2) h unfolding closing_pending_def
    by (metis stored_event.select_convs(2))
  with True show ?thesis by simp
qed

lemma close_run_if_terminal_ok:
  assumes "closing_pending d rid e"
  shows "\<exists>st d'. close_run_if_terminal now rid d = Inr (st, d') \<and> closes_ok now d rid e st d'"
  using close_run_ok [OF assms, of "running_count d + 2"] by (simp add: close_run_if_terminal_def)

lemma insert_task_result_ok:
  "find_run d rid \<noteq> None \<Longrightarrow> insert_task_result rid key a b d =
     Inr ((), d\<lparr>d_task_results := d_task_results d @ [\<lparr>tr_run = rid, tr_key = key, tr_first = a, tr_last = b\<rparr>]\<rparr>)"
  by (simp add: insert_task_result_def)

lemma extends_task_result:
  "extends d (d\<lparr>d_task_results := d_task_results d @ tail\<rparr>)"
  by (rule extends_same_runs) (simp_all add: keeps_def task_keys_def timer_keys_def timeouts_ok_def waiting_tasks_def)

lemma decision_state_closing:
  assumes "decision_shape es"
  shows "list_ex is_closing_event es \<Longrightarrow> terminal_state_for (last es) = Some (decision_state es)"
    and "\<not> list_ex is_closing_event es \<Longrightarrow> decision_state es = RUNNING"
proof -
  show "decision_state es = RUNNING" if "\<not> list_ex is_closing_event es"
    using that by (cases es) (auto simp: decision_state_def list_ex_iff closing_event_iff split: if_splits)
  assume ex: "list_ex is_closing_event es"
  then obtain e es' where es: "es = e # es'" by (cases es) auto
  have "is_closing_event (last es)"
  proof -
    have "es = butlast es @ [last es]" using es by simp
    then have "list_ex is_closing_event (butlast es @ [last es])" using ex by simp
    with assms show ?thesis by (auto simp: decision_shape_def list_ex_iff list_all_iff)
  qed
  with es show "terminal_state_for (last es) = Some (decision_state es)"
    by (auto simp: decision_state_def closing_event_iff)
qed

lemma record_decision_ok:
  assumes ok: "engine_ok d" and r: "find_run d rid = Some r" "r_status r = RUNNING"
    and new_key: "find_task_result d rid key = None"
    and shape: "decision_shape es" and seq: "n = read_current_sequence d rid"
  shows "\<exists>d' new r'. record_workflow_task_result (Some q) clock now rid key n es d = Inr ((True, n + 1, n + length es), d') \<and>
     engine_ok d' \<and> extends d d' \<and>
     run_events d' rid = run_events d rid @ new \<and> map stored new = es \<and>
     find_run d' rid = Some r' \<and> r_status r' = decision_state es \<and>
     (\<forall>e \<in> set es. effect_done d' rid e) \<and>
     find_task_result d' rid key = Some \<lparr>tr_run = rid, tr_key = key, tr_first = n + 1, tr_last = n + length es\<rparr>"
proof -
  have runs: "runs_ok d" and log: "log_ok d" and base: "base_ok d"
    using ok engine_ok_base by (auto simp: engine_ok_def runs_ok_def)
  have valid: "\<forall>e \<in> set es. event_valid e" using shape by (simp add: decision_shape_def list_all_iff)
  then have parsed: "parse_events es = Inr es" by (simp add: parse_events_Inr)
  have closed: "\<not> run_closed d rid" using r by (simp add: run_closed_def)
  obtain d1 where ap: "append_events_on_client now rid n es d = Inr (number_events now n es, d1)"
    using append_events_ok [OF log _ seq] r(1) by fastforce
  note f1 = append_events_frame [OF ap]
  have log1: "log_ok d1" by (rule append_events_log_ok [OF ap log])
  have ext1: "extends d d1" by (rule extends_append [OF ap r])
  have base1: "base_ok d1"
    using base by (intro base_ok_extends [OF base ext1 log1]) (simp add: f1 base_ok_def)
  have r1: "find_run d1 rid = Some r" using r(1) by (simp add: f1)
  have h1: "run_events d1 rid = run_events d rid @ number_events now n es"
    using append_events_Inr(4) [OF ap, of rid] by simp
  obtain d2 where d2: "for_each es (event_effect (Some q) clock now rid) d1 = Inr ((), d2)"
    "effect_frame rid d1 d2" "\<forall>e \<in> set es. effect_done d2 rid e"
    using effects_ok [OF base1 r1 r(2) valid] by blast
  have r2: "find_run d2 rid = Some r" and h2: "run_events d2 rid = run_events d1 rid"
    and ext2: "extends d1 d2" and base2: "base_ok d2"
    using d2(2) r1 by (simp_all add: effect_frame_def)
  have "\<exists>d3 r3. (if list_ex is_closing_event es then andThen (close_run_if_terminal now rid) (\<lambda>_. ret ()) else ret ()) d2
      = Inr ((), d3) \<and> runs_ok d3 \<and> extends d2 d3 \<and> run_events d3 rid = run_events d2 rid \<and>
      find_run d3 rid = Some r3 \<and> r_status r3 = decision_state es"
  proof (cases "list_ex is_closing_event es")
    case False
    have "runs_ok d2" using append_decision [OF runs r shape ap] False d2(2) by (simp add: effect_frame_def)
    with False r2 r(2) decision_state_closing(2) [OF shape] show ?thesis by auto
  next
    case True
    have "closing_pending d2 rid (last es)"
      using append_decision [OF runs r shape ap] True d2(2) by (simp add: effect_frame_def)
    from close_run_if_terminal_ok [OF this, of now]
    obtain st d3 where d3: "close_run_if_terminal now rid d2 = Inr (st, d3)" "closes_ok now d2 rid (last es) st d3"
      by blast
    from d3(2) decision_state_closing(1) [OF shape True] have "st = decision_state es"
      by (simp add: closes_ok_def)
    with True d3 show ?thesis by (auto simp: closes_ok_def)
  qed
  then obtain d3 r3 where d3: "(if list_ex is_closing_event es then andThen (close_run_if_terminal now rid) (\<lambda>_. ret ()) else ret ()) d2
      = Inr ((), d3)" "runs_ok d3" "extends d2 d3" "run_events d3 rid = run_events d2 rid"
      "find_run d3 rid = Some r3" "r_status r3 = decision_state es"
    by blast
  let ?row = "\<lparr>tr_run = rid, tr_key = key, tr_first = n + 1, tr_last = n + length es\<rparr>"
  let ?d4 = "d3\<lparr>d_task_results := d_task_results d3 @ [?row]\<rparr>"
  have run: "record_workflow_task_result (Some q) clock now rid key n es d = Inr ((True, n + 1, n + length es), ?d4)"
    using new_key closed parsed ap d2(1) d3(1) d3(5)
    by (simp add: record_workflow_task_result_def andThen_def insert_task_result_ok)
  have ext: "extends d ?d4"
    by (rule extends_trans [OF extends_trans [OF extends_trans [OF ext1 ext2] d3(3)] extends_task_result])
  have "runs_ok ?d4" by (rule runs_ok_same_runs [OF d3(2)]) simp_all
  then have "engine_ok ?d4" by (rule engine_okI [OF _ ext ok])
  moreover have "run_events ?d4 rid = run_events d rid @ number_events now n es"
    using d3(4) h2 h1 by (simp add: run_events_def)
  moreover have "find_run ?d4 rid = Some r3" using d3(5) by (simp add: find_run_def)
  moreover have "\<forall>e \<in> set es. effect_done ?d4 rid e"
    using d2(3) effect_done_extends [OF _ extends_trans [OF d3(3) extends_task_result]] base2
    by (auto simp: base_ok_def)
  moreover have "find_task_result ?d4 rid key = Some ?row"
  proof -
    have "d_task_results d3 = d_task_results d2"
    proof (cases "list_ex is_closing_event es")
      case True
      with d3(1) obtain st where "close_run (running_count d2 + 2) now rid d2 = Inr (st, d3)"
        by (auto simp only: andThen_Inr_iff close_run_if_terminal_def if_True ret_apply sum.inject prod.inject)
      from side_tables_close_run [OF this] show ?thesis by (simp add: side_tables_def)
    qed (use d3(1) in simp)
    then have "d_task_results d3 = d_task_results d"
      using d2(2) by (simp add: effect_frame_def f1)
    then show ?thesis using new_key by (simp add: find_task_result_def find_append_one)
  qed
  ultimately show ?thesis
    using run ext d3(6) by (intro exI [of _ ?d4] exI [of _ "number_events now n es"] exI [of _ r3]) simp
qed

section \<open>Recording once\<close>

text \<open>
  The contract the writers of results share: a key is written by one delivery, every other
  delivery writes nothing, and what is written stays. \<open>deliver\<close> runs deliveries one after the
  other, each in its own transaction, and tells which of them wrote.
\<close>

fun deliver :: "('k \<Rightarrow> 'i \<Rightarrow> ('e, 's, bool \<times> 'o) tx) \<Rightarrow> ('k \<times> 'i) list \<Rightarrow> 's \<Rightarrow> ('k \<times> bool) list" where
  "deliver rec [] s = []"
| "deliver rec ((k, i) # ds) s =
     (case rec k i s of
        Inl _ \<Rightarrow> deliver rec ds s
      | Inr ((b, _), s') \<Rightarrow> (k, b) # deliver rec ds s')"

locale recorded_once =
  fixes on_record :: "'s \<Rightarrow> 'k \<Rightarrow> bool"
    and record_it :: "'k \<Rightarrow> 'i \<Rightarrow> ('e, 's, bool \<times> 'o) tx"
  assumes first: "record_it k i s = Inr ((True, out), s') \<Longrightarrow> \<not> on_record s k \<and> on_record s' k"
    and refused: "record_it k i s = Inr ((False, out), s') \<Longrightarrow> s' = s"
    and kept: "record_it k i s = Inr (r, s') \<Longrightarrow> on_record s k' \<Longrightarrow> on_record s' k'"
begin

lemma never_again: "on_record s k \<Longrightarrow> (k, True) \<notin> set (deliver record_it ds s)"
proof (induction ds arbitrary: s)
  case Nil
  then show ?case by simp
next
  case (Cons d ds)
  obtain k' i where d: "d = (k', i)" by fastforce
  show ?case
  proof (cases "record_it k' i s")
    case (Inl e)
    with Cons d show ?thesis by simp
  next
    case (Inr r)
    obtain b out s' where r: "r = ((b, out), s')" by (cases r) auto
    have "on_record s' k" using kept [OF Inr [unfolded r]] Cons.prems by simp
    then have "(k, True) \<notin> set (deliver record_it ds s')" by (rule Cons.IH)
    moreover have "\<not> (k' = k \<and> b)"
      using first [of k' i s out s'] Inr r Cons.prems by auto
    ultimately show ?thesis using d Inr r by auto
  qed
qed

lemma at_most_once: "length (filter (\<lambda>x. x = (k, True)) (deliver record_it ds s)) \<le> 1"
proof (induction ds arbitrary: s)
  case Nil
  then show ?case by simp
next
  case (Cons d ds)
  obtain k' i where d: "d = (k', i)" by fastforce
  show ?case
  proof (cases "record_it k' i s")
    case (Inl e)
    with Cons d show ?thesis by simp
  next
    case (Inr r)
    obtain b out s' where r: "r = ((b, out), s')" by (cases r) auto
    show ?thesis
    proof (cases "k' = k \<and> b")
      case True
      then have "on_record s' k" using first [of k i s out s'] Inr r by simp
      from never_again [OF this, of ds] have "filter (\<lambda>x. x = (k, True)) (deliver record_it ds s') = []"
        by (auto simp: filter_empty_conv)
      with True d Inr r show ?thesis by simp
    next
      case False
      with Cons.IH [of s'] d Inr r show ?thesis by auto
    qed
  qed
qed

end

definition step_on_record :: "db \<Rightarrow> uuid \<times> string \<Rightarrow> bool" where
  "step_on_record d k = (find_step_result d (fst k) (snd k) \<noteq> None)"

definition record_step :: "uuid \<times> string \<Rightarrow> time \<times> string \<times> step_outcome \<Rightarrow> (engine_error, db, bool \<times> step_outcome) tx" where
  "record_step k i = record_step_result (fst i) (fst k) (snd k) (fst (snd i)) (snd (snd i))"

lemma record_step_result_Inr:
  assumes "record_step_result now rid sid key out d = Inr ((b, out'), d')"
  shows "if b then \<not> run_closed d rid \<and> find_step_result d rid sid = None \<and> out' = out \<and>
           (\<exists>ev new d1. to_step_event sid out = Inr ev \<and>
              d1 = d\<lparr>d_step_results := d_step_results d @ [step_result_row_of rid sid key out]\<rparr> \<and>
              append_events_on_client now rid (read_current_sequence d1 rid) [ev] d1 = Inr (new, d'))
         else d' = d \<and> (run_closed d rid \<and> out' = out \<or>
           (\<exists>row. find_step_result d rid sid = Some row \<and> out' = to_outcome row))"
  using assms
  by (auto simp: record_step_result_def andThen_Inr_iff append_at_current_def
      split: sum.splits if_splits option.splits)

lemma find_step_result_append:
  "find_step_result (d\<lparr>d_step_results := d_step_results d @ [row]\<rparr>) rid sid =
     (case find_step_result d rid sid of None \<Rightarrow> if sr_run row = rid \<and> sr_step row = sid then Some row else None
      | Some r \<Rightarrow> Some r)"
  by (simp add: find_step_result_def find_append_one)

lemma step_row_keys [simp]:
  "sr_run (step_result_row_of rid sid key out) = rid" "sr_step (step_result_row_of rid sid key out) = sid"
  by (cases out; simp add: step_result_row_of_def)+

interpretation step_results: recorded_once step_on_record record_step
proof unfold_locales
  fix k i s out s' assume "record_step k i s = Inr ((True, out), s')"
  from record_step_result_Inr [OF this [unfolded record_step_def]]
  obtain ev new d1 where none: "find_step_result s (fst k) (snd k) = None"
    and d1: "d1 = s\<lparr>d_step_results := d_step_results s @ [step_result_row_of (fst k) (snd k) (fst (snd i)) (snd (snd i))]\<rparr>"
    and ap: "append_events_on_client (fst i) (fst k) (read_current_sequence d1 (fst k)) [ev] d1 = Inr (new, s')"
    by auto
  have "find_step_result s' = find_step_result d1"
    by (simp add: fun_eq_iff find_step_result_def append_events_frame [OF ap])
  with none show "\<not> step_on_record s k \<and> step_on_record s' k"
    by (simp add: step_on_record_def d1 find_step_result_append)
next
  fix k i s out s' assume "record_step k i s = Inr ((False, out), s')"
  from record_step_result_Inr [OF this [unfolded record_step_def]] show "s' = s" by simp
next
  fix k i s r s' k' assume rec: "record_step k i s = Inr (r, s')" and old: "step_on_record s k'"
  obtain b out where r: "r = (b, out)" by fastforce
  show "step_on_record s' k'"
  proof (cases b)
    case False
    with record_step_result_Inr [OF rec [unfolded record_step_def r]] old show ?thesis by simp
  next
    case True
    with record_step_result_Inr [OF rec [unfolded record_step_def r]]
    obtain ev new d1 where
      d1: "d1 = s\<lparr>d_step_results := d_step_results s @ [step_result_row_of (fst k) (snd k) (fst (snd i)) (snd (snd i))]\<rparr>"
      and ap: "append_events_on_client (fst i) (fst k) (read_current_sequence d1 (fst k)) [ev] d1 = Inr (new, s')"
      by auto
    have "find_step_result s' = find_step_result d1"
      by (simp add: fun_eq_iff find_step_result_def append_events_frame [OF ap])
    with old show ?thesis by (auto simp: step_on_record_def d1 find_step_result_append)
  qed
qed

lemma open_new_run_task_results:
  "open_new_run clock now r rt et dl inp p d = Inr (x, d') \<Longrightarrow> d_task_results d' = d_task_results d"
  by (auto simp: open_new_run_def andThen_Inr_iff append_events_frame
      dest!: apply_run_timeouts_Inr(6) append_events_frame(5))

lemma event_effect_task_results:
  assumes "event_effect queue clock now rid e d = Inr (u, d')"
  shows "d_task_results d' = d_task_results d"
proof (cases e)
  case (ChildStarted cid wt inp pol rt et)
  with assms show ?thesis
    by (auto simp: event_effect_def create_child_run_on_client_def andThen_Inr_iff
        dest: open_new_run_task_results split: option.splits if_splits)
next
  case (RunContinuedAsNew inp)
  with assms show ?thesis
    by (auto simp: event_effect_def create_continued_run_on_client_def andThen_Inr_iff
        dest: open_new_run_task_results split: option.splits)
next
  case (StepScheduled sid st inp)
  with assms show ?thesis
    by (auto simp: event_effect_def enqueue_step_task_on_client_def split: option.splits if_splits)
next
  case (TimerStarted tid t dur)
  with assms insert_timer_frame(7) [OF prod.collapse [symmetric], of rid tid t d] show ?thesis
    by (auto simp: event_effect_def)
qed (use assms in \<open>simp_all add: event_effect_def\<close>)

definition task_on_record :: "db \<Rightarrow> uuid \<times> string \<Rightarrow> bool" where
  "task_on_record d k = (find_task_result d (fst k) (snd k) \<noteq> None)"

definition record_task ::
    "uuid \<times> string \<Rightarrow> (string option \<times> time \<times> time) \<times> nat \<times> event list \<Rightarrow> (engine_error, db, bool \<times> nat \<times> nat) tx" where
  "record_task k i =
     (case i of ((queue, clock, now), n, es) \<Rightarrow>
        record_workflow_task_result queue clock now (fst k) (snd k) n es)"

lemma record_workflow_task_result_Inr:
  assumes "record_workflow_task_result queue clock now rid key n es d = Inr ((b, a, z), d')"
  shows "if b then find_task_result d rid key = None \<and> \<not> run_closed d rid \<and> read_current_sequence d rid = n \<and>
           d_task_results d' = d_task_results d @ [\<lparr>tr_run = rid, tr_key = key, tr_first = a, tr_last = z\<rparr>]
         else d' = d"
proof (cases b)
  case False
  with assms show ?thesis
    by (auto simp: record_workflow_task_result_def andThen_Inr_iff split: sum.splits option.splits if_splits)
next
  case True
  with assms obtain new d1 d2 d3 where steps:
    "find_task_result d rid key = None" "\<not> run_closed d rid"
    "append_events_on_client now rid n es d = Inr (new, d1)"
    "for_each es (event_effect queue clock now rid) d1 = Inr ((), d2)"
    "(if list_ex is_closing_event es then andThen (close_run_if_terminal now rid) (\<lambda>_. ret ()) else ret ()) d2 = Inr ((), d3)"
    "insert_task_result rid key a z d3 = Inr ((), d')"
    by (auto simp: record_workflow_task_result_def andThen_Inr_iff parse_events_Inr
        split: sum.splits option.splits if_splits)
  have "d_task_results d1 = d_task_results d" by (rule append_events_frame(5) [OF steps(3)])
  moreover have "d_task_results d2 = d_task_results d1"
    by (rule for_each_invariant [OF steps(4), of "\<lambda>t. d_task_results t = d_task_results d1"])
       (auto dest: event_effect_task_results)
  moreover have "d_task_results d3 = d_task_results d2"
  proof (cases "list_ex is_closing_event es")
    case True
    with steps(5) obtain st where "close_run (running_count d2 + 2) now rid d2 = Inr (st, d3)"
      by (auto simp only: andThen_Inr_iff close_run_if_terminal_def if_True ret_apply sum.inject prod.inject)
    from side_tables_close_run [OF this] show ?thesis by (simp add: side_tables_def)
  qed (use steps(5) in simp)
  moreover have "d_task_results d' = d_task_results d3 @ [\<lparr>tr_run = rid, tr_key = key, tr_first = a, tr_last = z\<rparr>]"
    using steps(6) by (auto simp: insert_task_result_def split: if_splits)
  ultimately show ?thesis
    using True steps(1,2) append_events_Inr(1) [OF steps(3)] by simp
qed

interpretation task_results: recorded_once task_on_record record_task
proof unfold_locales
  fix k i s out s' assume rec: "record_task k i s = Inr ((True, out), s')"
  obtain queue clock now n es where i: "i = ((queue, clock, now), n, es)" by (metis prod.exhaust)
  obtain a z where out: "out = (a, z)" by fastforce
  from record_workflow_task_result_Inr [of queue clock now "fst k" "snd k" n es s True a z s'] rec
  show "\<not> task_on_record s k \<and> task_on_record s' k"
    by (simp add: record_task_def i out task_on_record_def find_task_result_def find_append_one)
next
  fix k i s out s' assume rec: "record_task k i s = Inr ((False, out), s')"
  obtain queue clock now n es where i: "i = ((queue, clock, now), n, es)" by (metis prod.exhaust)
  obtain a z where out: "out = (a, z)" by fastforce
  from record_workflow_task_result_Inr [of queue clock now "fst k" "snd k" n es s False a z s'] rec
  show "s' = s" by (simp add: record_task_def i out)
next
  fix k i s r s' k' assume rec: "record_task k i s = Inr (r, s')" and old: "task_on_record s k'"
  obtain queue clock now n es where i: "i = ((queue, clock, now), n, es)" by (metis prod.exhaust)
  obtain b a z where r: "r = (b, a, z)" by (metis prod.exhaust)
  from record_workflow_task_result_Inr [of queue clock now "fst k" "snd k" n es s b a z s'] rec old
  show "task_on_record s' k'"
    by (auto simp: record_task_def i r task_on_record_def find_task_result_def find_append_one split: if_splits option.splits)
qed

lemma to_step_event_Inr:
  "to_step_event sid out = Inr ev \<Longrightarrow> sid \<noteq> [] \<and> \<not> is_closing_event ev \<and>
     (ev = StepCompleted sid r \<longleftrightarrow> out = OutcomeCompleted r)"
  by (cases out) (auto simp: to_step_event_def parse_event_def split: if_splits)

lemma to_step_event_ok: "sid \<noteq> [] \<Longrightarrow> \<exists>ev. to_step_event sid out = Inr ev"
  by (cases out) (simp_all add: to_step_event_def parse_event_def)

lemma record_step_ok:
  assumes ok: "engine_ok d" and r: "find_run d rid = Some r" "r_status r = RUNNING"
    and new: "find_step_result d rid sid = None" and ev: "to_step_event sid out = Inr ev"
  shows "\<exists>d' se. record_step_result now rid sid key out d = Inr ((True, out), d') \<and> engine_ok d' \<and> extends d d' \<and>
     run_events d' rid = run_events d rid @ [se] \<and> stored se = ev \<and>
     find_run d' rid = Some r \<and> find_step_result d' rid sid = Some (step_result_row_of rid sid key out)"
proof -
  let ?d1 = "d\<lparr>d_step_results := d_step_results d @ [step_result_row_of rid sid key out]\<rparr>"
  have runs: "runs_ok d" using ok by (simp add: engine_ok_def)
  have runs1: "runs_ok ?d1" by (rule runs_ok_same_runs [OF runs]) simp_all
  have ext1: "extends d ?d1"
    by (rule extends_same_runs)
       (simp_all add: keeps_def task_keys_def timer_keys_def timeouts_ok_def waiting_tasks_def)
  have r1: "find_run ?d1 rid = Some r" using r(1) by (simp add: find_run_def)
  let ?n = "read_current_sequence ?d1 rid"
  obtain d' where ap: "append_events_on_client now rid ?n [ev] ?d1 = Inr (number_events now ?n [ev], d')"
    using append_events_ok [of ?d1 rid ?n now "[ev]"] r1 runs1 by (auto simp: runs_ok_def)
  have "record_step_result now rid sid key out d = Inr ((True, out), d')"
    using ev new r ap by (simp add: record_step_result_def run_closed_def append_at_current_def andThen_def)
  moreover have ext: "extends d d'" by (rule extends_trans [OF ext1 extends_append [OF ap r1 r(2)]])
  moreover have "runs_ok d'"
    using to_step_event_Inr [OF ev] by (intro runs_ok_append [OF runs1 ap]) simp
  then have "engine_ok d'" by (rule engine_okI [OF _ ext ok])
  moreover have "run_events d' rid = run_events d rid @ number_events now ?n [ev]"
    using append_events_Inr(4) [OF ap, of rid] by (simp add: run_events_def)
  moreover have "find_run d' rid = Some r" using r1 by (simp add: append_events_frame [OF ap])
  moreover have "find_step_result d' rid sid = Some (step_result_row_of rid sid key out)"
    using new by (simp add: find_step_result_def append_events_frame [OF ap] find_append_one)
  ultimately show ?thesis by auto
qed

definition child_on_record :: "db \<Rightarrow> uuid \<times> string \<Rightarrow> bool" where
  "child_on_record d k \<longleftrightarrow> list_ex (\<lambda>r. r_parent r = Some (fst k) \<and> r_parent_child r = Some (snd k)) (d_runs d)"

definition record_child ::
    "uuid \<times> string \<Rightarrow> (time \<times> time \<times> uuid \<times> string) \<times> string \<times> jsv \<times> close_policy \<times> rat option \<times> rat option
       \<Rightarrow> (engine_error, db, bool \<times> uuid) tx" where
  "record_child k i =
     (case i of ((clock, now, ns, q), wt, inp, pol, rt, et) \<Rightarrow>
        andThen (create_child_run_on_client clock now (fst k) ns q None (snd k) wt inp pol rt et)
          (\<lambda>(child, created). ret (created, child)))"

lemma open_new_run_rows:
  assumes "open_new_run clock now r rt et dl inp p d = Inr (x, d')"
  shows "\<exists>g. d_runs d' = map g (d_runs d @ [r]) \<and>
     (\<forall>u. r_parent (g u) = r_parent u \<and> r_parent_child (g u) = r_parent_child u)"
proof -
  obtain d2 new d3 where
    d2: "apply_run_timeouts_on_client (r_id r) clock rt et dl (insert_run r d) = Inr ((), d2)"
    and d3: "append_events_on_client now (r_id r) 0 [RunStarted (r_workflow_type r) inp] d2 = Inr (new, d3)"
    and d': "d' = insert_task (r_namespace r) (r_id r) (r_queue r) WORKFLOW_TASK p now now d3"
    using assms by (auto simp: open_new_run_def andThen_Inr_iff)
  from apply_run_timeouts_Inr(9) [OF d2] obtain a b where
    "d_runs d2 = map (\<lambda>u. if r_id u = r_id r then u\<lparr>r_run_timeout_ms := optional a (r_run_timeout_ms u),
        r_execution_deadline := optional b (r_execution_deadline u)\<rparr> else u) (d_runs d @ [r])"
    by auto
  then show ?thesis
    by (intro exI [of _ "\<lambda>u. if r_id u = r_id r then u\<lparr>r_run_timeout_ms := optional a (r_run_timeout_ms u),
        r_execution_deadline := optional b (r_execution_deadline u)\<rparr> else u"])
       (simp add: d' append_events_frame [OF d3])
qed

lemma record_child_Inr:
  assumes "record_child (prid, cid) i d = Inr ((b, x), d')"
  shows "if b then \<not> child_on_record d (prid, cid) \<and>
      (\<exists>g r. d_runs d' = map g (d_runs d @ [r]) \<and> r_parent r = Some prid \<and> r_parent_child r = Some cid \<and>
        (\<forall>u. r_parent (g u) = r_parent u \<and> r_parent_child (g u) = r_parent_child u))
    else d' = d"
proof -
  obtain clock now ns q wt inp pol rt et where i: "i = ((clock, now, ns, q), wt, inp, pol, rt, et)"
    by (metis prod.exhaust)
  show ?thesis
  proof (cases "find (\<lambda>r. r_parent r = Some prid \<and> r_parent_child r = Some cid) (d_runs d)")
    case (Some e)
    with assms show ?thesis
      by (auto simp: record_child_def i create_child_run_on_client_def andThen_Inr_iff)
  next
    case None
    let ?r = "(new_run_row (d_next d) ns wt (nullish inp (VObj [])) q None now)
                \<lparr>r_parent := Some prid, r_parent_child := Some cid, r_parent_policy := Some pol\<rparr>"
    from None assms obtain p y where
      b: "b" and op: "open_new_run clock now ?r rt et None inp p d = Inr (y, d')"
      by (auto simp: record_child_def i create_child_run_on_client_def andThen_Inr_iff split: if_splits)
    have "\<not> child_on_record d (prid, cid)"
      using None by (auto simp: child_on_record_def list_ex_iff find_None_iff)
    moreover have "r_parent ?r = Some prid" "r_parent_child ?r = Some cid" by simp_all
    ultimately show ?thesis using b open_new_run_rows [OF op] by (auto simp only: if_True)
  qed
qed

interpretation children: recorded_once child_on_record record_child
proof unfold_locales
  fix k :: "uuid \<times> string" and i s out s' assume rec: "record_child k i s = Inr ((True, out), s')"
  obtain prid cid where k: "k = (prid, cid)" by fastforce
  from record_child_Inr [OF rec [unfolded k]] show "\<not> child_on_record s k \<and> child_on_record s' k"
    by (auto simp: k child_on_record_def list_ex_iff)
next
  fix k :: "uuid \<times> string" and i s out s' assume rec: "record_child k i s = Inr ((False, out), s')"
  obtain prid cid where k: "k = (prid, cid)" by fastforce
  from record_child_Inr [OF rec [unfolded k]] show "s' = s" by simp
next
  fix k k' :: "uuid \<times> string" and i s r s' assume rec: "record_child k i s = Inr (r, s')" and old: "child_on_record s k'"
  obtain prid cid where k: "k = (prid, cid)" by fastforce
  obtain b x where r: "r = (b, x)" by fastforce
  from record_child_Inr [OF rec [unfolded k r]] old show "child_on_record s' k'"
    by (auto simp: child_on_record_def list_ex_iff split: if_splits)
qed

end
