(* ===== verification/Schedules.thy ===== *)
theory Schedules
  imports Cron Recorder
begin

text \<open>
  Schedules (\<open>packages/core/src/schedules/schedule-manager.ts\<close>): their two tables beside the
  engine's, the triggers under the three overlap policies, ticks with both catch-up policies, backfill,
  pausing and resuming.

  Every trigger is handled in a transaction of its own. An operation made of several gives its
  report or its error beside the state the committed ones left. \<open>now\<close> is the database's clock,
  \<open>reading\<close> the manager's, \<open>trace\<close> the traceparent of the span around a start.
\<close>

section \<open>Rows\<close>

datatype overlap_policy = OverlapSkip | OverlapBufferOne | OverlapAllowAll

datatype trigger_outcome = STARTED | SKIPPED | BUFFERED

datatype catch_up_policy = LatestOnly | CatchUpAll

datatype schedule_state = ACTIVE | PAUSED | ERRORED

record schedule_row =
  sc_id :: uuid
  sc_namespace :: uuid
  sc_name :: string
  sc_cron_expression :: string
  sc_time_zone :: string
  sc_workflow_type :: string
  sc_input :: jsv
  sc_overlap :: overlap_policy
  sc_state :: schedule_state
  sc_queue :: string
  sc_catch_up :: catch_up_policy
  sc_catch_up_window :: "int option"
  sc_error :: "string option"
  sc_next_fire_at :: "time option"
  sc_last_fired_at :: "time option"
  sc_buffered_for :: "time option"

record trigger_row =
  tg_schedule :: uuid
  tg_scheduled_for :: time
  tg_outcome :: trigger_outcome
  tg_run :: "uuid option"

record schedule_db =
  ss_db :: db
  ss_schedules :: "schedule_row list"
  ss_triggers :: "trigger_row list"

record schedule_trigger =
  st_schedule :: uuid
  st_scheduled_for :: time
  st_outcome :: trigger_outcome
  st_run_id :: "uuid option"

type_synonym 'a stx = "(schedule_error, schedule_db, 'a) tx"

definition find_schedule :: "schedule_db \<Rightarrow> uuid \<Rightarrow> schedule_row option" where
  "find_schedule s sid = find (\<lambda>c. sc_id c = sid) (ss_schedules s)"

definition update_schedule :: "uuid \<Rightarrow> (schedule_row \<Rightarrow> schedule_row) \<Rightarrow> schedule_db \<Rightarrow> schedule_db" where
  "update_schedule sid f s = s\<lparr>ss_schedules := map (\<lambda>c. if sc_id c = sid then f c else c) (ss_schedules s)\<rparr>"

definition set_trigger :: "uuid \<Rightarrow> time \<Rightarrow> (trigger_row \<Rightarrow> trigger_row) \<Rightarrow> schedule_db \<Rightarrow> schedule_db" where
  "set_trigger sid instant f s =
     s\<lparr>ss_triggers := map (\<lambda>t. if tg_schedule t = sid \<and> tg_scheduled_for t = instant then f t else t) (ss_triggers s)\<rparr>"

section \<open>The instant to start after an outage\<close>

lemma next_cron_time_later: "next_cron_time zones c after = Inr t \<Longrightarrow> after < t"
  using cron_search_matches by (fastforce simp: next_cron_time_def MINUTE_MS_def split: sum.splits)

function latest_instant_until ::
    "zone_table \<Rightarrow> cron_schedule \<Rightarrow> time \<Rightarrow> time \<Rightarrow> schedule_error + time" where
  "latest_instant_until zones c latest now =
     (case next_cron_time zones c latest of
        Inl e \<Rightarrow> Inl e
      | Inr next \<Rightarrow> if now < next then Inr latest else latest_instant_until zones c next now)"
  by pat_completeness auto
termination
  by (relation "measure (\<lambda>(zones, c, latest, now). nat (now - latest))") (auto dest: next_cron_time_later)

declare latest_instant_until.simps [simp del]

definition catch_up_instant :: "zone_table \<Rightarrow> schedule_row \<Rightarrow> cron_schedule \<Rightarrow> time \<Rightarrow> schedule_error + time" where
  "catch_up_instant zones row c now =
     (let due = optional (sc_next_fire_at row) now in
      case sc_catch_up row of
        LatestOnly \<Rightarrow> latest_instant_until zones c due now
      | CatchUpAll \<Rightarrow>
          (case sc_catch_up_window row of
             None \<Rightarrow> Inr due
           | Some window \<Rightarrow>
               if due < now - window then next_cron_time zones c (now - window - 1) else Inr due))"

section \<open>Triggers\<close>

text \<open>\<open>startRun\<close>: the insert of the run, its first event and its first task.\<close>

definition scheduled_payload :: "schedule_row \<Rightarrow> string \<Rightarrow> jsv" where
  "scheduled_payload sc instant =
     VObj [(''reason'', VStr ''schedule''), (''scheduleId'', VStr (show_nat (sc_id sc))), (''scheduledFor'', VStr instant)]"

definition schedule_run_row :: "schedule_row \<Rightarrow> string option \<Rightarrow> time \<Rightarrow> db \<Rightarrow> run_row" where
  "schedule_run_row sc trace now d =
     (new_run_row (d_next d) (sc_namespace sc) (sc_workflow_type sc) (sc_input sc) (sc_queue sc) trace now)
       \<lparr>r_schedule := Some (sc_id sc)\<rparr>"

definition schedule_start_run ::
    "time \<Rightarrow> string option \<Rightarrow> schedule_row \<Rightarrow> time \<Rightarrow> uuid stx" where
  "schedule_start_run now trace sc instant = (\<lambda>s.
     let d = ss_db s; r = schedule_run_row sc trace now d in
     case andThen (modify (insert_run r)) (\<lambda>_.
          andThen (append_events_on_client now (r_id r) 0 [RunStarted (sc_workflow_type sc) (sc_input sc)]) (\<lambda>_.
          andThen (modify (insert_task (sc_namespace sc) (r_id r) (sc_queue sc) WORKFLOW_TASK
                     (scheduled_payload sc (iso_string instant)) now now)) (\<lambda>_.
          ret (r_id r)))) d of
       Inl e \<Rightarrow> Inl (ScheduleFailed e)
     | Inr (rid, d') \<Rightarrow> Inr (rid, s\<lparr>ss_db := d'\<rparr>))"

definition has_open_run :: "schedule_db \<Rightarrow> uuid \<Rightarrow> bool" where
  "has_open_run s sid \<longleftrightarrow> list_ex (\<lambda>r. r_schedule r = Some sid \<and> r_status r = RUNNING) (d_runs (ss_db s))"

definition trigger_known :: "schedule_db \<Rightarrow> uuid \<Rightarrow> time \<Rightarrow> bool" where
  "trigger_known s sid instant \<longleftrightarrow> list_ex (\<lambda>t. tg_schedule t = sid \<and> tg_scheduled_for t = instant) (ss_triggers s)"

definition record_trigger :: "uuid \<Rightarrow> time \<Rightarrow> trigger_outcome \<Rightarrow> uuid option \<Rightarrow> schedule_db \<Rightarrow> schedule_db" where
  "record_trigger sid instant out rid s =
     (if trigger_known s sid instant then s
      else s\<lparr>ss_triggers := ss_triggers s @
        [\<lparr>tg_schedule = sid, tg_scheduled_for = instant, tg_outcome = out, tg_run = rid\<rparr>]\<rparr>)"

definition handle_trigger ::
    "time \<Rightarrow> string option \<Rightarrow> schedule_row \<Rightarrow> time \<Rightarrow> schedule_trigger option stx" where
  "handle_trigger now trace sc instant = (\<lambda>s.
     if trigger_known s (sc_id sc) instant then Inr (None, s)
     else
       let reported = \<lparr>st_schedule = sc_id sc, st_scheduled_for = instant, st_outcome = SKIPPED, st_run_id = None\<rparr> in
       if \<not> (sc_overlap sc \<noteq> OverlapAllowAll \<and> has_open_run s (sc_id sc)) then
         andThen (schedule_start_run now trace sc instant) (\<lambda>rid.
         andThen (modify (record_trigger (sc_id sc) instant STARTED (Some rid))) (\<lambda>_.
         ret (Some (reported\<lparr>st_outcome := STARTED, st_run_id := Some rid\<rparr>)))) s
       else if sc_overlap sc = OverlapBufferOne then
         let s1 = update_schedule (sc_id sc) (\<lambda>c. c\<lparr>sc_buffered_for := Some instant\<rparr>) s;
             s2 = (case sc_buffered_for sc of None \<Rightarrow> s1
                   | Some replaced \<Rightarrow> set_trigger (sc_id sc) replaced (\<lambda>t. t\<lparr>tg_outcome := SKIPPED\<rparr>) s1) in
         Inr (Some (reported\<lparr>st_outcome := BUFFERED\<rparr>), record_trigger (sc_id sc) instant BUFFERED None s2)
       else Inr (Some reported, record_trigger (sc_id sc) instant SKIPPED None s))"

definition next_buffered :: "string \<Rightarrow> schedule_db \<Rightarrow> schedule_row option" where
  "next_buffered q s =
     (case sort_key (\<lambda>c. optional (sc_buffered_for c) 0) (sort_key sc_id (filter (\<lambda>c. sc_state c = ACTIVE \<and>
             sc_buffered_for c \<noteq> None \<and> sc_queue c = q \<and> \<not> has_open_run s (sc_id c)) (ss_schedules s))) of
        [] \<Rightarrow> None | c # _ \<Rightarrow> Some c)"

definition drain_next_buffer ::
    "string \<Rightarrow> time \<Rightarrow> string option \<Rightarrow> schedule_trigger option stx" where
  "drain_next_buffer q now trace = (\<lambda>s.
     case next_buffered q s of
       None \<Rightarrow> Inr (None, s)
     | Some sc \<Rightarrow>
         (case sc_buffered_for sc of
            None \<Rightarrow> Inr (None, s)
          | Some instant \<Rightarrow>
              andThen (schedule_start_run now trace sc instant) (\<lambda>rid.
              andThen (modify (set_trigger (sc_id sc) instant (\<lambda>t. t\<lparr>tg_outcome := STARTED, tg_run := Some rid\<rparr>))) (\<lambda>_.
              andThen (modify (update_schedule (sc_id sc) (\<lambda>c. c\<lparr>sc_buffered_for := None\<rparr>))) (\<lambda>_.
              ret (Some \<lparr>st_schedule = sc_id sc, st_scheduled_for = instant, st_outcome = STARTED, st_run_id = Some rid\<rparr>)))) s))"

section \<open>Firing what is due\<close>

definition next_due_schedule :: "string \<Rightarrow> time \<Rightarrow> schedule_db \<Rightarrow> schedule_row option" where
  "next_due_schedule q reading s =
     (case sort_key (\<lambda>c. optional (sc_next_fire_at c) 0) (sort_key sc_id (filter (\<lambda>c. sc_state c = ACTIVE \<and>
             (case sc_next_fire_at c of None \<Rightarrow> False | Some t \<Rightarrow> t \<le> reading) \<and> sc_queue c = q) (ss_schedules s))) of
        [] \<Rightarrow> None | c # _ \<Rightarrow> Some c)"

definition mark_errored :: "uuid \<Rightarrow> string \<Rightarrow> schedule_db \<Rightarrow> schedule_db" where
  "mark_errored sid reason =
     update_schedule sid (\<lambda>c. c\<lparr>sc_state := ERRORED, sc_error := Some reason, sc_next_fire_at := None\<rparr>)"

text \<open>
  The \<open>catch\<close> of \<open>fireNextDue\<close>: an \<open>InvalidScheduleError\<close> marks the schedule in the state the body had
  reached, any other error rolls the transaction back.
\<close>

definition errored_on_invalid :: "uuid \<Rightarrow> schedule_error \<Rightarrow> schedule_trigger option stx" where
  "errored_on_invalid sid e = (\<lambda>s.
     case e of InvalidScheduleError m \<Rightarrow> Inr (None, mark_errored sid m s) | _ \<Rightarrow> Inl e)"

definition fire_next_due ::
    "zone_table \<Rightarrow> string \<Rightarrow> time \<Rightarrow> string option \<Rightarrow> time \<Rightarrow> schedule_trigger option stx" where
  "fire_next_due zones q now trace reading = (\<lambda>s.
     case next_due_schedule q reading s of
       None \<Rightarrow> Inr (None, s)
     | Some sc \<Rightarrow>
         (case parse_cron zones (sc_cron_expression sc) (sc_time_zone sc) of
            Inl e \<Rightarrow> errored_on_invalid (sc_id sc) e s
          | Inr parsed \<Rightarrow>
              (case catch_up_instant zones sc parsed reading of
                 Inl e \<Rightarrow> errored_on_invalid (sc_id sc) e s
               | Inr instant \<Rightarrow>
                   (case (if instant \<le> reading then handle_trigger now trace sc instant s else Inr (None, s)) of
                      Inl e \<Rightarrow> errored_on_invalid (sc_id sc) e s
                    | Inr (trigger, s1) \<Rightarrow>
                        (case next_cron_time zones parsed instant of
                           Inl e \<Rightarrow> errored_on_invalid (sc_id sc) e s1
                         | Inr next \<Rightarrow>
                             Inr (trigger, update_schedule (sc_id sc) (\<lambda>c. c\<lparr>sc_next_fire_at := Some next,
                               sc_last_fired_at := (if trigger = None then sc_last_fired_at c else Some instant)\<rparr>) s1))))))"

section \<open>Ticks\<close>

type_synonym schedule_report = "schedule_trigger list"

text \<open>The loop over the buffers; its fuel is one more than the number of schedules, each drained at most once.\<close>

fun drain_loop ::
    "nat \<Rightarrow> string \<Rightarrow> time \<Rightarrow> string option \<Rightarrow> schedule_report \<Rightarrow> schedule_db
       \<Rightarrow> (schedule_error + schedule_report) option \<times> schedule_db" where
  "drain_loop 0 q now trace ts s = (None, s)"
| "drain_loop (Suc fuel) q now trace ts s =
     (case drain_next_buffer q now trace s of
        Inl e \<Rightarrow> (Some (Inl e), s)
      | Inr (None, s') \<Rightarrow> (Some (Inr ts), s')
      | Inr (Some t, s') \<Rightarrow> drain_loop fuel q now trace (ts @ [t]) s')"

definition still_due :: "string \<Rightarrow> time \<Rightarrow> schedule_db \<Rightarrow> bool" where
  "still_due q reading s \<longleftrightarrow> next_due_schedule q reading s \<noteq> None"

fun due_loop ::
    "nat \<Rightarrow> zone_table \<Rightarrow> string \<Rightarrow> time \<Rightarrow> string option \<Rightarrow> time \<Rightarrow> schedule_report \<Rightarrow> schedule_db
       \<Rightarrow> (schedule_error + schedule_report) \<times> schedule_db" where
  "due_loop 0 zones q now trace reading ts s = (Inr ts, s)"
| "due_loop (Suc room) zones q now trace reading ts s =
     (case fire_next_due zones q now trace reading s of
        Inl e \<Rightarrow> (Inl e, s)
      | Inr (None, s') \<Rightarrow>
          if still_due q reading s' then due_loop room zones q now trace reading ts s' else (Inr ts, s')
      | Inr (Some t, s') \<Rightarrow> due_loop room zones q now trace reading (ts @ [t]) s')"

definition schedule_tick ::
    "nat \<Rightarrow> zone_table \<Rightarrow> string \<Rightarrow> time \<Rightarrow> string option \<Rightarrow> time \<Rightarrow> schedule_db
       \<Rightarrow> (schedule_error + schedule_report) option \<times> schedule_db" where
  "schedule_tick batch zones q now trace reading s =
     (case drain_loop (Suc (length (ss_schedules s))) q now trace [] s of
        (None, s') \<Rightarrow> (None, s')
      | (Some (Inl e), s') \<Rightarrow> (Some (Inl e), s')
      | (Some (Inr ts), s') \<Rightarrow> (case due_loop batch zones q now trace reading ts s' of (r, s'') \<Rightarrow> (Some r, s'')))"

text \<open>\<open>catchUp\<close>; \<open>readings\<close> is what the clock serves at each tick, \<open>None\<close> that they did not suffice.\<close>

fun schedule_catch_up ::
    "time list \<Rightarrow> nat \<Rightarrow> zone_table \<Rightarrow> string \<Rightarrow> time \<Rightarrow> string option \<Rightarrow> schedule_report \<Rightarrow> schedule_db
       \<Rightarrow> (schedule_error + schedule_report) option \<times> schedule_db" where
  "schedule_catch_up [] batch zones q now trace ts s = (None, s)"
| "schedule_catch_up (reading # readings) batch zones q now trace ts s =
     (case schedule_tick batch zones q now trace reading s of
        (None, s') \<Rightarrow> (None, s')
      | (Some (Inl e), s') \<Rightarrow> (Some (Inl e), s')
      | (Some (Inr r), s') \<Rightarrow>
          if length r < batch then (Some (Inr (ts @ r)), s')
          else schedule_catch_up readings batch zones q now trace (ts @ r) s')"

section \<open>Creating, pausing, resuming, backfilling\<close>

record create_schedule_input =
  ci_namespace :: uuid
  ci_name :: string
  ci_cron_expression :: string
  ci_workflow_type :: string
  ci_input :: jsv
  ci_time_zone :: "string option"
  ci_overlap :: "overlap_policy option"
  ci_catch_up :: "catch_up_policy option"
  ci_catch_up_window :: "rat option"
  ci_start_at :: "time option"

definition create_schedule :: "zone_table \<Rightarrow> string \<Rightarrow> time \<Rightarrow> create_schedule_input \<Rightarrow> schedule_row stx" where
  "create_schedule zones q reading ci = (\<lambda>s.
     let zone = optional (ci_time_zone ci) ''UTC'' in
     if (case ci_catch_up_window ci of None \<Rightarrow> False | Some w \<Rightarrow> of_int \<lfloor>w\<rfloor> \<noteq> w \<or> w \<le> 0)
     then Inl (ScheduleFailed (RangeError ''catchUpWindowMs''))
     else case parse_cron zones (ci_cron_expression ci) zone of
       Inl e \<Rightarrow> Inl e
     | Inr parsed \<Rightarrow>
         (case next_cron_time zones parsed (optional (ci_start_at ci) reading) of
            Inl e \<Rightarrow> Inl e
          | Inr first \<Rightarrow>
              if list_ex (\<lambda>c. sc_namespace c = ci_namespace ci \<and> sc_name c = ci_name ci) (ss_schedules s)
              then Inl (ScheduleAlreadyExistsError (ci_name ci))
              else
                let row = \<lparr>sc_id = d_next (ss_db s), sc_namespace = ci_namespace ci, sc_name = ci_name ci,
                      sc_cron_expression = cs_expression parsed, sc_time_zone = zone,
                      sc_workflow_type = ci_workflow_type ci, sc_input = nullish (ci_input ci) (VObj []),
                      sc_overlap = optional (ci_overlap ci) OverlapSkip, sc_state = ACTIVE, sc_queue = q,
                      sc_catch_up = optional (ci_catch_up ci) LatestOnly,
                      sc_catch_up_window = map_option floor (ci_catch_up_window ci), sc_error = None,
                      sc_next_fire_at = Some first, sc_last_fired_at = None, sc_buffered_for = None\<rparr>
                in Inr (row, s\<lparr>ss_db := (ss_db s)\<lparr>d_next := Suc (d_next (ss_db s))\<rparr>,
                               ss_schedules := ss_schedules s @ [row]\<rparr>)))"

definition get_schedule :: "uuid \<Rightarrow> schedule_row stx" where
  "get_schedule sid = (\<lambda>s. case find_schedule s sid of
     None \<Rightarrow> Inl (ScheduleNotFoundError sid) | Some c \<Rightarrow> Inr (c, s))"

definition pause_schedule :: "uuid \<Rightarrow> schedule_row stx" where
  "pause_schedule sid =
     andThen (get_schedule sid) (\<lambda>_.
     andThen (modify (update_schedule sid (\<lambda>c. c\<lparr>sc_state := PAUSED\<rparr>))) (\<lambda>_. get_schedule sid))"

definition resume_schedule :: "zone_table \<Rightarrow> time \<Rightarrow> uuid \<Rightarrow> schedule_row stx" where
  "resume_schedule zones reading sid =
     andThen (get_schedule sid) (\<lambda>row.
       case (case parse_cron zones (sc_cron_expression row) (sc_time_zone row) of
               Inl e \<Rightarrow> Inl e | Inr parsed \<Rightarrow> next_cron_time zones parsed reading) of
         Inl (InvalidScheduleError m) \<Rightarrow>
           andThen (modify (mark_errored sid m)) (\<lambda>_. get_schedule sid)
       | Inl e \<Rightarrow> raise e
       | Inr next \<Rightarrow>
           andThen (modify (update_schedule sid (\<lambda>c. c\<lparr>sc_state := ACTIVE, sc_next_fire_at := Some next,
             sc_error := None\<rparr>))) (\<lambda>_. get_schedule sid))"

fun backfill_loop ::
    "time \<Rightarrow> string option \<Rightarrow> uuid \<Rightarrow> time list \<Rightarrow> schedule_report \<Rightarrow> schedule_db
       \<Rightarrow> (schedule_error + schedule_report) \<times> schedule_db" where
  "backfill_loop now trace sid [] ts s = (Inr ts, s)"
| "backfill_loop now trace sid (instant # rest) ts s =
     (case andThen (get_schedule sid) (\<lambda>row. handle_trigger now trace row instant) s of
        Inl e \<Rightarrow> (Inl e, s)
      | Inr (t, s') \<Rightarrow> backfill_loop now trace sid rest (case t of None \<Rightarrow> ts | Some x \<Rightarrow> ts @ [x]) s')"

definition DEFAULT_RANGE_LIMIT :: nat where
  "DEFAULT_RANGE_LIMIT = 10000"

definition backfill ::
    "nat \<Rightarrow> zone_table \<Rightarrow> time \<Rightarrow> string option \<Rightarrow> uuid \<Rightarrow> time \<Rightarrow> time \<Rightarrow> schedule_db
       \<Rightarrow> (schedule_error + schedule_report) \<times> schedule_db" where
  "backfill limit zones now trace sid from to s =
     (case get_schedule sid s of
        Inl e \<Rightarrow> (Inl e, s)
      | Inr (row, _) \<Rightarrow>
          (case parse_cron zones (sc_cron_expression row) (sc_time_zone row) of
             Inl e \<Rightarrow> (Inl e, s)
           | Inr parsed \<Rightarrow>
               (case cron_times_between zones parsed from to limit of
                  Inl e \<Rightarrow> (Inl e, s)
                | Inr instants \<Rightarrow> backfill_loop now trace sid instants [] s)))"

definition next_schedule_due_at :: "string \<Rightarrow> schedule_db \<Rightarrow> time option" where
  "next_schedule_due_at q s =
     (case concat (map (\<lambda>c. if sc_state c = ACTIVE \<and> sc_queue c = q then case sc_next_fire_at c of None \<Rightarrow> [] | Some t \<Rightarrow> [t]
                            else []) (ss_schedules s)) of
        [] \<Rightarrow> None | t # ts \<Rightarrow> Some (foldr min ts t))"
section \<open>What a trigger does\<close>

lemma schedule_start_run_ok:
  assumes ok: "base_ok (ss_db s)"
  shows "\<exists>d'. schedule_start_run now trace sc instant s = Inr (d_next (ss_db s), s\<lparr>ss_db := d'\<rparr>) \<and>
     d_runs d' = d_runs (ss_db s) @ [schedule_run_row sc trace now (ss_db s)] \<and>
     opened (ss_db s) (schedule_run_row sc trace now (ss_db s)) (sc_input sc) (scheduled_payload sc (iso_string instant)) now d'"
proof -
  let ?d = "ss_db s" and ?r = "schedule_run_row sc trace now (ss_db s)"
  have fresh: "fresh_row ?d ?r"
    by (simp add: schedule_run_row_def fresh_row_def new_run_row_def projection_from_row_def create_initial_projection_def)
  have valid: "valid_timeout None" by (simp add: valid_timeout_def)
  have none: "apply_run_timeouts_on_client rid now None None None d = Inr ((), d)" for rid d
    by (simp add: apply_run_timeouts_on_client_def validate_timeout_ms_def)
  obtain d' where run: "open_new_run now now ?r None None None (sc_input sc) (scheduled_payload sc (iso_string instant)) ?d = Inr (r_id ?r, d')"
    and op: "opened ?d ?r (sc_input sc) (scheduled_payload sc (iso_string instant)) now d'"
    using open_new_run_ok [OF ok fresh valid valid] by blast
  have fields: "r_id ?r = d_next ?d" "r_workflow_type ?r = sc_workflow_type sc" "r_namespace ?r = sc_namespace sc"
      "r_queue ?r = sc_queue sc"
    by (simp_all add: schedule_run_row_def new_run_row_def)
  have "schedule_start_run now trace sc instant s = Inr (d_next ?d, s\<lparr>ss_db := d'\<rparr>)"
    using run by (auto simp: schedule_start_run_def open_new_run_def none fields Let_def andThen_Inr_iff andThen_def
        split: sum.splits)
  moreover have "d_runs d' = d_runs ?d @ [?r]"
    using run by (auto simp: open_new_run_def none andThen_Inr_iff dest: append_events_frame(1))
  ultimately show ?thesis using op by blast
qed

definition trigger_keys :: "schedule_db \<Rightarrow> (uuid \<times> time) list" where
  "trigger_keys s = map (\<lambda>t. (tg_schedule t, tg_scheduled_for t)) (ss_triggers s)"

lemma trigger_known_iff: "trigger_known s sid instant \<longleftrightarrow> (sid, instant) \<in> set (trigger_keys s)"
  by (force simp: trigger_known_def trigger_keys_def list_ex_iff)

lemma trigger_keys_simps [simp]:
  "trigger_keys (update_schedule sid f s) = trigger_keys s"
  "trigger_keys (s\<lparr>ss_db := d\<rparr>) = trigger_keys s"
  "trigger_keys (set_trigger sid instant (\<lambda>t. t\<lparr>tg_outcome := out\<rparr>) s) = trigger_keys s"
  "trigger_keys (set_trigger sid instant (\<lambda>t. t\<lparr>tg_outcome := out, tg_run := r\<rparr>) s) = trigger_keys s"
  "trigger_keys (record_trigger sid instant out r s) =
     (if (sid, instant) \<in> set (trigger_keys s) then trigger_keys s else trigger_keys s @ [(sid, instant)])"
  by (auto simp: trigger_keys_def update_schedule_def set_trigger_def record_trigger_def trigger_known_iff)

lemma ss_frames [simp]:
  "ss_db (update_schedule sid f s) = ss_db s" "ss_db (set_trigger sid instant g s) = ss_db s"
  "ss_db (record_trigger sid instant out r s) = ss_db s"
  "ss_schedules (set_trigger sid instant g s) = ss_schedules s"
  "ss_schedules (record_trigger sid instant out r s) = ss_schedules s"
  by (simp_all add: update_schedule_def set_trigger_def record_trigger_def)

lemma handle_trigger_keys:
  assumes "handle_trigger now trace sc instant s = Inr (t, s')"
  shows "if t = None then s' = s \<and> (sc_id sc, instant) \<in> set (trigger_keys s)
     else (sc_id sc, instant) \<notin> set (trigger_keys s) \<and> trigger_keys s' = trigger_keys s @ [(sc_id sc, instant)]"
proof (cases "trigger_known s (sc_id sc) instant")
  case False
  have start: "trigger_keys s1 = trigger_keys s" if "schedule_start_run now trace sc instant s = Inr (rid, s1)" for rid s1
    using that by (auto simp: schedule_start_run_def Let_def split: sum.splits)
  from False assms show ?thesis
    by (auto simp: handle_trigger_def Let_def andThen_Inr_iff trigger_known_iff start
        split: if_splits option.splits)
qed (use assms in \<open>simp add: handle_trigger_def trigger_known_iff\<close>)

section \<open>The overlap policy\<close>

definition open_runs :: "schedule_db \<Rightarrow> uuid \<Rightarrow> run_row list" where
  "open_runs s sid = filter (\<lambda>r. r_schedule r = Some sid \<and> r_status r = RUNNING) (d_runs (ss_db s))"

definition one_open :: "schedule_db \<Rightarrow> bool" where
  "one_open s \<longleftrightarrow> (\<forall>c \<in> set (ss_schedules s). sc_overlap c \<noteq> OverlapAllowAll \<longrightarrow> length (open_runs s (sc_id c)) \<le> 1)"

definition schedules_ok :: "schedule_db \<Rightarrow> bool" where
  "schedules_ok s \<longleftrightarrow> engine_ok (ss_db s) \<and> distinct (trigger_keys s) \<and>
     distinct (map sc_id (ss_schedules s)) \<and> list_all (\<lambda>c. sc_id c < d_next (ss_db s)) (ss_schedules s) \<and>
     list_all (\<lambda>r. r_schedule r \<noteq> None \<longrightarrow> the (r_schedule r) < d_next (ss_db s)) (d_runs (ss_db s)) \<and> one_open s"

lemma has_open_run_iff: "has_open_run s sid \<longleftrightarrow> open_runs s sid \<noteq> []"
  by (auto simp: has_open_run_def open_runs_def list_ex_iff filter_empty_conv)

text \<open>An update that leaves what the invariant reads of a schedule alone.\<close>

definition same_policy :: "(schedule_row \<Rightarrow> schedule_row) \<Rightarrow> bool" where
  "same_policy f \<longleftrightarrow> (\<forall>c. sc_id (f c) = sc_id c \<and> sc_overlap (f c) = sc_overlap c)"

lemma schedules_ok_frame:
  assumes "schedules_ok s" and "ss_db s' = ss_db s" and "distinct (trigger_keys s')"
    and "map (\<lambda>c. (sc_id c, sc_overlap c)) (ss_schedules s') = map (\<lambda>c. (sc_id c, sc_overlap c)) (ss_schedules s)"
  shows "schedules_ok s'"
proof -
  have ids: "map sc_id (ss_schedules s') = map sc_id (ss_schedules s)"
    using arg_cong [OF assms(4), of "map fst"] by (simp add: comp_def)
  have "(\<lambda>c. (sc_id c, sc_overlap c)) ` set (ss_schedules s') = (\<lambda>c. (sc_id c, sc_overlap c)) ` set (ss_schedules s)"
    using arg_cong [OF assms(4), of set] by simp
  then have "(sc_id c', sc_overlap c') \<in> (\<lambda>c. (sc_id c, sc_overlap c)) ` set (ss_schedules s)"
    if "c' \<in> set (ss_schedules s')" for c'
    using that by (metis (mono_tags, lifting) imageI)
  then have from_old: "\<exists>c \<in> set (ss_schedules s). sc_id c = sc_id c' \<and> sc_overlap c = sc_overlap c'"
    if "c' \<in> set (ss_schedules s')" for c'
    using that by fastforce
  have runs: "open_runs s' = open_runs s" by (simp add: open_runs_def assms(2) fun_eq_iff)
  have "one_open s'"
    unfolding one_open_def runs using assms(1) from_old unfolding schedules_ok_def one_open_def by metis
  moreover have "list_all (\<lambda>c. sc_id c < d_next (ss_db s)) (ss_schedules s')"
    using assms(1) from_old unfolding schedules_ok_def list_all_iff by metis
  ultimately show ?thesis using assms ids by (simp add: schedules_ok_def)
qed

lemma schedules_ok_update:
  assumes "schedules_ok s" and "same_policy f"
  shows "schedules_ok (update_schedule sid f s)"
proof (rule schedules_ok_frame [OF assms(1)])
  show "distinct (trigger_keys (update_schedule sid f s))" using assms(1) by (simp add: schedules_ok_def)
  show "map (\<lambda>c. (sc_id c, sc_overlap c)) (ss_schedules (update_schedule sid f s)) =
      map (\<lambda>c. (sc_id c, sc_overlap c)) (ss_schedules s)"
    using assms(2) by (simp add: update_schedule_def same_policy_def)
qed simp

lemma schedules_ok_start:
  assumes ok: "schedules_ok s" and sc: "sc \<in> set (ss_schedules s)"
    and free: "sc_overlap sc = OverlapAllowAll \<or> open_runs s (sc_id sc) = []"
  shows "\<exists>s1. schedule_start_run now trace sc instant s = Inr (d_next (ss_db s), s1) \<and> schedules_ok s1 \<and>
     trigger_keys s1 = trigger_keys s \<and> ss_schedules s1 = ss_schedules s \<and> ss_triggers s1 = ss_triggers s \<and>
     d_runs (ss_db s1) = d_runs (ss_db s) @ [schedule_run_row sc trace now (ss_db s)] \<and>
     opened (ss_db s) (schedule_run_row sc trace now (ss_db s)) (sc_input sc) (scheduled_payload sc (iso_string instant)) now (ss_db s1)"
proof -
  let ?d = "ss_db s" and ?r = "schedule_run_row sc trace now (ss_db s)"
  have base: "base_ok ?d" and eng: "engine_ok ?d" using ok by (simp_all add: schedules_ok_def engine_ok_base)
  obtain d' where run: "schedule_start_run now trace sc instant s = Inr (d_next ?d, s\<lparr>ss_db := d'\<rparr>)"
    and rows: "d_runs d' = d_runs ?d @ [?r]"
    and op: "opened ?d ?r (sc_input sc) (scheduled_payload sc (iso_string instant)) now d'"
    using schedule_start_run_ok [OF base] by blast
  have ext: "extends ?d d'" using opened_extends [OF op] .
  then have grown: "d_next ?d \<le> d_next d'" by (simp add: extends_def)
  have "engine_ok d'"
    using engine_okI [OF opened_runs_ok [OF op] ext eng] eng by (simp add: engine_ok_def)
  moreover have fields: "r_schedule ?r = Some (sc_id sc)" "r_status ?r = RUNNING"
    by (simp_all add: schedule_run_row_def new_run_row_def)
  moreover have opens: "open_runs (s\<lparr>ss_db := d'\<rparr>) sid = open_runs s sid @ (if sid = sc_id sc then [?r] else [])" for sid
    by (simp add: open_runs_def rows fields)
  have "one_open (s\<lparr>ss_db := d'\<rparr>)"
    unfolding one_open_def
  proof (intro ballI impI)
    fix c assume c: "c \<in> set (ss_schedules (s\<lparr>ss_db := d'\<rparr>))" "sc_overlap c \<noteq> OverlapAllowAll"
    then have old: "length (open_runs s (sc_id c)) \<le> 1" using ok by (simp add: schedules_ok_def one_open_def)
    have "c = sc" if "sc_id c = sc_id sc"
      using that c(1) sc ok by (simp add: schedules_ok_def distinct_map inj_on_def)
    with c(2) free old show "length (open_runs (s\<lparr>ss_db := d'\<rparr>) (sc_id c)) \<le> 1" by (auto simp: opens)
  qed
  ultimately have "schedules_ok (s\<lparr>ss_db := d'\<rparr>)"
    using ok grown sc unfolding schedules_ok_def list_all_iff by (fastforce simp: rows)
  with run rows op show ?thesis by simp
qed
lemma handle_trigger_ok:
  assumes ok: "schedules_ok s" and sc: "sc \<in> set (ss_schedules s)"
  shows "\<exists>t s'. handle_trigger now trace sc instant s = Inr (t, s') \<and> schedules_ok s' \<and>
     (s' = s \<or> ss_schedules s' = ss_schedules s \<or>
      ss_schedules s' = ss_schedules (update_schedule (sc_id sc) (\<lambda>c. c\<lparr>sc_buffered_for := Some instant\<rparr>) s))"
proof (cases "trigger_known s (sc_id sc) instant")
  case True
  then show ?thesis using ok by (simp add: handle_trigger_def)
next
  case new: False
  have keys: "distinct (trigger_keys s)" using ok by (simp add: schedules_ok_def)
  have recorded: "schedules_ok (record_trigger (sc_id sc) instant out r s1)"
    if "schedules_ok s1" for out r s1
    using that by (rule schedules_ok_frame) (use that in \<open>simp_all add: schedules_ok_def\<close>)
  show ?thesis
  proof (cases "sc_overlap sc \<noteq> OverlapAllowAll \<and> has_open_run s (sc_id sc)")
    case False
    then have "sc_overlap sc = OverlapAllowAll \<or> open_runs s (sc_id sc) = []" by (simp add: has_open_run_iff)
    from schedules_ok_start [OF ok sc this] obtain s1 where
      "schedule_start_run now trace sc instant s = Inr (d_next (ss_db s), s1)" "schedules_ok s1" "ss_schedules s1 = ss_schedules s"
      by blast
    then show ?thesis using new False recorded by (auto simp: handle_trigger_def Let_def)
  next
    case open_run: True
    let ?s1 = "update_schedule (sc_id sc) (\<lambda>c. c\<lparr>sc_buffered_for := Some instant\<rparr>) s"
    have s1: "schedules_ok ?s1" using ok by (rule schedules_ok_update) (simp add: same_policy_def)
    have s2: "schedules_ok (set_trigger (sc_id sc) r (\<lambda>t. t\<lparr>tg_outcome := SKIPPED\<rparr>) ?s1)" for r
      using s1 by (rule schedules_ok_frame) (use s1 in \<open>simp_all add: schedules_ok_def\<close>)
    show ?thesis using new open_run recorded [OF ok] recorded [OF s1] recorded [OF s2]
      by (auto simp: handle_trigger_def Let_def split: option.splits)
  qed
qed

lemma latest_instant_until_Inl:
  "latest_instant_until zones c t now = Inl e \<Longrightarrow> \<exists>m. e = InvalidScheduleError m"
proof (induction zones c t now rule: latest_instant_until.induct)
  case (1 zones c t now)
  then show ?case
    by (subst (asm) latest_instant_until.simps) (auto dest: next_cron_time_Inl split: sum.splits if_splits)
qed

lemma catch_up_instant_Inl: "catch_up_instant zones row c now = Inl e \<Longrightarrow> \<exists>m. e = InvalidScheduleError m"
  by (auto simp: catch_up_instant_def Let_def dest: next_cron_time_Inl latest_instant_until_Inl
      split: catch_up_policy.splits option.splits if_splits)

lemma errored_on_invalid_ok:
  assumes "schedules_ok s" and "\<exists>m. e = InvalidScheduleError m"
  shows "\<exists>s'. errored_on_invalid sid e s = Inr (None, s') \<and> schedules_ok s'"
  using assms by (auto simp: errored_on_invalid_def mark_errored_def same_policy_def intro!: schedules_ok_update)

lemma next_due_schedule_Some:
  assumes "next_due_schedule q reading s = Some sc"
  shows "sc \<in> set (ss_schedules s) \<and> sc_state sc = ACTIVE \<and> sc_queue sc = q \<and> (\<exists>t. sc_next_fire_at sc = Some t \<and> t \<le> reading)"
proof -
  have "sc \<in> set (sort_key (\<lambda>c. optional (sc_next_fire_at c) 0) (sort_key sc_id (filter (\<lambda>c. sc_state c = ACTIVE \<and>
             (case sc_next_fire_at c of None \<Rightarrow> False | Some t \<Rightarrow> t \<le> reading) \<and> sc_queue c = q) (ss_schedules s))))"
    using assms by (auto simp: next_due_schedule_def simp del: set_sort split: list.splits)
  then show ?thesis by (auto split: option.splits)
qed

lemma fire_next_due_ok:
  assumes ok: "schedules_ok s"
  shows "\<exists>t s'. fire_next_due zones q now trace reading s = Inr (t, s') \<and> schedules_ok s'"
proof (cases "next_due_schedule q reading s")
  case None
  then show ?thesis using ok by (simp add: fire_next_due_def)
next
  case (Some sc)
  then have sc: "sc \<in> set (ss_schedules s)" using next_due_schedule_Some by blast
  note errored = errored_on_invalid_ok [where sid = "sc_id sc"]
  have upd: "schedules_ok (update_schedule (sc_id sc) (\<lambda>c. c\<lparr>sc_next_fire_at := n, sc_last_fired_at := l c\<rparr>) s1)"
    if "schedules_ok s1" for n l s1
    using that by (rule schedules_ok_update) (simp add: same_policy_def)
  show ?thesis
  proof (cases "parse_cron zones (sc_cron_expression sc) (sc_time_zone sc)")
    case (Inl e)
    with Some errored [OF ok parse_cron_Inl [OF Inl]] show ?thesis by (auto simp: fire_next_due_def)
  next
    case parsed: (Inr c)
    show ?thesis
    proof (cases "catch_up_instant zones sc c reading")
      case (Inl e)
      with Some parsed errored [OF ok catch_up_instant_Inl [OF Inl]] show ?thesis by (auto simp: fire_next_due_def)
    next
      case instant: (Inr instant)
      obtain t s1 where run: "(if instant \<le> reading then handle_trigger now trace sc instant s else Inr (None, s)) = Inr (t, s1)"
        and s1: "schedules_ok s1"
        using handle_trigger_ok [OF ok sc] ok by (cases "instant \<le> reading") (simp, blast, simp)
      show ?thesis
      proof (cases "next_cron_time zones c instant")
        case (Inl e)
        with Some parsed instant run errored [OF s1 next_cron_time_Inl [OF Inl]] show ?thesis
          by (auto simp: fire_next_due_def)
      next
        case (Inr n)
        with Some parsed instant run upd [OF s1] show ?thesis by (simp add: fire_next_due_def)
      qed
    qed
  qed
qed
section \<open>Ticks end and keep the tables in order\<close>

definition buffered_count :: "schedule_db \<Rightarrow> nat" where
  "buffered_count s = length (filter (\<lambda>c. sc_buffered_for c \<noteq> None) (ss_schedules s))"

lemma next_buffered_Some:
  assumes "next_buffered q s = Some sc"
  shows "sc \<in> set (ss_schedules s)" and "sc_buffered_for sc \<noteq> None" and "\<not> has_open_run s (sc_id sc)"
proof -
  have "sc \<in> set (sort_key (\<lambda>c. optional (sc_buffered_for c) 0) (sort_key sc_id (filter (\<lambda>c. sc_state c = ACTIVE \<and>
             sc_buffered_for c \<noteq> None \<and> sc_queue c = q \<and> \<not> has_open_run s (sc_id c)) (ss_schedules s))))"
    using assms by (auto simp: next_buffered_def simp del: set_sort split: list.splits)
  then show "sc \<in> set (ss_schedules s)" and "sc_buffered_for sc \<noteq> None" and "\<not> has_open_run s (sc_id sc)"
    by auto
qed

lemma drain_next_buffer_ok:
  assumes ok: "schedules_ok s"
  shows "\<exists>t s'. drain_next_buffer q now trace s = Inr (t, s') \<and> schedules_ok s' \<and>
     length (ss_schedules s') = length (ss_schedules s) \<and> (t \<noteq> None \<longrightarrow> buffered_count s' < buffered_count s) \<and>
     trigger_keys s' = trigger_keys s"
proof (cases "next_buffered q s")
  case None
  then show ?thesis using ok by (simp add: drain_next_buffer_def)
next
  case (Some sc)
  note sc = next_buffered_Some [OF Some]
  then obtain instant where b: "sc_buffered_for sc = Some instant" by blast
  have "open_runs s (sc_id sc) = []" using sc(3) by (simp add: has_open_run_iff)
  from schedules_ok_start [OF ok sc(1) disjI2 [OF this]] obtain s1 where
    run: "schedule_start_run now trace sc instant s = Inr (d_next (ss_db s), s1)" and s1: "schedules_ok s1"
    and kept: "trigger_keys s1 = trigger_keys s" "ss_schedules s1 = ss_schedules s" by blast
  let ?s2 = "set_trigger (sc_id sc) instant (\<lambda>t. t\<lparr>tg_outcome := STARTED, tg_run := Some (d_next (ss_db s))\<rparr>) s1"
  let ?s3 = "update_schedule (sc_id sc) (\<lambda>c. c\<lparr>sc_buffered_for := None\<rparr>) ?s2"
  have "schedules_ok ?s2"
    using s1 by (rule schedules_ok_frame) (use s1 in \<open>simp_all add: schedules_ok_def\<close>)
  then have "schedules_ok ?s3" by (rule schedules_ok_update) (simp add: same_policy_def)
  moreover have s3: "ss_schedules ?s3 = map (\<lambda>c. if sc_id c = sc_id sc then c\<lparr>sc_buffered_for := None\<rparr> else c) (ss_schedules s)"
    by (simp add: update_schedule_def kept)
  moreover have "buffered_count ?s3 < buffered_count s"
    unfolding buffered_count_def s3
    by (rule length_filter_map_less [OF _ sc(1)]) (use sc(2) in \<open>auto split: if_splits\<close>)
  ultimately show ?thesis using Some b run kept
    by (simp add: drain_next_buffer_def)
qed

lemma drain_loop_ok:
  assumes "schedules_ok s" and "buffered_count s < fuel"
  shows "\<exists>ts' s'. drain_loop fuel q now trace ts s = (Some (Inr ts'), s') \<and> schedules_ok s' \<and> trigger_keys s' = trigger_keys s \<and>
     next_buffered q s' = None"
  using assms
proof (induction fuel q now trace ts s rule: drain_loop.induct)
  case (2 fuel q now trace ts s)
  obtain t s' where t: "drain_next_buffer q now trace s = Inr (t, s')" "schedules_ok s'"
     "t \<noteq> None \<longrightarrow> buffered_count s' < buffered_count s" "trigger_keys s' = trigger_keys s"
    using drain_next_buffer_ok [OF "2.prems"(1)] by blast
  show ?case
  proof (cases t)
    case None
    have "next_buffered q s' = None"
    proof (cases "next_buffered q s")
      case (Some sc)
      with next_buffered_Some(2) [OF Some] None t(1) show ?thesis
        by (auto simp: drain_next_buffer_def andThen_Inr_iff)
    qed (use None t(1) in \<open>simp add: drain_next_buffer_def\<close>)
    with None t show ?thesis by simp
  next
    case (Some x)
    with t "2.prems"(2) have "buffered_count s' < fuel" by simp
    from "2.IH" [OF t(1) [unfolded Some] refl refl t(2) this] t Some show ?thesis by auto
  qed
qed simp

lemma due_loop_ok:
  assumes "schedules_ok s"
  shows "\<exists>ts' s'. due_loop room zones q now trace reading ts s = (Inr ts', s') \<and> schedules_ok s'"
  using assms
proof (induction room zones q now trace reading ts s rule: due_loop.induct)
  case (2 room zones q now trace reading ts s)
  obtain t s' where t: "fire_next_due zones q now trace reading s = Inr (t, s')" "schedules_ok s'"
    using fire_next_due_ok [OF "2.prems"] by blast
  show ?case using t "2.IH" by (cases t) (auto split: if_splits)
qed simp

lemma schedule_tick_ok:
  assumes "schedules_ok s"
  shows "\<exists>ts s'. schedule_tick batch zones q now trace reading s = (Some (Inr ts), s') \<and> schedules_ok s'"
proof -
  have "buffered_count s < Suc (length (ss_schedules s))" by (simp add: buffered_count_def le_imp_less_Suc)
  from drain_loop_ok [OF assms this] obtain ts s1 where
    d: "drain_loop (Suc (length (ss_schedules s))) q now trace [] s = (Some (Inr ts), s1)" and s1: "schedules_ok s1" by blast
  from due_loop_ok [OF s1] obtain ts' s' where
    "due_loop batch zones q now trace reading ts s1 = (Inr ts', s')" "schedules_ok s'" by blast
  with d show ?thesis by (simp add: schedule_tick_def)
qed

section \<open>A backfill can be repeated\<close>

lemma handle_trigger_known:
  "(sc_id sc, instant) \<in> set (trigger_keys s) \<Longrightarrow> handle_trigger now trace sc instant s = Inr (None, s)"
  by (simp add: handle_trigger_def trigger_known_iff)

text \<open>A trigger changes no column of its schedule but the buffer.\<close>

definition cron_of :: "schedule_db \<Rightarrow> uuid \<Rightarrow> (string \<times> string) option" where
  "cron_of s sid = map_option (\<lambda>c. (sc_cron_expression c, sc_time_zone c)) (find_schedule s sid)"

lemma find_schedule_update:
  assumes "\<And>c. sc_id (f c) = sc_id c"
  shows "find_schedule (update_schedule sid' f s) sid =
     (if sid = sid' then map_option f (find_schedule s sid) else find_schedule s sid)"
proof -
  have "find (\<lambda>c. sc_id c = sid) (map (\<lambda>c. if sc_id c = sid' then f c else c) cs) =
     (if sid = sid' then map_option f (find (\<lambda>c. sc_id c = sid) cs) else find (\<lambda>c. sc_id c = sid) cs)" for cs
    using assms by (induction cs) auto
  then show ?thesis by (simp add: find_schedule_def update_schedule_def)
qed

lemma find_schedule_Some: "find_schedule s sid = Some c \<Longrightarrow> c \<in> set (ss_schedules s) \<and> sc_id c = sid"
  by (auto simp: find_schedule_def find_Some_iff in_set_conv_nth)

lemma backfill_loop_ok:
  assumes "schedules_ok s" and "find_schedule s sid \<noteq> None"
  shows "\<exists>ts' s'. backfill_loop now trace sid instants ts s = (Inr ts', s') \<and> schedules_ok s' \<and>
     set (trigger_keys s') = set (trigger_keys s) \<union> Pair sid ` set instants \<and> cron_of s' sid = cron_of s sid"
  using assms
proof (induction instants arbitrary: ts s)
  case (Cons instant rest)
  obtain row where row: "find_schedule s sid = Some row" using Cons.prems(2) by blast
  note in_table = find_schedule_Some [OF row]
  obtain t s1 where run: "handle_trigger now trace row instant s = Inr (t, s1)" and s1: "schedules_ok s1"
    and table: "s1 = s \<or> ss_schedules s1 = ss_schedules s \<or>
      ss_schedules s1 = ss_schedules (update_schedule (sc_id row) (\<lambda>c. c\<lparr>sc_buffered_for := Some instant\<rparr>) s)"
    using handle_trigger_ok [OF Cons.prems(1)] in_table by blast
  have keys: "set (trigger_keys s1) = insert (sid, instant) (set (trigger_keys s))"
    using handle_trigger_keys [OF run] in_table by (auto split: if_splits)
  have "find_schedule s1 sid = find_schedule s sid \<or>
      find_schedule s1 sid = find_schedule (update_schedule (sc_id row) (\<lambda>c. c\<lparr>sc_buffered_for := Some instant\<rparr>) s) sid"
    using table by (auto simp: find_schedule_def)
  then have cron: "cron_of s1 sid = cron_of s sid" and found: "find_schedule s1 sid \<noteq> None"
    using row by (auto simp: cron_of_def find_schedule_update)
  from Cons.IH [OF s1 found, of "case t of None \<Rightarrow> ts | Some x \<Rightarrow> ts @ [x]"] show ?case
    using run row keys cron by (auto simp: get_schedule_def)
qed simp

lemma backfill_loop_known:
  assumes "Pair sid ` set instants \<subseteq> set (trigger_keys s)" and "find_schedule s sid \<noteq> None"
  shows "backfill_loop now trace sid instants ts s = (Inr ts, s)"
  using assms(1)
proof (induction instants)
  case (Cons instant rest)
  obtain row where row: "find_schedule s sid = Some row" using assms(2) by blast
  have "(sc_id row, instant) \<in> set (trigger_keys s)" using find_schedule_Some [OF row] Cons.prems by auto
  note known = handle_trigger_known [OF this]
  show ?case using Cons known row by (simp add: get_schedule_def)
qed simp

lemma backfill_twice:
  assumes ok: "schedules_ok s" and run: "backfill limit zones now trace sid from to s = (Inr ts, s')"
  shows "schedules_ok s' \<and> backfill limit zones now' trace' sid from to s' = (Inr [], s')"
proof -
  obtain row parsed instants where row: "find_schedule s sid = Some row"
    and p: "parse_cron zones (sc_cron_expression row) (sc_time_zone row) = Inr parsed"
    and i: "cron_times_between zones parsed from to limit = Inr instants"
    and loop: "backfill_loop now trace sid instants [] s = (Inr ts, s')"
    using run by (auto simp: backfill_def get_schedule_def split: sum.splits option.splits)
  from backfill_loop_ok [OF ok, of sid now trace instants "[]"] row loop
  have s': "schedules_ok s'" and keys: "Pair sid ` set instants \<subseteq> set (trigger_keys s')" and c: "cron_of s' sid = cron_of s sid"
    by auto
  from c row obtain row' where row': "find_schedule s' sid = Some row'"
    "sc_cron_expression row' = sc_cron_expression row" "sc_time_zone row' = sc_time_zone row"
    by (auto simp: cron_of_def)
  from backfill_loop_known [OF keys] row' p i s' show ?thesis by (simp add: backfill_def get_schedule_def)
qed
section \<open>The latest missed instant\<close>

text \<open>The instants of a schedule, at the whole minutes the search works with.\<close>

definition scheduled_instant :: "int \<Rightarrow> cron_schedule \<Rightarrow> time \<Rightarrow> bool" where
  "scheduled_instant off c t \<longleftrightarrow> t mod MINUTE_MS = 0 \<and> cron_matches (\<lambda>_. off) c t"

lemma latest_instant_until_latest:
  assumes "fixed_zone zones (cs_time_zone c) off" and "scheduled_instant off c first" and "first \<le> now"
    and "latest_instant_until zones c first now = Inr t"
  shows "first \<le> t \<and> t \<le> now \<and> scheduled_instant off c t \<and> (\<forall>u. t < u \<longrightarrow> u \<le> now \<longrightarrow> \<not> scheduled_instant off c u)"
  using assms
proof (induction zones c first now rule: latest_instant_until.induct)
  case (1 zones c first now)
  note next_first = next_cron_time_first [OF "1.prems"(1), of first]
  obtain n where n: "next_cron_time zones c first = Inr n"
    using "1.prems"(4) by (subst (asm) latest_instant_until.simps) (auto split: sum.splits)
  with next_first have hit: "first < n" "scheduled_instant off c n"
    and gap: "\<And>u. first < u \<Longrightarrow> u < n \<Longrightarrow> \<not> scheduled_instant off c u"
    by (auto simp: scheduled_instant_def)
  show ?case
  proof (cases "now < n")
    case True
    with n "1.prems"(4) have "t = first" by (subst (asm) latest_instant_until.simps) simp
    with True gap "1.prems"(2,3) show ?thesis by auto
  next
    case False
    with n "1.prems"(4) have "latest_instant_until zones c n now = Inr t"
      by (subst (asm) latest_instant_until.simps) simp
    from "1.IH" [OF n False "1.prems"(1) hit(2) _ this] False hit(1) show ?thesis by auto
  qed
qed

section \<open>The overlap policy decides\<close>

lemma handle_trigger_outcome:
  assumes ok: "schedules_ok s" and sc: "sc \<in> set (ss_schedules s)" and new: "\<not> trigger_known s (sc_id sc) instant"
  shows "\<exists>t s'. handle_trigger now trace sc instant s = Inr (Some t, s') \<and> schedules_ok s' \<and>
     st_schedule t = sc_id sc \<and> st_scheduled_for t = instant \<and>
     ss_triggers s' ! length (ss_triggers s) =
       \<lparr>tg_schedule = sc_id sc, tg_scheduled_for = instant, tg_outcome = st_outcome t, tg_run = st_run_id t\<rparr> \<and>
     length (ss_triggers s') = Suc (length (ss_triggers s)) \<and>
     (if sc_overlap sc = OverlapAllowAll \<or> open_runs s (sc_id sc) = [] then
        st_outcome t = STARTED \<and> st_run_id t = Some (d_next (ss_db s)) \<and>
        (\<exists>r. r_schedule r = Some (sc_id sc) \<and> r_id r = d_next (ss_db s) \<and> r_workflow_type r = sc_workflow_type sc \<and>
           d_runs (ss_db s') = d_runs (ss_db s) @ [r] \<and>
           opened (ss_db s) r (sc_input sc) (scheduled_payload sc (iso_string instant)) now (ss_db s'))
      else ss_db s' = ss_db s \<and> st_run_id t = None \<and>
        st_outcome t = (if sc_overlap sc = OverlapBufferOne then BUFFERED else SKIPPED))"
proof (cases "sc_overlap sc = OverlapAllowAll \<or> open_runs s (sc_id sc) = []")
  case True
  then have free: "\<not> (sc_overlap sc \<noteq> OverlapAllowAll \<and> has_open_run s (sc_id sc))" by (simp add: has_open_run_iff)
  let ?r = "schedule_run_row sc trace now (ss_db s)"
  from schedules_ok_start [OF ok sc True] obtain s1 where
    run: "schedule_start_run now trace sc instant s = Inr (d_next (ss_db s), s1)" and s1: "schedules_ok s1"
    and kept: "trigger_keys s1 = trigger_keys s" "ss_triggers s1 = ss_triggers s"
    and rows: "d_runs (ss_db s1) = d_runs (ss_db s) @ [?r]"
    and op: "opened (ss_db s) ?r (sc_input sc) (scheduled_payload sc (iso_string instant)) now (ss_db s1)" by blast
  let ?s2 = "record_trigger (sc_id sc) instant STARTED (Some (d_next (ss_db s))) s1"
  have known: "\<not> trigger_known s1 (sc_id sc) instant" using new by (simp add: trigger_known_iff kept)
  have s2: "schedules_ok ?s2" using s1 by (rule schedules_ok_frame) (use s1 in \<open>simp_all add: schedules_ok_def\<close>)
  have rec: "ss_triggers ?s2 = ss_triggers s @ [\<lparr>tg_schedule = sc_id sc, tg_scheduled_for = instant,
      tg_outcome = STARTED, tg_run = Some (d_next (ss_db s))\<rparr>]"
    using known by (simp add: record_trigger_def kept)
  have r: "r_schedule ?r = Some (sc_id sc)" "r_id ?r = d_next (ss_db s)" "r_workflow_type ?r = sc_workflow_type sc"
    by (simp_all add: schedule_run_row_def new_run_row_def)
  let ?t = "\<lparr>st_schedule = sc_id sc, st_scheduled_for = instant, st_outcome = STARTED, st_run_id = Some (d_next (ss_db s))\<rparr>"
  have handled: "handle_trigger now trace sc instant s = Inr (Some ?t, ?s2)"
    using new free run by (simp add: handle_trigger_def Let_def)
  have started: "\<exists>r. r_schedule r = Some (sc_id sc) \<and> r_id r = d_next (ss_db s) \<and> r_workflow_type r = sc_workflow_type sc \<and>
           d_runs (ss_db ?s2) = d_runs (ss_db s) @ [r] \<and>
           opened (ss_db s) r (sc_input sc) (scheduled_payload sc (iso_string instant)) now (ss_db ?s2)"
    using r rows op by (intro exI [of _ ?r]) simp
  show ?thesis
    by (rule exI [of _ ?t], rule exI [of _ ?s2]) (use handled True s2 rec started in simp)
next
  case False
  then have busy: "sc_overlap sc \<noteq> OverlapAllowAll" "has_open_run s (sc_id sc)" by (simp_all add: has_open_run_iff)
  obtain t s' where run: "handle_trigger now trace sc instant s = Inr (t, s')" and s': "schedules_ok s'"
    using handle_trigger_ok [OF ok sc] by blast
  have keys: "(sc_id sc, instant) \<notin> set (trigger_keys s)" using new by (simp add: trigger_known_iff)
  have rec: "ss_triggers (record_trigger (sc_id sc) instant out r s1) = ss_triggers s1 @
      [\<lparr>tg_schedule = sc_id sc, tg_scheduled_for = instant, tg_outcome = out, tg_run = r\<rparr>]"
    if "trigger_keys s1 = trigger_keys s" for s1 out r
    using keys that by (simp add: record_trigger_def trigger_known_iff)
  have len: "length (ss_triggers (set_trigger i x g s1)) = length (ss_triggers s1)"
      "ss_triggers (update_schedule i h s1) = ss_triggers s1" for i x g h s1
    by (simp_all add: set_trigger_def update_schedule_def)
  have at_end: "(xs @ [x]) ! n = x" if "length xs = n" for xs :: "trigger_row list" and x n
    using that by (auto simp: nth_append)
  from run s' False busy new show ?thesis
    by (auto simp: handle_trigger_def Let_def rec len at_end split: option.splits if_splits)
qed

section \<open>The manager as a transition system\<close>

inductive schedule_step :: "schedule_db \<Rightarrow> schedule_db \<Rightarrow> bool" where
  created: "create_schedule zones q reading ci s = Inr (row, s') \<Longrightarrow> schedule_step s s'"
| paused: "pause_schedule sid s = Inr (row, s') \<Longrightarrow> schedule_step s s'"
| resumed: "resume_schedule zones reading sid s = Inr (row, s') \<Longrightarrow> schedule_step s s'"
| ticked: "schedule_tick batch zones q now trace reading s = (r, s') \<Longrightarrow> schedule_step s s'"
| backfilled: "backfill limit zones now trace sid from to s = (b, s') \<Longrightarrow> schedule_step s s'"

lemma create_schedule_ok:
  assumes ok: "schedules_ok s" and run: "create_schedule zones q reading ci s = Inr (row, s')"
  shows "schedules_ok s'"
proof -
  have new: "sc_id row = d_next (ss_db s)"
    using run by (auto simp: create_schedule_def Let_def split: if_splits sum.splits)
  have s': "s' = s\<lparr>ss_db := (ss_db s)\<lparr>d_next := Suc (d_next (ss_db s))\<rparr>, ss_schedules := ss_schedules s @ [row]\<rparr>"
    using run by (auto simp: create_schedule_def Let_def split: if_splits sum.splits)
  have runs: "open_runs s' sid = open_runs s sid" for sid by (simp add: open_runs_def s')
  have "r_schedule r \<noteq> Some (d_next (ss_db s))" if "r \<in> set (d_runs (ss_db s))" for r
    using ok that unfolding schedules_ok_def list_all_iff by auto
  then have "open_runs s (d_next (ss_db s)) = []" by (simp add: open_runs_def filter_empty_conv)
  then have fresh: "open_runs s (sc_id row) = []" by (simp only: new)
  have "one_open s'"
    unfolding one_open_def
  proof (intro ballI impI)
    fix c assume "c \<in> set (ss_schedules s')" and pol: "sc_overlap c \<noteq> OverlapAllowAll"
    then consider "c \<in> set (ss_schedules s)" | "c = row" by (auto simp: s')
    then show "length (open_runs s' (sc_id c)) \<le> 1"
    proof cases
      case 1
      with pol ok show ?thesis unfolding runs schedules_ok_def one_open_def by blast
    next
      case 2
      with fresh show ?thesis unfolding runs by simp
    qed
  qed
  moreover have "engine_ok (ss_db s')"
  proof -
    let ?d = "ss_db s" and ?d' = "(ss_db s)\<lparr>d_next := Suc (d_next (ss_db s))\<rparr>"
    have eng: "engine_ok ?d" using ok by (simp add: schedules_ok_def)
    have "runs_ok ?d'" by (rule runs_ok_same_runs [of ?d]) (use eng in \<open>simp_all add: engine_ok_def\<close>)
    moreover have "extends ?d ?d'"
      by (rule extends_same_runs) (auto simp: waiting_tasks_def timeouts_ok_def intro: keeps_same_tables)
    ultimately show ?thesis using engine_okI eng by (simp add: s')
  qed
  moreover have "distinct (map sc_id (ss_schedules s @ [row]))"
    using ok by (fastforce simp: schedules_ok_def list_all_iff new)
  moreover have "list_all (\<lambda>c. sc_id c < Suc (d_next (ss_db s))) (ss_schedules s @ [row])"
    "list_all (\<lambda>r. r_schedule r \<noteq> None \<longrightarrow> the (r_schedule r) < Suc (d_next (ss_db s))) (d_runs (ss_db s))"
    using ok by (auto simp: schedules_ok_def list_all_iff new less_Suc_eq)
  ultimately show ?thesis using ok by (simp add: schedules_ok_def s' trigger_keys_def)
qed

lemma get_schedule_Inr: "get_schedule sid s = Inr (row, s') \<Longrightarrow> s' = s"
  by (auto simp: get_schedule_def split: option.splits)

lemma pause_schedule_ok:
  assumes ok: "schedules_ok s" and run: "pause_schedule sid s = Inr (row, s')"
  shows "schedules_ok s'"
proof -
  have "s' = update_schedule sid (\<lambda>c. c\<lparr>sc_state := PAUSED\<rparr>) s"
    using run by (auto simp: pause_schedule_def andThen_Inr_iff dest!: get_schedule_Inr)
  then show ?thesis using ok by (auto simp: same_policy_def intro!: schedules_ok_update)
qed

lemma resume_schedule_ok:
  assumes ok: "schedules_ok s" and run: "resume_schedule zones reading sid s = Inr (row, s')"
  shows "schedules_ok s'"
proof -
  obtain c where c: "get_schedule sid s = Inr (c, s)"
    using run by (auto simp: resume_schedule_def andThen_Inr_iff dest: get_schedule_Inr)
  have upd: "schedules_ok (update_schedule sid (\<lambda>c. c\<lparr>sc_state := ACTIVE, sc_next_fire_at := n, sc_error := None\<rparr>) s)"
    "schedules_ok (mark_errored sid m s)" for n m
    using ok by (auto simp: mark_errored_def same_policy_def intro!: schedules_ok_update)
  let ?next = "case parse_cron zones (sc_cron_expression c) (sc_time_zone c) of
      Inl e \<Rightarrow> Inl e | Inr parsed \<Rightarrow> next_cron_time zones parsed reading"
  show ?thesis
  proof (cases ?next)
    case (Inl e)
    with run c upd show ?thesis
      by (cases e) (auto simp: resume_schedule_def andThen_Inr_iff dest!: get_schedule_Inr)
  next
    case (Inr n)
    with run c upd show ?thesis by (auto simp: resume_schedule_def andThen_Inr_iff dest!: get_schedule_Inr)
  qed
qed

lemma schedule_step_ok:
  assumes "schedule_step s s'" and ok: "schedules_ok s"
  shows "schedules_ok s'"
  using assms
proof cases
  case (created zones q reading ci row)
  then show ?thesis by (rule create_schedule_ok [OF ok])
next
  case (paused sid row)
  then show ?thesis by (rule pause_schedule_ok [OF ok])
next
  case (resumed zones reading sid row)
  then show ?thesis by (rule resume_schedule_ok [OF ok])
next
  case (ticked batch zones q now trace reading r)
  with schedule_tick_ok [OF ok, of batch zones q now trace reading] show ?thesis by auto
next
  case (backfilled limit zones now trace sid lo hi b)
  then show ?thesis
  proof (cases b)
    case (Inr ts)
    with backfilled backfill_twice [OF ok] show ?thesis by blast
  next
    case (Inl e)
    consider "s' = s" | instants where "find_schedule s sid \<noteq> None" "backfill_loop now trace sid instants [] s = (b, s')"
      using backfilled by (auto simp: backfill_def get_schedule_def split: sum.splits option.splits)
    then show ?thesis
    proof cases
      case 2
      with backfill_loop_ok [OF ok 2(1), of now trace instants "[]"] show ?thesis by auto
    qed (use ok in simp)
  qed
qed

lemma schedule_steps_ok: "schedule_step\<^sup>*\<^sup>* s s' \<Longrightarrow> schedules_ok s \<Longrightarrow> schedules_ok s'"
  by (induction rule: rtranclp_induct) (auto intro: schedule_step_ok)

section \<open>A trigger is handled once\<close>

definition trigger_on_record :: "schedule_db \<Rightarrow> uuid \<times> time \<Rightarrow> bool" where
  "trigger_on_record s k \<longleftrightarrow> k \<in> set (trigger_keys s)"

definition deliver_trigger ::
    "uuid \<times> time \<Rightarrow> time \<times> string option \<times> schedule_row \<Rightarrow> (schedule_error, schedule_db, bool \<times> schedule_trigger option) tx" where
  "deliver_trigger k i =
     andThen (handle_trigger (fst i) (fst (snd i)) ((snd (snd i))\<lparr>sc_id := fst k\<rparr>) (snd k)) (\<lambda>t. ret (t \<noteq> None, t))"

interpretation triggers: recorded_once trigger_on_record deliver_trigger
proof
  fix k i s out s'
  assume "deliver_trigger k i s = Inr ((True, out), s')"
  then show "\<not> trigger_on_record s k \<and> trigger_on_record s' k"
    by (cases k) (auto simp: deliver_trigger_def andThen_Inr_iff trigger_on_record_def dest!: handle_trigger_keys split: if_splits)
next
  fix k i s out s'
  assume "deliver_trigger k i s = Inr ((False, out), s')"
  then show "s' = s"
    by (auto simp: deliver_trigger_def andThen_Inr_iff dest!: handle_trigger_keys split: if_splits)
next
  fix k i s r s' k'
  assume "deliver_trigger k i s = Inr (r, s')" and "trigger_on_record s k'"
  then show "trigger_on_record s' k'"
    by (auto simp: deliver_trigger_def andThen_Inr_iff trigger_on_record_def dest!: handle_trigger_keys split: if_splits)
qed
end
