(* ===== verification/ScheduleExamples.thy ===== *)
theory ScheduleExamples
  imports Schedules
begin

text \<open>
  Concrete schedules the theorems are applied at: Mondays in UTC and in New York around the spring of
  2026, and a schedule of the first ten minutes of a year whose first instant was backfilled.
\<close>

definition utc_only :: zone_table where
  "utc_only zone = (if zone = ''UTC'' then Some (\<lambda>_. 0) else None)"

definition mondays :: cron_schedule where
  "mondays = projr (parse_cron utc_only ''0 0 * * 1'' ''UTC'')"

lemma mondays_zone: "cs_time_zone mondays = ''UTC''"
  by code_simp

lemma utc_is_fixed: "fixed_zone utc_only (cs_time_zone mondays) 0"
  by (simp add: mondays_zone fixed_zone_def utc_only_def)

text \<open>New York goes from UTC-5 to UTC-4 on 2026-03-08 at 07:00 UTC.\<close>

definition new_york_offset :: "time \<Rightarrow> int" where
  "new_york_offset t = (if t < 1772953200000 then - 18000000 else - 14400000)"

definition new_york_spring :: zone_table where
  "new_york_spring zone = (if zone = ''America/New_York'' then Some new_york_offset else None)"

definition new_york_mondays :: cron_schedule where
  "new_york_mondays = projr (parse_cron new_york_spring ''0 0 * * 1'' ''America/New_York'')"

section \<open>A schedule of minutes\<close>

definition no_schedules :: schedule_db where
  "no_schedules = \<lparr>ss_db = empty_db, ss_schedules = [], ss_triggers = []\<rparr>"

definition minutely_input :: create_schedule_input where
  "minutely_input =
     \<lparr>ci_namespace = 7, ci_name = ''minutely'', ci_cron_expression = ''0-9 0 1 1 *'', ci_workflow_type = ''sweep'',
      ci_input = VUndef, ci_time_zone = None, ci_overlap = Some OverlapAllowAll, ci_catch_up = Some CatchUpAll,
      ci_catch_up_window = None, ci_start_at = Some 0\<rparr>"

definition minutely :: schedule_db where
  "minutely = snd (projr (create_schedule utc_only ''main'' 0 minutely_input no_schedules))"

definition minutely_row :: schedule_row where
  "minutely_row = fst (projr (create_schedule utc_only ''main'' 0 minutely_input no_schedules))"

definition minutely_backfilled :: schedule_db where
  "minutely_backfilled = snd (backfill 10 utc_only 1 None 0 60000 120000 minutely)"

definition projl_report :: "(schedule_error + schedule_report) \<times> schedule_db \<Rightarrow> schedule_report" where
  "projl_report r = projr (fst r)"

lemma no_schedules_ok: "schedules_ok no_schedules"
  by (simp add: no_schedules_def schedules_ok_def trigger_keys_def one_open_def) (simp add: empty_db_def)

lemma minutely_created: "create_schedule utc_only ''main'' 0 minutely_input no_schedules = Inr (minutely_row, minutely)"
  by code_simp

lemma minutely_ok: "schedules_ok minutely"
  by (rule create_schedule_ok [OF no_schedules_ok minutely_created])

lemma minutely_steps: "schedule_step\<^sup>*\<^sup>* no_schedules minutely_backfilled"
proof -
  have "schedule_step no_schedules minutely" by (rule schedule_step.created [OF minutely_created])
  moreover have "schedule_step minutely minutely_backfilled"
    by (rule schedule_step.backfilled [of 10 utc_only 1 None 0 60000 120000 minutely "fst (backfill 10 utc_only 1 None 0 60000 120000 minutely)"])
      (simp add: minutely_backfilled_def)
  ultimately show ?thesis by (meson converse_rtranclp_into_rtranclp r_into_rtranclp)
qed

lemma minutely_backfilled_ok: "schedules_ok minutely_backfilled"
  by (rule schedule_steps_ok [OF minutely_steps no_schedules_ok])

end
