(* ===== verification/Control.thy ===== *)
theory Control
  imports Recorder
begin

text \<open>
  What the transactions of the previous theories do as a whole: each of them, applied to a
  database in order, gives a database in order that extends it.
\<close>

section \<open>Closing a run by its own event\<close>

text \<open>What terminating and timing out a run share: the closing event, then the close cascade.\<close>

lemma close_with_event_ok:
  assumes ok: "engine_ok d" and r: "find_run d rid = Some r" "r_status r = RUNNING" and e: "is_closing_event e"
  shows "\<exists>se d1 st d2. append_at_current now rid [e] d = Inr ([se], d1) \<and>
     se = \<lparr>sequence_number = read_current_sequence d rid + 1, stored = e, created_at = now\<rparr> \<and>
     close_run_if_terminal now rid d1 = Inr (st, d2) \<and> engine_ok d2 \<and> extends d d2 \<and>
     terminal_state_for e = Some st \<and> (\<exists>r'. find_run d2 rid = Some r' \<and> r_status r' = st) \<and>
     waiting_tasks d2 rid = {} \<and> run_events d2 rid = run_events d rid @ [se] \<and>
     (\<forall>c. find_run d (r_id c) = Some c \<longrightarrow> r_status c = RUNNING \<longrightarrow> r_parent c = Some rid \<longrightarrow>
        r_id c \<noteq> rid \<longrightarrow> policy_done d2 c)"
proof -
  let ?se = "\<lparr>sequence_number = read_current_sequence d rid + 1, stored = e, created_at = now\<rparr>"
  have rok: "runs_ok d" using ok by (simp add: engine_ok_def)
  from append_at_current_ok [OF rok, of rid now "[e]"] r(1) obtain new d1 where
    ap: "append_at_current now rid [e] d = Inr (new, d1)"
      "append_events_on_client now rid (read_current_sequence d rid) [e] d = Inr (new, d1)" by auto
  have new: "new = [?se]" and ev: "run_events d1 rid = run_events d rid @ [?se]"
    using append_events_Inr(2,4) [OF ap(2)] by simp_all
  have fr: "find_run d1 x = find_run d x" for x using append_events_frame(11) [OF ap(2)] .
  have "closing_pending d1 rid e" by (rule closing_pending_append [OF rok r e ap(2)])
  from close_run_if_terminal_ok [OF this, of now] obtain st d2 where
    cl: "close_run_if_terminal now rid d1 = Inr (st, d2)" "closes_ok now d1 rid e st d2" by blast
  have x1: "extends d d1" by (rule extends_append [OF ap(2) r])
  with cl(2) have x2: "extends d d2" by (auto simp: closes_ok_def intro: extends_trans)
  have "engine_ok d2" using cl(2) engine_okI [OF _ x2 ok] by (simp add: closes_ok_def)
  then show ?thesis
    using ap(1) new ev cl x2 fr
    by (intro exI [of _ ?se] exI [of _ d1] exI [of _ st] exI [of _ d2]) (auto simp: closes_ok_def)
qed

section \<open>The outcome of each transaction\<close>

lemma terminate_run_ok:
  assumes ok: "engine_ok d" and r: "find_run d rid = Some r" "r_status r = RUNNING"
  shows "\<exists>se d' r'. terminate_run now rid reason d = Inr (sequence_number se, d') \<and>
     engine_ok d' \<and> extends d d' \<and> find_run d' rid = Some r' \<and> r_status r' = TERMINATED \<and>
     waiting_tasks d' rid = {} \<and> run_events d' rid = run_events d rid @ [se] \<and> stored se = RunTerminated reason \<and>
     (\<forall>c. find_run d (r_id c) = Some c \<longrightarrow> r_status c = RUNNING \<longrightarrow> r_parent c = Some rid \<longrightarrow>
        r_id c \<noteq> rid \<longrightarrow> policy_done d' c)"
proof -
  from close_with_event_ok [OF ok r, of "RunTerminated reason" now] obtain se d1 st d2 where
    c: "append_at_current now rid [RunTerminated reason] d = Inr ([se], d1)"
      "close_run_if_terminal now rid d1 = Inr (st, d2)" "stored se = RunTerminated reason"
    and rest: "engine_ok d2" "extends d d2" "terminal_state_for (RunTerminated reason) = Some st"
      "\<exists>r'. find_run d2 rid = Some r' \<and> r_status r' = st" "waiting_tasks d2 rid = {}"
      "run_events d2 rid = run_events d rid @ [se]"
      "\<forall>c. find_run d (r_id c) = Some c \<longrightarrow> r_status c = RUNNING \<longrightarrow> r_parent c = Some rid \<longrightarrow>
        r_id c \<noteq> rid \<longrightarrow> policy_done d2 c" by auto
  have "terminate_run now rid reason d = Inr (sequence_number se, d2)"
    using r c(1,2) by (simp add: terminate_run_def)
  with c(3) rest show ?thesis by auto
qed

lemma time_out_run_ok:
  assumes ok: "engine_ok d" and r: "find_run d rid = Some r" "r_status r = RUNNING"
  shows "\<exists>se d' r'. time_out_run_on_client now rid tid d = Inr (True, d') \<and>
     engine_ok d' \<and> extends d d' \<and> find_run d' rid = Some r' \<and> r_status r' = TIMED_OUT \<and>
     waiting_tasks d' rid = {} \<and> run_events d' rid = run_events d rid @ [se] \<and>
     stored se = RunTimedOut (Some (if tid = EXECUTION_TIMEOUT_TIMER_ID then ExecutionTimeout else RunTimeout))"
proof -
  let ?e = "RunTimedOut (Some (if tid = EXECUTION_TIMEOUT_TIMER_ID then ExecutionTimeout else RunTimeout))"
  from close_with_event_ok [OF ok r, of ?e now] obtain se d1 st d2 where
    c: "append_at_current now rid [?e] d = Inr ([se], d1)"
      "close_run_if_terminal now rid d1 = Inr (st, d2)" "stored se = ?e"
    and rest: "engine_ok d2" "extends d d2" "terminal_state_for ?e = Some st"
      "\<exists>r'. find_run d2 rid = Some r' \<and> r_status r' = st" "waiting_tasks d2 rid = {}"
      "run_events d2 rid = run_events d rid @ [se]" by auto
  have "time_out_run_on_client now rid tid d = Inr (True, d2)"
    using r c(1,2) by (simp add: time_out_run_on_client_def)
  with c(3) rest show ?thesis by auto
qed

lemma cancel_run_ok:
  assumes ok: "engine_ok d" and r: "find_run d rid = Some r" "r_status r = RUNNING"
  shows "\<exists>res d'. cancel_run now rid reason d = Inr (res, d') \<and> engine_ok d' \<and> extends d d' \<and>
     find_run d' rid = Some r \<and> list_ex (\<lambda>se. is_cancel_requested (stored se)) (run_events d' rid)"
proof -
  have id: "r_id r = rid" using find_run_Some [OF r(1)] by simp
  have rok: "runs_ok d" using ok by (simp add: engine_ok_def)
  from request_cancellation_ok [OF rok _ r(2), of now reason] r(1) id obtain res d' where
    c: "request_cancellation_on_client now r reason d = Inr (res, d')" "runs_ok d'" "extends d d'"
      "d_runs d' = d_runs d" "list_ex (\<lambda>se. is_cancel_requested (stored se)) (run_events d' rid)" by auto
  have "cancel_run now rid reason d = Inr (res, d')" using r c(1) by (simp add: cancel_run_def)
  moreover have "find_run d' rid = Some r" using c(4) r(1) by (simp add: find_run_def)
  ultimately show ?thesis using engine_okI [OF c(2,3) ok] c by blast
qed

lemma open_new_run_valid:
  assumes "open_new_run clock now r rt et dl inp p d = Inr x"
  shows "valid_timeout rt" and "valid_timeout et"
proof -
  from assms obtain y where y: "apply_run_timeouts_on_client (r_id r) clock rt et dl (insert_run r d) = Inr y"
    by (auto simp: open_new_run_def andThen_Inr_iff)
  obtain a where "validate_timeout_ms ''runTimeoutMs'' rt = Inr a"
    using y by (cases "validate_timeout_ms ''runTimeoutMs'' rt") (auto simp: apply_run_timeouts_on_client_def)
  then show "valid_timeout rt" using validate_timeout_ms_Inr by blast
  obtain b where "validate_timeout_ms ''executionTimeoutMs'' et = Inr b"
    using y by (cases "validate_timeout_ms ''executionTimeoutMs'' et")
      (auto simp: apply_run_timeouts_on_client_def split: sum.splits)
  then show "valid_timeout et" using validate_timeout_ms_Inr by blast
qed

lemma start_run_step:
  assumes ok: "engine_ok d" and st: "start_run registered clock now q ns si d = Inr (x, d')"
  shows "engine_ok d' \<and> extends d d'"
proof (cases "d' = d")
  case False
  have reg: "case registered of None \<Rightarrow> True | Some known \<Rightarrow> known (si_workflow_type si)"
    using st by (auto simp: start_run_def split: option.splits if_splits)
  have free: "find_by_key d ns si = Inr None"
    using st False by (auto simp: start_run_def split: sum.splits option.splits if_splits prod.splits)
  obtain o' where o': "service_insert_run clock now q ns si d = Inr (o', d')"
    using st free reg by (auto simp: start_run_def split: sum.splits option.splits if_splits prod.splits)
  have t: "valid_timeout (si_run_timeout_ms si)" "valid_timeout (si_execution_timeout_ms si)"
    using o' False open_new_run_valid
    by (auto simp: service_insert_run_def Let_def andThen_Inr_iff split: if_splits)
  from start_run_new [OF engine_ok_base [OF ok] reg free t, of clock now q] st obtain r inp p where
    op: "opened d r inp p now d'" by auto
  show ?thesis
    using opened_runs_ok [OF op] opened_extends [OF op] ok engine_okI by (simp add: engine_ok_def)
qed (use ok in simp)

lemma record_step_step:
  assumes ok: "engine_ok d" and st: "record_step_result now rid sid key out d = Inr (x, d')"
  shows "engine_ok d' \<and> extends d d'"
proof -
  obtain b out' where x: "x = (b, out')" by (cases x)
  note inr = record_step_result_Inr [OF st [unfolded x]]
  show ?thesis
  proof (cases b)
    case True
    with inr obtain ev new d1 where i: "\<not> run_closed d rid" "find_step_result d rid sid = None"
      "to_step_event sid out = Inr ev"
      "d1 = d\<lparr>d_step_results := d_step_results d @ [step_result_row_of rid sid key out]\<rparr>"
      "append_events_on_client now rid (read_current_sequence d1 rid) [ev] d1 = Inr (new, d')" by auto
    have "find_run d1 rid \<noteq> None" using append_events_Inr(5) [OF i(5)] by simp
    then obtain r where r: "find_run d rid = Some r" using i(4) by (auto simp: find_run_def)
    then have "r_status r = RUNNING" using i(1) by (simp add: run_closed_def)
    from record_step_ok [OF ok r this i(2,3), of now key] st show ?thesis by auto
  qed (use ok inr in simp)
qed

text \<open>A decision is recorded in an open run only.\<close>

lemma record_run_open:
  assumes ok: "engine_ok d" and shape: "decision_shape es"
    and st: "record_workflow_task_result (Some q) clock now rid key n es d = Inr ((True, z), d')"
  shows "\<exists>r. find_run d rid = Some r \<and> r_status r = RUNNING"
proof -
  obtain a b where z: "z = (a, b)" by fastforce
  have i: "find_task_result d rid key = None" "\<not> run_closed d rid" "n = read_current_sequence d rid" "d' \<noteq> d"
    using record_workflow_task_result_Inr [OF st [unfolded z]] by auto
  obtain r where r: "find_run d rid = Some r"
  proof (cases "find_run d rid")
    case None
    have pe: "parse_events es = Inr es" using shape by (auto simp: decision_shape_def parse_events_Inr list_all_iff)
    have "es = []"
    proof (rule ccontr)
      assume "es \<noteq> []"
      then have "append_events_on_client now rid n es d = Inl (ForeignKeyViolation ''run_events_run_id_fkey'')"
        using None i(3) by (simp add: append_events_on_client_def insert_event_rows_def Let_def)
      then show False using st pe i by (simp add: record_workflow_task_result_def)
    qed
    then show ?thesis using st pe i None
      by (simp add: record_workflow_task_result_def append_events_on_client_def insert_task_result_def)
  qed
  then show ?thesis using i(2) by (simp add: run_closed_def)
qed

lemma record_decision_step:
  assumes ok: "engine_ok d" and shape: "decision_shape es"
    and st: "record_workflow_task_result (Some q) clock now rid key n es d = Inr (x, d')"
  shows "engine_ok d' \<and> extends d d'"
proof -
  obtain b a z where x: "x = (b, a, z)" by (cases x)
  note inr = record_workflow_task_result_Inr [OF st [unfolded x]]
  show ?thesis
  proof (cases b)
    case True
    with inr have i: "find_task_result d rid key = None" "n = read_current_sequence d rid" by auto
    have "record_workflow_task_result (Some q) clock now rid key n es d = Inr ((True, a, z), d')" using st x True by simp
    from record_run_open [OF ok shape this] obtain r where r: "find_run d rid = Some r" "r_status r = RUNNING" by blast
    from record_decision_ok [OF ok r i(1) shape i(2), of q clock now] st show ?thesis by auto
  qed (use ok inr in simp)
qed

text \<open>A second cancellation request finds the first and writes nothing.\<close>

lemma read_all:
  assumes "log_ok d"
  shows "read_events_on_client d rid 0 = run_events d rid"
proof -
  have c: "consecutive_from (snapshot_seq d rid) (run_events d rid)" using assms by (simp add: log_ok_def)
  then have "filter (\<lambda>se. 0 < sequence_number se) (run_events d rid) = run_events d rid"
    by (auto simp: filter_id_conv dest: consecutive_from_bounds)
  moreover have "sort_key sequence_number (run_events d rid) = run_events d rid"
    using consecutive_from_sorted [OF c] by (rule sort_key_id_if_sorted)
  ultimately show ?thesis by (simp add: read_events_on_client_def)
qed

lemma cancel_run_again:
  assumes ok: "engine_ok d" and first: "cancel_run now rid reason d = Inr ((a, n), d')"
  shows "cancel_run now' rid reason' d' = Inr ((False, n), d')"
proof -
  obtain r where r: "find_run d rid = Some r" "r_status r = RUNNING"
    using first by (auto simp: cancel_run_def split: option.splits if_splits)
  have id: "r_id r = rid" using find_run_Some [OF r(1)] by simp
  from cancel_run_ok [OF ok r, of now reason] first have
    ok': "engine_ok d'" "find_run d' rid = Some r" by auto
  have log: "log_ok d" "log_ok d'" using ok ok'(1) by (auto simp: engine_ok_def runs_ok_def)
  have req: "request_cancellation_on_client now r reason d = Inr ((a, n), d')"
    using first r by (simp add: cancel_run_def)
  have "\<exists>se. find (\<lambda>se. is_cancel_requested (stored se)) (run_events d' rid) = Some se \<and> sequence_number se = n"
  proof (cases "find (\<lambda>se. is_cancel_requested (stored se)) (run_events d rid)")
    case (Some se)
    then show ?thesis using req id by (auto simp: request_cancellation_on_client_def read_all [OF log(1)])
  next
    case None
    then obtain new d1 where ap: "append_at_current now rid [CancelRequested reason] d = Inr (new, d1)"
      and d': "d' = insert_workflow_task r (VObj [(''reason'', VStr ''cancel'')]) now now d1"
      and n: "n = (case new of [] \<Rightarrow> read_current_sequence d rid + 1 | se # _ \<Rightarrow> sequence_number se)"
      using req id by (auto simp: request_cancellation_on_client_def read_all [OF log(1)] andThen_Inr_iff)
    from append_events_Inr(2,4) [OF ap [unfolded append_at_current_def]] have
      new: "new = [\<lparr>sequence_number = read_current_sequence d rid + 1, stored = CancelRequested reason, created_at = now\<rparr>]"
      and ev: "run_events d1 rid = run_events d rid @ new" by simp_all
    have "run_events d' rid = run_events d rid @ new" using ev d' by (simp add: run_events_def)
    with None n new show ?thesis by (simp add: find_append_one is_cancel_requested_def)
  qed
  then show ?thesis using ok'(2) r(2) id
    by (auto simp: cancel_run_def request_cancellation_on_client_def read_all [OF log(2)])
qed

text \<open>An open parent is told of the outcome and woken in the same transaction.\<close>

lemma notify_parent_delivers:
  assumes ok: "runs_ok d" and link: "child_link d rid = Some (prid, cid)"
    and parent: "find_run d prid = Some q" "r_status q = RUNNING" and st: "p_state p \<noteq> CONTINUED_AS_NEW"
  shows "\<exists>se d' t. notify_parent now rid p d = Inr ((), d') \<and> runs_ok d' \<and> extends d d' \<and>
     run_events d' prid = run_events d prid @ [se] \<and> stored se = child_outcome_event cid (p_state p) p \<and>
     t \<in> waiting_tasks d' prid \<and> t_type t = WORKFLOW_TASK \<and> t_visible_at t = now"
proof -
  let ?e = "child_outcome_event cid (p_state p) p"
  let ?p = "VObj [(''reason'', VStr ''child_closed''), (''childId'', VStr cid)]"
  have e: "\<not> is_closing_event ?e" by (cases "p_state p") (simp_all add: child_outcome_event_def)
  from append_and_wake_ok [OF ok parent e, of now ?p now now] obtain new d1 where
    a: "append_at_current now prid [?e] d = Inr (new, d1)" "runs_ok (insert_workflow_task q ?p now now d1)"
      "extends d (insert_workflow_task q ?p now now d1)"
      "run_events (insert_workflow_task q ?p now now d1) prid = run_events d prid @ new" "map stored new = [?e]"
    by (elim exE conjE) (rule that)
  have id: "r_id q = prid" using find_run_Some [OF parent(1)] by simp
  have n: "notify_parent now rid p d = Inr ((), insert_workflow_task q ?p now now d1)"
    using st link parent a(1) by (simp add: notify_parent_def)
  obtain se where se: "new = [se]" "stored se = ?e" using a(5) by (auto simp: map_eq_Cons_conv)
  let ?t = "new_task (d_next d1) (r_namespace q) prid (r_queue q) WORKFLOW_TASK ?p now now"
  have "?t \<in> waiting_tasks (insert_workflow_task q ?p now now d1) prid"
    by (simp add: waiting_tasks_def insert_workflow_task_def id) (simp add: new_task_def)
  moreover have "t_type ?t = WORKFLOW_TASK" "t_visible_at ?t = now" by (simp_all add: new_task_def)
  ultimately show ?thesis using n a se by blast
qed

section \<open>Columns of a run the log does not determine\<close>

text \<open>
  An update of a row that keeps its links, its timeouts and the columns of the fold, such as a
  marker or a counter, keeps the engine in order.
\<close>

definition keeps_row :: "(run_row \<Rightarrow> run_row) \<Rightarrow> bool" where
  "keeps_row f \<longleftrightarrow> (\<forall>r. same_links r (f r) \<and> projection_from_row (f r) = projection_from_row r \<and>
     r_run_timeout_ms (f r) = r_run_timeout_ms r)"

lemma map_rows_keeps:
  assumes "engine_ok d" and "keeps_row f"
  defines "d' \<equiv> d\<lparr>d_runs := map f (d_runs d)\<rparr>"
  shows "engine_ok d' \<and> extends d d'"
proof -
  have f: "r_id (f r) = r_id r" "same_links r (f r)" "projection_from_row (f r) = projection_from_row r"
    "r_run_timeout_ms (f r) = r_run_timeout_ms r" for r
    using assms(2) by (auto simp: keeps_row_def same_links_def)
  have "find (\<lambda>r. r_id r = x) (map f rs) = map_option f (find (\<lambda>r. r_id r = x) rs)" for x rs
    by (induction rs) (simp_all add: f(1))
  then have find: "find_run d' x = map_option f (find_run d x)" for x by (simp add: find_run_def d'_def)
  have last: "r_last_seq (f r) = r_last_seq r" for r
    using f(3) [of r] by (auto simp: projection_from_row_def)
  have runs: "runs_ok d'"
  proof (rule runs_ok_frame)
    show "runs_ok d" using assms(1) by (simp add: engine_ok_def)
    show "map r_id (d_runs d') = map r_id (d_runs d)" by (simp add: d'_def f(1))
    show "\<exists>r. find_run d x = Some r \<and> same_fold_columns r r'" if "find_run d' x = Some r'" for x r'
      using that find [of x] f last by (auto simp: same_fold_columns_def)
  qed (simp_all add: d'_def)
  have keep: "keeps d d'"
    by (simp add: keeps_def task_keys_def timer_keys_def timeouts_ok_def list_all_iff d'_def) (simp add: f(4))
  have same: "d_snapshots d' = d_snapshots d" "d_next d' = d_next d" "run_events d' x = run_events d x"
    "waiting_tasks d' x = waiting_tasks d x" for x
    by (simp_all add: d'_def run_events_def waiting_tasks_def)
  have "extends d d'"
    unfolding extends_def
  proof (intro conjI allI impI)
    fix x r assume r: "find_run d x = Some r"
    show "\<exists>r'. find_run d' x = Some r' \<and> same_links r r' \<and>
        (r_status r \<noteq> RUNNING \<longrightarrow> projection_from_row r' = projection_from_row r)"
      using r find [of x] f by auto
  qed (use keep find same in auto)
  with runs engine_okI assms(1) show ?thesis by blast
qed

lemma update_run_keeps:
  assumes "engine_ok d" and "keeps_row f"
  shows "engine_ok (update_run rid f d) \<and> extends d (update_run rid f d)"
proof -
  have "keeps_row (\<lambda>r. if r_id r = rid then f r else r)" using assms(2) by (auto simp: keeps_row_def)
  from map_rows_keeps [OF assms(1) this] show ?thesis by (simp add: update_run_def)
qed

end
