(* ===== verification/Timers.thy ===== *)
theory Timers
  imports Control
begin

text \<open>
  Durable timers (\<open>packages/core/src/timers/timer-scheduler.ts\<close>) and the clock the scheduler reads
  (\<open>timers/monotonic-clock.ts\<close>).

  Each firing is one transaction. A tick reads the clock once and fires one timer after the other;
  what a firing that throws leaves behind is the database after the firings before it, so a
  tick gives its report or its error beside the database. \<open>now\<close> is the database's clock and
  \<open>reading\<close> the scheduler's. Skipping timers another scheduler holds makes concurrent ticks behave
  as ticks one after the other.
\<close>

section \<open>The monotonic clock\<close>

record monotonic_clock =
  mc_high_water :: "time option"
  mc_regressions :: nat

definition new_monotonic_clock :: monotonic_clock where
  "new_monotonic_clock = \<lparr>mc_high_water = None, mc_regressions = 0\<rparr>"

definition clock_now :: "time \<Rightarrow> monotonic_clock \<Rightarrow> time \<times> monotonic_clock" where
  "clock_now reading c =
     (case mc_high_water c of
        Some high \<Rightarrow>
          if reading < high then (high, c\<lparr>mc_regressions := mc_regressions c + 1\<rparr>)
          else (reading, c\<lparr>mc_high_water := Some reading\<rparr>)
      | None \<Rightarrow> (reading, c\<lparr>mc_high_water := Some reading\<rparr>))"

text \<open>What a sequence of readings is served as.\<close>

fun clock_reads :: "time list \<Rightarrow> monotonic_clock \<Rightarrow> time list \<times> monotonic_clock" where
  "clock_reads [] c = ([], c)"
| "clock_reads (r # rs) c =
     (case clock_now r c of (t, c') \<Rightarrow> (case clock_reads rs c' of (ts, c'') \<Rightarrow> (t # ts, c'')))"

section \<open>Firing\<close>

definition schedule_timer :: "uuid \<Rightarrow> string \<Rightarrow> time \<Rightarrow> (engine_error, db, bool) tx" where
  "schedule_timer rid tid fire_at = (\<lambda>d.
     if find_run d rid = None then Inl (ForeignKeyViolation ''timers_run_id_fkey'')
     else Inr (insert_timer_on_client rid tid fire_at d))"

record fired_timer =
  ft_run :: uuid
  ft_timer :: string
  ft_fire_at :: time
  ft_fired_at :: time
  ft_late :: int
  ft_task :: "uuid option"

datatype fire_outcome = NothingDue | FireCancelled | Fired fired_timer

definition fired_record :: "timer_row \<Rightarrow> time \<Rightarrow> uuid option \<Rightarrow> fired_timer" where
  "fired_record t reading task =
     \<lparr>ft_run = tm_run t, ft_timer = tm_timer t, ft_fire_at = tm_fire_at t, ft_fired_at = reading,
      ft_late = max 0 (reading - tm_fire_at t), ft_task = task\<rparr>"

definition due :: "string \<Rightarrow> time \<Rightarrow> db \<Rightarrow> timer_row \<Rightarrow> bool" where
  "due q reading d t \<longleftrightarrow>
     tm_state t = TimerPending \<and> tm_fire_at t \<le> reading \<and>
     (case find_run d (tm_run t) of None \<Rightarrow> False | Some r \<Rightarrow> r_queue r = q)"

definition next_due_timer :: "string \<Rightarrow> time \<Rightarrow> db \<Rightarrow> timer_row option" where
  "next_due_timer q reading d =
     (case sort_key tm_fire_at (sort_key tm_id (filter (due q reading d) (d_timers d))) of
        [] \<Rightarrow> None | t # _ \<Rightarrow> Some t)"

definition set_timer :: "uuid \<Rightarrow> timer_state \<Rightarrow> time \<Rightarrow> db \<Rightarrow> db" where
  "set_timer tid st reading d =
     d\<lparr>d_timers := map (\<lambda>t. if tm_id t = tid then t\<lparr>tm_state := st, tm_fired_at := Some reading\<rparr> else t) (d_timers d)\<rparr>"

definition fire_next :: "string \<Rightarrow> time \<Rightarrow> time \<Rightarrow> (engine_error, db, fire_outcome) tx" where
  "fire_next q now reading = (\<lambda>d.
     case next_due_timer q reading d of
       None \<Rightarrow> Inr (NothingDue, d)
     | Some t \<Rightarrow>
         if is_timeout_timer_id (tm_timer t) then
           andThen (time_out_run_on_client now (tm_run t) (tm_timer t)) (\<lambda>closed.
           andThen (modify (set_timer (tm_id t) (if closed then TimerDone else TimerCancelled) reading)) (\<lambda>_.
           ret (if closed then Fired (fired_record t reading None) else FireCancelled))) d
         else case find_run d (tm_run t) of
           None \<Rightarrow> Inr (FireCancelled, set_timer (tm_id t) TimerCancelled reading d)
         | Some r \<Rightarrow>
             if r_status r \<noteq> RUNNING
             then Inr (FireCancelled, set_timer (tm_id t) TimerCancelled reading d)
             else andThen (append_at_current now (tm_run t) [TimerFired (tm_timer t)]) (\<lambda>_.
                  andThen (modify (set_timer (tm_id t) TimerDone reading)) (\<lambda>_.
                  andThen get_state (\<lambda>d1.
                  andThen (modify (insert_workflow_task r
                     (VObj [(''reason'', VStr ''timer_fired''), (''timerId'', VStr (tm_timer t))]) (tm_fire_at t) now)) (\<lambda>_.
                  ret (Fired (fired_record t reading (Some (d_next d1)))))))) d)"

section \<open>Ticks\<close>

record tick_report =
  tk_fired :: "fired_timer list"
  tk_cancelled :: nat

definition DEFAULT_BATCH_SIZE :: nat where
  "DEFAULT_BATCH_SIZE = 100"

definition empty_report :: tick_report where
  "empty_report = \<lparr>tk_fired = [], tk_cancelled = 0\<rparr>"

definition report_size :: "tick_report \<Rightarrow> nat" where
  "report_size rep = length (tk_fired rep) + tk_cancelled rep"

definition add_outcome :: "fire_outcome \<Rightarrow> tick_report \<Rightarrow> tick_report" where
  "add_outcome out rep =
     (case out of
        NothingDue \<Rightarrow> rep
      | FireCancelled \<Rightarrow> rep\<lparr>tk_cancelled := tk_cancelled rep + 1\<rparr>
      | Fired f \<Rightarrow> rep\<lparr>tk_fired := tk_fired rep @ [f]\<rparr>)"

text \<open>\<open>room\<close> is what is left of the batch: every firing fills one place of it.\<close>

fun tick_loop ::
    "nat \<Rightarrow> string \<Rightarrow> time \<Rightarrow> time \<Rightarrow> tick_report \<Rightarrow> db \<Rightarrow> (engine_error + tick_report) \<times> db" where
  "tick_loop 0 q now reading rep d = (Inr rep, d)"
| "tick_loop (Suc room) q now reading rep d =
     (case fire_next q now reading d of
        Inl e \<Rightarrow> (Inl e, d)
      | Inr (NothingDue, d') \<Rightarrow> (Inr rep, d')
      | Inr (out, d') \<Rightarrow> tick_loop room q now reading (add_outcome out rep) d')"

definition tick :: "nat \<Rightarrow> string \<Rightarrow> time \<Rightarrow> time \<Rightarrow> db \<Rightarrow> (engine_error + tick_report) \<times> db" where
  "tick batch q now reading d = tick_loop batch q now reading empty_report d"

definition pending_count :: "db \<Rightarrow> nat" where
  "pending_count d = length (filter (\<lambda>t. tm_state t = TimerPending) (d_timers d))"

text \<open>
  \<open>catchUp\<close>; \<open>readings n\<close> is what the clock serves the \<open>n\<close>-th tick. The fuel is one more than the
  number of pending timers: every full tick leaves fewer.
\<close>

fun catch_up_loop ::
    "nat \<Rightarrow> nat \<Rightarrow> string \<Rightarrow> time \<Rightarrow> (nat \<Rightarrow> time) \<Rightarrow> nat \<Rightarrow> tick_report \<Rightarrow> db
       \<Rightarrow> (engine_error + tick_report \<times> nat) option \<times> db" where
  "catch_up_loop 0 batch q now readings ticks rep d = (None, d)"
| "catch_up_loop (Suc fuel) batch q now readings ticks rep d =
     (case tick batch q now (readings ticks) d of
        (Inl e, d') \<Rightarrow> (Some (Inl e), d')
      | (Inr r, d') \<Rightarrow>
          let rep' = \<lparr>tk_fired = tk_fired rep @ tk_fired r, tk_cancelled = tk_cancelled rep + tk_cancelled r\<rparr> in
          if report_size r < batch then (Some (Inr (rep', ticks + 1)), d')
          else catch_up_loop fuel batch q now readings (ticks + 1) rep' d')"

definition catch_up ::
    "nat \<Rightarrow> string \<Rightarrow> time \<Rightarrow> (nat \<Rightarrow> time) \<Rightarrow> db \<Rightarrow> (engine_error + tick_report \<times> nat) option \<times> db" where
  "catch_up batch q now readings d =
     catch_up_loop (Suc (pending_count d)) batch q now readings 0 empty_report d"

definition next_due_at :: "db \<Rightarrow> time option" where
  "next_due_at d =
     (case map tm_fire_at (filter (\<lambda>t. tm_state t = TimerPending) (d_timers d)) of
        [] \<Rightarrow> None | t # ts \<Rightarrow> Some (foldr min ts t))"

section \<open>The clock never goes back\<close>

lemma clock_now_bounds:
  assumes "clock_now r c = (t, c')"
  shows "r \<le> t" and "mc_high_water c' = Some t" and "\<And>h. mc_high_water c = Some h \<Longrightarrow> h \<le> t"
  using assms by (auto simp: clock_now_def split: option.splits if_splits)

lemma clock_reads_sorted:
  assumes "clock_reads rs c = (ts, c')"
  shows "sorted ts \<and> (\<forall>h. mc_high_water c = Some h \<longrightarrow> (\<forall>t \<in> set ts. h \<le> t))"
  using assms
proof (induction rs arbitrary: c ts c')
  case (Cons r rs)
  obtain t c1 where a: "clock_now r c = (t, c1)" by fastforce
  obtain us c2 where b: "clock_reads rs c1 = (us, c2)" by fastforce
  have ts: "ts = t # us" using Cons.prems a b by simp
  from Cons.IH [OF b] clock_now_bounds(2) [OF a] have "sorted us" "\<forall>u \<in> set us. t \<le> u" by auto
  then show ?case using ts clock_now_bounds(3) [OF a] by (auto intro: order_trans)
qed simp

lemma clock_reads_ahead:
  assumes "clock_reads rs c = (ts, c')"
  shows "list_all2 (\<le>) rs ts"
  using assms by (induction rs arbitrary: c ts c') (auto split: prod.splits dest: clock_now_bounds(1))

section \<open>A firing keeps the engine in order\<close>

lemma set_timer_frame [simp]:
  "d_runs (set_timer tid st r d) = d_runs d" "d_events (set_timer tid st r d) = d_events d"
  "d_snapshots (set_timer tid st r d) = d_snapshots d" "d_tasks (set_timer tid st r d) = d_tasks d"
  "d_next (set_timer tid st r d) = d_next d" "find_run (set_timer tid st r d) x = find_run d x"
  "run_events (set_timer tid st r d) x = run_events d x"
  by (simp_all add: set_timer_def find_run_def run_events_def)

lemma timer_keys_set_timer [simp]: "timer_keys (set_timer tid st r d) = timer_keys d"
proof -
  let ?k = "\<lambda>t. (tm_run t, tm_timer t, tm_fire_at t)"
  have "map ?k (d_timers (set_timer tid st r d)) = map ?k (d_timers d)" by (simp add: set_timer_def)
  from arg_cong [OF this, of set] show ?thesis by (simp add: timer_keys_def)
qed

lemma extends_set_timer: "extends d (set_timer tid st r d)"
proof (rule extends_same_runs)
  show "keeps d (set_timer tid st r d)"
    by (simp add: keeps_def task_keys_def) (simp add: set_timer_def timeouts_ok_def)
qed (simp_all add: waiting_tasks_def)

lemma engine_ok_set_timer: "engine_ok d \<Longrightarrow> engine_ok (set_timer tid st r d)"
  by (rule engine_okI [OF _ extends_set_timer], rule runs_ok_same_runs) (simp_all add: engine_ok_def)

lemma pending_set_timer:
  assumes "t \<in> set (d_timers d)" and "tm_state t = TimerPending" and "st \<noteq> TimerPending"
  shows "pending_count (set_timer (tm_id t) st r d) < pending_count d"
proof -
  let ?g = "\<lambda>u. if tm_id u = tm_id t then u\<lparr>tm_state := st, tm_fired_at := Some r\<rparr> else u"
  have "length (filter (\<lambda>t. tm_state t = TimerPending) (map ?g (d_timers d))) <
      length (filter (\<lambda>t. tm_state t = TimerPending) (d_timers d))"
    by (rule length_filter_map_less [OF _ assms(1)]) (use assms(2,3) in \<open>auto split: if_splits\<close>)
  moreover have "d_timers (set_timer (tm_id t) st r d) = map ?g (d_timers d)" by (simp add: set_timer_def)
  ultimately show ?thesis by (simp only: pending_count_def)
qed

lemma pending_same_timers: "d_timers d' = d_timers d \<Longrightarrow> pending_count d' = pending_count d"
  by (simp add: pending_count_def)

lemma time_out_run_timers:
  assumes "time_out_run_on_client now rid tid d = Inr (b, d')"
  shows "d_timers d' = d_timers d"
proof (cases "find_run d rid")
  case (Some r)
  show ?thesis
  proof (cases "r_status r = RUNNING")
    case True
    then obtain new d1 st where a: "append_at_current now rid
        [RunTimedOut (Some (if tid = EXECUTION_TIMEOUT_TIMER_ID then ExecutionTimeout else RunTimeout))] d = Inr (new, d1)"
      "close_run_if_terminal now rid d1 = Inr (st, d')"
      using assms Some by (auto simp: time_out_run_on_client_def andThen_Inr_iff)
    from side_tables_close_run [OF a(2) [unfolded close_run_if_terminal_def]]
      side_tables_append [OF a(1) [unfolded append_at_current_def]]
    show ?thesis by (simp add: side_tables_def)
  qed (use assms Some in \<open>simp add: time_out_run_on_client_def\<close>)
qed (use assms in \<open>simp add: time_out_run_on_client_def\<close>)

lemma next_due_timer_Some:
  assumes "next_due_timer q reading d = Some t"
  shows "t \<in> set (d_timers d)" and "due q reading d t"
    and "\<And>u. u \<in> set (d_timers d) \<Longrightarrow> due q reading d u \<Longrightarrow> tm_fire_at t \<le> tm_fire_at u"
proof -
  let ?l = "sort_key tm_fire_at (sort_key tm_id (filter (due q reading d) (d_timers d)))"
  from assms obtain ts where l: "?l = t # ts" by (auto simp: next_due_timer_def split: list.splits)
  then have "t \<in> set ?l" by simp
  then show "t \<in> set (d_timers d)" "due q reading d t" by simp_all
  show "tm_fire_at t \<le> tm_fire_at u" if "u \<in> set (d_timers d)" "due q reading d u" for u
  proof -
    have "u \<in> set ?l" using that by simp
    moreover have "sorted (map tm_fire_at ?l)" by simp
    ultimately show ?thesis using l by auto
  qed
qed

lemma next_due_timer_None:
  "next_due_timer q reading d = None \<longleftrightarrow> (\<forall>t \<in> set (d_timers d). \<not> due q reading d t)"
proof -
  have "set (sort_key tm_fire_at (sort_key tm_id (filter (due q reading d) (d_timers d)))) =
      {t \<in> set (d_timers d). due q reading d t}" by auto
  then have "sort_key tm_fire_at (sort_key tm_id (filter (due q reading d) (d_timers d))) = [] \<longleftrightarrow>
      {t \<in> set (d_timers d). due q reading d t} = {}"
    by (metis set_empty)
  then show ?thesis by (auto simp: next_due_timer_def split: list.split)
qed

text \<open>The three outcomes of a firing: the run timed out, the timer is dropped, the run is woken.\<close>

lemma fire_next_dropped:
  assumes t: "next_due_timer q reading d = Some t" "\<not> is_timeout_timer_id (tm_timer t)"
    and r: "find_run d (tm_run t) = Some r" "r_status r \<noteq> RUNNING"
  shows "fire_next q now reading d = Inr (FireCancelled, set_timer (tm_id t) TimerCancelled reading d)"
  using assms by (simp add: fire_next_def)

lemma fire_next_wakes:
  assumes ok: "engine_ok d" and t: "next_due_timer q reading d = Some t" "\<not> is_timeout_timer_id (tm_timer t)"
    and r: "find_run d (tm_run t) = Some r" "r_status r = RUNNING"
  shows "\<exists>tid d' se task. fire_next q now reading d = Inr (Fired (fired_record t reading (Some tid)), d') \<and>
     engine_ok d' \<and> extends d d' \<and> pending_count d' < pending_count d \<and>
     run_events d' (tm_run t) = run_events d (tm_run t) @ [se] \<and> stored se = TimerFired (tm_timer t) \<and>
     task \<in> waiting_tasks d' (tm_run t) \<and> t_id task = tid \<and> t_type task = WORKFLOW_TASK \<and>
     t_visible_at task = tm_fire_at t"
proof -
  let ?e = "TimerFired (tm_timer t)"
  let ?p = "VObj [(''reason'', VStr ''timer_fired''), (''timerId'', VStr (tm_timer t))]"
  have rok: "runs_ok d" using ok by (simp add: engine_ok_def)
  have id: "r_id r = tm_run t" using find_run_Some [OF r(1)] by simp
  from append_and_wake_ok [OF rok r, of ?e now ?p "tm_fire_at t" now] obtain new d1 where
    a: "append_at_current now (tm_run t) [?e] d = Inr (new, d1)"
      "runs_ok (insert_workflow_task r ?p (tm_fire_at t) now d1)"
      "extends d (insert_workflow_task r ?p (tm_fire_at t) now d1)"
      "run_events (insert_workflow_task r ?p (tm_fire_at t) now d1) (tm_run t) = run_events d (tm_run t) @ new"
      "map stored new = [?e]" by (auto simp del: insert_workflow_task_frame)
  obtain se where se: "new = [se]" "stored se = ?e" using a(5) by (auto simp: map_eq_Cons_conv)
  define d2 where "d2 = set_timer (tm_id t) TimerDone reading d1"
  define d3 where "d3 = insert_workflow_task r ?p (tm_fire_at t) now d2"
  have swap: "d3 = set_timer (tm_id t) TimerDone reading (insert_workflow_task r ?p (tm_fire_at t) now d1)"
    by (simp add: d3_def d2_def insert_workflow_task_def insert_task_def set_timer_def)
  have fire: "fire_next q now reading d = Inr (Fired (fired_record t reading (Some (d_next d2))), d3)"
    using t r a(1) by (simp add: fire_next_def d2_def d3_def)
  have e3: "extends d d3" unfolding swap by (rule extends_trans [OF a(3) extends_set_timer])
  have ok1: "engine_ok (insert_workflow_task r ?p (tm_fire_at t) now d1)" by (rule engine_okI [OF a(2,3) ok])
  then have ok3: "engine_ok d3" unfolding swap by (rule engine_ok_set_timer)
  have tm: "d_timers (insert_workflow_task r ?p (tm_fire_at t) now d1) = d_timers d"
    using append_events_frame(6) [OF a(1) [unfolded append_at_current_def]]
    by (simp add: insert_workflow_task_def)
  have "pending_count d3 < pending_count (insert_workflow_task r ?p (tm_fire_at t) now d1)"
    unfolding swap using next_due_timer_Some(1,2) [OF t(1)] tm
    by (intro pending_set_timer) (simp_all add: due_def)
  then have pc: "pending_count d3 < pending_count d" using pending_same_timers [OF tm] by simp
  have ev: "run_events d3 (tm_run t) = run_events d (tm_run t) @ [se]" unfolding swap using a(4) se by simp
  let ?t = "new_task (d_next d2) (r_namespace r) (tm_run t) (r_queue r) WORKFLOW_TASK ?p (tm_fire_at t) now"
  have "?t \<in> waiting_tasks d3 (tm_run t)"
    by (simp add: waiting_tasks_def d3_def insert_workflow_task_def id) (simp add: new_task_def)
  moreover have "t_id ?t = d_next d2" "t_type ?t = WORKFLOW_TASK" "t_visible_at ?t = tm_fire_at t"
    by (simp_all add: new_task_def)
  ultimately show ?thesis using fire ok3 e3 pc ev se(2) by blast
qed

lemma fire_next_timeout:
  assumes ok: "engine_ok d" and t: "next_due_timer q reading d = Some t" "is_timeout_timer_id (tm_timer t)"
  shows "\<exists>out d'. fire_next q now reading d = Inr (out, d') \<and> out \<noteq> NothingDue \<and> engine_ok d' \<and> extends d d' \<and>
     pending_count d' < pending_count d"
proof -
  have "\<exists>b d1. time_out_run_on_client now (tm_run t) (tm_timer t) d = Inr (b, d1) \<and> engine_ok d1 \<and> extends d d1"
  proof (cases "find_run d (tm_run t)")
    case None
    then show ?thesis using ok by (intro exI [of _ False] exI [of _ d]) (simp add: time_out_run_on_client_def)
  next
    case (Some r)
    show ?thesis
    proof (cases "r_status r = RUNNING")
      case True
      from time_out_run_ok [OF ok Some this, of now "tm_timer t"] show ?thesis by blast
    next
      case False
      then show ?thesis using ok Some by (intro exI [of _ False] exI [of _ d]) (simp add: time_out_run_on_client_def)
    qed
  qed
  then obtain b d1 where b: "time_out_run_on_client now (tm_run t) (tm_timer t) d = Inr (b, d1)"
    "engine_ok d1" "extends d d1" by blast
  let ?st = "if b then TimerDone else TimerCancelled"
  have fire: "fire_next q now reading d =
      Inr (if b then Fired (fired_record t reading None) else FireCancelled, set_timer (tm_id t) ?st reading d1)"
    using t b(1) by (simp add: fire_next_def)
  have tm: "d_timers d1 = d_timers d" by (rule time_out_run_timers [OF b(1)])
  have "pending_count (set_timer (tm_id t) ?st reading d1) < pending_count d1"
    using next_due_timer_Some(1,2) [OF t(1)] tm by (intro pending_set_timer) (simp_all add: due_def)
  then have "pending_count (set_timer (tm_id t) ?st reading d1) < pending_count d"
    using pending_same_timers [OF tm] by simp
  then show ?thesis
    using fire engine_ok_set_timer [OF b(2)] extends_trans [OF b(3) extends_set_timer]
    by (intro exI conjI) (rule fire, auto)
qed

lemma fire_next_ok:
  assumes ok: "engine_ok d"
  shows "\<exists>out d'. fire_next q now reading d = Inr (out, d') \<and> engine_ok d' \<and> extends d d' \<and>
     (out = NothingDue \<longrightarrow> d' = d \<and> next_due_timer q reading d = None) \<and>
     (out \<noteq> NothingDue \<longrightarrow> pending_count d' < pending_count d)"
proof (cases "next_due_timer q reading d")
  case None
  then show ?thesis using ok by (simp add: fire_next_def)
next
  case (Some t)
  show ?thesis
  proof (cases "is_timeout_timer_id (tm_timer t)")
    case True
    from fire_next_timeout [OF ok Some this, of now] show ?thesis by blast
  next
    case False
    obtain r where r: "find_run d (tm_run t) = Some r"
      using next_due_timer_Some(2) [OF Some] by (auto simp: due_def split: option.splits)
    show ?thesis
    proof (cases "r_status r = RUNNING")
      case True
      from fire_next_wakes [OF ok Some False r True, of now] show ?thesis by blast
    next
      case closed: False
      have "pending_count (set_timer (tm_id t) TimerCancelled reading d) < pending_count d"
        using next_due_timer_Some(1,2) [OF Some] by (intro pending_set_timer) (simp_all add: due_def)
      then show ?thesis
        using fire_next_dropped [OF Some False r closed, of now] engine_ok_set_timer [OF ok] extends_set_timer by auto
    qed
  qed
qed

section \<open>Catching up ends with nothing due\<close>

lemma tick_loop_ok:
  assumes "engine_ok d"
  shows "\<exists>rep' d'. tick_loop room q now reading rep d = (Inr rep', d') \<and> engine_ok d' \<and> extends d d' \<and>
     report_size rep \<le> report_size rep' \<and> report_size rep' \<le> report_size rep + room \<and>
     pending_count d' + report_size rep' \<le> pending_count d + report_size rep \<and>
     (report_size rep' < report_size rep + room \<longrightarrow> next_due_timer q reading d' = None)"
  using assms
proof (induction room arbitrary: d rep)
  case (Suc room)
  from fire_next_ok [OF Suc.prems, of q now reading] obtain out d1 where
    f: "fire_next q now reading d = Inr (out, d1)" "engine_ok d1" "extends d d1"
      "out = NothingDue \<Longrightarrow> d1 = d \<and> next_due_timer q reading d = None"
      "out \<noteq> NothingDue \<Longrightarrow> pending_count d1 < pending_count d" by blast
  show ?case
  proof (cases "out = NothingDue")
    case True
    then show ?thesis using f by simp
  next
    case False
    have size: "report_size (add_outcome out rep) = report_size rep + 1"
      using False by (cases out) (simp_all add: add_outcome_def report_size_def)
    have "tick_loop (Suc room) q now reading rep d = tick_loop room q now reading (add_outcome out rep) d1"
      using f(1) False by (cases out) simp_all
    with Suc.IH [OF f(2), of "add_outcome out rep"] f(3) f(5) [OF False] size show ?thesis
      by (fastforce intro: extends_trans)
  qed
qed simp

lemma tick_ok:
  assumes "engine_ok d"
  shows "\<exists>rep d'. tick batch q now reading d = (Inr rep, d') \<and> engine_ok d' \<and> extends d d' \<and>
     report_size rep \<le> batch \<and> pending_count d' + report_size rep \<le> pending_count d \<and>
     (report_size rep < batch \<longrightarrow> next_due_timer q reading d' = None)"
  using tick_loop_ok [OF assms, of batch q now reading empty_report]
  by (simp add: tick_def report_size_def empty_report_def)

lemma catch_up_loop_ok:
  assumes "engine_ok d" and "0 < batch" and "pending_count d < fuel"
  shows "\<exists>rep' n d'. catch_up_loop fuel batch q now readings ticks rep d = (Some (Inr (rep', n)), d') \<and>
     engine_ok d' \<and> extends d d' \<and> ticks < n \<and> next_due_timer q (readings (n - 1)) d' = None"
  using assms(1,3)
proof (induction fuel arbitrary: d ticks rep)
  case (Suc fuel)
  from tick_ok [OF Suc.prems(1), of batch q now "readings ticks"] obtain r d1 where
    t: "tick batch q now (readings ticks) d = (Inr r, d1)" "engine_ok d1" "extends d d1" "report_size r \<le> batch"
      "pending_count d1 + report_size r \<le> pending_count d"
      "report_size r < batch \<Longrightarrow> next_due_timer q (readings ticks) d1 = None" by blast
  show ?case
  proof (cases "report_size r < batch")
    case True
    then show ?thesis using t by (simp add: Let_def)
  next
    case False
    then have "report_size r = batch" using t(4) by simp
    then have "pending_count d1 < fuel" using t(5) Suc.prems(2) assms(2) by simp
    from Suc.IH [OF t(2) this, of "ticks + 1"] t(1,3) False show ?thesis
      by (fastforce simp: Let_def intro: extends_trans)
  qed
qed simp

lemma catch_up_ok:
  assumes "engine_ok d" and "0 < batch"
  shows "\<exists>rep n d'. catch_up batch q now readings d = (Some (Inr (rep, n)), d') \<and> engine_ok d' \<and> extends d d' \<and>
     0 < n \<and> next_due_timer q (readings (n - 1)) d' = None"
  using catch_up_loop_ok [OF assms, of "Suc (pending_count d)" q now readings 0] by (auto simp: catch_up_def)

end
