(* ===== verification/Matcher.thy ===== *)
theory Matcher
  imports Events
begin

text \<open>
  The command matcher (\<open>packages/core/src/workflow/command-matcher.ts\<close>): the commands a replay
  issues, in order, against the commands the history recorded, in order. The texts of the
  diagnostics (\<open>describe\<close>) are left out.
\<close>

section \<open>Shapes\<close>

datatype command_shape =
    ShapeStep string string jsv
  | ShapeTimer string "jsnum option"
  | ShapeChild string string jsv
  | ShapePatch string

fun shape_id :: "command_shape \<Rightarrow> string" where
  "shape_id (ShapeStep i _ _) = i"
| "shape_id (ShapeTimer i _) = i"
| "shape_id (ShapeChild i _ _) = i"
| "shape_id (ShapePatch i) = i"

fun recorded_command_of :: "event \<Rightarrow> command_shape option" where
  "recorded_command_of (StepScheduled sid st inp) = Some (ShapeStep sid st inp)"
| "recorded_command_of (TimerStarted tid _ d) = Some (ShapeTimer tid d)"
| "recorded_command_of (ChildStarted cid wt inp _ _ _) = Some (ShapeChild cid wt inp)"
| "recorded_command_of (PatchRecorded pid _) = Some (ShapePatch pid)"
| "recorded_command_of _ = None"

fun same_command :: "command_shape \<Rightarrow> command_shape \<Rightarrow> bool" where
  "same_command (ShapeStep i st inp) (ShapeStep j st' inp') \<longleftrightarrow> i = j \<and> st = st' \<and> same_encoding inp inp'"
| "same_command (ShapeTimer i d) (ShapeTimer j d') \<longleftrightarrow>
     i = j \<and> (case d of None \<Rightarrow> True
               | Some n \<Rightarrow> (case d' of None \<Rightarrow> False | Some n' \<Rightarrow> num_strict_eq n n'))"
| "same_command (ShapeChild i wt inp) (ShapeChild j wt' inp') \<longleftrightarrow> i = j \<and> wt = wt' \<and> same_encoding inp inp'"
| "same_command (ShapePatch i) (ShapePatch j) \<longleftrightarrow> i = j"
| "same_command _ _ \<longleftrightarrow> False"

section \<open>The matcher\<close>

record matcher =
  m_recorded :: "command_shape list"
  m_issued :: nat

definition create_command_matcher :: matcher where
  "create_command_matcher = \<lparr>m_recorded = [], m_issued = 0\<rparr>"

definition matcher_record :: "command_shape list \<Rightarrow> matcher \<Rightarrow> matcher" where
  "matcher_record shapes m = m\<lparr>m_recorded := m_recorded m @ shapes\<rparr>"

definition matcher_issue :: "command_shape \<Rightarrow> bool \<Rightarrow> matcher \<Rightarrow> (thrown + bool) \<times> matcher" where
  "matcher_issue shape while_cancelling m =
     (let expected = nth_opt (m_recorded m) (m_issued m);
          m' = m\<lparr>m_issued := m_issued m + 1\<rparr> in
      if while_cancelling \<and> (case expected of None \<Rightarrow> True | Some e \<Rightarrow> \<not> same_command e shape)
      then (Inr False, m)
      else case expected of
        None \<Rightarrow> (Inr False, m')
      | Some e \<Rightarrow>
          if same_command e shape then (Inr True, m')
          else (Inl (non_determinism_error (shape_id shape)), m'))"

definition assert_all_issued :: "matcher \<Rightarrow> thrown option" where
  "assert_all_issued m =
     (case nth_opt (m_recorded m) (m_issued m) of
        None \<Rightarrow> None
      | Some missing \<Rightarrow> Some (non_determinism_error (shape_id missing)))"

section \<open>Facts\<close>

text \<open>A shape whose timer duration is a number matches itself.\<close>

fun comparable :: "command_shape \<Rightarrow> bool" where
  "comparable (ShapeTimer _ (Some n)) \<longleftrightarrow> n \<noteq> NaN"
| "comparable _ \<longleftrightarrow> True"

lemma same_command_refl: "comparable s \<Longrightarrow> same_command s s"
  by (cases s rule: comparable.cases) (auto simp: num_strict_eq_refl)

lemma same_command_id: "same_command a b \<Longrightarrow> shape_id a = shape_id b"
  by (cases a; cases b) auto

lemma matcher_issue_recorded [simp]:
  "m_recorded (snd (matcher_issue s c m)) = m_recorded m"
  by (auto simp: matcher_issue_def Let_def split: option.splits)

lemma matcher_issue_Inr_True:
  "fst (matcher_issue s c m) = Inr True \<longleftrightarrow>
     (\<exists>e. nth_opt (m_recorded m) (m_issued m) = Some e \<and> same_command e s)"
  by (auto simp: matcher_issue_def Let_def split: option.splits)

text \<open>
  The matcher never loses a mismatch: past the end of the recording every command is new, inside
  it a command that does not match the recorded one is an error.
\<close>

lemma matcher_issue_live:
  "matcher_issue s False m =
     (case nth_opt (m_recorded m) (m_issued m) of
        None \<Rightarrow> (Inr False, m\<lparr>m_issued := m_issued m + 1\<rparr>)
      | Some e \<Rightarrow> (if same_command e s then Inr True else Inl (non_determinism_error (shape_id s)),
                  m\<lparr>m_issued := m_issued m + 1\<rparr>))"
  by (auto simp: matcher_issue_def Let_def split: option.splits)

lemma assert_all_issued_None: "assert_all_issued m = None \<longleftrightarrow> length (m_recorded m) \<le> m_issued m"
  by (auto simp: assert_all_issued_def nth_opt_def split: option.splits)

text \<open>The shape of a command is the shape of the event that records it.\<close>

definition shape_of_command :: "command \<Rightarrow> command_shape option" where
  "shape_of_command c = recorded_command_of (command_to_event c)"

lemma shape_of_command_simps [simp]:
  "shape_of_command (ScheduleStep sid st inp) = Some (ShapeStep sid st inp)"
  "shape_of_command (StartTimer tid t d) = Some (ShapeTimer tid (Some d))"
  "shape_of_command (StartChild cid wt inp p rt et) = Some (ShapeChild cid wt inp)"
  "shape_of_command (RecordPatch pid b) = Some (ShapePatch pid)"
  "shape_of_command (RecordTime t) = None"
  "shape_of_command (RecordCompensationFailure i e) = None"
  "shape_of_command (CompleteRun r) = None" "shape_of_command (FailRun f) = None"
  "shape_of_command (CancelRun c) = None" "shape_of_command (ContinueAsNew inp) = None"
  by (simp_all add: shape_of_command_def)

definition recorded_shapes :: "event list \<Rightarrow> command_shape list" where
  "recorded_shapes h = List.map_filter recorded_command_of h"

lemma recorded_shapes_append [simp]: "recorded_shapes (a @ b) = recorded_shapes a @ recorded_shapes b"
  by (simp add: recorded_shapes_def List.map_filter_def)

lemma recorded_shapes_commands:
  "recorded_shapes (map command_to_event cs) = List.map_filter shape_of_command cs"
  by (induction cs) (auto simp: recorded_shapes_def shape_of_command_def List.map_filter_def)

end
