(* ===== verification/Workflow.thy ===== *)
theory Workflow
  imports Matcher RunState
begin

text \<open>
  Workflow code and the context it is written against: the context a replay serves
  (\<open>packages/core/src/workflow/decision-loop.ts\<close>), the parallel helpers
  (\<open>workflow/parallel.ts\<close>) and the three values (\<open>workflow/context-values.ts\<close>).

  A workflow is user code. The model keeps of it what the engine can see: which context call it
  makes next, given what the calls before answered. \<open>handler\<close> is that tree. It covers handlers
  that run one call after the other, with \<open>ctx.all\<close> and \<open>ctx.allSettled\<close> as the concurrent parts;
  a promise they hold can be awaited any time later. The tree is well-founded: the path a replay
  takes through it is finite, as it is for code that comes to rest.

  Promises settle in the order \<open>feedHistory\<close> releases them, by their position in the history. For
  a handler that waits for one promise at a time this order is not observable: an awaited
  promise is released before the code after the await runs, whatever else is released before.
\<close>

section \<open>Promises and handlers\<close>

text \<open>
  \<open>PAt i out\<close> is served by the event at index \<open>i\<close> of the history; \<open>PRejected\<close> is rejected at once,
  with whether \<open>cancelledPromises\<close> knows it; \<open>PNever\<close> never settles.
\<close>

datatype promise = PAt nat "thrown + jsv" | PRejected bool thrown | PNever

record child_options =
  co_policy :: "close_policy option"
  co_run_timeout :: "rat option"
  co_execution_timeout :: "rat option"

datatype ctx_task =
    TaskStep string jsv
  | TaskChild string jsv child_options
  | TaskSleep jsnum
  | TaskSignal string

datatype handler =
    Return jsv
  | Throw thrown
  | Await promise "thrown + jsv \<Rightarrow> handler"
  | Step string jsv "thrown + promise \<Rightarrow> handler"
  | Sleep jsnum "thrown + promise \<Rightarrow> handler"
  | WaitForSignal string "promise \<Rightarrow> handler"
  | StartChildRun string jsv child_options "thrown + (string \<times> promise) \<Rightarrow> handler"
  | SelectFirst "promise list" "thrown + (nat \<times> jsv) \<Rightarrow> handler"
  | All "ctx_task list" "jsnum option" bool "thrown + (thrown + jsv) list \<Rightarrow> handler"
  | Patched string "thrown + bool \<Rightarrow> handler"
  | Now "time \<Rightarrow> handler"
  | Random "jsv \<Rightarrow> handler"
  | Uuid "jsv \<Rightarrow> handler"
  | SetQueryHandler string "jsv \<Rightarrow> jsv" handler
  | OnCancel handler handler
  | Continue jsv "thrown \<Rightarrow> handler"

section \<open>The replay's state\<close>

definition DEFAULT_MAX_CHILDREN :: nat where
  "DEFAULT_MAX_CHILDREN = 1000"

text \<open>
  What a replay is given: the history, \<open>options.clock\<close>, \<open>options.triggeredAt\<close>,
  \<open>options.maxChildren ?? DEFAULT_MAX_CHILDREN\<close>, \<open>options.buildId\<close> and the two draws of the
  generator, by the counter they share.
\<close>

record replay_env =
  e_history :: "event list"
  e_clock :: time
  e_triggered :: "time option"
  e_max_children :: nat
  e_build :: "string option"
  e_random :: "nat \<Rightarrow> jsv"
  e_uuid :: "nat \<Rightarrow> jsv"

record replay_state =
  w_step :: nat
  w_timer :: nat
  w_child :: nat
  w_matcher :: matcher
  w_commands :: "command list"
  w_signals :: "string \<Rightarrow> nat"
  w_patches :: "string \<rightharpoonup> bool"
  w_consulted :: "string list"
  w_times :: nat
  w_draws :: nat
  w_compensations :: "handler list"
  w_in_flight :: "string list"
  w_continuation :: "jsv option"
  w_queries :: "(string \<times> (jsv \<Rightarrow> jsv)) list"

definition is_cancel_requested_event :: "event \<Rightarrow> bool" where
  "is_cancel_requested_event e = (case e of CancelRequested _ \<Rightarrow> True | _ \<Rightarrow> False)"

definition cancel_requested :: "replay_env \<Rightarrow> bool" where
  "cancel_requested env = list_ex is_cancel_requested_event (e_history env)"

definition recorded_patch_ids :: "event list \<Rightarrow> string list" where
  "recorded_patch_ids h = List.map_filter (\<lambda>e. case e of PatchRecorded pid _ \<Rightarrow> Some pid | _ \<Rightarrow> None) h"

definition recorded_command_count :: "event list \<Rightarrow> nat" where
  "recorded_command_count h =
     length (filter (\<lambda>e. case e of StepScheduled _ _ _ \<Rightarrow> True | TimerStarted _ _ _ \<Rightarrow> True
                           | ChildStarted _ _ _ _ _ _ \<Rightarrow> True | _ \<Rightarrow> False) h)"

definition recorded_times :: "event list \<Rightarrow> time list" where
  "recorded_times h = List.map_filter (\<lambda>e. case e of TimeRecorded t \<Rightarrow> Some t | _ \<Rightarrow> None) h"

definition initial_state :: "replay_env \<Rightarrow> replay_state" where
  "initial_state env =
     \<lparr>w_step = 0, w_timer = 0, w_child = 0,
      w_matcher = matcher_record (recorded_shapes (e_history env)) create_command_matcher,
      w_commands = [], w_signals = (\<lambda>_. 0), w_patches = Map.empty, w_consulted = [],
      w_times = 0, w_draws = 0, w_compensations = [], w_in_flight = [],
      w_continuation = None, w_queries = []\<rparr>"

definition push_command :: "command \<Rightarrow> replay_state \<Rightarrow> replay_state" where
  "push_command c s = s\<lparr>w_commands := w_commands s @ [c]\<rparr>"

definition issue_command :: "command_shape \<Rightarrow> bool \<Rightarrow> replay_state \<Rightarrow> (thrown + bool) \<times> replay_state" where
  "issue_command shape cancelled s =
     (let (r, m) = matcher_issue shape cancelled (w_matcher s) in (r, s\<lparr>w_matcher := m\<rparr>))"

section \<open>The calls\<close>

text \<open>The ids of a run's steps, timers and children, in call order.\<close>

definition step_id :: "nat \<Rightarrow> string" where "step_id n = ''step-'' @ show_nat n"
definition timer_id :: "nat \<Rightarrow> string" where "timer_id n = ''timer-'' @ show_nat n"
definition child_id :: "nat \<Rightarrow> string" where "child_id n = ''child-'' @ show_nat n"

text \<open>\<open>completedAt\<close> of the first event the predicate finds.\<close>

definition step_outcome_of :: "string \<Rightarrow> string \<Rightarrow> event \<Rightarrow> (thrown + jsv) option" where
  "step_outcome_of sid st e =
     (case e of
        StepCompleted i r \<Rightarrow> if i = sid then Some (Inr r) else None
      | StepFailed i err exhausted \<Rightarrow>
          if i = sid
          then Some (Inl (if exhausted = Some True
                          then step_failed_error sid st (reconstruct_error err)
                          else reconstruct_error err))
          else None
      | _ \<Rightarrow> None)"

definition timer_outcome_of :: "string \<Rightarrow> event \<Rightarrow> (thrown + jsv) option" where
  "timer_outcome_of tid e =
     (case e of TimerFired i \<Rightarrow> if i = tid then Some (Inr VUndef) else None | _ \<Rightarrow> None)"

definition child_outcome_of :: "string \<Rightarrow> event \<Rightarrow> (thrown + jsv) option" where
  "child_outcome_of cid e =
     (case e of
        ChildCompleted i r \<Rightarrow> if i = cid then Some (Inr r) else None
      | ChildFailed i err \<Rightarrow> if i = cid then Some (Inl (reconstruct_error err)) else None
      | _ \<Rightarrow> None)"

fun first_outcome :: "nat \<Rightarrow> (event \<Rightarrow> (thrown + jsv) option) \<Rightarrow> event list \<Rightarrow> (nat \<times> (thrown + jsv)) option" where
  "first_outcome i f [] = None"
| "first_outcome i f (e # es) =
     (case f e of Some out \<Rightarrow> Some (i, out) | None \<Rightarrow> first_outcome (Suc i) f es)"

text \<open>The \<open>k\<close>-th signal of a name, from zero.\<close>

fun nth_signal :: "nat \<Rightarrow> string \<Rightarrow> nat \<Rightarrow> event list \<Rightarrow> (nat \<times> (thrown + jsv)) option" where
  "nth_signal i name k [] = None"
| "nth_signal i name k (e # es) =
     (case e of
        SignalReceived n payload \<Rightarrow>
          if n = name
          then (if k = 0 then Some (i, Inr payload) else nth_signal (Suc i) name (k - 1) es)
          else nth_signal (Suc i) name k es
      | _ \<Rightarrow> nth_signal (Suc i) name k es)"

definition promise_of :: "(nat \<times> (thrown + jsv)) option \<Rightarrow> promise" where
  "promise_of r = (case r of None \<Rightarrow> PNever | Some (i, out) \<Rightarrow> PAt i out)"

definition ctx_step ::
    "replay_env \<Rightarrow> bool \<Rightarrow> string \<Rightarrow> jsv \<Rightarrow> replay_state \<Rightarrow> (thrown + promise) \<times> replay_state" where
  "ctx_step env cancelled st inp s0 =
     (let s1 = s0\<lparr>w_step := w_step s0 + 1\<rparr>;
          sid = step_id (w_step s1);
          (recorded, s2) = issue_command (ShapeStep sid st inp) cancelled s1 in
      case recorded of
        Inl e \<Rightarrow> (Inl e, s2)
      | Inr known \<Rightarrow>
          (case first_outcome 0 (step_outcome_of sid st) (e_history env) of
             Some r \<Rightarrow> (Inr (promise_of (Some r)), s2)
           | None \<Rightarrow>
               if \<not> known \<and> cancelled then (Inr (PRejected False cancelled_error), s2)
               else
                 let s3 = (if known then s2 else push_command (ScheduleStep sid st inp) s2);
                     s4 = (if cancelled \<and> sid \<notin> set (w_in_flight s3)
                           then s3\<lparr>w_in_flight := w_in_flight s3 @ [sid]\<rparr> else s3)
                 in (Inr PNever, s4)))"

text \<open>\<open>new Date(ms).toISOString()\<close>: the instant, cut to milliseconds, or a \<open>RangeError\<close>.\<close>

definition MAX_TIME :: int where "MAX_TIME = 8640000000000000"

definition to_instant :: "rat \<Rightarrow> thrown + time" where
  "to_instant ms =
     (if of_int MAX_TIME < \<bar>ms\<bar> then Inl (new_error RangeErrorClass ''RangeError'' ''Invalid time value'')
      else Inr (if 0 \<le> ms then \<lfloor>ms\<rfloor> else \<lceil>ms\<rceil>))"

definition ctx_sleep ::
    "replay_env \<Rightarrow> bool \<Rightarrow> jsnum \<Rightarrow> replay_state \<Rightarrow> (thrown + promise) \<times> replay_state" where
  "ctx_sleep env cancelled dur s0 =
     (case sleep_duration_error dur of
        Some invalid \<Rightarrow> (Inr (PRejected False invalid), s0)
      | None \<Rightarrow>
          let s1 = s0\<lparr>w_timer := w_timer s0 + 1\<rparr>;
              tid = timer_id (w_timer s1);
              (recorded, s2) = issue_command (ShapeTimer tid (Some dur)) cancelled s1 in
          case recorded of
            Inl e \<Rightarrow> (Inl e, s2)
          | Inr known \<Rightarrow>
              (case first_outcome 0 (timer_outcome_of tid) (e_history env) of
                 Some r \<Rightarrow> (Inr (promise_of (Some r)), s2)
               | None \<Rightarrow>
                   if cancelled then (Inr (PRejected False cancelled_error), s2)
                   else if known then (Inr PNever, s2)
                   else case to_instant (of_int (e_clock env) + num_value dur) of
                     Inl e \<Rightarrow> (Inl e, s2)
                   | Inr fire_at \<Rightarrow> (Inr PNever, push_command (StartTimer tid fire_at dur) s2)))"

definition ctx_wait_for_signal ::
    "replay_env \<Rightarrow> bool \<Rightarrow> string \<Rightarrow> replay_state \<Rightarrow> promise \<times> replay_state" where
  "ctx_wait_for_signal env cancelled name s =
     (let consumed = w_signals s name;
          s' = s\<lparr>w_signals := (w_signals s)(name := consumed + 1)\<rparr> in
      (case nth_signal 0 name consumed (e_history env) of
         Some r \<Rightarrow> promise_of (Some r)
       | None \<Rightarrow> if cancelled then PRejected False cancelled_error else PNever,
       s'))"

definition ctx_start_child ::
    "replay_env \<Rightarrow> bool \<Rightarrow> string \<Rightarrow> jsv \<Rightarrow> child_options \<Rightarrow> replay_state
       \<Rightarrow> (thrown + (string \<times> promise)) \<times> replay_state" where
  "ctx_start_child env cancelled wt inp opt s0 =
     (let s1 = s0\<lparr>w_child := w_child s0 + 1\<rparr> in
      if e_max_children env < w_child s1 then (Inl (child_limit_exceeded_error (e_max_children env)), s1)
      else
        let cid = child_id (w_child s1);
            (recorded, s2) = issue_command (ShapeChild cid wt inp) cancelled s1 in
        case recorded of
          Inl e \<Rightarrow> (Inl e, s2)
        | Inr known \<Rightarrow>
            if \<not> known \<and> cancelled then (Inl cancelled_error, s2)
            else
              let s3 = (if known then s2
                        else push_command (StartChild cid wt inp (optional (co_policy opt) PolicyCancel)
                               (co_run_timeout opt) (co_execution_timeout opt)) s2) in
              (Inr (cid, case first_outcome 0 (child_outcome_of cid) (e_history env) of
                           Some r \<Rightarrow> promise_of (Some r)
                         | None \<Rightarrow> if cancelled then PRejected True cancelled_error else PNever), s3))"

text \<open>\<open>decidePatch\<close>; the matcher is asked without the flag, cancelled or not.\<close>

definition decide_patch :: "replay_env \<Rightarrow> string \<Rightarrow> replay_state \<Rightarrow> (thrown + bool) \<times> replay_state" where
  "decide_patch env pid s0 =
     (let s1 = s0\<lparr>w_consulted := List.insert pid (w_consulted s0)\<rparr> in
      case w_patches s1 pid of
        Some decided \<Rightarrow> (Inr decided, s1)
      | None \<Rightarrow>
          if pid \<in> set (recorded_patch_ids (e_history env)) then
            (let (r, s2) = issue_command (ShapePatch pid) False s1 in
             case r of Inl e \<Rightarrow> (Inl e, s2)
             | Inr _ \<Rightarrow> (Inr True, s2\<lparr>w_patches := (w_patches s2)(pid \<mapsto> True)\<rparr>))
          else if w_step s1 + w_timer s1 + w_child s1 < recorded_command_count (e_history env) then
            (Inr False, s1\<lparr>w_patches := (w_patches s1)(pid \<mapsto> False)\<rparr>)
          else
            (let (r, s2) = issue_command (ShapePatch pid) False s1 in
             case r of Inl e \<Rightarrow> (Inl e, s2)
             | Inr _ \<Rightarrow>
                 let s3 = push_command (RecordPatch pid (e_build env)) s2
                 in (Inr True, s3\<lparr>w_patches := (w_patches s3)(pid \<mapsto> True)\<rparr>)))"

definition ctx_now :: "replay_env \<Rightarrow> replay_state \<Rightarrow> time \<times> replay_state" where
  "ctx_now env s =
     (let s1 = s\<lparr>w_times := w_times s + 1\<rparr> in
      case nth_opt (recorded_times (e_history env)) (w_times s) of
        Some t \<Rightarrow> (t, s1)
      | None \<Rightarrow> let t = optional (e_triggered env) (e_clock env) in (t, push_command (RecordTime t) s1))"

section \<open>Choosing by the history\<close>

text \<open>The entry whose promise has the smallest position, the first one if none is smaller.\<close>

fun earliest :: "('k \<times> promise) list \<Rightarrow> ('k \<times> nat) option" where
  "earliest [] = None"
| "earliest ((k, p) # rest) =
     (case p of
        PAt i _ \<Rightarrow> (case earliest rest of Some (k', j) \<Rightarrow> if j < i then Some (k', j) else Some (k, i)
                     | None \<Rightarrow> Some (k, i))
      | _ \<Rightarrow> earliest rest)"

definition choose_next :: "(nat \<times> promise) list \<Rightarrow> nat option" where
  "choose_next running =
     (case earliest running of
        Some (k, _) \<Rightarrow> Some k
      | None \<Rightarrow> map_option fst (find (\<lambda>(k, p). case p of PRejected True _ \<Rightarrow> True | _ \<Rightarrow> False) running))"

definition await_promise :: "promise \<Rightarrow> (thrown + jsv) option" where
  "await_promise p = (case p of PAt _ out \<Rightarrow> Some out | PRejected _ e \<Rightarrow> Some (Inl e) | PNever \<Rightarrow> None)"

definition ctx_select :: "promise list \<Rightarrow> (thrown + (nat \<times> jsv)) option" where
  "ctx_select branches =
     (case earliest (zip [0..<length branches] branches) of
        None \<Rightarrow> None
      | Some (i, _) \<Rightarrow>
          (case await_promise (branches ! i) of
             None \<Rightarrow> None
           | Some (Inl e) \<Rightarrow> Some (Inl e)
           | Some (Inr v) \<Rightarrow> Some (Inr (i, v))))"

section \<open>Parallel tasks\<close>

definition run_task ::
    "replay_env \<Rightarrow> bool \<Rightarrow> ctx_task \<Rightarrow> replay_state \<Rightarrow> (thrown + promise) \<times> replay_state" where
  "run_task env cancelled t s =
     (case t of
        TaskStep st inp \<Rightarrow> ctx_step env cancelled st inp s
      | TaskSleep dur \<Rightarrow> ctx_sleep env cancelled dur s
      | TaskSignal name \<Rightarrow> (let (p, s') = ctx_wait_for_signal env cancelled name s in (Inr p, s'))
      | TaskChild wt inp opt \<Rightarrow>
          (let (r, s') = ctx_start_child env cancelled wt inp opt s in
           (case r of Inl e \<Rightarrow> Inl e | Inr (_, p) \<Rightarrow> Inr p, s')))"

definition validate_concurrency :: "jsnum option \<Rightarrow> nat \<Rightarrow> thrown + nat" where
  "validate_concurrency c n =
     (case c of
        None \<Rightarrow> Inr (max n 1)
      | Some (Fin q) \<Rightarrow>
          if of_int \<lfloor>q\<rfloor> = q \<and> 1 \<le> q then Inr (nat \<lfloor>q\<rfloor>)
          else Inl (new_error RangeErrorClass ''RangeError'' ''concurrency must be a positive integer'')
      | Some _ \<Rightarrow> Inl (new_error RangeErrorClass ''RangeError'' ''concurrency must be a positive integer''))"

text \<open>The inner loop: start tasks in index order while there is room. \<open>pending\<close> are those not started.\<close>

fun start_tasks ::
    "replay_env \<Rightarrow> bool \<Rightarrow> nat \<Rightarrow> (nat \<times> ctx_task) list \<Rightarrow> (nat \<times> promise) list \<Rightarrow> replay_state
       \<Rightarrow> (thrown + (nat \<times> ctx_task) list \<times> (nat \<times> promise) list) \<times> replay_state" where
  "start_tasks env cancelled limit [] running s = (Inr ([], running), s)"
| "start_tasks env cancelled limit ((i, t) # pending) running s =
     (if length running < limit then
        (case run_task env cancelled t s of
           (Inl e, s') \<Rightarrow> (Inl e, s')
         | (Inr p, s') \<Rightarrow> start_tasks env cancelled limit pending (running @ [(i, p)]) s')
      else (Inr ((i, t) # pending, running), s))"

text \<open>
  The outer loop, over the number of tasks still to settle. No answer is a loop that waits for
  ever; \<open>Some (Inl e)\<close> is the rejection of the whole call.
\<close>

fun parallel_loop ::
    "replay_env \<Rightarrow> bool \<Rightarrow> bool \<Rightarrow> nat \<Rightarrow> nat \<Rightarrow> (nat \<times> ctx_task) list \<Rightarrow> (nat \<times> promise) list \<Rightarrow>
     (nat \<times> (thrown + jsv)) list \<Rightarrow> replay_state
       \<Rightarrow> (thrown + (nat \<times> (thrown + jsv)) list) option \<times> replay_state" where
  "parallel_loop env cancelled settle_all limit 0 pending running outs s = (Some (Inr outs), s)"
| "parallel_loop env cancelled settle_all limit (Suc n) pending running outs s =
     (case start_tasks env cancelled limit pending running s of
        (Inl e, s') \<Rightarrow> (Some (Inl e), s')
      | (Inr (pending', running'), s') \<Rightarrow>
          (case choose_next running' of
             None \<Rightarrow> (None, s')
           | Some k \<Rightarrow>
               (case map_of running' k of
                  None \<Rightarrow> (Some (Inl (new_error PlainErrorClass ''Error'' ''parallel task is not running'')), s')
                | Some p \<Rightarrow>
                    (case await_promise p of
                       None \<Rightarrow> (None, s')
                     | Some (Inl e) \<Rightarrow>
                         if settle_all
                         then parallel_loop env cancelled settle_all limit n pending'
                                (filter (\<lambda>(j, _). j \<noteq> k) running') (outs @ [(k, Inl e)]) s'
                         else (Some (Inl e), s')
                     | Some (Inr v) \<Rightarrow>
                         parallel_loop env cancelled settle_all limit n pending'
                           (filter (\<lambda>(j, _). j \<noteq> k) running') (outs @ [(k, Inr v)]) s'))))"

text \<open>The outcomes in task order; every task has one when the loop is done.\<close>

definition outcomes_in_order :: "nat \<Rightarrow> (nat \<times> (thrown + jsv)) list \<Rightarrow> (thrown + jsv) list" where
  "outcomes_in_order n outs = map (\<lambda>i. optional (map_of outs i) (Inr VUndef)) [0..<n]"

definition run_parallel ::
    "replay_env \<Rightarrow> bool \<Rightarrow> ctx_task list \<Rightarrow> jsnum option \<Rightarrow> bool \<Rightarrow> replay_state
       \<Rightarrow> (thrown + (thrown + jsv) list) option \<times> replay_state" where
  "run_parallel env cancelled tasks concurrency settle_all s =
     (case validate_concurrency concurrency (length tasks) of
        Inl e \<Rightarrow> (Some (Inl e), s)
      | Inr limit \<Rightarrow>
          (case parallel_loop env cancelled settle_all limit (length tasks)
                  (zip [0..<length tasks] tasks) [] [] s of
             (None, s') \<Rightarrow> (None, s')
           | (Some (Inl e), s') \<Rightarrow> (Some (Inl e), s')
           | (Some (Inr outs), s') \<Rightarrow> (Some (Inr (outcomes_in_order (length tasks) outs)), s')))"

end
