(* ===== verification/Decision.thy ===== *)
theory Decision
  imports Workflow
begin

text \<open>
  The decision loop (\<open>packages/core/src/workflow/decision-loop.ts\<close>): replaying a handler over a
  history and turning where it stops into a decision.

  \<open>js_string\<close> is \<open>String(v)\<close> of a thrown value that is no \<open>Error\<close>, \<open>enc\<close> the text
  \<open>JSON.stringify\<close> gives it.
\<close>

section \<open>Replaying\<close>

datatype stop = Returned jsv | Threw thrown | Suspended_at

text \<open>
  The handler runs until it settles or waits for a promise that has no outcome in the history.
  \<open>cancelled\<close> is the flag of the context it runs in.
\<close>

primrec replay :: "handler \<Rightarrow> replay_env \<Rightarrow> bool \<Rightarrow> replay_state \<Rightarrow> stop \<times> replay_state" where
  "replay (Return v) env c s = (Returned v, s)"
| "replay (Throw e) env c s = (Threw e, s)"
| "replay (Await p k) env c s =
     (case await_promise p of None \<Rightarrow> (Suspended_at, s) | Some out \<Rightarrow> replay (k out) env c s)"
| "replay (Step st inp k) env c s = (case ctx_step env c st inp s of (r, s') \<Rightarrow> replay (k r) env c s')"
| "replay (Sleep dur k) env c s = (case ctx_sleep env c dur s of (r, s') \<Rightarrow> replay (k r) env c s')"
| "replay (WaitForSignal name k) env c s =
     (case ctx_wait_for_signal env c name s of (p, s') \<Rightarrow> replay (k p) env c s')"
| "replay (StartChildRun wt inp opt k) env c s =
     (case ctx_start_child env c wt inp opt s of (r, s') \<Rightarrow> replay (k r) env c s')"
| "replay (SelectFirst ps k) env c s =
     (case ctx_select ps of None \<Rightarrow> (Suspended_at, s) | Some r \<Rightarrow> replay (k r) env c s)"
| "replay (All tasks conc settle_all k) env c s =
     (case run_parallel env c tasks conc settle_all s of
        (None, s') \<Rightarrow> (Suspended_at, s')
      | (Some r, s') \<Rightarrow> replay (k r) env c s')"
| "replay (Patched pid k) env c s = (case decide_patch env pid s of (r, s') \<Rightarrow> replay (k r) env c s')"
| "replay (Now k) env c s = (case ctx_now env s of (t, s') \<Rightarrow> replay (k t) env c s')"
| "replay (Random k) env c s = replay (k (e_random env (w_draws s))) env c (s\<lparr>w_draws := w_draws s + 1\<rparr>)"
| "replay (Uuid k) env c s = replay (k (e_uuid env (w_draws s))) env c (s\<lparr>w_draws := w_draws s + 1\<rparr>)"
| "replay (SetQueryHandler name f k) env c s =
     replay k env c (s\<lparr>w_queries := filter (\<lambda>(n, _). n \<noteq> name) (w_queries s) @ [(name, f)]\<rparr>)"
| "replay (OnCancel undo k) env c s = replay k env c (s\<lparr>w_compensations := w_compensations s @ [undo]\<rparr>)"
| "replay (Continue inp k) env c s =
     (if cancel_requested env then replay (k cancelled_error) env c s
      else (Suspended_at, s\<lparr>w_continuation := Some (optional (w_continuation s) inp)\<rparr>))"

section \<open>Compensations\<close>

definition recorded_compensation_failures :: "event list \<Rightarrow> nat list" where
  "recorded_compensation_failures h =
     List.map_filter (\<lambda>e. case e of CompensationFailed i _ \<Rightarrow> Some i | _ \<Rightarrow> None) h"

text \<open>
  \<open>runCompensations\<close>, from the last registered to the first: \<open>n\<close> counts down from the length of
  the list when it starts. The result is the integrity error that settled the replay, if any, and
  whether all of them came to an end.
\<close>

fun run_compensations ::
    "(jsv \<Rightarrow> string) \<Rightarrow> replay_env \<Rightarrow> nat \<Rightarrow> thrown option \<Rightarrow> replay_state \<Rightarrow> thrown option \<times> bool \<times> replay_state" where
  "run_compensations enc env 0 failed s = (failed, True, s)"
| "run_compensations enc env (Suc n) failed s =
     (case nth_opt (w_compensations s) n of
        None \<Rightarrow> run_compensations enc env n failed s
      | Some undo \<Rightarrow>
          (case replay undo env False s of
             (Suspended_at, s') \<Rightarrow> (failed, False, s')
           | (Returned _, s') \<Rightarrow> run_compensations enc env n failed s'
           | (Threw e, s') \<Rightarrow>
               if is_integrity_error e then run_compensations enc env n (Some e) s'
               else if n \<in> set (recorded_compensation_failures (e_history env))
               then run_compensations enc env n failed s'
               else run_compensations enc env n failed
                      (push_command (RecordCompensationFailure n (to_recorded_error enc e)) s')))"

section \<open>The outcome of a replay\<close>

datatype settled = SettledCompleted jsv | SettledFailed thrown

datatype cancellation = NotRequested | Requested "string option" bool

record replay_outcome =
  o_settled :: "settled option"
  o_commands :: "command list"
  o_queries :: "(string \<times> (jsv \<Rightarrow> jsv)) list"
  o_continuation :: "jsv option"
  o_unconsulted :: "string list"
  o_unissued :: "thrown option"
  o_cancellation :: cancellation

definition to_error :: "(jsv \<Rightarrow> string) \<Rightarrow> thrown \<Rightarrow> thrown" where
  "to_error js_string reason =
     (case reason of ThrownValue v \<Rightarrow> new_error PlainErrorClass ''Error'' (js_string v) | _ \<Rightarrow> reason)"

definition find_cancel_event :: "event list \<Rightarrow> string option option" where
  "find_cancel_event h =
     (case find is_cancel_requested_event h of Some (CancelRequested r) \<Rightarrow> Some r | _ \<Rightarrow> None)"

definition settled_of :: "(jsv \<Rightarrow> string) \<Rightarrow> stop \<Rightarrow> settled option" where
  "settled_of js_string st =
     (case st of Returned v \<Rightarrow> Some (SettledCompleted v)
      | Threw e \<Rightarrow> Some (SettledFailed (to_error js_string e))
      | Suspended_at \<Rightarrow> None)"

definition replay_history ::
    "(jsv \<Rightarrow> string) \<Rightarrow> (jsv \<Rightarrow> string) \<Rightarrow> replay_env \<Rightarrow> handler \<Rightarrow> replay_outcome" where
  "replay_history js_string enc env h =
     (let cancel_event = find_cancel_event (e_history env);
          (st, s1) = replay h env (cancel_requested env) (initial_state env);
          handler_done = (st \<noteq> Suspended_at);
          (failed, compensated, s2) =
            (if cancel_event \<noteq> None \<and> (handler_done \<or> w_in_flight s1 = [])
             then run_compensations enc env (length (w_compensations s1)) None s1
             else (None, False, s1))
      in \<lparr>o_settled = (case failed of Some e \<Rightarrow> Some (SettledFailed e) | None \<Rightarrow> settled_of js_string st),
          o_commands = w_commands s2, o_queries = w_queries s2, o_continuation = w_continuation s2,
          o_unconsulted = remdups (filter (\<lambda>pid. pid \<notin> set (w_consulted s2)) (recorded_patch_ids (e_history env))),
          o_unissued = assert_all_issued (w_matcher s2),
          o_cancellation = (case cancel_event of None \<Rightarrow> NotRequested
                            | Some reason \<Rightarrow> Requested reason compensated)\<rparr>)"

section \<open>Decisions\<close>

datatype decision_outcome =
    Completed jsv
  | Failed_with thrown
  | Suspended
  | Cancelled
  | ContinuedAsNew jsv

record decision =
  de_outcome :: decision_outcome
  de_commands :: "command list"

definition integrity_failure :: "settled option \<Rightarrow> thrown option" where
  "integrity_failure st =
     (case st of Some (SettledFailed e) \<Rightarrow> if is_integrity_error e then Some e else None | _ \<Rightarrow> None)"

definition decide ::
    "(jsv \<Rightarrow> string) \<Rightarrow> (jsv \<Rightarrow> string) \<Rightarrow> replay_env \<Rightarrow> handler \<Rightarrow> thrown + decision" where
  "decide js_string enc env h =
     (let out = replay_history js_string enc env h; cs = o_commands out in
      if o_unconsulted out \<noteq> [] then Inl version_mismatch_error
      else case integrity_failure (o_settled out) of
        Some e \<Rightarrow> Inl e
      | None \<Rightarrow>
          (case o_unissued out of
             Some e \<Rightarrow> Inl e
           | None \<Rightarrow>
               (case o_cancellation out of
                  Requested reason compensated \<Rightarrow>
                    if \<not> compensated then Inr \<lparr>de_outcome = Suspended, de_commands = cs\<rparr>
                    else Inr \<lparr>de_outcome = Cancelled, de_commands = cs @ [CancelRun reason]\<rparr>
                | NotRequested \<Rightarrow>
                    (case o_continuation out of
                       Some inp \<Rightarrow> Inr \<lparr>de_outcome = ContinuedAsNew inp, de_commands = [ContinueAsNew inp]\<rparr>
                     | None \<Rightarrow>
                         (case o_settled out of
                            None \<Rightarrow> Inr \<lparr>de_outcome = Suspended, de_commands = cs\<rparr>
                          | Some (SettledCompleted v) \<Rightarrow>
                              Inr \<lparr>de_outcome = Completed v, de_commands = cs @ [CompleteRun v]\<rparr>
                          | Some (SettledFailed e) \<Rightarrow>
                              Inr \<lparr>de_outcome = Failed_with e,
                                   de_commands = cs @ [FailRun (to_recorded_error enc e)]\<rparr>)))))"

text \<open>\<open>runDecisionLoop\<close>: the decision with the warning, the number of events and the threshold.\<close>

definition run_decision_loop ::
    "(jsv \<Rightarrow> string) \<Rightarrow> (jsv \<Rightarrow> string) \<Rightarrow> nat option \<Rightarrow> replay_env \<Rightarrow> handler
       \<Rightarrow> thrown + decision \<times> (nat \<times> nat) option" where
  "run_decision_loop js_string enc threshold env h =
     (case decide js_string enc env h of
        Inl e \<Rightarrow> Inl e
      | Inr dec \<Rightarrow>
          Inr (dec, case threshold of
                 None \<Rightarrow> None
               | Some n \<Rightarrow> if length (e_history env) < n then None else Some (length (e_history env), n)))"

section \<open>The interface of the calls\<close>

text \<open>
  A relation between the states before and after that every context call keeps: replay keeps it
  over the whole handler, the parallel helpers included.
\<close>

locale call_relation =
  fixes R :: "replay_state \<Rightarrow> replay_state \<Rightarrow> bool"
  assumes R_refl: "R s s"
    and R_trans: "R s t \<Longrightarrow> R t u \<Longrightarrow> R s u"
    and R_step: "ctx_step env c st inp s = (r, t) \<Longrightarrow> R s t"
    and R_sleep: "ctx_sleep env c d s = (r1, t) \<Longrightarrow> R s t"
    and R_signal: "ctx_wait_for_signal env c n s = (r2, t) \<Longrightarrow> R s t"
    and R_child: "ctx_start_child env c wt inp opt s = (r3, t) \<Longrightarrow> R s t"
    and R_now: "ctx_now env s = (r4, t) \<Longrightarrow> R s t"
    and R_patch: "decide_patch env pid s = (r5, t) \<Longrightarrow> R s t"
    and R_draws: "R s (s\<lparr>w_draws := a\<rparr>)"
    and R_queries: "R s (s\<lparr>w_queries := q\<rparr>)"
    and R_compensations: "R s (s\<lparr>w_compensations := w_compensations s @ [h]\<rparr>)"
    and R_continuation: "R s (s\<lparr>w_continuation := x\<rparr>)"
begin

lemma R_task: "run_task env c tk s = (r, t) \<Longrightarrow> R s t"
  by (auto simp: run_task_def split: ctx_task.splits prod.splits
      dest: R_step R_sleep R_signal R_child)

lemma R_start_tasks: "start_tasks env c limit pending running s = (r, t) \<Longrightarrow> R s t"
proof (induction env c limit pending running s arbitrary: r t rule: start_tasks.induct)
  case (2 env c limit i tk pending running s)
  then show ?case
    by (auto split: if_splits prod.splits sum.splits dest: R_task intro: R_trans R_refl)
qed (auto intro: R_refl)

lemma R_parallel_loop: "parallel_loop env c b limit n pending running outs s = (r, t) \<Longrightarrow> R s t"
proof (induction n arbitrary: b pending running outs s)
  case (Suc n)
  obtain q s1 where st: "start_tasks env c limit pending running s = (q, s1)" by fastforce
  have g: "R s s1" by (rule R_start_tasks [OF st])
  have IH: "R s t" if "parallel_loop env c b' limit n pending' running' outs' s1 = (r, t)" for b' pending' running' outs'
    using R_trans [OF g Suc.IH [OF that]] .
  show ?case
    using Suc.prems st g by (auto split: sum.splits option.splits if_splits) (erule IH)+
qed (simp add: R_refl)

lemma R_run_parallel: "run_parallel env c tasks conc b s = (r, t) \<Longrightarrow> R s t"
  by (auto simp: run_parallel_def split: sum.splits option.splits prod.splits dest: R_parallel_loop intro: R_refl)

lemma R_replay: "replay h env c s = (r, t) \<Longrightarrow> R s t"
proof (induction h arbitrary: s)
  case (Step st inp k)
  then show ?case by (auto split: prod.splits dest!: R_step Step.IH [OF rangeI] intro: R_trans)
next
  case (Sleep d k)
  then show ?case by (auto split: prod.splits dest!: R_sleep Sleep.IH [OF rangeI] intro: R_trans)
next
  case (WaitForSignal n k)
  then show ?case by (auto split: prod.splits dest!: R_signal WaitForSignal.IH [OF rangeI] intro: R_trans)
next
  case (StartChildRun wt inp opt k)
  then show ?case by (auto split: prod.splits dest!: R_child StartChildRun.IH [OF rangeI] intro: R_trans)
next
  case (All ts conc b k)
  then show ?case
    by (auto split: prod.splits option.splits dest!: R_run_parallel All.IH [OF rangeI] intro: R_trans)
next
  case (Patched pid k)
  then show ?case by (auto split: prod.splits dest!: R_patch Patched.IH [OF rangeI] intro: R_trans)
next
  case (Now k)
  then show ?case by (auto split: prod.splits dest!: R_now Now.IH [OF rangeI] intro: R_trans)
next
  case (Random k)
  then have "R (s\<lparr>w_draws := w_draws s + 1\<rparr>) t" by auto
  then show ?case using R_trans [OF R_draws] by blast
next
  case (Uuid k)
  then have "R (s\<lparr>w_draws := w_draws s + 1\<rparr>) t" by auto
  then show ?case using R_trans [OF R_draws] by blast
next
  case (SetQueryHandler n f k)
  then have "R (s\<lparr>w_queries := filter (\<lambda>(m, _). m \<noteq> n) (w_queries s) @ [(n, f)]\<rparr>) t" by auto
  then show ?case using R_trans [OF R_queries] by blast
next
  case (OnCancel undo k)
  then have "R (s\<lparr>w_compensations := w_compensations s @ [undo]\<rparr>) t" by auto
  then show ?case using R_trans [OF R_compensations] by blast
next
  case (Continue inp k)
  then show ?case by (auto split: if_splits intro: R_continuation)
qed (auto split: option.splits intro: R_refl)

lemma R_run_compensations:
  assumes "\<And>s i e. R s (push_command (RecordCompensationFailure i e) s)"
  shows "run_compensations enc env n failed s = (f, b, t) \<Longrightarrow> R s t"
proof (induction n arbitrary: failed s)
  case (Suc n)
  show ?case
  proof (cases "nth_opt (w_compensations s) n")
    case (Some undo)
    obtain st s1 where run: "replay undo env False s = (st, s1)" by fastforce
    have g: "R s s1" by (rule R_replay [OF run])
    have IH: "R s t" if "run_compensations enc env n fl s1 = (f, b, t)" for fl
      using R_trans [OF g Suc.IH [OF that]] .
    have IH': "R s t" if "run_compensations enc env n fl (push_command (RecordCompensationFailure n e) s1) = (f, b, t)" for fl e
      using R_trans [OF g R_trans [OF assms Suc.IH [OF that]]] .
    show ?thesis using Suc.prems Some run g by (auto split: stop.splits if_splits intro: IH IH')
  qed (use Suc in auto)
qed (simp add: R_refl)

end

section \<open>The commands of a decision\<close>

text \<open>A replay never issues a command that closes the run, nor does a compensation.\<close>

definition closes_nothing :: "command list \<Rightarrow> bool" where
  "closes_nothing cs \<longleftrightarrow> list_all (\<lambda>c. \<not> is_closing_event (command_to_event c)) cs"

lemma issue_command_commands: "issue_command shape c s = (r, t) \<Longrightarrow> w_commands t = w_commands s"
  by (auto simp: issue_command_def split: prod.splits)

interpretation undecided: call_relation "\<lambda>s t. closes_nothing (w_commands s) \<longrightarrow> closes_nothing (w_commands t)"
proof
  show "closes_nothing (w_commands s) \<longrightarrow> closes_nothing (w_commands t)"
    if "ctx_step env c st inp s = (r, t)" for env c st inp s r t
    using that by (auto simp: ctx_step_def Let_def push_command_def closes_nothing_def
        dest!: issue_command_commands split: prod.splits sum.splits option.splits if_splits)
  show "closes_nothing (w_commands s) \<longrightarrow> closes_nothing (w_commands t)"
    if "ctx_sleep env c d s = (r, t)" for env c d s r t
    using that by (auto simp: ctx_sleep_def Let_def push_command_def closes_nothing_def
        dest!: issue_command_commands split: prod.splits sum.splits option.splits if_splits)
  show "closes_nothing (w_commands s) \<longrightarrow> closes_nothing (w_commands t)"
    if "ctx_wait_for_signal env c n s = (r, t)" for env c n s r t
    using that by (auto simp: ctx_wait_for_signal_def Let_def)
  show "closes_nothing (w_commands s) \<longrightarrow> closes_nothing (w_commands t)"
    if "ctx_start_child env c wt inp opt s = (r, t)" for env c wt inp opt s r t
    using that by (auto simp: ctx_start_child_def Let_def push_command_def closes_nothing_def
        dest!: issue_command_commands split: prod.splits sum.splits option.splits if_splits)
  show "closes_nothing (w_commands s) \<longrightarrow> closes_nothing (w_commands t)"
    if "ctx_now env s = (r, t)" for env s r t
    using that by (auto simp: ctx_now_def Let_def push_command_def closes_nothing_def split: option.splits)
  show "closes_nothing (w_commands s) \<longrightarrow> closes_nothing (w_commands t)"
    if "decide_patch env pid s = (r, t)" for env pid s r t
    using that by (auto simp: decide_patch_def Let_def push_command_def closes_nothing_def
        dest!: issue_command_commands split: prod.splits sum.splits option.splits if_splits)
qed auto

lemma replay_history_opens: "closes_nothing (o_commands (replay_history js enc env h))"
proof -
  obtain st s1 where run: "replay h env (cancel_requested env) (initial_state env) = (st, s1)" by fastforce
  have one: "closes_nothing (w_commands s1)"
    using undecided.R_replay [OF run] by (simp add: initial_state_def closes_nothing_def)
  show ?thesis
  proof (cases "find_cancel_event (e_history env) \<noteq> None \<and> (st \<noteq> Suspended_at \<or> w_in_flight s1 = [])")
    case True
    obtain f b s2 where comp: "run_compensations enc env (length (w_compensations s1)) None s1 = (f, b, s2)"
      by (cases "run_compensations enc env (length (w_compensations s1)) None s1") auto
    have "closes_nothing (w_commands s2)"
      using undecided.R_run_compensations [OF _ comp] one by (simp add: push_command_def closes_nothing_def)
    then show ?thesis using run True comp by (simp add: replay_history_def Let_def)
  qed (use run one in \<open>auto simp: replay_history_def Let_def\<close>)
qed

lemma decide_closes_last:
  assumes "decide js enc env h = Inr dec"
  shows "closes_nothing (butlast (de_commands dec))"
  using assms replay_history_opens [of js enc env h]
  by (auto simp: decide_def Let_def closes_nothing_def list_all_iff butlast_append dest: in_set_butlastD
      split: if_splits option.splits cancellation.splits settled.splits)

end
