(* ===== verification/Signals.thy ===== *)
theory Signals
  imports Control Decision
begin

text \<open>
  Signals and queries (\<open>packages/core/src/signals/signal-service.ts\<close>, \<open>workflow/query.ts\<close>) and the
  marker a suspended decision leaves for the janitor (\<open>recovery/run-waiting.ts\<close>).
\<close>

section \<open>Signals\<close>

datatype interaction_error =
    NoSuchRun uuid
  | RunNotOpenError uuid run_state
  | RunHistoryCompactedError uuid
  | NoWorkflowRegistered string
  | UnknownQueryError string
  | QueryRefused thrown
  | InteractionFailed engine_error

definition signal_run :: "time \<Rightarrow> uuid \<Rightarrow> string \<Rightarrow> jsv \<Rightarrow> (interaction_error, db, nat) tx" where
  "signal_run now rid name payload = (\<lambda>d.
     case find_run d rid of
       None \<Rightarrow> Inl (NoSuchRun rid)
     | Some r \<Rightarrow>
         if r_status r \<noteq> RUNNING then Inl (RunNotOpenError rid (r_status r))
         else case append_at_current now rid [SignalReceived name (if payload = VUndef then VNull else payload)] d of
           Inl e \<Rightarrow> Inl (InteractionFailed e)
         | Inr (new, d1) \<Rightarrow>
             Inr (case new of [] \<Rightarrow> read_current_sequence d rid + 1 | se # _ \<Rightarrow> sequence_number se,
                  insert_workflow_task r (VObj [(''reason'', VStr ''signal''), (''signalName'', VStr name)]) now now d1))"

section \<open>Queries\<close>

text \<open>\<open>runQuery\<close>: the commands of the replay are thrown away.\<close>

definition run_query ::
    "(jsv \<Rightarrow> string) \<Rightarrow> (jsv \<Rightarrow> string) \<Rightarrow> replay_env \<Rightarrow> handler \<Rightarrow> string \<Rightarrow> jsv \<Rightarrow> interaction_error + jsv" where
  "run_query js_string enc env h name arg =
     (let out = replay_history js_string enc env h in
      if o_unconsulted out \<noteq> [] then Inl (QueryRefused version_mismatch_error)
      else case map_of (o_queries out) name of
        None \<Rightarrow> Inl (UnknownQueryError name)
      | Some f \<Rightarrow> Inr (f arg))"

text \<open>
  \<open>workflows\<close> is the registry: a workflow given its input. \<open>env\<close> is what the replay reads
  besides the history.
\<close>

definition query_run ::
    "(jsv \<Rightarrow> string) \<Rightarrow> (jsv \<Rightarrow> string) \<Rightarrow> (string \<Rightarrow> (jsv \<Rightarrow> handler) option) \<Rightarrow> replay_env \<Rightarrow>
     uuid \<Rightarrow> string \<Rightarrow> jsv \<Rightarrow> db \<Rightarrow> interaction_error + jsv" where
  "query_run js_string enc workflows env rid name arg d =
     (let events = store_read d rid 0 None;
          missing = (if find_run d rid = None then NoSuchRun rid else RunHistoryCompactedError rid) in
      case events of
        [] \<Rightarrow> Inl missing
      | se # _ \<Rightarrow>
          (case stored se of
             RunStarted wt inp \<Rightarrow>
               (case workflows wt of
                  None \<Rightarrow> Inl (NoWorkflowRegistered wt)
                | Some h \<Rightarrow> run_query js_string enc (env\<lparr>e_history := map stored events\<rparr>) (h inp) name arg)
           | _ \<Rightarrow> Inl missing))"

section \<open>The waiting marker\<close>

definition mark_run_waiting :: "uuid \<Rightarrow> waiting_on option \<Rightarrow> bool \<Rightarrow> db \<Rightarrow> db" where
  "mark_run_waiting rid waiting progressed =
     update_run rid (\<lambda>r. r\<lparr>r_waiting := waiting, r_recovery_count := if progressed then 0 else r_recovery_count r\<rparr>)"

section \<open>Facts\<close>

lemma signal_run_ok:
  assumes ok: "engine_ok d" and r: "find_run d rid = Some r" "r_status r = RUNNING"
  shows "\<exists>se d' t. signal_run now rid name payload d = Inr (sequence_number se, d') \<and> engine_ok d' \<and> extends d d' \<and>
     run_events d' rid = run_events d rid @ [se] \<and>
     stored se = SignalReceived name (if payload = VUndef then VNull else payload) \<and>
     find_run d' rid = Some r \<and> t \<in> waiting_tasks d' rid \<and> t_type t = WORKFLOW_TASK \<and> t_visible_at t = now"
proof -
  let ?e = "SignalReceived name (if payload = VUndef then VNull else payload)"
  let ?p = "VObj [(''reason'', VStr ''signal''), (''signalName'', VStr name)]"
  have rok: "runs_ok d" using ok by (simp add: engine_ok_def)
  have id: "r_id r = rid" using find_run_Some [OF r(1)] by simp
  from append_and_wake_ok [OF rok r, of ?e now ?p now now] obtain new d1 where
    a: "append_at_current now rid [?e] d = Inr (new, d1)" "d_runs d1 = d_runs d"
      "runs_ok (insert_workflow_task r ?p now now d1)" "extends d (insert_workflow_task r ?p now now d1)"
      "run_events (insert_workflow_task r ?p now now d1) rid = run_events d rid @ new" "map stored new = [?e]"
    by (auto simp del: insert_workflow_task_frame)
  obtain se where se: "new = [se]" "stored se = ?e" using a(6) by (auto simp: map_eq_Cons_conv)
  have sig: "signal_run now rid name payload d = Inr (sequence_number se, insert_workflow_task r ?p now now d1)"
    using r a(1) se(1) by (simp add: signal_run_def)
  let ?t = "new_task (d_next d1) (r_namespace r) rid (r_queue r) WORKFLOW_TASK ?p now now"
  have "?t \<in> waiting_tasks (insert_workflow_task r ?p now now d1) rid"
    by (simp add: waiting_tasks_def insert_workflow_task_def id) (simp add: new_task_def)
  moreover have "t_type ?t = WORKFLOW_TASK" "t_visible_at ?t = now" by (simp_all add: new_task_def)
  moreover have "find_run (insert_workflow_task r ?p now now d1) rid = Some r"
    using a(2) r(1) by (simp add: insert_workflow_task_def) (simp add: find_run_def)
  ultimately show ?thesis
    using sig engine_okI [OF a(3,4) ok] a(4,5) se by blast
qed

text \<open>The marker is no column the fold or a link reads.\<close>

lemma mark_run_waiting_ok:
  "engine_ok d \<Longrightarrow> engine_ok (mark_run_waiting rid w p d) \<and> extends d (mark_run_waiting rid w p d)"
  unfolding mark_run_waiting_def
  by (rule update_run_keeps) (simp_all add: keeps_row_def same_links_def projection_from_row_def)

text \<open>A query answers from the replay alone; what it reads is the history.\<close>

lemma query_run_started:
  assumes "log_ok d" and "snapshot_seq d rid = 0" and "run_events d rid = se # ses" and "stored se = RunStarted wt inp"
    and "workflows wt = Some h"
  shows "query_run js enc workflows env rid name arg d =
     run_query js enc (env\<lparr>e_history := map stored (run_events d rid)\<rparr>) (h inp) name arg"
  using assms read_all [OF assms(1), of rid]
  by (cases se) (simp add: query_run_def store_read_def)

end
