(* ===== verification/Retry.thy ===== *)
theory Retry
  imports Control
begin

text \<open>
  Running step tasks: the retry policy (\<open>packages/core/src/retry/retry-policy.ts\<close>), the log of
  failed attempts (\<open>retry/attempt-log.ts\<close>), the dead letters (\<open>retry/dead-letters.ts\<close>), the
  timeouts (\<open>retry/timeout.ts\<close>) and one delivery of a step task
  (\<open>retry/step-task-processor.ts\<close>).

  The numbers of a policy are finite and kept exact, where the code computes with doubles.
\<close>

section \<open>The retry policy\<close>

record retry_policy =
  rp_initial :: rat
  rp_coefficient :: rat
  rp_max_interval :: rat
  rp_max_attempts :: rat
  rp_jitter :: rat
  rp_non_retryable :: "string list"

record partial_policy =
  pp_initial :: "rat option"
  pp_coefficient :: "rat option"
  pp_max_interval :: "rat option"
  pp_max_attempts :: "rat option"
  pp_jitter :: "rat option"
  pp_non_retryable :: "string list option"

definition DEFAULT_RETRY_POLICY :: retry_policy where
  "DEFAULT_RETRY_POLICY =
     \<lparr>rp_initial = 1000, rp_coefficient = 2, rp_max_interval = 60000, rp_max_attempts = 3,
      rp_jitter = 1 / 10, rp_non_retryable = []\<rparr>"

datatype give_up_reason = NON_RETRYABLE | MAX_ATTEMPTS_EXHAUSTED

datatype retry_decision = RetryAfter int | GiveUp give_up_reason

definition fill_policy :: "partial_policy \<Rightarrow> retry_policy" where
  "fill_policy p =
     \<lparr>rp_initial = optional (pp_initial p) (rp_initial DEFAULT_RETRY_POLICY),
      rp_coefficient = optional (pp_coefficient p) (rp_coefficient DEFAULT_RETRY_POLICY),
      rp_max_interval = optional (pp_max_interval p) (rp_max_interval DEFAULT_RETRY_POLICY),
      rp_max_attempts = optional (pp_max_attempts p) (rp_max_attempts DEFAULT_RETRY_POLICY),
      rp_jitter = optional (pp_jitter p) (rp_jitter DEFAULT_RETRY_POLICY),
      rp_non_retryable = optional (pp_non_retryable p) (rp_non_retryable DEFAULT_RETRY_POLICY)\<rparr>"

definition resolve_retry_policy :: "partial_policy \<Rightarrow> engine_error + retry_policy" where
  "resolve_retry_policy partial =
     (let p = fill_policy partial in
      if \<not> 0 < rp_initial p then Inl (RangeError ''initialIntervalMs'')
      else if \<not> 1 \<le> rp_coefficient p then Inl (RangeError ''backoffCoefficient'')
      else if \<not> rp_initial p \<le> rp_max_interval p then Inl (RangeError ''maxIntervalMs'')
      else if of_int \<lfloor>rp_max_attempts p\<rfloor> \<noteq> rp_max_attempts p \<or> rp_max_attempts p \<le> 0
      then Inl (RangeError ''maxAttempts'')
      else if \<not> (0 \<le> rp_jitter p \<and> rp_jitter p \<le> 1) then Inl (RangeError ''jitter'')
      else Inr p)"

text \<open>\<open>Math.round\<close>: to the nearest whole number, halves upwards.\<close>

definition js_round :: "rat \<Rightarrow> int" where
  "js_round x = \<lfloor>x + 1 / 2\<rfloor>"

text \<open>\<open>draw\<close> is the number \<open>random.random()\<close> gives, at least 0 and below 1.\<close>

definition capped_interval :: "retry_policy \<Rightarrow> int \<Rightarrow> rat" where
  "capped_interval p failed = min (rp_initial p * rp_coefficient p powi (failed - 1)) (rp_max_interval p)"

definition compute_backoff_ms :: "retry_policy \<Rightarrow> int \<Rightarrow> rat \<Rightarrow> int" where
  "compute_backoff_ms p failed draw =
     (if rp_jitter p = 0 then js_round (capped_interval p failed)
      else js_round (min (capped_interval p failed * (1 + rp_jitter p * (2 * draw - 1))) (rp_max_interval p)))"

definition is_non_retryable :: "serialized_error \<Rightarrow> retry_policy \<Rightarrow> bool" where
  "is_non_retryable e p \<longleftrightarrow> se_name e = ''NonRetryableError'' \<or> se_name e \<in> set (rp_non_retryable p)"

definition decide_retry :: "retry_policy \<Rightarrow> int \<Rightarrow> serialized_error \<Rightarrow> rat \<Rightarrow> retry_decision" where
  "decide_retry p failed e draw =
     (if is_non_retryable e p then GiveUp NON_RETRYABLE
      else if rp_max_attempts p \<le> of_int failed then GiveUp MAX_ATTEMPTS_EXHAUSTED
      else RetryAfter (compute_backoff_ms p failed draw))"

section \<open>Failed attempts\<close>

definition attempt_failed_event :: "string \<Rightarrow> nat \<Rightarrow> serialized_error \<Rightarrow> time option \<Rightarrow> event" where
  "attempt_failed_event sid attempt e retry_at =
     StepAttemptFailed sid attempt (RecordedError (se_name e) (se_message e) VUndef None) retry_at"

definition record_failure ::
    "time \<Rightarrow> uuid \<Rightarrow> string \<Rightarrow> nat \<Rightarrow> serialized_error \<Rightarrow> time option \<Rightarrow> (engine_error, db, bool) tx" where
  "record_failure now rid sid attempt e retry_at = (\<lambda>d.
     case parse_event (attempt_failed_event sid attempt e retry_at) of
       Inl x \<Rightarrow> Inl x
     | Inr ev \<Rightarrow>
         if list_ex (\<lambda>a. at_run a = rid \<and> at_step a = sid \<and> at_attempt a = attempt) (d_attempts d)
         then Inr (False, d)
         else if find_run d rid = None then Inl (ForeignKeyViolation ''step_attempts_run_id_fkey'')
         else andThen (modify (\<lambda>d. d\<lparr>d_attempts := d_attempts d @
                  [\<lparr>at_run = rid, at_step = sid, at_attempt = attempt, at_error = e, at_retry_at = retry_at\<rparr>]\<rparr>)) (\<lambda>_.
              andThen (append_at_current now rid [ev]) (\<lambda>_. ret True)) d)"

definition next_attempt :: "db \<Rightarrow> uuid \<Rightarrow> string \<Rightarrow> nat" where
  "next_attempt d rid sid =
     foldr max (map at_attempt (filter (\<lambda>a. at_run a = rid \<and> at_step a = sid) (d_attempts d))) 0 + 1"

section \<open>Dead letters\<close>

record dead_letter_input =
  di_namespace :: uuid
  di_run :: uuid
  di_step :: string
  di_queue :: string
  di_payload :: jsv
  di_attempts :: nat
  di_error :: serialized_error
  di_reason :: string

definition is_open_letter :: "uuid \<Rightarrow> string \<Rightarrow> dead_letter_row \<Rightarrow> bool" where
  "is_open_letter rid sid l \<longleftrightarrow> dl_run l = rid \<and> dl_step l = sid \<and> dl_requeued_at l = None"

definition insert_dead_letter :: "time \<Rightarrow> dead_letter_input \<Rightarrow> (engine_error, db, uuid) tx" where
  "insert_dead_letter now i = (\<lambda>d.
     case find (is_open_letter (di_run i) (di_step i)) (d_dead_letters d) of
       Some l \<Rightarrow> Inr (dl_id l, d)
     | None \<Rightarrow>
         if find_run d (di_run i) = None then Inl (ForeignKeyViolation ''dead_letters_run_id_fkey'')
         else Inr (d_next d, d\<lparr>d_next := Suc (d_next d), d_dead_letters := d_dead_letters d @
           [\<lparr>dl_id = d_next d, dl_namespace = di_namespace i, dl_run = di_run i, dl_step = di_step i,
             dl_queue = di_queue i, dl_payload = nullish (di_payload i) (VObj []), dl_attempts = di_attempts i,
             dl_error = di_error i, dl_reason = di_reason i, dl_created_at = now, dl_requeued_at = None\<rparr>]\<rparr>))"

text \<open>\<open>addAndAck\<close>: a lost lease rolls back what \<open>body\<close> (the code's \<open>within\<close>) wrote.\<close>

definition add_and_ack ::
    "time \<Rightarrow> time \<Rightarrow> dead_letter_input \<Rightarrow> uuid \<Rightarrow> uuid \<Rightarrow> (engine_error, db, unit) tx
       \<Rightarrow> (engine_error, db, uuid option) tx" where
  "add_and_ack now clock i tid token body = (\<lambda>d.
     case body d of
       Inl e \<Rightarrow> Inl e
     | Inr (_, d1) \<Rightarrow>
         (case ack clock tid token d1 of
            (False, _) \<Rightarrow> Inr (None, d)
          | (True, d2) \<Rightarrow>
              (case insert_dead_letter now i d2 of
                 Inl e \<Rightarrow> Inl e
               | Inr (lid, d3) \<Rightarrow> Inr (Some lid, d3))))"

definition get_dead_letter :: "db \<Rightarrow> uuid \<Rightarrow> dead_letter_row option" where
  "get_dead_letter d lid = find (\<lambda>l. dl_id l = lid) (d_dead_letters d)"

record list_letters_options =
  lo_run :: "uuid option"
  lo_include_requeued :: bool
  lo_namespace :: "uuid option"
  lo_after :: "uuid option"
  lo_limit :: "nat option"

text \<open>A comparison with the position of an entry that does not exist is null: no row passes.\<close>

definition list_dead_letters :: "list_letters_options \<Rightarrow> db \<Rightarrow> dead_letter_row list" where
  "list_dead_letters opt d =
     (let passes = (\<lambda>l.
            (case lo_run opt of None \<Rightarrow> True | Some r \<Rightarrow> dl_run l = r) \<and>
            (lo_include_requeued opt \<or> dl_requeued_at l = None) \<and>
            (case lo_namespace opt of None \<Rightarrow> True | Some n \<Rightarrow> dl_namespace l = n) \<and>
            (case lo_after opt of None \<Rightarrow> True
             | Some a \<Rightarrow> (case get_dead_letter d a of None \<Rightarrow> False
                         | Some b \<Rightarrow> (dl_created_at b, dl_id b) < (dl_created_at l, dl_id l))));
          rows = sort_key (\<lambda>l. (dl_created_at l, dl_id l)) (filter passes (d_dead_letters d))
      in case lo_limit opt of None \<Rightarrow> rows | Some n \<Rightarrow> take n rows)"

definition with_attempt_offset :: "jsv \<Rightarrow> nat \<Rightarrow> jsv" where
  "with_attempt_offset payload n =
     (let base = (case payload of VObj kvs \<Rightarrow> kvs
                  | VArr xs \<Rightarrow> zip (map show_nat [0..<length xs]) xs
                  | _ \<Rightarrow> [])
      in VObj (filter (\<lambda>(k, v). k \<noteq> ''attemptOffset'') base @ [(''attemptOffset'', VNum (Fin (of_nat n)))]))"

definition requeue :: "time \<Rightarrow> time \<Rightarrow> uuid \<Rightarrow> db \<Rightarrow> uuid option \<times> db" where
  "requeue now clock lid d =
     (case find (\<lambda>l. dl_id l = lid \<and> dl_requeued_at l = None) (d_dead_letters d) of
        None \<Rightarrow> (None, d)
      | Some l \<Rightarrow>
          (Some (d_next d),
           (insert_task (dl_namespace l) (dl_run l) (dl_queue l) STEP_TASK
              (with_attempt_offset (dl_payload l) (dl_attempts l)) clock now d)
             \<lparr>d_dead_letters := map (\<lambda>l. if dl_id l = lid then l\<lparr>dl_requeued_at := Some clock\<rparr> else l) (d_dead_letters d)\<rparr>))"

section \<open>Timeouts\<close>

text \<open>
  A timeout is a whole number of milliseconds in the message. A running operation, by when and how it settles; \<open>None\<close> is one that never does. The deadline
  wins over a settlement at its own instant.
\<close>

type_synonym settlement = "(rat \<times> (thrown + jsv)) option"

definition step_timeout_error :: "rat \<Rightarrow> thrown" where
  "step_timeout_error ms =
     ThrownError PlainErrorClass ''StepTimeoutError'' (''step timed out after '' @ show_nat (nat \<lfloor>ms\<rfloor>) @ '' ms'')
       None [(''timeoutMs'', VNum (Fin ms))] VUndef None"

definition earlier :: "settlement \<Rightarrow> settlement \<Rightarrow> settlement" where
  "earlier a b =
     (case a of None \<Rightarrow> b
      | Some (t, x) \<Rightarrow> (case b of None \<Rightarrow> a | Some (u, y) \<Rightarrow> if t \<le> u then a else b))"

definition run_with_timeout :: "settlement \<Rightarrow> rat option \<Rightarrow> settlement" where
  "run_with_timeout operation timeout =
     (case timeout of None \<Rightarrow> operation
      | Some ms \<Rightarrow> earlier (Some (ms, Inl (step_timeout_error ms))) operation)"

definition workflow_deadline :: "time \<Rightarrow> int \<Rightarrow> time" where
  "workflow_deadline started_at timeout = started_at + timeout"

datatype workflow_timeout_outcome = TimedOut | WithinDeadline | AlreadyClosed

definition enforce_workflow_timeout ::
    "time \<Rightarrow> time \<Rightarrow> uuid \<Rightarrow> int \<Rightarrow> (engine_error, db, workflow_timeout_outcome) tx" where
  "enforce_workflow_timeout now clock rid timeout = (\<lambda>d.
     case store_read d rid 0 None of
       [] \<Rightarrow> Inr (WithinDeadline, d)
     | first # rest \<Rightarrow>
         (case fold_run_events (first # rest) create_initial_projection of
            Inl e \<Rightarrow> Inl e
          | Inr p \<Rightarrow>
              if is_terminal_state (p_state p) then Inr (AlreadyClosed, d)
              else if clock < workflow_deadline (created_at first) timeout then Inr (WithinDeadline, d)
              else (case store_append now rid (p_last_seq p) [RunTimedOut None] d of
                      Inl e \<Rightarrow> Inl e
                    | Inr (_, d') \<Rightarrow> Inr (TimedOut, d'))))"

section \<open>The wait between attempts\<close>

lemma js_round_mono: "x \<le> y \<Longrightarrow> js_round x \<le> js_round y"
  by (simp add: js_round_def floor_mono)

lemma js_round_int [simp]: "js_round (of_int n) = n"
  by (simp add: js_round_def floor_unique)

lemma resolved_policy:
  assumes "resolve_retry_policy partial = Inr p"
  shows "0 < rp_initial p" "1 \<le> rp_coefficient p" "rp_initial p \<le> rp_max_interval p"
    "0 < rp_max_attempts p" "0 \<le> rp_jitter p" "rp_jitter p \<le> 1"
  using assms by (auto simp: resolve_retry_policy_def Let_def split: if_splits)

lemma capped_interval_pos:
  assumes "resolve_retry_policy partial = Inr p"
  shows "0 < capped_interval p failed"
  using resolved_policy [OF assms] by (auto simp: capped_interval_def power_int_def)

lemma backoff_bounds:
  assumes p: "resolve_retry_policy partial = Inr p" and draw: "0 \<le> draw" "draw \<le> 1"
  shows "0 \<le> compute_backoff_ms p failed draw" and "compute_backoff_ms p failed draw \<le> js_round (rp_max_interval p)"
proof -
  note r = resolved_policy [OF p] and pos = capped_interval_pos [OF p, of failed]
  have "- 1 \<le> rp_jitter p * (2 * draw - 1)"
  proof -
    have "\<bar>2 * draw - 1\<bar> \<le> 1" using draw by auto
    then have "\<bar>rp_jitter p * (2 * draw - 1)\<bar> \<le> 1 * 1"
      unfolding abs_mult using r(5,6) by (intro mult_mono) auto
    then show ?thesis by simp
  qed
  then have "0 \<le> 1 + rp_jitter p * (2 * draw - 1)" by simp
  with pos have spread: "0 \<le> capped_interval p failed * (1 + rp_jitter p * (2 * draw - 1))" by simp
  have zero: "js_round 0 = 0" using js_round_int [of 0] by simp
  have "0 \<le> rp_max_interval p" using r by simp
  with spread pos zero js_round_mono [of 0] show "0 \<le> compute_backoff_ms p failed draw"
    by (simp add: compute_backoff_ms_def)
  show "compute_backoff_ms p failed draw \<le> js_round (rp_max_interval p)"
    by (auto simp: compute_backoff_ms_def capped_interval_def intro: js_round_mono)
qed

lemma backoff_grows:
  assumes p: "resolve_retry_policy partial = Inr p" and "rp_jitter p = 0" and "m \<le> n"
  shows "compute_backoff_ms p m draw \<le> compute_backoff_ms p n draw'"
proof -
  have "rp_coefficient p powi (m - 1) \<le> rp_coefficient p powi (n - 1)"
    using resolved_policy(2) [OF p] assms(3) by (intro power_int_increasing) auto
  then have "capped_interval p m \<le> capped_interval p n"
    unfolding capped_interval_def using resolved_policy(1) [OF p]
    by (intro min.mono mult_left_mono) auto
  then show ?thesis using assms(2) by (simp add: compute_backoff_ms_def js_round_mono)
qed

lemma decide_retry_RetryAfter:
  "decide_retry p failed e draw = RetryAfter ms \<longleftrightarrow>
     \<not> is_non_retryable e p \<and> of_int failed < rp_max_attempts p \<and> ms = compute_backoff_ms p failed draw"
  by (auto simp: decide_retry_def)

section \<open>Failed attempts of an open run\<close>

lemma find_run_attempts [simp]: "find_run (d\<lparr>d_attempts := a\<rparr>) x = find_run d x"
  "run_events (d\<lparr>d_attempts := a\<rparr>) x = run_events d x"
  by (simp_all add: find_run_def run_events_def)

lemma extends_attempts: "extends d (d\<lparr>d_attempts := a\<rparr>)"
  by (rule extends_same_runs) (simp_all add: keeps_def task_keys_def timer_keys_def timeouts_ok_def waiting_tasks_def)

lemma record_failure_ok:
  assumes ok: "engine_ok d" and r: "find_run d rid = Some r" "r_status r = RUNNING"
    and sid: "sid \<noteq> []" and attempt: "0 < attempt"
    and new: "\<not> list_ex (\<lambda>a. at_run a = rid \<and> at_step a = sid \<and> at_attempt a = attempt) (d_attempts d)"
  shows "\<exists>d' se. record_failure now rid sid attempt e retry_at d = Inr (True, d') \<and> engine_ok d' \<and> extends d d' \<and>
     run_events d' rid = run_events d rid @ [se] \<and> stored se = attempt_failed_event sid attempt e retry_at \<and>
     attempt < next_attempt d' rid sid"
proof -
  let ?row = "\<lparr>at_run = rid, at_step = sid, at_attempt = attempt, at_error = e, at_retry_at = retry_at\<rparr>"
  let ?d = "d\<lparr>d_attempts := d_attempts d @ [?row]\<rparr>"
  let ?e = "attempt_failed_event sid attempt e retry_at"
  have rok: "runs_ok d" using ok by (simp add: engine_ok_def)
  have rok1: "runs_ok ?d" by (rule runs_ok_same_runs [OF rok]) simp_all
  from append_at_current_ok [OF rok1, of rid now "[?e]"] r(1) obtain new1 d' where
    ap: "append_at_current now rid [?e] ?d = Inr (new1, d')"
      "append_events_on_client now rid (read_current_sequence ?d rid) [?e] ?d = Inr (new1, d')" by auto
  have closing: "\<not> is_closing_event ?e" by (simp add: attempt_failed_event_def)
  have ext: "extends d d'"
    using extends_trans [OF extends_attempts extends_append [OF ap(2)]] r by simp
  have "runs_ok d'" by (rule runs_ok_append [OF rok1 ap(2)]) (use closing in auto)
  then have ok': "engine_ok d'" by (rule engine_okI [OF _ ext ok])
  have parse: "parse_event ?e = Inr ?e" using sid attempt by (simp add: parse_event_def attempt_failed_event_def)
  have rec: "record_failure now rid sid attempt e retry_at d = Inr (True, d')"
    using parse new r(1) ap(1) by (simp add: record_failure_def)
  have at: "d_attempts d' = d_attempts d @ [?row]" using append_events_frame(7) [OF ap(2)] by simp
  have mx: "n \<in> set ns \<Longrightarrow> n \<le> foldr max ns (0::nat)" for n ns by (induction ns) auto
  have "attempt \<in> set (map at_attempt (filter (\<lambda>a. at_run a = rid \<and> at_step a = sid) (d_attempts d')))"
    using at by (auto simp: image_iff)
  then have "attempt < next_attempt d' rid sid" using mx by (fastforce simp: next_attempt_def)
  then show ?thesis
    using rec ok' ext append_events_Inr(2) [OF ap(2)] append_events_Inr(4) [OF ap(2), of rid] by auto
qed

section \<open>One open letter per step\<close>

definition open_letters :: "db \<Rightarrow> (uuid \<times> string) list" where
  "open_letters d = map (\<lambda>l. (dl_run l, dl_step l)) (filter (\<lambda>l. dl_requeued_at l = None) (d_dead_letters d))"

lemma find_open_letter_None:
  "find (is_open_letter rid sid) (d_dead_letters d) = None \<longleftrightarrow> (rid, sid) \<notin> set (open_letters d)"
  by (auto simp: find_None_iff is_open_letter_def open_letters_def image_iff)

lemma insert_dead_letter_Inr:
  assumes "insert_dead_letter now i d = Inr (lid, d')"
  shows "\<exists>l \<in> set (d_dead_letters d'). dl_id l = lid \<and> is_open_letter (di_run i) (di_step i) l"
    and "distinct (open_letters d) \<Longrightarrow> distinct (open_letters d')"
    and "d_step_results d' = d_step_results d" and "d_tasks d' = d_tasks d" and "d_runs d' = d_runs d"
proof -
  show "\<exists>l \<in> set (d_dead_letters d'). dl_id l = lid \<and> is_open_letter (di_run i) (di_step i) l"
    using assms by (auto simp: insert_dead_letter_def find_Some_iff is_open_letter_def split: option.splits if_splits)
  show "distinct (open_letters d')" if "distinct (open_letters d)"
    using assms that find_open_letter_None [of "di_run i" "di_step i" d]
    by (auto simp: insert_dead_letter_def open_letters_def split: option.splits if_splits)
  show "d_step_results d' = d_step_results d" "d_tasks d' = d_tasks d" "d_runs d' = d_runs d"
    using assms by (auto simp: insert_dead_letter_def split: option.splits if_splits)
qed

lemma requeue_open_letters:
  "distinct (open_letters d) \<Longrightarrow> distinct (open_letters (snd (requeue now clock lid d)))"
proof -
  assume d: "distinct (open_letters d)"
  have "filter (\<lambda>l. dl_requeued_at l = None) (map (\<lambda>l. if dl_id l = lid then l\<lparr>dl_requeued_at := Some clock\<rparr> else l) ls) =
      filter (\<lambda>l. dl_id l \<noteq> lid) (filter (\<lambda>l. dl_requeued_at l = None) ls)" for ls :: "dead_letter_row list"
    by (induction ls) auto
  note requeued = this [of "d_dead_letters d"]
  show ?thesis
  proof (cases "find (\<lambda>l. dl_id l = lid \<and> dl_requeued_at l = None) (d_dead_letters d)")
    case None
    then show ?thesis using d by (simp add: requeue_def)
  next
    case (Some l)
    then have "d_dead_letters (snd (requeue now clock lid d)) =
        map (\<lambda>l. if dl_id l = lid then l\<lparr>dl_requeued_at := Some clock\<rparr> else l) (d_dead_letters d)"
      by (simp add: requeue_def)
    then have "open_letters (snd (requeue now clock lid d)) = map (\<lambda>l. (dl_run l, dl_step l))
        (filter (\<lambda>l. dl_id l \<noteq> lid) (filter (\<lambda>l. dl_requeued_at l = None) (d_dead_letters d)))"
      by (simp only: open_letters_def requeued)
    then show ?thesis using distinct_map_filter [OF d [unfolded open_letters_def]] by simp
  qed
qed

text \<open>A letter is requeued once; its task goes to the queue the step came from, with the attempts used so far.\<close>

lemma requeue_once:
  assumes "requeue now clock lid d = (x, d')"
  shows "requeue now' clock' lid d' = (None, d')"
proof (cases "find (\<lambda>l. dl_id l = lid \<and> dl_requeued_at l = None) (d_dead_letters d)")
  case None
  then show ?thesis using assms by (simp add: requeue_def)
next
  case (Some l)
  have "find (\<lambda>l. dl_id l = lid \<and> dl_requeued_at l = None)
      (map (\<lambda>l. if dl_id l = lid then l\<lparr>dl_requeued_at := Some clock\<rparr> else l) ls) = None" for ls :: "dead_letter_row list"
    by (induction ls) simp_all
  moreover have "d_dead_letters d' =
      map (\<lambda>l. if dl_id l = lid then l\<lparr>dl_requeued_at := Some clock\<rparr> else l) (d_dead_letters d)"
  proof -
    have "d' = snd (requeue now clock lid d)" using assms by simp
    with Some show ?thesis by (simp add: requeue_def)
  qed
  ultimately show ?thesis by (simp add: requeue_def)
qed

lemma requeue_task:
  assumes "requeue now clock lid d = (Some tid, d')"
  shows "\<exists>l \<in> set (d_dead_letters d). dl_id l = lid \<and>
     d_tasks d' = d_tasks d @ [new_task tid (dl_namespace l) (dl_run l) (dl_queue l) STEP_TASK
       (with_attempt_offset (dl_payload l) (dl_attempts l)) clock now]"
proof (cases "find (\<lambda>l. dl_id l = lid \<and> dl_requeued_at l = None) (d_dead_letters d)")
  case (Some l)
  then have "l \<in> set (d_dead_letters d)" "dl_id l = lid" by (auto simp: find_Some_iff)
  moreover have "d' = snd (requeue now clock lid d)" "Some tid = fst (requeue now clock lid d)" using assms by simp_all
  ultimately show ?thesis using Some by (intro bexI [of _ l]) (simp_all add: requeue_def)
qed (use assms in \<open>simp add: requeue_def\<close>)

end
