(* ===== verification/StepTasks.thy ===== *)
theory StepTasks
  imports Retry
begin

text \<open>
  One delivery of a step task (\<open>packages/core/src/retry/step-task-processor.ts\<close>).

  The processor is no transaction: it reads, runs the step and writes, in transactions of its own.
  \<open>others n\<close> is what everybody else commits before its \<open>n\<close>-th one, so that a statement
  for every \<open>others\<close> is a statement for every interleaving. How the running step, its timeout and the abortion of its
  lease settle is an argument. The span of the attempt is left out.
\<close>

section \<open>Definitions\<close>

record step_definition =
  sd_timeout :: "rat option"
  sd_retry :: "retry_policy option"

datatype step_task_outcome =
    StepDone nat
  | RetryScheduled nat int time
  | StepGaveUp nat
  | DeadLettered nat uuid
  | AlreadyRecorded
  | LeaseLost

text \<open>
  What the processor reads from outside: \<open>pe_run\<close> settles a handler on its input, \<open>pe_abort\<close> is when
  and why the lease's signal aborts, \<open>pe_aborted\<close> whether it had by the start and by the failure.
\<close>

record process_env =
  pe_now :: time
  pe_clock :: time
  pe_draw :: rat
  pe_encode :: "jsv \<Rightarrow> string"
  pe_lookup :: "string \<Rightarrow> step_definition option"
  pe_run :: "string \<Rightarrow> jsv \<Rightarrow> settlement"
  pe_abort :: "(rat \<times> thrown) option"
  pe_aborted_first :: bool
  pe_aborted_last :: bool

text \<open>\<open>stepTaskPayloadSchema.parse\<close>\<close>

definition parse_step_task :: "jsv \<Rightarrow> engine_error + string \<times> string \<times> jsv \<times> nat" where
  "parse_step_task payload =
     (case payload of
        VObj kvs \<Rightarrow>
          (case (map_of kvs ''stepId'', map_of kvs ''stepType'') of
             (Some (VStr sid), Some (VStr st)) \<Rightarrow>
               if sid = [] \<or> st = [] then Inl (SchemaError ''step task'')
               else (case optional (map_of kvs ''attemptOffset'') VUndef of
                       VUndef \<Rightarrow> Inr (sid, st, optional (map_of kvs ''input'') VUndef, 0)
                     | VNum n \<Rightarrow>
                         if is_finite_num n \<and> of_int \<lfloor>num_value n\<rfloor> = num_value n \<and> 0 \<le> num_value n
                         then Inr (sid, st, optional (map_of kvs ''input'') VUndef, nat \<lfloor>num_value n\<rfloor>)
                         else Inl (SchemaError ''step task'')
                     | _ \<Rightarrow> Inl (SchemaError ''step task''))
           | _ \<Rightarrow> Inl (SchemaError ''step task''))
      | _ \<Rightarrow> Inl (SchemaError ''step task''))"

definition non_retryable_error :: "string \<Rightarrow> thrown" where
  "non_retryable_error m = new_error PlainErrorClass ''NonRetryableError'' m"

text \<open>\<open>executeTraced\<close>: the handler under its timeout, raced against the abortion of the lease.\<close>

definition execute_step :: "process_env \<Rightarrow> string \<Rightarrow> jsv \<Rightarrow> settlement" where
  "execute_step env st inp =
     (case pe_lookup env st of
        None \<Rightarrow> Some (0, Inl (non_retryable_error (''no step registered for type '' @ quoted st)))
      | Some sd \<Rightarrow> earlier (run_with_timeout (pe_run env st inp) (sd_timeout sd))
                    (map_option (\<lambda>(t, e). (t, Inl e)) (pe_abort env)))"

text \<open>An error of the engine's own operations, as the \<open>catch\<close> of the processor sees it.\<close>

definition thrown_engine_error :: "engine_error \<Rightarrow> thrown" where
  "thrown_engine_error e =
     new_error PlainErrorClass
       (case e of ConcurrencyError _ _ _ \<Rightarrow> ''ConcurrencyError''
        | InvalidTransitionError _ _ \<Rightarrow> ''InvalidTransitionError''
        | PayloadTooLargeError _ _ \<Rightarrow> ''PayloadTooLargeError''
        | RunNotFoundError _ \<Rightarrow> ''RunNotFoundError'' | RangeError _ \<Rightarrow> ''RangeError''
        | SchemaError _ \<Rightarrow> ''ZodError'' | _ \<Rightarrow> ''Error'') []"

type_synonym process_result = "(engine_error + step_task_outcome) option \<times> db"

text \<open>The failure path: by the policy the attempt is retried later, recorded as failed, or parked.\<close>

definition attempt_key :: "nat \<Rightarrow> string" where
  "attempt_key n = ''attempt-'' @ show_nat n"

definition step_failed ::
    "process_env \<Rightarrow> (nat \<Rightarrow> db \<Rightarrow> db) \<Rightarrow> leased_task \<Rightarrow> string \<Rightarrow> nat \<Rightarrow> int \<Rightarrow> retry_policy \<Rightarrow> thrown \<Rightarrow> db
       \<Rightarrow> process_result" where
  "step_failed env others task sid attempt failed policy reason d =
     (if pe_aborted_last env then (Some (Inr LeaseLost), d)
      else
        let e = serialize_error (pe_encode env) reason;
            rid = lt_run task; now = pe_now env;
            decision = decide_retry policy failed e (pe_draw env);
            retry_at = (case decision of RetryAfter ms \<Rightarrow> Some (pe_clock env + ms) | GiveUp _ \<Rightarrow> None) in
        case record_failure now rid sid attempt e retry_at (others 4 d) of
          Inl x \<Rightarrow> (Some (Inl x), others 4 d)
        | Inr (_, d1) \<Rightarrow>
            let d2 = others 5 d1 in
            (case decision of
               RetryAfter ms \<Rightarrow>
                 (case nack now (lt_id task) (lt_lease_token task) ms d2 of
                    Inl x \<Rightarrow> (Some (Inl x), d2)
                  | Inr (nacked, d3) \<Rightarrow>
                      (Some (Inr (if nacked then RetryScheduled attempt ms (pe_clock env + ms) else LeaseLost)), d3))
             | GiveUp NON_RETRYABLE \<Rightarrow>
                 (case record_step_result now rid sid (attempt_key attempt) (OutcomeFailed e False) d2 of
                    Inl x \<Rightarrow> (Some (Inl x), d2)
                  | Inr ((recorded, _), d3) \<Rightarrow>
                      (Some (Inr (if recorded then StepGaveUp attempt else AlreadyRecorded)),
                       snd (ack now (lt_id task) (lt_lease_token task) (others 6 d3))))
             | GiveUp MAX_ATTEMPTS_EXHAUSTED \<Rightarrow>
                 (case add_and_ack now (pe_clock env)
                     \<lparr>di_namespace = lt_namespace task, di_run = rid, di_step = sid, di_queue = lt_queue task,
                      di_payload = lt_payload task, di_attempts = attempt, di_error = e,
                      di_reason = ''MAX_ATTEMPTS_EXHAUSTED''\<rparr>
                     (lt_id task) (lt_lease_token task)
                     (andThen (record_step_result now rid sid (attempt_key attempt) (OutcomeFailed e True)) (\<lambda>_. ret ())) d2 of
                    Inl x \<Rightarrow> (Some (Inl x), d2)
                  | Inr (lid, d3) \<Rightarrow>
                      (Some (Inr (case lid of None \<Rightarrow> LeaseLost | Some l \<Rightarrow> DeadLettered attempt l)), d3))))"

definition process_step_task ::
    "process_env \<Rightarrow> (nat \<Rightarrow> db \<Rightarrow> db) \<Rightarrow> leased_task \<Rightarrow> db \<Rightarrow> process_result" where
  "process_step_task env others task d =
     (case parse_step_task (lt_payload task) of
        Inl e \<Rightarrow> (Some (Inl e), d)
      | Inr (sid, st, inp, offset) \<Rightarrow>
          if pe_aborted_first env then (Some (Inr LeaseLost), d)
          else
            let rid = lt_run task; d0 = others 0 d in
            if find_step_result d0 rid sid \<noteq> None
            then (Some (Inr AlreadyRecorded), snd (ack (pe_now env) (lt_id task) (lt_lease_token task) (others 1 d0)))
            else
              let d1 = others 1 d0;
                  attempt = next_attempt d1 rid sid;
                  policy = (case pe_lookup env st of None \<Rightarrow> DEFAULT_RETRY_POLICY
                            | Some sd \<Rightarrow> optional (sd_retry sd) DEFAULT_RETRY_POLICY);
                  fail_with = step_failed env others task sid attempt (int attempt - int offset) policy in
              (case execute_step env st inp of
                 None \<Rightarrow> (None, d1)
               | Some (_, Inl reason) \<Rightarrow> fail_with reason d1
               | Some (_, Inr result) \<Rightarrow>
                   (case record_step_result (pe_now env) rid sid (attempt_key attempt) (OutcomeCompleted result) (others 2 d1) of
                      Inl e \<Rightarrow> fail_with (thrown_engine_error e) (others 2 d1)
                    | Inr ((recorded, _), d2) \<Rightarrow>
                        (case ack (pe_now env) (lt_id task) (lt_lease_token task) (others 3 d2) of
                           (acked, d3) \<Rightarrow>
                             (Some (Inr (if \<not> acked then LeaseLost
                                         else if recorded then StepDone attempt else AlreadyRecorded)), d3)))))"

section \<open>What an outcome says\<close>

text \<open>The policy of a step, and what each outcome of a delivery promises of the database after it.\<close>

definition policy_of :: "process_env \<Rightarrow> string \<Rightarrow> retry_policy" where
  "policy_of env st =
     (case pe_lookup env st of None \<Rightarrow> DEFAULT_RETRY_POLICY | Some sd \<Rightarrow> optional (sd_retry sd) DEFAULT_RETRY_POLICY)"

definition outcome_holds :: "process_env \<Rightarrow> leased_task \<Rightarrow> step_task_outcome \<Rightarrow> db \<Rightarrow> bool" where
  "outcome_holds env task out d \<longleftrightarrow>
     (case parse_step_task (lt_payload task) of
        Inl _ \<Rightarrow> False
      | Inr (sid, st, inp, offset) \<Rightarrow>
          (case out of
             StepDone n \<Rightarrow> \<exists>v. find_step_result d (lt_run task) sid =
                 Some (step_result_row_of (lt_run task) sid (attempt_key n) (OutcomeCompleted v))
           | RetryScheduled n ms retry_at \<Rightarrow>
               of_int (int n - int offset) < rp_max_attempts (policy_of env st) \<and> retry_at = pe_clock env + ms
           | StepGaveUp n \<Rightarrow> \<exists>e. is_non_retryable e (policy_of env st) \<and>
               find_step_result d (lt_run task) sid =
                 Some (step_result_row_of (lt_run task) sid (attempt_key n) (OutcomeFailed e False))
           | DeadLettered n lid \<Rightarrow>
               rp_max_attempts (policy_of env st) \<le> of_int (int n - int offset) \<and>
               (\<exists>l \<in> set (d_dead_letters d). dl_id l = lid \<and> is_open_letter (lt_run task) sid l)
           | AlreadyRecorded \<Rightarrow> True
           | LeaseLost \<Rightarrow> True))"

lemma find_step_result_keeps:
  assumes "keeps d d'" and "find_step_result d rid sid = Some row"
  shows "find_step_result d' rid sid = Some row"
proof -
  obtain tail where "d_step_results d' = d_step_results d @ tail" using assms(1) by (auto simp: keeps_def)
  moreover have "find P (xs @ ys) = (case find P xs of None \<Rightarrow> find P ys | Some x \<Rightarrow> Some x)" for P and xs ys :: "step_result_row list"
    by (induction xs) auto
  ultimately show ?thesis using assms(2) by (simp add: find_step_result_def)
qed

lemma ack_step_results [simp]: "find_step_result (snd (ack now tid token d)) rid sid = find_step_result d rid sid"
  by (simp add: ack_def update_leased_def find_step_result_def)

lemma record_step_recorded:
  assumes "record_step_result now rid sid key out d = Inr ((True, o'), d')"
  shows "find_step_result d' rid sid = Some (step_result_row_of rid sid key out)"
proof -
  from record_step_result_Inr [OF assms] obtain ev new d1 where
    a: "find_step_result d rid sid = None"
      "d1 = d\<lparr>d_step_results := d_step_results d @ [step_result_row_of rid sid key out]\<rparr>"
      "append_events_on_client now rid (read_current_sequence d1 rid) [ev] d1 = Inr (new, d')" by auto
  have "d_step_results d' = d_step_results d1" using append_events_frame(4) [OF a(3)] .
  then have "find_step_result d' rid sid = find_step_result d1 rid sid" by (simp add: find_step_result_def)
  then show ?thesis using a(1) by (simp add: a(2) find_step_result_append)
qed

lemma step_failed_outcome:
  assumes others: "\<And>k d. keeps d (others k d)"
    and parse: "parse_step_task (lt_payload task) = Inr (sid, st, inp, offset)"
    and run: "step_failed env others task sid attempt (int attempt - int offset) (policy_of env st) reason d =
      (Some (Inr out), d')"
  shows "outcome_holds env task out d'"
proof (cases "pe_aborted_last env")
  case True
  then show ?thesis using run parse by (simp add: step_failed_def outcome_holds_def)
next
  case False
  let ?e = "serialize_error (pe_encode env) reason" and ?p = "policy_of env st" and ?now = "pe_now env"
  let ?dec = "decide_retry ?p (int attempt - int offset) ?e (pe_draw env)"
  obtain b d1 where rec: "record_failure ?now (lt_run task) sid attempt ?e
      (case ?dec of RetryAfter ms \<Rightarrow> Some (pe_clock env + ms) | GiveUp _ \<Rightarrow> None) (others 4 d) = Inr (b, d1)"
    using run False by (auto simp: step_failed_def Let_def split: sum.splits)
  show ?thesis
  proof (cases ?dec)
    case (RetryAfter ms)
    then have budget: "of_int (int attempt - int offset) < rp_max_attempts ?p"
      by (simp add: decide_retry_RetryAfter)
    have "out = RetryScheduled attempt ms (pe_clock env + ms) \<or> out = LeaseLost"
      using run False rec RetryAfter by (auto simp: step_failed_def Let_def split: sum.splits if_splits)
    then show ?thesis using budget parse by (auto simp: outcome_holds_def)
  next
    case (GiveUp g)
    show ?thesis
    proof (cases g)
      case NON_RETRYABLE
      obtain recorded o' d3 where r: "record_step_result ?now (lt_run task) sid (attempt_key attempt)
          (OutcomeFailed ?e False) (others 5 d1) = Inr ((recorded, o'), d3)"
        using run False rec GiveUp NON_RETRYABLE by (auto simp: step_failed_def Let_def split: sum.splits)
      have nr: "is_non_retryable ?e ?p"
        using GiveUp NON_RETRYABLE by (auto simp: decide_retry_def split: if_splits)
      have out: "out = (if recorded then StepGaveUp attempt else AlreadyRecorded)"
        "d' = snd (ack ?now (lt_id task) (lt_lease_token task) (others 6 d3))"
        using run False rec GiveUp NON_RETRYABLE r by (simp_all add: step_failed_def Let_def)
      show ?thesis
      proof (cases recorded)
        case True
        have "find_step_result d' (lt_run task) sid =
            Some (step_result_row_of (lt_run task) sid (attempt_key attempt) (OutcomeFailed ?e False))"
          using find_step_result_keeps [OF others record_step_recorded] r True out(2) by simp
        then show ?thesis using out(1) True parse nr by (auto simp: outcome_holds_def)
      qed (use out parse in \<open>simp add: outcome_holds_def\<close>)
    next
      case MAX_ATTEMPTS_EXHAUSTED
      let ?i = "\<lparr>di_namespace = lt_namespace task, di_run = lt_run task, di_step = sid, di_queue = lt_queue task,
          di_payload = lt_payload task, di_attempts = attempt, di_error = ?e, di_reason = ''MAX_ATTEMPTS_EXHAUSTED''\<rparr>"
      let ?w = "andThen (record_step_result ?now (lt_run task) sid (attempt_key attempt) (OutcomeFailed ?e True)) (\<lambda>_. ret ())"
      obtain lid where add: "add_and_ack ?now (pe_clock env) ?i (lt_id task) (lt_lease_token task) ?w (others 5 d1) = Inr (lid, d')"
        "out = (case lid of None \<Rightarrow> LeaseLost | Some l \<Rightarrow> DeadLettered attempt l)"
        using run False rec GiveUp MAX_ATTEMPTS_EXHAUSTED by (auto simp: step_failed_def Let_def split: sum.splits)
      have budget: "rp_max_attempts ?p \<le> of_int (int attempt - int offset)"
        using GiveUp MAX_ATTEMPTS_EXHAUSTED by (auto simp: decide_retry_def split: if_splits)
      show ?thesis
      proof (cases lid)
        case (Some l)
        then obtain d2 where "insert_dead_letter ?now ?i d2 = Inr (l, d')"
          using add(1) by (auto simp: add_and_ack_def split: sum.splits prod.splits bool.splits)
        from insert_dead_letter_Inr(1) [OF this] show ?thesis
          using add(2) Some budget parse by (auto simp: outcome_holds_def)
      qed (use add(2) parse in \<open>simp add: outcome_holds_def\<close>)
    qed
  qed
qed

lemma process_outcome:
  assumes others: "\<And>k d. keeps d (others k d)" and run: "process_step_task env others task d = (Some (Inr out), d')"
  shows "outcome_holds env task out d'"
proof -
  obtain sid st inp offset where parse: "parse_step_task (lt_payload task) = Inr (sid, st, inp, offset)"
    using run by (auto simp: process_step_task_def split: sum.splits)
  let ?d0 = "others 0 d" and ?d1 = "others 1 (others 0 d)"
  show ?thesis
  proof (cases "pe_aborted_first env \<or> find_step_result ?d0 (lt_run task) sid \<noteq> None")
    case True
    have "out = LeaseLost \<or> out = AlreadyRecorded"
    proof (cases "pe_aborted_first env")
      case True
      then show ?thesis using run parse by (simp add: process_step_task_def)
    next
      case False
      with \<open>pe_aborted_first env \<or> find_step_result ?d0 (lt_run task) sid \<noteq> None\<close>
      obtain row where "find_step_result ?d0 (lt_run task) sid = Some row" by auto
      then show ?thesis using run parse False by (simp add: process_step_task_def Let_def)
    qed
    then show ?thesis using parse by (auto simp: outcome_holds_def)
  next
    case False
    let ?n = "next_attempt ?d1 (lt_run task) sid"
    obtain t res where ex: "execute_step env st inp = Some (t, res)"
      using run parse False by (auto simp: process_step_task_def Let_def split: option.splits)
    show ?thesis
    proof (cases res)
      case (Inl reason)
      then have "step_failed env others task sid ?n (int ?n - int offset) (policy_of env st) reason ?d1 = (Some (Inr out), d')"
        using run parse False ex by (simp add: process_step_task_def Let_def policy_of_def)
      then show ?thesis by (rule step_failed_outcome [OF others parse])
    next
      case (Inr v)
      let ?rec = "record_step_result (pe_now env) (lt_run task) sid (attempt_key ?n) (OutcomeCompleted v) (others 2 ?d1)"
      show ?thesis
      proof (cases ?rec)
        case (Inl e)
        then have "step_failed env others task sid ?n (int ?n - int offset) (policy_of env st) (thrown_engine_error e)
            (others 2 ?d1) = (Some (Inr out), d')"
          using run parse False ex Inr by (simp add: process_step_task_def Let_def policy_of_def)
        then show ?thesis by (rule step_failed_outcome [OF others parse])
      next
        case rec: (Inr r)
        obtain recorded o' d2 where r: "r = ((recorded, o'), d2)" by (cases r) auto
        obtain acked d3 where a: "ack (pe_now env) (lt_id task) (lt_lease_token task) (others 3 d2) = (acked, d3)" by fastforce
        have out: "out = (if \<not> acked then LeaseLost else if recorded then StepDone ?n else AlreadyRecorded)" "d' = d3"
          using run parse False ex Inr rec r a by (simp_all add: process_step_task_def Let_def split: if_splits)
        show ?thesis
        proof (cases "acked \<and> recorded")
          case True
          have "find_step_result d3 (lt_run task) sid =
              Some (step_result_row_of (lt_run task) sid (attempt_key ?n) (OutcomeCompleted v))"
            using find_step_result_keeps [OF others record_step_recorded] rec r True
              ack_step_results [of "pe_now env" "lt_id task" "lt_lease_token task" "others 3 d2"] a by simp
          then show ?thesis using out True parse by (auto simp: outcome_holds_def)
        qed (use out parse in \<open>auto simp: outcome_holds_def split: if_splits\<close>)
      qed
    qed
  qed
qed

end
