(* ===== verification/Replay.thy ===== *)
theory Replay
  imports Decision "HOL-Library.Sublist"
begin

text \<open>
  What replay promises: a decision whose commands are recorded is not made again. Replaying the
  same handler over the history with those events takes the same path, is answered the same
  by every call, and issues nothing new, whatever the clock and the trigger are then.
\<close>

section \<open>Well-behaved handlers and histories\<close>

text \<open>
  A handler lets the engine's integrity errors through, as the code's contract asks (a replay
  stops at them), and its sleeps end inside the range of dates, seen from \<open>clock\<close>.
\<close>

definition lets_through :: "(thrown + 'a \<Rightarrow> handler) \<Rightarrow> bool" where
  "lets_through k \<longleftrightarrow> (\<forall>e. is_integrity_error e \<longrightarrow> k (Inl e) = Throw e)"

definition wakes_in_range :: "time \<Rightarrow> jsnum \<Rightarrow> bool" where
  "wakes_in_range clock d \<longleftrightarrow> 0 \<le> clock \<and> of_int clock + num_value d \<le> of_int MAX_TIME"

fun task_in_range :: "time \<Rightarrow> ctx_task \<Rightarrow> bool" where
  "task_in_range clock (TaskSleep d) = wakes_in_range clock d"
| "task_in_range clock _ = True"

primrec well_behaved :: "handler \<Rightarrow> time \<Rightarrow> bool" where
  "well_behaved (Return v) clock = True"
| "well_behaved (Throw e) clock = True"
| "well_behaved (Await p k) clock = (\<forall>r. well_behaved (k r) clock)"
| "well_behaved (Step st inp k) clock = (lets_through k \<and> (\<forall>r. well_behaved (k r) clock))"
| "well_behaved (Sleep d k) clock = (wakes_in_range clock d \<and> lets_through k \<and> (\<forall>r. well_behaved (k r) clock))"
| "well_behaved (WaitForSignal n k) clock = (\<forall>r. well_behaved (k r) clock)"
| "well_behaved (StartChildRun wt inp opt k) clock = (lets_through k \<and> (\<forall>r. well_behaved (k r) clock))"
| "well_behaved (SelectFirst ps k) clock = (\<forall>r. well_behaved (k r) clock)"
| "well_behaved (All ts conc b k) clock =
     (list_all (task_in_range clock) ts \<and> lets_through k \<and> (\<forall>r. well_behaved (k r) clock))"
| "well_behaved (Patched pid k) clock = (lets_through k \<and> (\<forall>r. well_behaved (k r) clock))"
| "well_behaved (Now k) clock = (\<forall>r. well_behaved (k r) clock)"
| "well_behaved (Random k) clock = (\<forall>r. well_behaved (k r) clock)"
| "well_behaved (Uuid k) clock = (\<forall>r. well_behaved (k r) clock)"
| "well_behaved (SetQueryHandler n f k) clock = well_behaved k clock"
| "well_behaved (OnCancel c k) clock = well_behaved k clock"
| "well_behaved (Continue inp k) clock = (\<forall>e. well_behaved (k e) clock)"

text \<open>An outcome in the history belongs to a command of the history.\<close>

definition shape_ids :: "(command_shape \<Rightarrow> bool) \<Rightarrow> command_shape list \<Rightarrow> string list" where
  "shape_ids P xs = map shape_id (filter P xs)"

definition is_step :: "command_shape \<Rightarrow> bool" where
  "is_step s = (case s of ShapeStep _ _ _ \<Rightarrow> True | _ \<Rightarrow> False)"
definition is_timer :: "command_shape \<Rightarrow> bool" where
  "is_timer s = (case s of ShapeTimer _ _ \<Rightarrow> True | _ \<Rightarrow> False)"
definition is_child :: "command_shape \<Rightarrow> bool" where
  "is_child s = (case s of ShapeChild _ _ _ \<Rightarrow> True | _ \<Rightarrow> False)"
definition is_patch :: "command_shape \<Rightarrow> bool" where
  "is_patch s = (case s of ShapePatch _ \<Rightarrow> True | _ \<Rightarrow> False)"

definition outcome_has_command :: "event list \<Rightarrow> event \<Rightarrow> bool" where
  "outcome_has_command h e =
     (case e of
        StepCompleted i _ \<Rightarrow> i \<in> set (shape_ids is_step (recorded_shapes h))
      | StepFailed i _ _ \<Rightarrow> i \<in> set (shape_ids is_step (recorded_shapes h))
      | TimerFired i \<Rightarrow> i \<in> set (shape_ids is_timer (recorded_shapes h)) \<or> \<not> (\<exists>n. i = timer_id n)
      | ChildCompleted i _ \<Rightarrow> i \<in> set (shape_ids is_child (recorded_shapes h))
      | ChildFailed i _ \<Rightarrow> i \<in> set (shape_ids is_child (recorded_shapes h))
      | _ \<Rightarrow> True)"

definition no_orphans :: "event list \<Rightarrow> bool" where
  "no_orphans h \<longleftrightarrow> list_all (outcome_has_command h) h"

section \<open>The state of a replay\<close>

definition new_shapes :: "replay_state \<Rightarrow> command_shape list" where
  "new_shapes s = List.map_filter shape_of_command (w_commands s)"

definition time_of_command :: "command \<Rightarrow> time option" where
  "time_of_command c = (case c of RecordTime t \<Rightarrow> Some t | _ \<Rightarrow> None)"

definition new_times :: "replay_state \<Rightarrow> time list" where
  "new_times s = List.map_filter time_of_command (w_commands s)"

text \<open>The commands issued so far: those of the recording that were met again, then the new ones.\<close>

definition issued_log :: "replay_state \<Rightarrow> command_shape list" where
  "issued_log s = take (m_issued (w_matcher s)) (m_recorded (w_matcher s)) @ new_shapes s"

text \<open>
  The invariant of a replay in an uncancelled context: what was issued past the recording is in
  the new commands, ids count up, every patch on the log is decided.
\<close>

definition matcher_inv :: "replay_env \<Rightarrow> replay_state \<Rightarrow> bool" where
  "matcher_inv env s \<longleftrightarrow>
     m_recorded (w_matcher s) = recorded_shapes (e_history env) \<and>
     length (new_shapes s) = m_issued (w_matcher s) - length (recorded_shapes (e_history env))"

definition replay_inv :: "replay_env \<Rightarrow> replay_state \<Rightarrow> bool" where
  "replay_inv env s \<longleftrightarrow> matcher_inv env s \<and>
     length (new_times s) = w_times s - length (recorded_times (e_history env)) \<and>
     shape_ids is_step (issued_log s) = map step_id [1..<Suc (w_step s)] \<and>
     shape_ids is_timer (issued_log s) = map timer_id [1..<Suc (w_timer s)] \<and>
     shape_ids is_child (issued_log s) = map child_id [1..<Suc (min (w_child s) (e_max_children env))] \<and>
     set (shape_ids is_patch (issued_log s)) \<subseteq> dom (w_patches s)"

lemma new_shapes_simps [simp]:
  "new_shapes (push_command c s) = new_shapes s @ (case shape_of_command c of None \<Rightarrow> [] | Some x \<Rightarrow> [x])"
  "new_times (push_command c s) = new_times s @ (case time_of_command c of None \<Rightarrow> [] | Some x \<Rightarrow> [x])"
  by (simp_all add: new_shapes_def new_times_def push_command_def List.map_filter_def split: option.splits)

lemma shape_ids_simps [simp]:
  "shape_ids P [] = []" "shape_ids P (x # xs) = (if P x then [shape_id x] else []) @ shape_ids P xs"
  "shape_ids P (xs @ ys) = shape_ids P xs @ shape_ids P ys"
  by (simp_all add: shape_ids_def)

lemma shape_kinds [simp]:
  "is_step (ShapeStep a b c)" "\<not> is_step (ShapeTimer i d)" "\<not> is_step (ShapeChild a b c)" "\<not> is_step (ShapePatch p)"
  "\<not> is_timer (ShapeStep a b c)" "is_timer (ShapeTimer i d)" "\<not> is_timer (ShapeChild a b c)" "\<not> is_timer (ShapePatch p)"
  "\<not> is_child (ShapeStep a b c)" "\<not> is_child (ShapeTimer i d)" "is_child (ShapeChild a b c)" "\<not> is_child (ShapePatch p)"
  "\<not> is_patch (ShapeStep a b c)" "\<not> is_patch (ShapeTimer i d)" "\<not> is_patch (ShapeChild a b c)" "is_patch (ShapePatch p)"
  by (simp_all add: is_step_def is_timer_def is_child_def is_patch_def)

lemma same_command_kind:
  "same_command a b \<Longrightarrow> is_step a = is_step b \<and> is_timer a = is_timer b \<and> is_child a = is_child b \<and> is_patch a = is_patch b"
  by (cases a; cases b) auto

lemma ids_inj [simp]:
  "step_id m = step_id n \<longleftrightarrow> m = n" "timer_id m = timer_id n \<longleftrightarrow> m = n" "child_id m = child_id n \<longleftrightarrow> m = n"
  by (simp_all add: step_id_def timer_id_def child_id_def)

lemma initial_replay_inv: "replay_inv env (initial_state env)"
  by (simp add: replay_inv_def matcher_inv_def initial_state_def new_shapes_def new_times_def issued_log_def
      matcher_record_def create_command_matcher_def List.map_filter_def)

section \<open>The second replay\<close>

definition next_env :: "replay_env \<Rightarrow> command list \<Rightarrow> time \<Rightarrow> time option \<Rightarrow> replay_env" where
  "next_env env cs clock trigger =
     env\<lparr>e_history := e_history env @ map command_to_event cs, e_clock := clock, e_triggered := trigger\<rparr>"

definition later :: "replay_env \<Rightarrow> command list \<Rightarrow> replay_state \<Rightarrow> replay_state" where
  "later env cs s =
     s\<lparr>w_matcher := \<lparr>m_recorded = recorded_shapes (e_history env) @ List.map_filter shape_of_command cs,
                     m_issued = m_issued (w_matcher s)\<rparr>,
       w_commands := []\<rparr>"

lemma next_env_simps [simp]:
  "e_history (next_env env cs clk trg) = e_history env @ map command_to_event cs"
  "e_max_children (next_env env cs clk trg) = e_max_children env"
  "e_build (next_env env cs clk trg) = e_build env"
  "e_random (next_env env cs clk trg) = e_random env" "e_uuid (next_env env cs clk trg) = e_uuid env"
  by (simp_all add: next_env_def)

lemma map_filter_append: "List.map_filter f (xs @ ys) = List.map_filter f xs @ List.map_filter f ys"
  by (simp add: List.map_filter_def)

lemma first_outcome_append:
  assumes "\<And>e. e \<in> set es \<Longrightarrow> f e = None"
  shows "first_outcome i f (h @ es) = first_outcome i f h"
proof -
  have "first_outcome j f es = None" for j using assms by (induction es arbitrary: j) auto
  then show ?thesis by (induction h arbitrary: i) (auto split: option.splits)
qed

lemma command_event_no_outcome [simp]:
  "step_outcome_of sid st (command_to_event c) = None"
  "timer_outcome_of tid (command_to_event c) = None"
  "child_outcome_of cid (command_to_event c) = None"
  "is_cancel_requested_event (command_to_event c) = False"
  by (cases c; simp add: step_outcome_of_def timer_outcome_of_def child_outcome_of_def is_cancel_requested_event_def)+

lemma first_outcome_next [simp]:
  "first_outcome i (step_outcome_of sid st) (h @ map command_to_event cs) = first_outcome i (step_outcome_of sid st) h"
  "first_outcome i (timer_outcome_of tid) (h @ map command_to_event cs) = first_outcome i (timer_outcome_of tid) h"
  "first_outcome i (child_outcome_of cid) (h @ map command_to_event cs) = first_outcome i (child_outcome_of cid) h"
  by (rule first_outcome_append; auto)+

lemma nth_signal_commands [simp]: "nth_signal i name k (map command_to_event cs) = None"
proof (induction cs arbitrary: i)
  case (Cons c cs)
  then show ?case by (cases c) auto
qed simp

lemma nth_signal_next [simp]:
  "nth_signal i name k (h @ map command_to_event cs) = nth_signal i name k h"
  by (induction i name k h rule: nth_signal.induct) (auto split: event.splits)

lemma recorded_times_next [simp]:
  "recorded_times (h @ map command_to_event cs) = recorded_times h @ List.map_filter time_of_command cs"
proof -
  have "recorded_times (map command_to_event cs) = List.map_filter time_of_command cs"
  proof (induction cs)
    case (Cons c cs)
    then show ?case by (cases c) (auto simp: recorded_times_def List.map_filter_def time_of_command_def)
  qed (simp add: recorded_times_def List.map_filter_def)
  then show ?thesis by (simp add: recorded_times_def map_filter_append)
qed

lemma recorded_patch_ids_next:
  "set (recorded_patch_ids (h @ map command_to_event cs)) =
     set (recorded_patch_ids h) \<union> {p. ShapePatch p \<in> set (List.map_filter shape_of_command cs)}"
proof -
  have "set (recorded_patch_ids (map command_to_event cs)) = {p. ShapePatch p \<in> set (List.map_filter shape_of_command cs)}"
  proof (induction cs)
    case (Cons c cs)
    then show ?case by (cases c) (auto simp: recorded_patch_ids_def List.map_filter_def)
  qed (simp add: recorded_patch_ids_def List.map_filter_def)
  then show ?thesis by (simp add: recorded_patch_ids_def map_filter_append)
qed

lemma recorded_patch_shapes: "p \<in> set (recorded_patch_ids h) \<longleftrightarrow> ShapePatch p \<in> set (recorded_shapes h)"
proof (induction h)
  case (Cons e h)
  then show ?case by (cases e) (auto simp: recorded_patch_ids_def recorded_shapes_def List.map_filter_def)
qed (simp add: recorded_patch_ids_def recorded_shapes_def List.map_filter_def)

lemma recorded_command_count_next: "recorded_command_count h \<le> recorded_command_count (h @ es)"
  by (simp add: recorded_command_count_def)

lemma cancel_requested_next [simp]: "cancel_requested (next_env env cs clk trg) = cancel_requested env"
  by (auto simp: cancel_requested_def list_ex_iff)

section \<open>Issuing\<close>

definition bump :: "replay_state \<Rightarrow> replay_state" where
  "bump s = s\<lparr>w_matcher := (w_matcher s)\<lparr>m_issued := m_issued (w_matcher s) + 1\<rparr>\<rparr>"

text \<open>One command goes onto the log: met again, or new and pushed.\<close>

definition logged :: "replay_state \<Rightarrow> command_shape \<Rightarrow> replay_state \<Rightarrow> bool" where
  "logged s shape t \<longleftrightarrow>
     (\<exists>x. same_command x shape \<and> issued_log t = issued_log s @ [x]) \<and>
     m_recorded (w_matcher t) = m_recorded (w_matcher s) \<and>
     length (new_shapes t) = m_issued (w_matcher t) - length (m_recorded (w_matcher s))"

lemma bump_fields [simp]:
  "w_step (bump s) = w_step s" "w_timer (bump s) = w_timer s" "w_child (bump s) = w_child s"
  "w_times (bump s) = w_times s" "w_patches (bump s) = w_patches s" "w_commands (bump s) = w_commands s"
  "m_recorded (w_matcher (bump s)) = m_recorded (w_matcher s)"
  "m_issued (w_matcher (bump s)) = m_issued (w_matcher s) + 1"
  "new_shapes (bump s) = new_shapes s" "new_times (bump s) = new_times s"
  by (simp_all add: bump_def new_shapes_def new_times_def)

lemma later_fields [simp]:
  "w_step (later env cs s) = w_step s" "w_timer (later env cs s) = w_timer s" "w_child (later env cs s) = w_child s"
  "w_times (later env cs s) = w_times s" "w_patches (later env cs s) = w_patches s"
  "w_signals (later env cs s) = w_signals s" "w_consulted (later env cs s) = w_consulted s"
  "w_draws (later env cs s) = w_draws s" "w_compensations (later env cs s) = w_compensations s"
  "w_in_flight (later env cs s) = w_in_flight s" "w_continuation (later env cs s) = w_continuation s"
  "w_queries (later env cs s) = w_queries s" "w_commands (later env cs s) = []"
  "m_issued (w_matcher (later env cs s)) = m_issued (w_matcher s)"
  by (simp_all add: later_def)

lemma issue_live:
  assumes inv: "matcher_inv env s" and iss: "issue_command shape False s = (r, t)"
  defines "n \<equiv> length (recorded_shapes (e_history env))" and "k \<equiv> m_issued (w_matcher s)"
  shows "t = bump s \<and>
     ((\<exists>e. r = Inl e \<and> is_integrity_error e) \<or>
      (r = Inr True \<and> k < n \<and> logged s shape t \<and> issue_command shape False (later env cs s) = (Inr True, later env cs t)) \<or>
      (r = Inr False \<and> n \<le> k \<and> (\<forall>c. shape_of_command c = Some shape \<longrightarrow> comparable shape \<longrightarrow> logged s shape (push_command c t)) \<and>
         (nth_opt (List.map_filter shape_of_command cs) (length (new_shapes s)) = Some shape \<longrightarrow> comparable shape \<longrightarrow>
          issue_command shape False (later env cs s) = (Inr True, later env cs t))))"
proof -
  let ?H = "recorded_shapes (e_history env)"
  have rec: "m_recorded (w_matcher s) = ?H" and new: "length (new_shapes s) = k - n"
    using inv by (simp_all add: matcher_inv_def n_def k_def)
  have t: "t = bump s" and r: "r = (case nth_opt ?H k of None \<Rightarrow> Inr False
      | Some e \<Rightarrow> if same_command e shape then Inr True else Inl (non_determinism_error (shape_id shape)))"
    using iss by (auto simp: issue_command_def matcher_issue_live bump_def rec k_def split: option.splits)
  have second: "issue_command shape False (later env cs s) =
      ((case nth_opt (?H @ List.map_filter shape_of_command cs) k of None \<Rightarrow> Inr False
       | Some e \<Rightarrow> if same_command e shape then Inr True else Inl (non_determinism_error (shape_id shape))),
       later env cs (bump s))"
    by (auto simp: issue_command_def matcher_issue_live later_def bump_def k_def split: option.splits)
  show ?thesis
  proof (cases "k < n")
    case True
    then have at: "nth_opt ?H k = Some (?H ! k)" by (simp add: nth_opt_def n_def)
    have none: "new_shapes s = []" using new True by simp
    have tk: "take (k + 1) ?H = take k ?H @ [?H ! k]" using True by (simp add: take_Suc_conv_app_nth n_def)
    show ?thesis
    proof (cases "same_command (?H ! k) shape")
      case False
      then show ?thesis using t r at by simp
    next
      case same: True
      have "logged s shape t"
        using same none tk True by (auto simp: logged_def issued_log_def t rec k_def n_def)
      then show ?thesis using t r at same True second nth_opt_append1 [OF at] by simp
    qed
  next
    case False
    then have at: "nth_opt ?H k = None" by (simp add: nth_opt_def n_def)
    have "logged s shape (push_command c t)" if "shape_of_command c = Some shape" "comparable shape" for c
    proof -
      have "issued_log (push_command c t) = issued_log s @ [shape]"
        using that(1) False by (simp add: issued_log_def t rec push_command_def n_def k_def) (simp add: new_shapes_def map_filter_append List.map_filter_def bump_def)
      moreover have "length (new_shapes (push_command c t)) = k + 1 - n"
        using that(1) new False by (simp add: t)
      ultimately show ?thesis
        using same_command_refl [OF that(2)] by (auto simp: logged_def t rec push_command_def k_def n_def)
    qed
    moreover have "issue_command shape False (later env cs s) = (Inr True, later env cs t)"
      if "nth_opt (List.map_filter shape_of_command cs) (length (new_shapes s)) = Some shape" "comparable shape"
    proof -
      have "nth_opt (?H @ List.map_filter shape_of_command cs) k = Some shape"
        using that(1) False by (auto simp: nth_opt_def nth_append new n_def split: if_splits)
      then show ?thesis using second same_command_refl [OF that(2)] t by simp
    qed
    ultimately show ?thesis using t r at False by simp
  qed
qed

lemma orphans:
  assumes "no_orphans h"
  shows "first_outcome i (step_outcome_of sid st) h = Some r \<Longrightarrow> sid \<in> set (shape_ids is_step (recorded_shapes h))"
    and "first_outcome i (timer_outcome_of (timer_id m)) h = Some r \<Longrightarrow> timer_id m \<in> set (shape_ids is_timer (recorded_shapes h))"
    and "first_outcome i (child_outcome_of cid) h = Some r \<Longrightarrow> cid \<in> set (shape_ids is_child (recorded_shapes h))"
proof -
  have some: "first_outcome j f es = Some r \<Longrightarrow> \<exists>e \<in> set es. \<exists>out. f e = Some out" for j f es r
    by (induction es arbitrary: j) (auto split: option.splits)
  show "sid \<in> set (shape_ids is_step (recorded_shapes h))"
    if "first_outcome i (step_outcome_of sid st) h = Some r"
    using some [OF that] assms
    by (force simp: no_orphans_def list_all_iff outcome_has_command_def step_outcome_of_def split: event.splits if_splits)
  show "timer_id m \<in> set (shape_ids is_timer (recorded_shapes h))"
    if "first_outcome i (timer_outcome_of (timer_id m)) h = Some r"
    using some [OF that] assms
    by (force simp: no_orphans_def list_all_iff outcome_has_command_def timer_outcome_of_def split: event.splits if_splits)
  show "cid \<in> set (shape_ids is_child (recorded_shapes h))"
    if "first_outcome i (child_outcome_of cid) h = Some r"
    using some [OF that] assms
    by (force simp: no_orphans_def list_all_iff outcome_has_command_def child_outcome_of_def split: event.splits if_splits)
qed

section \<open>The calls follow\<close>

lemma logged_ids:
  assumes "logged s shape t"
  shows "shape_ids is_step (issued_log t) = shape_ids is_step (issued_log s) @ (if is_step shape then [shape_id shape] else [])"
    and "shape_ids is_timer (issued_log t) = shape_ids is_timer (issued_log s) @ (if is_timer shape then [shape_id shape] else [])"
    and "shape_ids is_child (issued_log t) = shape_ids is_child (issued_log s) @ (if is_child shape then [shape_id shape] else [])"
    and "shape_ids is_patch (issued_log t) = shape_ids is_patch (issued_log s) @ (if is_patch shape then [shape_id shape] else [])"
proof -
  obtain x where "same_command x shape" "issued_log t = issued_log s @ [x]" using assms by (auto simp: logged_def)
  with same_command_kind [of x shape] same_command_id [of x shape]
  show "shape_ids is_step (issued_log t) = shape_ids is_step (issued_log s) @ (if is_step shape then [shape_id shape] else [])"
    and "shape_ids is_timer (issued_log t) = shape_ids is_timer (issued_log s) @ (if is_timer shape then [shape_id shape] else [])"
    and "shape_ids is_child (issued_log t) = shape_ids is_child (issued_log s) @ (if is_child shape then [shape_id shape] else [])"
    and "shape_ids is_patch (issued_log t) = shape_ids is_patch (issued_log s) @ (if is_patch shape then [shape_id shape] else [])"
    by simp_all
qed

lemma logged_patches: "logged s x (t\<lparr>w_patches := p\<rparr>) = logged s x t"
  by (simp add: logged_def issued_log_def new_shapes_def)

lemma logged_matcher_inv: "logged s shape t \<Longrightarrow> matcher_inv env s \<Longrightarrow> matcher_inv env t"
  by (simp add: logged_def matcher_inv_def)

text \<open>Past the recording, the recorded commands are all on the log.\<close>

lemma issued_log_past:
  assumes "matcher_inv env s" and "length (recorded_shapes (e_history env)) \<le> m_issued (w_matcher s)"
  shows "issued_log s = recorded_shapes (e_history env) @ new_shapes s"
  using assms by (simp add: issued_log_def matcher_inv_def)

lemma prefix_new_shape:
  assumes "prefix (w_commands (push_command c s)) cs" and "shape_of_command c = Some shape"
  shows "nth_opt (List.map_filter shape_of_command cs) (length (new_shapes s)) = Some shape"
proof -
  obtain zs where "cs = w_commands s @ [c] @ zs" using assms(1) by (auto simp: push_command_def prefix_def)
  then have "List.map_filter shape_of_command cs = new_shapes s @ [shape] @ List.map_filter shape_of_command zs"
    using assms(2) by (simp add: new_shapes_def map_filter_append List.map_filter_def)
  then show ?thesis by (simp add: nth_opt_def)
qed

lemma later_push [simp]: "later env cs (push_command c s) = later env cs s"
  by (simp add: later_def push_command_def)

lemma step_follows:
  assumes inv: "replay_inv env s" and orph: "no_orphans (e_history env)"
    and call: "ctx_step env False st inp s = (r, t)" and pre: "prefix (w_commands t) cs"
  shows "(\<exists>e. r = Inl e \<and> is_integrity_error e) \<or>
     (replay_inv env t \<and> ctx_step (next_env env cs clk trg) False st inp (later env cs s) = (r, later env cs t))"
proof -
  define s1 where "s1 = s\<lparr>w_step := w_step s + 1\<rparr>"
  define sid where "sid = step_id (w_step s + 1)"
  define shape where "shape = ShapeStep sid st inp"
  have log1: "issued_log s1 = issued_log s" "new_shapes s1 = new_shapes s" "new_times s1 = new_times s"
    "w_matcher s1 = w_matcher s"
    by (simp_all add: s1_def issued_log_def new_shapes_def new_times_def)
  have m1: "matcher_inv env s1" using inv log1 by (simp add: replay_inv_def matcher_inv_def)
  have lat1: "later env cs s1 = (later env cs s)\<lparr>w_step := w_step s + 1\<rparr>" by (simp add: later_def s1_def)
  have inv_t: "replay_inv env u" if "logged s1 shape u" "w_step u = w_step s + 1" "w_timer u = w_timer s"
      "w_child u = w_child s" "w_times u = w_times s" "w_patches u = w_patches s" "new_times u = new_times s" for u
    using inv that logged_ids [OF that(1)] logged_matcher_inv [OF that(1) m1]
    by (simp add: replay_inv_def log1 shape_def sid_def)
  obtain q s2 where iss: "issue_command shape False s1 = (q, s2)" by fastforce
  note live = issue_live [OF m1 iss, of cs]
  have s2: "s2 = bump s1" using live by simp
  let ?res = "first_outcome 0 (step_outcome_of sid st) (e_history env)"
  have call1: "ctx_step env False st inp s = (case q of Inl e \<Rightarrow> (Inl e, s2)
      | Inr known \<Rightarrow> (case ?res of Some x \<Rightarrow> (Inr (promise_of (Some x)), s2)
         | None \<Rightarrow> (Inr PNever, if known then s2 else push_command (ScheduleStep sid st inp) s2)))"
    using iss by (simp add: ctx_step_def Let_def s1_def sid_def shape_def split: sum.splits option.splits)
  have call2: "ctx_step (next_env env cs clk trg) False st inp (later env cs s) =
      (case issue_command shape False (later env cs s1) of (q', s2') \<Rightarrow> case q' of Inl e \<Rightarrow> (Inl e, s2')
       | Inr known \<Rightarrow> (case ?res of Some x \<Rightarrow> (Inr (promise_of (Some x)), s2')
         | None \<Rightarrow> (Inr PNever, if known then s2' else push_command (ScheduleStep sid st inp) s2')))"
    by (simp add: ctx_step_def Let_def lat1 sid_def shape_def split: sum.splits option.splits prod.splits)
  consider (err) e where "q = Inl e" "is_integrity_error e"
    | (known) "q = Inr True" "logged s1 shape s2" "issue_command shape False (later env cs s1) = (Inr True, later env cs s2)"
    | (new) "q = Inr False" "length (recorded_shapes (e_history env)) \<le> m_issued (w_matcher s1)"
        "logged s1 shape (push_command (ScheduleStep sid st inp) s2)"
        "nth_opt (List.map_filter shape_of_command cs) (length (new_shapes s1)) = Some shape \<longrightarrow>
          issue_command shape False (later env cs s1) = (Inr True, later env cs s2)"
    using live by (auto simp: shape_def)
  then show ?thesis
  proof cases
    case err
    with call call1 show ?thesis by auto
  next
    case known
    then have "t = s2" using call call1 by (auto split: option.splits)
    moreover have "replay_inv env s2" by (rule inv_t [OF known(2)]) (simp_all add: s2 s1_def new_times_def)
    ultimately show ?thesis using call call1 call2 known by (auto split: option.splits)
  next
    case new
    have "sid \<notin> set (shape_ids is_step (recorded_shapes (e_history env)))"
    proof
      assume "sid \<in> set (shape_ids is_step (recorded_shapes (e_history env)))"
      then have "sid \<in> set (shape_ids is_step (issued_log s))"
        using issued_log_past [OF m1 new(2)] log1 by simp
      with inv show False by (auto simp: replay_inv_def sid_def)
    qed
    then have none: "?res = None" using orphans(1) [OF orph] by (cases ?res) auto
    then have t: "t = push_command (ScheduleStep sid st inp) s2" and r: "r = Inr PNever"
      using call call1 new(1) by simp_all
    have "nth_opt (List.map_filter shape_of_command cs) (length (new_shapes s1)) = Some shape"
      using prefix_new_shape [OF pre [unfolded t]] by (simp add: s2 shape_def)
    moreover have "replay_inv env t"
      unfolding t by (rule inv_t [OF new(3)]) (simp_all add: s2 s1_def push_command_def bump_def new_times_def map_filter_append time_of_command_def List.map_filter_def)
    ultimately show ?thesis using new(4) call2 none by (simp add: t r)
  qed
qed

lemma to_instant_in_range: "wakes_in_range clock d \<Longrightarrow> is_finite_num d \<Longrightarrow> 0 \<le> num_value d \<Longrightarrow>
    \<exists>t. to_instant (of_int clock + num_value d) = Inr t"
  by (auto simp: wakes_in_range_def to_instant_def)

lemma sleep_follows:
  assumes inv: "replay_inv env s" and orph: "no_orphans (e_history env)" and rng: "wakes_in_range (e_clock env) d"
    and call: "ctx_sleep env False d s = (r, t)" and pre: "prefix (w_commands t) cs"
  shows "(\<exists>e. r = Inl e \<and> is_integrity_error e) \<or>
     (replay_inv env t \<and> ctx_sleep (next_env env cs clk trg) False d (later env cs s) = (r, later env cs t))"
proof (cases "sleep_duration_error d")
  case (Some invalid)
  with call inv show ?thesis by (auto simp: ctx_sleep_def)
next
  case valid: None
  then have fin: "is_finite_num d" "0 \<le> num_value d" by (auto simp: sleep_duration_error_def split: if_splits)
  then have notnan: "d \<noteq> NaN" by (auto simp: is_finite_num_def)
  obtain fire_at where fire: "to_instant (of_int (e_clock env) + num_value d) = Inr fire_at"
    using to_instant_in_range [OF rng fin] by blast
  define s1 where "s1 = s\<lparr>w_timer := w_timer s + 1\<rparr>"
  define tid where "tid = timer_id (w_timer s + 1)"
  define shape where "shape = ShapeTimer tid (Some d)"
  have log1: "issued_log s1 = issued_log s" "new_shapes s1 = new_shapes s" "new_times s1 = new_times s"
    "w_matcher s1 = w_matcher s"
    by (simp_all add: s1_def issued_log_def new_shapes_def new_times_def)
  have m1: "matcher_inv env s1" using inv log1 by (simp add: replay_inv_def matcher_inv_def)
  have lat1: "later env cs s1 = (later env cs s)\<lparr>w_timer := w_timer s + 1\<rparr>" by (simp add: later_def s1_def)
  have inv_t: "replay_inv env u" if "logged s1 shape u" "w_step u = w_step s" "w_timer u = w_timer s + 1"
      "w_child u = w_child s" "w_times u = w_times s" "w_patches u = w_patches s" "new_times u = new_times s" for u
    using inv that logged_ids [OF that(1)] logged_matcher_inv [OF that(1) m1]
    by (simp add: replay_inv_def log1 shape_def tid_def)
  obtain q s2 where iss: "issue_command shape False s1 = (q, s2)" by fastforce
  note live = issue_live [OF m1 iss, of cs]
  have s2: "s2 = bump s1" using live by simp
  let ?res = "first_outcome 0 (timer_outcome_of tid) (e_history env)"
  have call1: "ctx_sleep env False d s = (case q of Inl e \<Rightarrow> (Inl e, s2)
      | Inr known \<Rightarrow> (case ?res of Some x \<Rightarrow> (Inr (promise_of (Some x)), s2)
         | None \<Rightarrow> (Inr PNever, if known then s2 else push_command (StartTimer tid fire_at d) s2)))"
    using iss valid fire by (simp add: ctx_sleep_def Let_def s1_def tid_def shape_def split: sum.splits option.splits)
  have call2: "ctx_sleep (next_env env cs clk trg) False d (later env cs s) = (Inr p, s2')"
    if "issue_command shape False (later env cs s1) = (Inr True, s2')"
      "p = (case ?res of Some x \<Rightarrow> promise_of (Some x) | None \<Rightarrow> PNever)" for p s2'
    using that valid
    by (simp add: ctx_sleep_def Let_def lat1 tid_def shape_def split: sum.splits option.splits prod.splits)
  consider (err) e where "q = Inl e" "is_integrity_error e"
    | (known) "q = Inr True" "logged s1 shape s2" "issue_command shape False (later env cs s1) = (Inr True, later env cs s2)"
    | (new) "q = Inr False" "length (recorded_shapes (e_history env)) \<le> m_issued (w_matcher s1)"
        "logged s1 shape (push_command (StartTimer tid fire_at d) s2)"
        "nth_opt (List.map_filter shape_of_command cs) (length (new_shapes s1)) = Some shape \<longrightarrow>
          issue_command shape False (later env cs s1) = (Inr True, later env cs s2)"
    using live notnan by (auto simp: shape_def)
  then show ?thesis
  proof cases
    case err
    with call call1 show ?thesis by auto
  next
    case known
    then have "t = s2" using call call1 by (auto split: option.splits)
    moreover have "replay_inv env s2" by (rule inv_t [OF known(2)]) (simp_all add: s2 s1_def new_times_def)
    ultimately show ?thesis using call call1 call2 [OF known(3) refl] known by (auto split: option.splits)
  next
    case new
    have "tid \<notin> set (shape_ids is_timer (recorded_shapes (e_history env)))"
    proof
      assume "tid \<in> set (shape_ids is_timer (recorded_shapes (e_history env)))"
      then have "tid \<in> set (shape_ids is_timer (issued_log s))"
        using issued_log_past [OF m1 new(2)] log1 by simp
      with inv show False by (auto simp: replay_inv_def tid_def)
    qed
    then have none: "?res = None" using orphans(2) [OF orph] by (cases ?res) (auto simp: tid_def)
    then have t: "t = push_command (StartTimer tid fire_at d) s2" and r: "r = Inr PNever"
      using call call1 new(1) by simp_all
    have "nth_opt (List.map_filter shape_of_command cs) (length (new_shapes s1)) = Some shape"
      using prefix_new_shape [OF pre [unfolded t]] by (simp add: s2 shape_def)
    moreover have "replay_inv env t"
      unfolding t by (rule inv_t [OF new(3)]) (simp_all add: s2 s1_def push_command_def bump_def new_times_def map_filter_append time_of_command_def List.map_filter_def)
    ultimately show ?thesis using new(4) call2 none by (simp add: t r)
  qed
qed

lemma child_follows:
  assumes inv: "replay_inv env s" and orph: "no_orphans (e_history env)"
    and call: "ctx_start_child env False wt inp opt s = (r, t)" and pre: "prefix (w_commands t) cs"
  shows "(\<exists>e. r = Inl e \<and> is_integrity_error e) \<or>
     (replay_inv env t \<and> ctx_start_child (next_env env cs clk trg) False wt inp opt (later env cs s) = (r, later env cs t))"
proof -
  define s1 where "s1 = s\<lparr>w_child := w_child s + 1\<rparr>"
  define cid where "cid = child_id (w_child s + 1)"
  define shape where "shape = ShapeChild cid wt inp"
  have log1: "issued_log s1 = issued_log s" "new_shapes s1 = new_shapes s" "new_times s1 = new_times s"
    "w_matcher s1 = w_matcher s"
    by (simp_all add: s1_def issued_log_def new_shapes_def new_times_def)
  have m1: "matcher_inv env s1" using inv log1 by (simp add: replay_inv_def matcher_inv_def)
  have lat1: "later env cs s1 = (later env cs s)\<lparr>w_child := w_child s + 1\<rparr>" by (simp add: later_def s1_def)
  show ?thesis
  proof (cases "e_max_children env < w_child s + 1")
    case True
    then have t: "t = s1" and r: "r = Inl (child_limit_exceeded_error (e_max_children env))"
      using call by (auto simp: ctx_start_child_def Let_def s1_def)
    have "replay_inv env s1" using inv True m1 by (simp add: replay_inv_def log1) (simp add: s1_def)
    then show ?thesis using True by (auto simp: ctx_start_child_def Let_def t r lat1)
  next
    case room: False
    have inv_t: "replay_inv env u" if "logged s1 shape u" "w_step u = w_step s" "w_timer u = w_timer s"
        "w_child u = w_child s + 1" "w_times u = w_times s" "w_patches u = w_patches s" "new_times u = new_times s" for u
      using inv that logged_ids [OF that(1)] logged_matcher_inv [OF that(1) m1] room
      by (simp add: replay_inv_def log1 shape_def cid_def min_def)
    obtain q s2 where iss: "issue_command shape False s1 = (q, s2)" by fastforce
    note live = issue_live [OF m1 iss, of cs]
    have s2: "s2 = bump s1" using live by simp
    let ?c = "StartChild cid wt inp (optional (co_policy opt) PolicyCancel) (co_run_timeout opt) (co_execution_timeout opt)"
    let ?res = "first_outcome 0 (child_outcome_of cid) (e_history env)"
    let ?p = "case ?res of Some x \<Rightarrow> promise_of (Some x) | None \<Rightarrow> PNever"
    have call1: "ctx_start_child env False wt inp opt s = (case q of Inl e \<Rightarrow> (Inl e, s2)
        | Inr known \<Rightarrow> (Inr (cid, ?p), if known then s2 else push_command ?c s2))"
      using iss room by (simp add: ctx_start_child_def Let_def s1_def cid_def shape_def split: sum.splits option.splits)
    have call2: "ctx_start_child (next_env env cs clk trg) False wt inp opt (later env cs s) = (Inr (cid, ?p), s2')"
      if "issue_command shape False (later env cs s1) = (Inr True, s2')" for s2'
      using that room
      by (simp add: ctx_start_child_def Let_def lat1 cid_def shape_def split: sum.splits option.splits prod.splits)
    consider (err) e where "q = Inl e" "is_integrity_error e"
      | (known) "q = Inr True" "logged s1 shape s2" "issue_command shape False (later env cs s1) = (Inr True, later env cs s2)"
      | (new) "q = Inr False" "logged s1 shape (push_command ?c s2)"
          "nth_opt (List.map_filter shape_of_command cs) (length (new_shapes s1)) = Some shape \<longrightarrow>
            issue_command shape False (later env cs s1) = (Inr True, later env cs s2)"
      using live by (auto simp: shape_def)
    then show ?thesis
    proof cases
      case err
      with call call1 show ?thesis by auto
    next
      case known
      then have "t = s2" "r = Inr (cid, ?p)" using call call1 by auto
      moreover have "replay_inv env s2" by (rule inv_t [OF known(2)]) (simp_all add: s2 s1_def new_times_def)
      ultimately show ?thesis using call2 [OF known(3)] by simp
    next
      case new
      then have t: "t = push_command ?c s2" and r: "r = Inr (cid, ?p)" using call call1 by auto
      have "nth_opt (List.map_filter shape_of_command cs) (length (new_shapes s1)) = Some shape"
        using prefix_new_shape [OF pre [unfolded t]] by (simp add: s2 shape_def)
      moreover have "replay_inv env t"
        unfolding t by (rule inv_t [OF new(2)]) (simp_all add: s2 s1_def push_command_def bump_def new_times_def map_filter_append time_of_command_def List.map_filter_def)
      ultimately show ?thesis using new(3) call2 by (simp add: t r)
    qed
  qed
qed

section \<open>What is decided stays decided\<close>

definition grows :: "replay_state \<Rightarrow> replay_state \<Rightarrow> bool" where
  "grows s t \<longleftrightarrow> prefix (w_commands s) (w_commands t) \<and> dom (w_patches s) \<subseteq> dom (w_patches t) \<and>
     (dom (w_patches s) \<subseteq> set (w_consulted s) \<longrightarrow> dom (w_patches t) \<subseteq> set (w_consulted t)) \<and>
     (\<forall>p b. p \<in> dom (w_patches s) \<longrightarrow> RecordPatch p b \<in> set (w_commands t) \<longrightarrow> RecordPatch p b \<in> set (w_commands s))"

definition leads :: "replay_state \<Rightarrow> command list \<Rightarrow> bool" where
  "leads t cs \<longleftrightarrow> prefix (w_commands t) cs \<and>
     (\<forall>p b. p \<in> dom (w_patches t) \<longrightarrow> RecordPatch p b \<in> set cs \<longrightarrow> RecordPatch p b \<in> set (w_commands t))"

lemma grows_refl [simp]: "grows s s"
  by (simp add: grows_def)

lemma grows_trans: "grows a b \<Longrightarrow> grows b c \<Longrightarrow> grows a c"
  unfolding grows_def by (blast intro: prefix_order.trans)

lemma leads_grows: "leads t cs \<Longrightarrow> grows s t \<Longrightarrow> leads s cs"
  unfolding leads_def grows_def by (blast intro: prefix_order.trans)

lemma leads_self: "leads t (w_commands t)"
  by (simp add: leads_def)

lemma grows_same: "w_commands t = w_commands s \<Longrightarrow> w_patches t = w_patches s \<Longrightarrow> w_consulted t = w_consulted s \<Longrightarrow> grows s t"
  by (simp add: grows_def)

lemma grows_push:
  "w_commands t = w_commands s @ [c] \<Longrightarrow> w_patches t = w_patches s \<Longrightarrow> w_consulted t = w_consulted s \<Longrightarrow> (\<And>p b. c \<noteq> RecordPatch p b) \<Longrightarrow> grows s t"
  by (auto simp: grows_def)

lemma issue_frame:
  "issue_command shape c s = (r, t) \<Longrightarrow> w_commands t = w_commands s \<and> w_patches t = w_patches s \<and> w_consulted t = w_consulted s"
  by (auto simp: issue_command_def split: prod.splits)

lemma grows_step: "ctx_step env c st inp s = (r, t) \<Longrightarrow> grows s t"
  by (auto simp: ctx_step_def Let_def push_command_def dest!: issue_frame
      split: prod.splits sum.splits option.splits if_splits intro: grows_same grows_push)

lemma grows_sleep: "ctx_sleep env c d s = (r, t) \<Longrightarrow> grows s t"
  by (auto simp: ctx_sleep_def Let_def push_command_def dest!: issue_frame
      split: prod.splits sum.splits option.splits if_splits intro: grows_same grows_push)

lemma grows_signal: "ctx_wait_for_signal env c n s = (r, t) \<Longrightarrow> grows s t"
  by (auto simp: ctx_wait_for_signal_def Let_def intro: grows_same)

lemma grows_child: "ctx_start_child env c wt inp opt s = (r, t) \<Longrightarrow> grows s t"
  by (auto simp: ctx_start_child_def Let_def push_command_def dest!: issue_frame
      split: prod.splits sum.splits option.splits if_splits intro: grows_same grows_push)

lemma grows_now: "ctx_now env s = (r, t) \<Longrightarrow> grows s t"
  by (auto simp: ctx_now_def Let_def push_command_def split: option.splits intro: grows_same grows_push)

lemma grows_patch: "decide_patch env pid s = (r, t) \<Longrightarrow> grows s t"
  by (auto simp: decide_patch_def Let_def push_command_def grows_def dest!: issue_frame
      split: prod.splits sum.splits option.splits if_splits) (use domI in fast)+

interpretation growing: call_relation grows
proof
  show "grows s t" if "ctx_step env c st inp s = (r, t)" for env c st inp s r t using that by (rule grows_step)
  show "grows s t" if "ctx_sleep env c d s = (r, t)" for env c d s r t using that by (rule grows_sleep)
  show "grows s t" if "ctx_wait_for_signal env c n s = (r, t)" for env c n s r t using that by (rule grows_signal)
  show "grows s t" if "ctx_start_child env c wt inp opt s = (r, t)" for env c wt inp opt s r t
    using that by (rule grows_child)
  show "grows s t" if "ctx_now env s = (r, t)" for env s r t using that by (rule grows_now)
  show "grows s t" if "decide_patch env pid s = (r, t)" for env pid s r t using that by (rule grows_patch)
qed (auto intro: grows_trans grows_same)

section \<open>The remaining calls follow\<close>

lemma signal_follows:
  assumes inv: "replay_inv env s" and call: "ctx_wait_for_signal env False n s = (p, t)"
  shows "replay_inv env t \<and> ctx_wait_for_signal (next_env env cs clk trg) False n (later env cs s) = (p, later env cs t)"
proof -
  have t: "t = s\<lparr>w_signals := (w_signals s)(n := w_signals s n + 1)\<rparr>"
    using call by (auto simp: ctx_wait_for_signal_def Let_def)
  have "issued_log t = issued_log s" "new_shapes t = new_shapes s" "new_times t = new_times s"
    by (simp_all add: t issued_log_def new_shapes_def new_times_def)
  then have "replay_inv env t" using inv by (simp add: replay_inv_def matcher_inv_def) (simp add: t)
  moreover have "later env cs t = (later env cs s)\<lparr>w_signals := (w_signals s)(n := w_signals s n + 1)\<rparr>"
    by (simp add: t later_def)
  ultimately show ?thesis using call by (auto simp: ctx_wait_for_signal_def Let_def)
qed

lemma now_follows:
  assumes inv: "replay_inv env s" and call: "ctx_now env s = (x, t)" and pre: "prefix (w_commands t) cs"
  shows "replay_inv env t \<and> ctx_now (next_env env cs clk trg) (later env cs s) = (x, later env cs t)"
proof -
  let ?T = "recorded_times (e_history env)" and ?k = "w_times s"
  define s1 where "s1 = s\<lparr>w_times := ?k + 1\<rparr>"
  have len: "length (new_times s) = ?k - length ?T" using inv by (simp add: replay_inv_def)
  have log1: "issued_log s1 = issued_log s" "new_shapes s1 = new_shapes s" "new_times s1 = new_times s"
    "w_matcher s1 = w_matcher s" "w_patches s1 = w_patches s"
    by (simp_all add: s1_def issued_log_def new_shapes_def new_times_def)
  have lat1: "later env cs s1 = (later env cs s)\<lparr>w_times := ?k + 1\<rparr>" by (simp add: later_def s1_def)
  have call2: "ctx_now (next_env env cs clk trg) (later env cs s) = (y, later env cs s1)"
    if "nth_opt (?T @ List.map_filter time_of_command cs) ?k = Some y" for y
    using that by (simp add: ctx_now_def Let_def lat1)
  show ?thesis
  proof (cases "nth_opt ?T ?k")
    case (Some y)
    then have "t = s1" "x = y" using call by (auto simp: ctx_now_def Let_def s1_def)
    moreover have "replay_inv env s1"
    proof -
      have "?k < length ?T" using Some by (simp add: nth_opt_Some_iff)
      then show ?thesis using inv log1 by (simp add: replay_inv_def matcher_inv_def) (simp add: s1_def)
    qed
    ultimately show ?thesis using call2 [OF nth_opt_append1 [OF Some]] by simp
  next
    case None
    then have t: "t = push_command (RecordTime x) s1" using call by (auto simp: ctx_now_def Let_def s1_def)
    have le: "length ?T \<le> ?k" using None by (simp add: nth_opt_None_iff)
    obtain zs where "cs = w_commands s @ [RecordTime x] @ zs"
      using pre by (auto simp: t push_command_def prefix_def s1_def)
    then have "List.map_filter time_of_command cs = new_times s @ [x] @ List.map_filter time_of_command zs"
      by (simp add: new_times_def map_filter_append List.map_filter_def time_of_command_def)
    then have "nth_opt (?T @ List.map_filter time_of_command cs) ?k = Some x"
      using len le by (simp add: nth_opt_def nth_append)
    moreover have "replay_inv env t"
    proof -
      have "issued_log t = issued_log s" "new_shapes t = new_shapes s" "w_matcher t = w_matcher s"
        "new_times t = new_times s @ [x]"
        using log1 by (simp_all add: t issued_log_def time_of_command_def) (simp_all add: push_command_def)
      then show ?thesis
        using inv len le by (simp add: replay_inv_def matcher_inv_def) (simp add: t push_command_def s1_def Suc_diff_le)
    qed
    ultimately show ?thesis using call2 by (simp add: t)
  qed
qed

lemma patch_in_map_filter:
  "ShapePatch p \<in> set (List.map_filter shape_of_command cs) \<longleftrightarrow> (\<exists>b. RecordPatch p b \<in> set cs)"
proof (induction cs)
  case (Cons c cs)
  then show ?case by (cases c) (auto simp: List.map_filter_def)
qed (simp add: List.map_filter_def)

lemma shape_ids_patch: "p \<in> set (shape_ids is_patch xs) \<longleftrightarrow> ShapePatch p \<in> set xs"
proof (induction xs)
  case (Cons x xs)
  then show ?case by (cases x) auto
qed simp

lemma patch_follows:
  assumes inv: "replay_inv env s" and call: "decide_patch env pid s = (r, t)" and lead: "leads t cs"
  shows "(\<exists>e. r = Inl e \<and> is_integrity_error e) \<or>
     (replay_inv env t \<and> decide_patch (next_env env cs clk trg) pid (later env cs s) = (r, later env cs t))"
proof -
  let ?h = "e_history env" and ?e = "next_env env cs clk trg"
  define s1 where "s1 = s\<lparr>w_consulted := List.insert pid (w_consulted s)\<rparr>"
  have log1: "issued_log s1 = issued_log s" "new_shapes s1 = new_shapes s" "new_times s1 = new_times s"
    "w_matcher s1 = w_matcher s" "w_patches s1 = w_patches s" "w_commands s1 = w_commands s"
    by (simp_all add: s1_def issued_log_def new_shapes_def new_times_def)
  have m1: "matcher_inv env s1" using inv log1 by (simp add: replay_inv_def matcher_inv_def)
  have inv1: "replay_inv env s1"
    using inv log1 by (simp add: replay_inv_def matcher_inv_def) (simp add: s1_def)
  have lat1: "later env cs s1 = (later env cs s)\<lparr>w_consulted := List.insert pid (w_consulted s)\<rparr>"
    by (simp add: later_def s1_def)
  have ids: "pid \<in> set (recorded_patch_ids (e_history ?e)) \<longleftrightarrow>
      pid \<in> set (recorded_patch_ids ?h) \<or> ShapePatch pid \<in> set (List.map_filter shape_of_command cs)"
    using recorded_patch_ids_next [of ?h cs] by auto
  show ?thesis
  proof (cases "w_patches s pid")
    case (Some b)
    then have "t = s1" "r = Inr b" using call by (simp_all add: decide_patch_def Let_def s1_def)
    moreover have "decide_patch ?e pid (later env cs s) = (Inr b, later env cs s1)"
      using Some by (simp add: decide_patch_def Let_def lat1)
    ultimately show ?thesis using inv1 by simp
  next
    case none: None
    then have undecided: "ShapePatch pid \<notin> set (issued_log s)"
      using inv shape_ids_patch [of pid "issued_log s"] by (auto simp: replay_inv_def)
    obtain q s2 where iss: "issue_command (ShapePatch pid) False s1 = (q, s2)" by fastforce
    note live = issue_live [OF m1 iss, of cs]
    have s2: "s2 = bump s1" using live by simp
    have inv_t: "replay_inv env u" if "logged s1 (ShapePatch pid) u" "w_step u = w_step s" "w_timer u = w_timer s"
        "w_child u = w_child s" "w_times u = w_times s" "w_patches u = (w_patches s)(pid \<mapsto> True)" "new_times u = new_times s" for u
      using inv that logged_ids [OF that(1)] logged_matcher_inv [OF that(1) m1]
      by (auto simp: replay_inv_def log1)
    let ?t = "s2\<lparr>w_patches := (w_patches s2)(pid \<mapsto> True)\<rparr>"
    have logt: "issued_log ?t = issued_log s2" "new_shapes ?t = new_shapes s2" "w_matcher ?t = w_matcher s2"
      "new_times ?t = new_times s"
      by (simp_all add: issued_log_def new_shapes_def new_times_def) (simp add: s2 bump_def s1_def)
    have latt: "later env cs ?t = (later env cs s2)\<lparr>w_patches := (w_patches s2)(pid \<mapsto> True)\<rparr>"
      by (simp add: later_def)
    have met: "decide_patch ?e pid (later env cs s) = (Inr True, later env cs ?t)"
      if "pid \<in> set (recorded_patch_ids (e_history ?e))"
        "issue_command (ShapePatch pid) False (later env cs s1) = (Inr True, later env cs s2)"
      using that none log1(5) by (simp add: decide_patch_def Let_def lat1 [symmetric] latt)
    show ?thesis
    proof (cases "pid \<in> set (recorded_patch_ids ?h)")
      case rec: True
      have call1: "(r, t) = (case q of Inl e \<Rightarrow> (Inl e, s2) | Inr _ \<Rightarrow> (Inr True, ?t))"
        using call none rec iss by (simp add: decide_patch_def Let_def s1_def split: sum.splits)
      consider (err) e where "q = Inl e" "is_integrity_error e"
        | (known) "q = Inr True" "logged s1 (ShapePatch pid) s2"
            "issue_command (ShapePatch pid) False (later env cs s1) = (Inr True, later env cs s2)"
        | (new) "length (recorded_shapes ?h) \<le> m_issued (w_matcher s1)"
        using live by auto
      then show ?thesis
      proof cases
        case err
        with call1 show ?thesis by auto
      next
        case known
        then have rt: "r = Inr True" "t = ?t" using call1 by simp_all
        have "logged s1 (ShapePatch pid) ?t" using known(2) by (simp add: logged_def logt)
        then have "replay_inv env ?t"
          by (rule inv_t) (simp_all add: logt, simp_all add: s2 s1_def bump_def)
        then show ?thesis using met [OF _ known(3)] ids rec by (simp add: rt)
      next
        case new
        then have "ShapePatch pid \<in> set (issued_log s)"
          using issued_log_past [OF m1 new] rec recorded_patch_shapes log1 by simp
        with undecided show ?thesis by simp
      qed
    next
      case unrec: False
      show ?thesis
      proof (cases "w_step s + w_timer s + w_child s < recorded_command_count ?h")
        case early: True
        let ?u = "s1\<lparr>w_patches := (w_patches s1)(pid \<mapsto> False)\<rparr>"
        have rt: "r = Inr False" "t = ?u"
          using call none unrec early by (simp_all add: decide_patch_def Let_def s1_def)
        have "RecordPatch pid b \<notin> set cs" for b
        proof
          assume "RecordPatch pid b \<in> set cs"
          with lead have "RecordPatch pid b \<in> set (w_commands s)" by (auto simp: leads_def rt log1)
          then have "ShapePatch pid \<in> set (new_shapes s)"
            by (auto simp: new_shapes_def patch_in_map_filter)
          with undecided show False by (simp add: issued_log_def)
        qed
        then have "pid \<notin> set (recorded_patch_ids (e_history ?e))"
          using ids unrec by (auto simp: patch_in_map_filter)
        moreover have "w_step s + w_timer s + w_child s < recorded_command_count (e_history ?e)"
          using early recorded_command_count_next [of ?h "map command_to_event cs"] by simp
        ultimately have "decide_patch ?e pid (later env cs s) = (Inr False, later env cs ?u)"
          using none by (simp add: decide_patch_def Let_def del: next_env_simps(1)) (simp add: later_def s1_def)
        moreover have "replay_inv env ?u"
        proof -
          have "issued_log ?u = issued_log s" "new_shapes ?u = new_shapes s" "new_times ?u = new_times s"
            "w_matcher ?u = w_matcher s"
            using log1 by (simp_all add: issued_log_def new_shapes_def new_times_def)
          then show ?thesis using inv by (simp add: replay_inv_def matcher_inv_def) (auto simp: s1_def)
        qed
        ultimately show ?thesis by (simp add: rt)
      next
        case late: False
        let ?c = "RecordPatch pid (e_build env)"
        let ?s3 = "push_command ?c s2"
        let ?u = "?s3\<lparr>w_patches := (w_patches ?s3)(pid \<mapsto> True)\<rparr>"
        have call1: "(r, t) = (case q of Inl e \<Rightarrow> (Inl e, s2) | Inr _ \<Rightarrow> (Inr True, ?u))"
          using call none unrec late iss by (cases q) (auto simp: decide_patch_def Let_def s1_def)
        have not_known: "q \<noteq> Inr True"
        proof
          assume "q = Inr True"
          then have "fst (matcher_issue (ShapePatch pid) False (w_matcher s)) = Inr True"
            using iss log1 by (auto simp: issue_command_def split: prod.splits)
          then obtain x where "nth_opt (m_recorded (w_matcher s)) (m_issued (w_matcher s)) = Some x"
            "same_command x (ShapePatch pid)" by (auto simp: matcher_issue_Inr_True)
          then have "ShapePatch pid \<in> set (recorded_shapes ?h)"
            using inv by (cases x) (auto simp: replay_inv_def matcher_inv_def nth_opt_Some_iff dest: nth_mem)
          with unrec show False by (simp add: recorded_patch_shapes)
        qed
        consider (err) e where "q = Inl e" "is_integrity_error e"
          | (new) "q = Inr False" "logged s1 (ShapePatch pid) ?s3"
              "nth_opt (List.map_filter shape_of_command cs) (length (new_shapes s1)) = Some (ShapePatch pid) \<longrightarrow>
                issue_command (ShapePatch pid) False (later env cs s1) = (Inr True, later env cs s2)"
          using live not_known by auto
        then show ?thesis
        proof cases
          case err
          with call1 show ?thesis by auto
        next
          case new
          then have rt: "r = Inr True" "t = ?u" using call1 by simp_all
          have "prefix (w_commands ?s3) cs" using lead by (simp add: leads_def rt)
          from prefix_new_shape [OF this]
          have at: "nth_opt (List.map_filter shape_of_command cs) (length (new_shapes s1)) = Some (ShapePatch pid)"
            by (simp add: s2)
          then have "ShapePatch pid \<in> set (List.map_filter shape_of_command cs)"
            by (auto simp: nth_opt_Some_iff dest: nth_mem)
          then have "pid \<in> set (recorded_patch_ids (e_history ?e))" using ids by simp
          moreover have "later env cs ?u = later env cs ?t" by (simp add: later_def push_command_def)
          ultimately have "decide_patch ?e pid (later env cs s) = (Inr True, later env cs ?u)"
            using met new(3) at by simp
          moreover have "logged s1 (ShapePatch pid) ?u"
            using new(2) by (simp add: logged_patches)
          then have "replay_inv env ?u"
            by (rule inv_t) (simp_all add: push_command_def s2 s1_def bump_def new_times_def map_filter_append time_of_command_def List.map_filter_def)
          ultimately show ?thesis by (simp add: rt)
        qed
      qed
    qed
  qed
qed

lemma task_follows:
  assumes inv: "replay_inv env s" and orph: "no_orphans (e_history env)" and rng: "task_in_range (e_clock env) tk"
    and call: "run_task env False tk s = (r, t)" and lead: "leads t cs"
  shows "(\<exists>e. r = Inl e \<and> is_integrity_error e) \<or>
     (replay_inv env t \<and> run_task (next_env env cs clk trg) False tk (later env cs s) = (r, later env cs t))"
proof -
  have pre: "prefix (w_commands t) cs" using lead by (simp add: leads_def)
  show ?thesis
  proof (cases tk)
    case (TaskStep st inp)
    with step_follows [OF inv orph _ pre, of st inp r clk trg] call show ?thesis by (simp add: run_task_def)
  next
    case (TaskSleep d)
    with sleep_follows [OF inv orph _ _ pre, of d r clk trg] call rng show ?thesis by (simp add: run_task_def)
  next
    case (TaskSignal n)
    with call signal_follows [OF inv] show ?thesis by (auto simp: run_task_def split: prod.splits)
  next
    case (TaskChild wt inp opt)
    obtain q where q: "ctx_start_child env False wt inp opt s = (q, t)"
      "r = (case q of Inl e \<Rightarrow> Inl e | Inr (_, p) \<Rightarrow> Inr p)"
      using call TaskChild by (auto simp: run_task_def split: prod.splits)
    from child_follows [OF inv orph q(1) pre, of clk trg] q(2) TaskChild show ?thesis
      by (auto simp: run_task_def)
  qed
qed

lemma start_tasks_follows:
  assumes "replay_inv env s" and "no_orphans (e_history env)"
    and "list_all (\<lambda>x. task_in_range (e_clock env) (snd x)) pending"
    and "start_tasks env False limit pending running s = (r, t)" and "leads t cs"
  shows "(\<exists>e. r = Inl e \<and> is_integrity_error e) \<or>
     (replay_inv env t \<and>
      start_tasks (next_env env cs clk trg) False limit pending running (later env cs s) = (r, later env cs t) \<and>
      (\<forall>p q. r = Inr (p, q) \<longrightarrow> list_all (\<lambda>x. task_in_range (e_clock env) (snd x)) p))"
  using assms
proof (induction pending arbitrary: running s)
  case Nil
  then show ?case by auto
next
  case (Cons x pending)
  obtain i tk where x: "x = (i, tk)" by fastforce
  show ?case
  proof (cases "length running < limit")
    case False
    with Cons.prems x show ?thesis by auto
  next
    case True
    obtain q s1 where tk: "run_task env False tk s = (q, s1)" by fastforce
    show ?thesis
    proof (cases q)
      case (Inl e)
      then have rt: "r = Inl e" "t = s1" using Cons.prems(4) True tk x by auto
      with task_follows [OF Cons.prems(1,2) _ tk, of cs clk trg] Cons.prems(3,5) True Inl x
      show ?thesis by auto
    next
      case (Inr p)
      then have rest: "start_tasks env False limit pending (running @ [(i, p)]) s1 = (r, t)"
        using Cons.prems(4) True tk x by simp
      have "leads s1 cs" by (rule leads_grows [OF Cons.prems(5) growing.R_start_tasks [OF rest]])
      with task_follows [OF Cons.prems(1,2) _ tk, of cs clk trg] Cons.prems(3) Inr x
      have "replay_inv env s1" "run_task (next_env env cs clk trg) False tk (later env cs s) = (Inr p, later env cs s1)"
        by auto
      with Cons.IH [OF _ Cons.prems(2) _ rest Cons.prems(5)] Cons.prems(3) True x show ?thesis by simp
    qed
  qed
qed

lemma parallel_loop_follows:
  assumes "replay_inv env s" and "no_orphans (e_history env)"
    and "list_all (\<lambda>x. task_in_range (e_clock env) (snd x)) pending"
    and "parallel_loop env False b limit n pending running outs s = (r, t)" and "leads t cs"
  shows "(\<exists>e. r = Some (Inl e) \<and> is_integrity_error e) \<or>
     (replay_inv env t \<and>
      parallel_loop (next_env env cs clk trg) False b limit n pending running outs (later env cs s) = (r, later env cs t))"
  using assms
proof (induction n arbitrary: pending running outs s)
  case 0
  then show ?case by auto
next
  case (Suc n)
  obtain q s1 where st: "start_tasks env False limit pending running s = (q, s1)" by fastforce
  have g: "grows s1 t"
    using Suc.prems(4) st
    by (auto split: sum.splits option.splits if_splits dest: growing.R_parallel_loop)
  have l1: "leads s1 cs" by (rule leads_grows [OF Suc.prems(5) g])
  note fol = start_tasks_follows [OF Suc.prems(1-3) st l1, of clk trg]
  show ?case
  proof (cases q)
    case (Inl e)
    with fol Suc.prems(4) st show ?thesis by auto
  next
    case (Inr pr)
    obtain pending' running' where pr: "pr = (pending', running')" by fastforce
    have s1: "replay_inv env s1" "list_all (\<lambda>x. task_in_range (e_clock env) (snd x)) pending'"
      "start_tasks (next_env env cs clk trg) False limit pending running (later env cs s) = (Inr (pending', running'), later env cs s1)"
      using fol Inr pr by auto
    note IH = Suc.IH [OF s1(1) Suc.prems(2) s1(2) _ Suc.prems(5)]
    show ?thesis
      using Suc.prems(4) st Inr pr s1(1,3) IH
      by (auto split: option.splits sum.splits if_splits)
  qed
qed

lemma run_parallel_follows:
  assumes "replay_inv env s" and "no_orphans (e_history env)" and "list_all (task_in_range (e_clock env)) tasks"
    and "run_parallel env False tasks conc b s = (r, t)" and "leads t cs"
  shows "(\<exists>e. r = Some (Inl e) \<and> is_integrity_error e) \<or>
     (replay_inv env t \<and>
      run_parallel (next_env env cs clk trg) False tasks conc b (later env cs s) = (r, later env cs t))"
proof (cases "validate_concurrency conc (length tasks)")
  case (Inl e)
  with assms show ?thesis by (auto simp: run_parallel_def)
next
  case (Inr limit)
  obtain q where q: "parallel_loop env False b limit (length tasks) (zip [0..<length tasks] tasks) [] [] s = (q, t)"
    "r = (case q of None \<Rightarrow> None | Some (Inl e) \<Rightarrow> Some (Inl e) | Some (Inr outs) \<Rightarrow> Some (Inr (outcomes_in_order (length tasks) outs)))"
    using assms(4) Inr by (auto simp: run_parallel_def split: prod.splits option.splits sum.splits)
  have "list_all (\<lambda>x. task_in_range (e_clock env) (snd x)) (zip [0..<length tasks] tasks)"
    using assms(3) by (auto simp: list_all_iff set_zip)
  from parallel_loop_follows [OF assms(1,2) this q(1) assms(5), of clk trg] q(2) Inr
  show ?thesis by (auto simp: run_parallel_def split: option.splits sum.splits)
qed

section \<open>The handler follows\<close>

lemma replay_inv_other_fields [simp]:
  "replay_inv env (s\<lparr>w_draws := a\<rparr>) = replay_inv env s" "replay_inv env (s\<lparr>w_queries := b\<rparr>) = replay_inv env s"
  "replay_inv env (s\<lparr>w_compensations := c\<rparr>) = replay_inv env s" "replay_inv env (s\<lparr>w_continuation := x\<rparr>) = replay_inv env s"
  by (simp_all add: replay_inv_def matcher_inv_def issued_log_def new_shapes_def new_times_def)

lemma later_other_fields [simp]:
  "later env cs (s\<lparr>w_draws := a\<rparr>) = (later env cs s)\<lparr>w_draws := a\<rparr>"
  "later env cs (s\<lparr>w_queries := b\<rparr>) = (later env cs s)\<lparr>w_queries := b\<rparr>"
  "later env cs (s\<lparr>w_compensations := c\<rparr>) = (later env cs s)\<lparr>w_compensations := c\<rparr>"
  "later env cs (s\<lparr>w_continuation := x\<rparr>) = (later env cs s)\<lparr>w_continuation := x\<rparr>"
  by (simp_all add: later_def)

lemma replay_follows:
  assumes "well_behaved h (e_clock env)" and "no_orphans (e_history env)" and "\<not> cancel_requested env"
    and "replay_inv env s" and "replay h env False s = (st, t)" and "leads t cs"
  shows "(\<exists>e. st = Threw e \<and> is_integrity_error e) \<or>
     (replay_inv env t \<and> replay h (next_env env cs clk trg) False (later env cs s) = (st, later env cs t))"
  using assms(1,4,5)
proof (induction h arbitrary: s)
  case (Return v)
  then show ?case by auto
next
  case (Throw e)
  then show ?case by auto
next
  case (Await p k)
  then show ?case by (auto split: option.splits)
next
  case (Step sty inp k)
  obtain r s1 where call: "ctx_step env False sty inp s = (r, s1)" by fastforce
  have rest: "replay (k r) env False s1 = (st, t)" using Step.prems(3) call by simp
  have l1: "leads s1 cs" by (rule leads_grows [OF assms(6) growing.R_replay [OF rest]])
  show ?case
    using step_follows [OF Step.prems(2) assms(2) call, of cs clk trg] l1 rest Step.prems(1) call
      Step.IH [OF rangeI _ _ rest]
    by (auto simp: leads_def lets_through_def)
next
  case (Sleep d k)
  obtain r s1 where call: "ctx_sleep env False d s = (r, s1)" by fastforce
  have rest: "replay (k r) env False s1 = (st, t)" using Sleep.prems(3) call by simp
  have l1: "leads s1 cs" by (rule leads_grows [OF assms(6) growing.R_replay [OF rest]])
  show ?case
    using sleep_follows [OF Sleep.prems(2) assms(2) _ call, of cs clk trg] l1 rest Sleep.prems(1) call
      Sleep.IH [OF rangeI _ _ rest]
    by (auto simp: leads_def lets_through_def)
next
  case (WaitForSignal n k)
  obtain p s1 where call: "ctx_wait_for_signal env False n s = (p, s1)" by fastforce
  have rest: "replay (k p) env False s1 = (st, t)" using WaitForSignal.prems(3) call by simp
  show ?case
    using signal_follows [OF WaitForSignal.prems(2) call, of cs clk trg] WaitForSignal.prems(1) call
      WaitForSignal.IH [OF rangeI _ _ rest]
    by auto
next
  case (StartChildRun wt inp opt k)
  obtain r s1 where call: "ctx_start_child env False wt inp opt s = (r, s1)" by fastforce
  have rest: "replay (k r) env False s1 = (st, t)" using StartChildRun.prems(3) call by simp
  have l1: "leads s1 cs" by (rule leads_grows [OF assms(6) growing.R_replay [OF rest]])
  show ?case
    using child_follows [OF StartChildRun.prems(2) assms(2) call, of cs clk trg] l1 rest StartChildRun.prems(1) call
      StartChildRun.IH [OF rangeI _ _ rest]
    by (auto simp: leads_def lets_through_def)
next
  case (SelectFirst ps k)
  then show ?case by (auto split: option.splits)
next
  case (All ts conc b k)
  obtain q s1 where call: "run_parallel env False ts conc b s = (q, s1)" by fastforce
  show ?case
  proof (cases q)
    case None
    then have "st = Suspended_at" "t = s1" using All.prems(3) call by auto
    with run_parallel_follows [OF All.prems(2) assms(2) _ call, of cs clk trg] All.prems(1) assms(6) None
    show ?thesis by auto
  next
    case (Some r)
    then have rest: "replay (k r) env False s1 = (st, t)" using All.prems(3) call by simp
    have l1: "leads s1 cs" by (rule leads_grows [OF assms(6) growing.R_replay [OF rest]])
    show ?thesis
      using run_parallel_follows [OF All.prems(2) assms(2) _ call l1, of clk trg] rest All.prems(1) call Some
        All.IH [OF rangeI _ _ rest]
      by (auto simp: lets_through_def)
  qed
next
  case (Patched pid k)
  obtain r s1 where call: "decide_patch env pid s = (r, s1)" by fastforce
  have rest: "replay (k r) env False s1 = (st, t)" using Patched.prems(3) call by simp
  have l1: "leads s1 cs" by (rule leads_grows [OF assms(6) growing.R_replay [OF rest]])
  show ?case
    using patch_follows [OF Patched.prems(2) call l1, of clk trg] rest Patched.prems(1) call
      Patched.IH [OF rangeI _ _ rest]
    by (auto simp: lets_through_def)
next
  case (Now k)
  obtain x s1 where call: "ctx_now env s = (x, s1)" by fastforce
  have rest: "replay (k x) env False s1 = (st, t)" using Now.prems(3) call by simp
  have l1: "leads s1 cs" by (rule leads_grows [OF assms(6) growing.R_replay [OF rest]])
  show ?case
    using now_follows [OF Now.prems(2) call, of cs clk trg] l1 Now.prems(1) call Now.IH [OF rangeI _ _ rest]
    by (auto simp: leads_def)
next
  case (Random k)
  show ?case using Random.prems Random.IH [OF rangeI, of _ "s\<lparr>w_draws := w_draws s + 1\<rparr>"] by auto
next
  case (Uuid k)
  show ?case using Uuid.prems Uuid.IH [OF rangeI, of _ "s\<lparr>w_draws := w_draws s + 1\<rparr>"] by auto
next
  case (SetQueryHandler n f k)
  show ?case
    using SetQueryHandler.prems SetQueryHandler.IH [of "s\<lparr>w_queries := filter (\<lambda>(m, _). m \<noteq> n) (w_queries s) @ [(n, f)]\<rparr>"]
    by auto
next
  case (OnCancel undo k)
  show ?case
    using OnCancel.prems OnCancel.IH(2) [of "s\<lparr>w_compensations := w_compensations s @ [undo]\<rparr>"] by auto
next
  case (Continue inp k)
  then show ?case using assms(3) by auto
qed

section \<open>Decisions\<close>

lemma find_cancel_event_None: "find_cancel_event h = None \<longleftrightarrow> \<not> list_ex is_cancel_requested_event h"
proof (cases "find is_cancel_requested_event h")
  case None
  then have "\<not> list_ex is_cancel_requested_event h" by (auto simp: find_None_iff list_ex_iff)
  with None show ?thesis by (simp add: find_cancel_event_def)
next
  case (Some e)
  then have e: "is_cancel_requested_event e" "e \<in> set h" by (auto simp: find_Some_iff)
  then have "list_ex is_cancel_requested_event h" by (auto simp: list_ex_iff)
  moreover have "find_cancel_event h \<noteq> None"
    using Some e(1) by (cases e) (simp_all add: find_cancel_event_def is_cancel_requested_event_def)
  ultimately show ?thesis by simp
qed

text \<open>A replay without a cancellation, unfolded.\<close>

lemma replay_history_uncancelled:
  assumes "\<not> cancel_requested env" and "replay h env False (initial_state env) = (st, t)"
  shows "replay_history js enc env h =
     \<lparr>o_settled = settled_of js st, o_commands = w_commands t, o_queries = w_queries t,
      o_continuation = w_continuation t,
      o_unconsulted = remdups (filter (\<lambda>pid. pid \<notin> set (w_consulted t)) (recorded_patch_ids (e_history env))),
      o_unissued = assert_all_issued (w_matcher t), o_cancellation = NotRequested\<rparr>"
proof -
  have "find_cancel_event (e_history env) = None"
    using assms(1) by (simp add: find_cancel_event_None cancel_requested_def)
  then show ?thesis using assms by (simp add: replay_history_def Let_def)
qed

lemma to_error_integrity: "is_integrity_error (to_error js e) = is_integrity_error e"
  by (cases e) (auto simp: to_error_def is_integrity_error_def)

text \<open>A decision means the replay met every recorded command and no integrity error.\<close>

lemma decide_uncancelled:
  assumes "\<not> cancel_requested env" and "decide js enc env h = Inr dec"
  obtains st t where "replay h env False (initial_state env) = (st, t)"
    "\<And>e. st = Threw e \<Longrightarrow> \<not> is_integrity_error e"
    "assert_all_issued (w_matcher t) = None"
    "filter (\<lambda>pid. pid \<notin> set (w_consulted t)) (recorded_patch_ids (e_history env)) = []"
    "dec = (case w_continuation t of
        Some inp \<Rightarrow> \<lparr>de_outcome = ContinuedAsNew inp, de_commands = [Events.ContinueAsNew inp]\<rparr>
      | None \<Rightarrow> (case settled_of js st of
          None \<Rightarrow> \<lparr>de_outcome = Suspended, de_commands = w_commands t\<rparr>
        | Some (SettledCompleted v) \<Rightarrow> \<lparr>de_outcome = Completed v, de_commands = w_commands t @ [CompleteRun v]\<rparr>
        | Some (SettledFailed e) \<Rightarrow> \<lparr>de_outcome = Failed_with e, de_commands = w_commands t @ [FailRun (to_recorded_error enc e)]\<rparr>))"
proof -
  obtain st t where run: "replay h env False (initial_state env) = (st, t)" by fastforce
  note out = replay_history_uncancelled [OF assms(1) run, of js enc]
  have integ: "\<not> is_integrity_error e" if "st = Threw e" for e
    using assms(2) that
    by (auto simp: decide_def Let_def out integrity_failure_def settled_of_def to_error_integrity split: if_splits)
  have "remdups (filter (\<lambda>pid. pid \<notin> set (w_consulted t)) (recorded_patch_ids (e_history env))) = []"
    using assms(2) by (auto simp: decide_def Let_def out split: if_splits)
  then have cons: "filter (\<lambda>pid. pid \<notin> set (w_consulted t)) (recorded_patch_ids (e_history env)) = []" by simp
  have fail: "integrity_failure (settled_of js st) = None"
    using integ by (auto simp: integrity_failure_def settled_of_def to_error_integrity split: stop.splits)
  have all: "assert_all_issued (w_matcher t) = None"
    using assms(2) fail by (auto simp: decide_def Let_def out split: if_splits option.splits)
  have "dec = (case w_continuation t of
        Some inp \<Rightarrow> \<lparr>de_outcome = ContinuedAsNew inp, de_commands = [Events.ContinueAsNew inp]\<rparr>
      | None \<Rightarrow> (case settled_of js st of
          None \<Rightarrow> \<lparr>de_outcome = Suspended, de_commands = w_commands t\<rparr>
        | Some (SettledCompleted v) \<Rightarrow> \<lparr>de_outcome = Completed v, de_commands = w_commands t @ [CompleteRun v]\<rparr>
        | Some (SettledFailed e) \<Rightarrow> \<lparr>de_outcome = Failed_with e, de_commands = w_commands t @ [FailRun (to_recorded_error enc e)]\<rparr>))"
    using assms(2) fail all cons
    by (auto simp: decide_def Let_def out split: if_splits option.splits settled.splits)
  with run integ all cons that show thesis by blast
qed

lemma replay_inv_final:
  assumes "\<not> cancel_requested env" and "no_orphans (e_history env)" and "well_behaved h (e_clock env)"
    and "replay h env False (initial_state env) = (st, t)" and "\<And>e. st = Threw e \<Longrightarrow> \<not> is_integrity_error e"
  shows "replay_inv env t \<and>
     replay h (next_env env (w_commands t) clk trg) False (initial_state (next_env env (w_commands t) clk trg)) =
       (st, later env (w_commands t) t) \<and> dom (w_patches t) \<subseteq> set (w_consulted t)"
proof -
  have start: "later env (w_commands t) (initial_state env) = initial_state (next_env env (w_commands t) clk trg)"
    by (simp add: later_def initial_state_def matcher_record_def create_command_matcher_def recorded_shapes_commands)
  have "dom (w_patches t) \<subseteq> set (w_consulted t)"
    using growing.R_replay [OF assms(4)] by (simp add: grows_def initial_state_def)
  moreover from replay_follows [OF assms(3,2,1) initial_replay_inv assms(4) leads_self, of clk trg] assms(5)
  have "replay_inv env t \<and> replay h (next_env env (w_commands t) clk trg) False
      (later env (w_commands t) (initial_state env)) = (st, later env (w_commands t) t)" by blast
  ultimately show ?thesis by (simp add: start)
qed

text \<open>The replay after the commands were recorded: the same stop, nothing new, nothing missing.\<close>

lemma next_decision:
  assumes nc: "\<not> cancel_requested env" and orph: "no_orphans (e_history env)" and wb: "well_behaved h (e_clock env)"
    and dec: "decide js enc env h = Inr \<lparr>de_outcome = Suspended, de_commands = cs\<rparr>"
  shows "decide js enc (next_env env cs clk trg) h = Inr \<lparr>de_outcome = Suspended, de_commands = []\<rparr>"
proof -
  obtain st t where run: "replay h env False (initial_state env) = (st, t)"
    and integ: "\<And>e. st = Threw e \<Longrightarrow> \<not> is_integrity_error e"
    and all: "assert_all_issued (w_matcher t) = None"
    and cons: "filter (\<lambda>pid. pid \<notin> set (w_consulted t)) (recorded_patch_ids (e_history env)) = []"
    and d: "\<lparr>de_outcome = Suspended, de_commands = cs\<rparr> = (case w_continuation t of
        Some inp \<Rightarrow> \<lparr>de_outcome = ContinuedAsNew inp, de_commands = [Events.ContinueAsNew inp]\<rparr>
      | None \<Rightarrow> (case settled_of js st of
          None \<Rightarrow> \<lparr>de_outcome = Suspended, de_commands = w_commands t\<rparr>
        | Some (SettledCompleted v) \<Rightarrow> \<lparr>de_outcome = Completed v, de_commands = w_commands t @ [CompleteRun v]\<rparr>
        | Some (SettledFailed e) \<Rightarrow> \<lparr>de_outcome = Failed_with e, de_commands = w_commands t @ [FailRun (to_recorded_error enc e)]\<rparr>))"
    using decide_uncancelled [OF nc dec] by blast
  have c: "w_continuation t = None" "settled_of js st = None" "cs = w_commands t"
    using d by (auto split: option.splits settled.splits)
  have fin: "replay_inv env t" "dom (w_patches t) \<subseteq> set (w_consulted t)"
    "replay h (next_env env cs clk trg) False (initial_state (next_env env cs clk trg)) = (st, later env cs t)"
    using replay_inv_final [OF nc orph wb run integ, of clk trg] by (simp_all add: c(3))
  have nc2: "\<not> cancel_requested (next_env env cs clk trg)" using nc by simp
  have log: "m_recorded (w_matcher t) = recorded_shapes (e_history env)"
    "length (new_shapes t) = m_issued (w_matcher t) - length (recorded_shapes (e_history env))"
    using fin(1) by (simp_all add: replay_inv_def matcher_inv_def)
  have issued: "assert_all_issued (w_matcher (later env cs t)) = None"
    using all log by (simp add: assert_all_issued_None later_def c(3) new_shapes_def [symmetric])
  have past: "length (recorded_shapes (e_history env)) \<le> m_issued (w_matcher t)"
    using all log(1) by (simp add: assert_all_issued_None)
  have "p \<in> set (w_consulted t)" if "p \<in> set (recorded_patch_ids (e_history (next_env env cs clk trg)))" for p
  proof (cases "p \<in> set (recorded_patch_ids (e_history env))")
    case True
    then show ?thesis using cons by (auto simp: filter_empty_conv)
  next
    case False
    with that have "ShapePatch p \<in> set (new_shapes t)"
      using recorded_patch_ids_next [of "e_history env" cs] by (auto simp: new_shapes_def c(3))
    then have "p \<in> set (shape_ids is_patch (issued_log t))"
      by (simp add: issued_log_def shape_ids_patch)
    then show ?thesis using fin(1,2) by (auto simp: replay_inv_def)
  qed
  then have cons2: "filter (\<lambda>pid. pid \<notin> set (w_consulted t)) (recorded_patch_ids (e_history (next_env env cs clk trg))) = []"
    by (auto simp: filter_empty_conv)
  have fail: "integrity_failure (settled_of js st) = None" using c(2) by (simp add: integrity_failure_def)
  note out = replay_history_uncancelled [OF nc2 fin(3), of js enc]
  show ?thesis
    unfolding decide_def Let_def out
    using fail issued cons2 c(1,2) by (simp del: next_env_simps(1))
qed

text \<open>The ids of what is recorded and what is new count up: no command is decided twice.\<close>

lemma decision_ids:
  assumes nc: "\<not> cancel_requested env" and orph: "no_orphans (e_history env)" and wb: "well_behaved h (e_clock env)"
    and dec: "decide js enc env h = Inr d" and "\<forall>inp. de_outcome d \<noteq> ContinuedAsNew inp"
  shows "\<exists>n m k. shape_ids is_step (recorded_shapes (e_history env @ map command_to_event (de_commands d))) = map step_id [1..<Suc n] \<and>
     shape_ids is_timer (recorded_shapes (e_history env @ map command_to_event (de_commands d))) = map timer_id [1..<Suc m] \<and>
     shape_ids is_child (recorded_shapes (e_history env @ map command_to_event (de_commands d))) = map child_id [1..<Suc k] \<and>
     k \<le> e_max_children env"
proof -
  obtain st t where run: "replay h env False (initial_state env) = (st, t)"
    and integ: "\<And>e. st = Threw e \<Longrightarrow> \<not> is_integrity_error e"
    and all: "assert_all_issued (w_matcher t) = None"
    and d: "d = (case w_continuation t of
        Some inp \<Rightarrow> \<lparr>de_outcome = ContinuedAsNew inp, de_commands = [Events.ContinueAsNew inp]\<rparr>
      | None \<Rightarrow> (case settled_of js st of
          None \<Rightarrow> \<lparr>de_outcome = Suspended, de_commands = w_commands t\<rparr>
        | Some (SettledCompleted v) \<Rightarrow> \<lparr>de_outcome = Completed v, de_commands = w_commands t @ [CompleteRun v]\<rparr>
        | Some (SettledFailed e) \<Rightarrow> \<lparr>de_outcome = Failed_with e, de_commands = w_commands t @ [FailRun (to_recorded_error enc e)]\<rparr>))"
    using decide_uncancelled [OF nc dec] by blast
  have inv: "replay_inv env t" using replay_inv_final [OF nc orph wb run integ] by blast
  have "List.map_filter shape_of_command (de_commands d) = new_shapes t"
    using d assms(5)
    by (auto simp: new_shapes_def map_filter_append List.map_filter_def split: option.splits settled.splits)
  moreover have "issued_log t = recorded_shapes (e_history env) @ new_shapes t"
    using inv all by (intro issued_log_past) (auto simp: replay_inv_def matcher_inv_def assert_all_issued_None)
  ultimately have log: "recorded_shapes (e_history env @ map command_to_event (de_commands d)) = issued_log t"
    by (simp add: recorded_shapes_commands)
  show ?thesis
    unfolding log
    by (intro exI [of _ "w_step t"] exI [of _ "w_timer t"] exI [of _ "min (w_child t) (e_max_children env)"])
       (use inv in \<open>simp add: replay_inv_def\<close>)
qed

end
