(* ===== verification/Engine.thy ===== *)
theory Engine
  imports Timers Signals StepTasks Replay
begin

text \<open>
  The engine as a transition system: every transaction that writes runs is one step, and the
  invariant \<open>engine_ok\<close> together with the growth relation \<open>extends\<close> holds along every sequence of
  them, whatever the order the workers, clients and timers commit in.
\<close>

section \<open>Sequences of transactions\<close>

inductive engine_step :: "db \<Rightarrow> db \<Rightarrow> bool" where
  started: "start_run registered clock now q ns si d = Inr (x, d') \<Longrightarrow> engine_step d d'"
| decided: "decision_shape es \<Longrightarrow>
     record_workflow_task_result (Some q) clock now rid key n es d = Inr (y, d') \<Longrightarrow> engine_step d d'"
| step_done: "record_step_result now rid sid key out d = Inr (z, d') \<Longrightarrow> engine_step d d'"
| cancel_requested: "cancel_run now rid reason d = Inr (c, d') \<Longrightarrow> engine_step d d'"
| terminated: "terminate_run now rid reason d = Inr (sq, d') \<Longrightarrow> engine_step d d'"
| timed_out: "time_out_run_on_client now rid tid d = Inr (b, d') \<Longrightarrow> engine_step d d'"
| timer_fired: "fire_next q now reading d = Inr (out, d') \<Longrightarrow> engine_step d d'"
| timer_set: "schedule_timer rid tid fire_at d = Inr (b, d') \<Longrightarrow> engine_step d d'"
| signalled: "signal_run now rid name payload d = Inr (n, d') \<Longrightarrow> engine_step d d'"
| marked: "engine_step d (mark_run_waiting rid w p d)"
| attempt_failed: "record_failure now rid sid attempt e retry_at d = Inr (b, d') \<Longrightarrow>
     find_run d rid = Some r \<Longrightarrow> r_status r = RUNNING \<Longrightarrow> engine_step d d'"
| letter_added: "insert_dead_letter now i d = Inr (lid, d') \<Longrightarrow> engine_step d d'"

lemma record_failure_step:
  assumes ok: "engine_ok d" and st: "record_failure now rid sid attempt e retry_at d = Inr (b, d')"
    and r: "find_run d rid = Some r" "r_status r = RUNNING"
  shows "engine_ok d' \<and> extends d d'"
proof (cases "list_ex (\<lambda>a. at_run a = rid \<and> at_step a = sid \<and> at_attempt a = attempt) (d_attempts d)")
  case True
  then have "d' = d" using st by (auto simp: record_failure_def split: sum.splits)
  with ok show ?thesis by simp
next
  case False
  have "sid \<noteq> []" "0 < attempt"
    using st by (auto simp: record_failure_def parse_event_def attempt_failed_event_def split: if_splits)
  from record_failure_ok [OF ok r this False, of now e retry_at] st show ?thesis by auto
qed

lemma insert_dead_letter_step:
  assumes ok: "engine_ok d" and st: "insert_dead_letter now i d = Inr (lid, d')"
  shows "engine_ok d' \<and> extends d d'"
proof -
  have same: "d_runs d' = d_runs d" "d_events d' = d_events d" "d_snapshots d' = d_snapshots d" "d_next d \<le> d_next d'"
    "d_tasks d' = d_tasks d" "d_timers d' = d_timers d" "d_step_results d' = d_step_results d" "d_task_results d' = d_task_results d"
    using st by (auto simp: insert_dead_letter_def split: option.splits if_splits)
  have "keeps d d'" using same timeouts_ok_same_runs by (intro keeps_same_tables) simp_all
  then have ext: "extends d d'" using same by (intro extends_same_runs) (simp_all add: waiting_tasks_def)
  have "runs_ok d'" using runs_ok_same_runs [of d d'] ok same by (simp add: engine_ok_def)
  then show ?thesis using engine_okI ext ok by blast
qed

lemma engine_step_ok:
  assumes "engine_step d d'" and "engine_ok d"
  shows "engine_ok d' \<and> extends d d'"
  using assms
proof (induction rule: engine_step.induct)
  case (started registered clock now q ns si d x d')
  then show ?case using start_run_step by blast
next
  case (decided es q clock now rid key n d y d')
  then show ?case using record_decision_step by blast
next
  case (step_done now rid sid key out d z d')
  then show ?case using record_step_step by blast
next
  case (cancel_requested now rid reason d c d')
  then obtain r where "find_run d rid = Some r" "r_status r = RUNNING"
    by (auto simp: cancel_run_def split: option.splits if_splits)
  with cancel_run_ok [OF cancel_requested(2) this, of now reason] cancel_requested(1) show ?case by auto
next
  case (terminated now rid reason d sq d')
  then obtain r where "find_run d rid = Some r" "r_status r = RUNNING"
    by (auto simp: terminate_run_def split: option.splits if_splits)
  with terminate_run_ok [OF terminated(2) this, of now reason] terminated(1) show ?case by auto
next
  case (timed_out now rid tid d b d')
  show ?case
  proof (cases "run_closed d rid \<or> find_run d rid = None")
    case True
    then have "d' = d" using timed_out(1)
      by (auto simp: time_out_run_on_client_def run_closed_def split: option.splits if_splits)
    with timed_out(2) show ?thesis by simp
  next
    case False
    then obtain r where "find_run d rid = Some r" "r_status r = RUNNING"
      by (auto simp: run_closed_def split: option.splits)
    with time_out_run_ok [OF timed_out(2) this, of now tid] timed_out(1) show ?thesis by auto
  qed
next
  case (timer_fired q now reading d out d')
  from fire_next_ok [OF timer_fired(2), of q now reading] timer_fired(1) show ?case by auto
next
  case (timer_set rid tid fire_at d b d')
  then have ins: "insert_timer_on_client rid tid fire_at d = (b, d')"
    by (simp add: schedule_timer_def split: if_splits)
  have "runs_ok d'"
    using runs_ok_same_runs [of d d'] insert_timer_frame [OF ins] timer_set(2) by (simp add: engine_ok_def)
  then show ?case using engine_okI extends_insert_timer [OF ins] timer_set(2) by blast
next
  case (signalled now rid name payload d n d')
  then obtain r where "find_run d rid = Some r" "r_status r = RUNNING"
    by (auto simp: signal_run_def split: option.splits if_splits)
  from signal_run_ok [OF signalled(2) this, of now name payload] signalled(1) show ?case by auto
next
  case (marked d rid w p)
  then show ?case by (rule mark_run_waiting_ok)
next
  case (attempt_failed now rid sid attempt e retry_at d b d' r)
  then show ?case using record_failure_step by blast
next
  case (letter_added now i d lid d')
  then show ?case using insert_dead_letter_step by blast
qed

lemma engine_steps_ok:
  assumes "engine_step\<^sup>*\<^sup>* d d'" and "engine_ok d"
  shows "engine_ok d' \<and> extends d d'"
  using assms
proof (induction rule: rtranclp_induct)
  case (step b c)
  then show ?case using engine_step_ok extends_trans by blast
qed simp

section \<open>From the decision to the log\<close>

text \<open>The state a decision's outcome leaves its run in.\<close>

definition outcome_state :: "decision_outcome \<Rightarrow> run_state" where
  "outcome_state out =
     (case out of Completed _ \<Rightarrow> COMPLETED | Failed_with _ \<Rightarrow> FAILED | Suspended \<Rightarrow> RUNNING
      | Cancelled \<Rightarrow> CANCELLED | ContinuedAsNew _ \<Rightarrow> CONTINUED_AS_NEW)"

lemma decision_state_append [simp]:
  "decision_state (es @ [e]) = (case terminal_state_for e of None \<Rightarrow> RUNNING | Some st \<Rightarrow> st)"
  by (cases es) (auto simp: decision_state_def)

lemma decision_state_open:
  assumes "closes_nothing cs"
  shows "decision_state (map command_to_event cs) = RUNNING"
proof (cases cs rule: rev_cases)
  case (snoc xs c)
  then have "terminal_state_for (command_to_event c) = None"
    using assms closing_event_iff by (auto simp: closes_nothing_def)
  with snoc show ?thesis by simp
qed (simp add: decision_state_def)

lemma decide_state:
  assumes "decide js enc env h = Inr dec"
  shows "decision_state (map command_to_event (de_commands dec)) = outcome_state (de_outcome dec)"
proof -
  note open_cs = decision_state_open [OF replay_history_opens [of js enc env h]]
  have "decision_state (map command_to_event [ContinueAsNew inp]) = CONTINUED_AS_NEW" for inp
    by (simp add: decision_state_def)
  with assms open_cs show ?thesis
    by (auto simp: decide_def Let_def outcome_state_def
        split: if_splits option.splits cancellation.splits settled.splits)
qed

lemma decide_shape:
  assumes "decide js enc env h = Inr dec" and "list_all event_valid (map command_to_event (de_commands dec))"
  shows "decision_shape (map command_to_event (de_commands dec))"
  using assms(2) decide_closes_last [OF assms(1)]
  by (simp add: decision_shape_def closes_nothing_def list_all_iff map_butlast [symmetric])

text \<open>A decision the loop makes is a decision the recorder takes, and moves the run where it says.\<close>

lemma decide_then_record:
  assumes ok: "engine_ok d" and r: "find_run d rid = Some r" "r_status r = RUNNING"
    and dec: "decide js enc env h = Inr dec" and key: "find_task_result d rid key = None"
    and valid: "list_all event_valid (map command_to_event (de_commands dec))"
  shows "\<exists>d' r' new. record_workflow_task_result (Some q) clock now rid key (read_current_sequence d rid)
       (map command_to_event (de_commands dec)) d =
         Inr ((True, read_current_sequence d rid + 1, read_current_sequence d rid + length (de_commands dec)), d') \<and>
     engine_ok d' \<and> extends d d' \<and> find_run d' rid = Some r' \<and> r_status r' = outcome_state (de_outcome dec) \<and>
     run_events d' rid = run_events d rid @ new \<and> map stored new = map command_to_event (de_commands dec)"
  using record_decision_ok [OF ok r key decide_shape [OF dec valid] refl, of q clock now]
  by (auto simp: decide_state [OF dec])

end
