(* ===== verification/Examples.thy ===== *)
theory Examples
  imports Engine StepTasks
begin

text \<open>
  Concrete databases the theorems are applied at: an order workflow started from the empty
  database, the same run after a decision that started two children, and its queue after a
  delivery. Each is the outcome of the operations themselves, so the invariants hold of it by
  the operations' own theorems.
\<close>

section \<open>A started run\<close>

definition order_input :: start_run_input where
  "order_input =
     \<lparr>si_workflow_type = ''order'', si_input = VObj [(''item'', VStr ''book'')],
      si_idempotency_key = Some ''order-1'', si_traceparent = None,
      si_run_timeout_ms = Some 60000, si_execution_timeout_ms = None\<rparr>"

definition order_db :: db where
  "order_db =
     (case start_run None 1000 1000 ''main'' 7 order_input empty_db of
        Inr (_, d) \<Rightarrow> d | Inl _ \<Rightarrow> empty_db)"

lemma order_started: "start_run None 1000 1000 ''main'' 7 order_input empty_db = Inr ((True, 0), order_db)"
proof -
  have free: "find_by_key empty_db 7 order_input = Inr None"
    by (simp add: find_by_key_def order_input_def empty_db_def)
  have t: "valid_timeout (si_run_timeout_ms order_input)" "valid_timeout (si_execution_timeout_ms order_input)"
    by (simp_all add: order_input_def valid_timeout_def)
  have "base_ok empty_db" by (rule engine_ok_base) simp
  from start_run_new [OF this _ free t, of None 1000 1000 "''main''"]
  show ?thesis by (auto simp: order_db_def empty_db_def)
qed

lemma order_db_ok [simp]: "engine_ok order_db"
proof -
  have free: "find_by_key empty_db 7 order_input = Inr None"
    by (simp add: find_by_key_def order_input_def empty_db_def)
  have t: "valid_timeout (si_run_timeout_ms order_input)" "valid_timeout (si_execution_timeout_ms order_input)"
    by (simp_all add: order_input_def valid_timeout_def)
  have "base_ok empty_db" by (rule engine_ok_base) simp
  from start_run_new [OF this _ free t, of None 1000 1000 "''main''"] order_started
  obtain r inp p where "opened empty_db r inp p 1000 order_db" by auto
  moreover have "runs_ok empty_db" using engine_ok_empty by (simp add: engine_ok_def del: engine_ok_empty)
  ultimately show ?thesis
    using engine_okI opened_runs_ok opened_extends engine_ok_empty by metis
qed

definition order_row :: run_row where
  "order_row = (case find_run order_db 0 of Some r \<Rightarrow> r | None \<Rightarrow> new_run_row 0 0 [] VNull [] None 0)"

lemma order_row_found [simp]: "find_run order_db 0 = Some order_row" "r_status order_row = RUNNING"
   apply code_simp
  apply code_simp
  done

section \<open>After a decision\<close>

text \<open>The workflow's first decision: a step, a timer, and two children with different policies.\<close>

definition order_commands :: "command list" where
  "order_commands =
     [ScheduleStep ''step-1'' ''charge'' (VNum (Fin 42)), StartTimer ''timer-1'' 9000 (Fin 7000),
      StartChild ''child-1'' ''ship'' (VStr ''book'') PolicyTerminate None None,
      StartChild ''child-2'' ''mail'' VNull PolicyCancel None None]"

definition family_db :: db where
  "family_db =
     (case record_workflow_task_result (Some ''main'') 2000 2000 0 ''task-1'' 1
             (map command_to_event order_commands) order_db of
        Inr (_, d) \<Rightarrow> d | Inl _ \<Rightarrow> empty_db)"

lemma order_db_sequence [simp]: "read_current_sequence order_db 0 = 1"
  by code_simp

lemma order_commands_shape: "decision_shape (map command_to_event order_commands)"
  by code_simp

lemma order_db_no_task: "find_task_result order_db 0 ''task-1'' = None"
  by code_simp

lemma family_recorded:
  "record_workflow_task_result (Some ''main'') 2000 2000 0 ''task-1'' 1 (map command_to_event order_commands) order_db =
     Inr ((True, 2, 5), family_db)"
  using record_decision_ok [OF order_db_ok order_row_found order_db_no_task order_commands_shape, of 1 "''main''" 2000 2000]
  by (auto simp: family_db_def order_commands_def)

lemma family_db_ok [simp]: "engine_ok family_db"
  using record_decision_ok [OF order_db_ok order_row_found order_db_no_task order_commands_shape, of 1 "''main''" 2000 2000]
  by (auto simp: family_db_def)

definition family_row :: run_row where
  "family_row = (case find_run family_db 0 of Some r \<Rightarrow> r | None \<Rightarrow> new_run_row 0 0 [] VNull [] None 0)"

definition shipping_row :: run_row where
  "shipping_row =
     (case find (\<lambda>r. r_parent_child r = Some ''child-1'') (d_runs family_db) of
        Some r \<Rightarrow> r | None \<Rightarrow> new_run_row 0 0 [] VNull [] None 0)"

lemma family_row_found [simp]: "find_run family_db 0 = Some family_row" "r_status family_row = RUNNING"
   apply code_simp
  apply code_simp
  done

lemma shipping_row_found:
  "find_run family_db (r_id shipping_row) = Some shipping_row" "r_status shipping_row = RUNNING"
  "r_parent shipping_row = Some 0" "r_parent_policy shipping_row = Some PolicyTerminate"
     apply code_simp
    apply code_simp
   apply code_simp
  apply code_simp
  done

section \<open>After a termination\<close>

definition terminated_db :: db where
  "terminated_db = (case terminate_run 5000 0 None family_db of Inr (_, d) \<Rightarrow> d | Inl _ \<Rightarrow> empty_db)"

lemma terminated_db_ok [simp]: "engine_ok terminated_db"
  and terminated_row: "\<exists>r. find_run terminated_db 0 = Some r \<and> r_status r = TERMINATED"
  using terminate_run_ok [OF family_db_ok family_row_found, of 5000 None] by (auto simp: terminated_db_def)

text \<open>The client starts another order after it.\<close>

definition second_input :: start_run_input where
  "second_input = order_input\<lparr>si_idempotency_key := Some ''order-2''\<rparr>"

definition order_again_db :: db where
  "order_again_db =
     (case start_run None 6000 6000 ''main'' 7 second_input terminated_db of
        Inr (_, d) \<Rightarrow> d | Inl _ \<Rightarrow> empty_db)"

lemma order_again_started:
  "start_run None 6000 6000 ''main'' 7 second_input terminated_db = Inr ((True, d_next terminated_db), order_again_db)"
proof -
  have free: "find_by_key terminated_db 7 second_input = Inr None" by code_simp
  have t: "valid_timeout (si_run_timeout_ms second_input)" "valid_timeout (si_execution_timeout_ms second_input)"
    by (simp_all add: second_input_def order_input_def valid_timeout_def)
  from start_run_new [OF engine_ok_base [OF terminated_db_ok] _ free t, of None 6000 6000 "''main''"]
  show ?thesis by (auto simp: order_again_db_def)
qed

section \<open>A delivery\<close>

definition worker_options :: dequeue_options where
  "worker_options =
     \<lparr>dq_queue = ''main'', dq_visibility_timeout = 30000, dq_limit = Some 2, dq_worker = Some ''w1'',
      dq_version = None, dq_sticky_for = None\<rparr>"

lemma empty_queue_ok: "queue_ok 3 empty_db"
  by (simp add: queue_ok_def empty_db_def)

lemma order_tasks:
  "d_tasks order_db = [new_task 2 7 0 ''main'' WORKFLOW_TASK (VObj [(''reason'', VStr ''start'')]) 1000 1000]"
  "d_next order_db = 3"
   apply code_simp
  apply code_simp
  done

lemma order_queue_ok: "queue_ok 3 order_db"
  by (simp add: queue_ok_def order_tasks task_ok_def new_task_def)

definition leased_db :: db where
  "leased_db = (case dequeue 3 3000 worker_options order_db of Inr (_, d) \<Rightarrow> d | Inl _ \<Rightarrow> empty_db)"

definition order_lease :: leased_task where
  "order_lease =
     (case dequeue 3 3000 worker_options order_db of
        Inr (l # _, _) \<Rightarrow> l
      | _ \<Rightarrow> to_leased_task 0 (new_task 0 0 0 [] WORKFLOW_TASK VNull 0 0))"

lemma order_delivered: "dequeue 3 3000 worker_options order_db = Inr ([order_lease], leased_db)"
  by code_simp

lemma leased_queue_ok: "queue_ok 3 leased_db"
  using dequeue_spec(1) [OF order_queue_ok order_delivered] .

section \<open>A workflow\<close>

text \<open>Charge, wait a while, answer with what the charge gave.\<close>

definition shop_handler :: handler where
  "shop_handler =
     Step ''charge'' (VNum (Fin 42)) (\<lambda>r. case r of Inl e \<Rightarrow> Throw e
       | Inr p \<Rightarrow> Sleep (Fin 7000) (\<lambda>r. case r of Inl e \<Rightarrow> Throw e
       | Inr _ \<Rightarrow> Await p (\<lambda>out. case out of Inl e \<Rightarrow> Throw e | Inr v \<Rightarrow> Return v)))"

definition shop_env :: replay_env where
  "shop_env =
     \<lparr>e_history = [RunStarted ''order'' VNull], e_clock = 2000, e_triggered = None, e_max_children = 10,
      e_build = None, e_random = (\<lambda>_. VNull), e_uuid = (\<lambda>_. VNull)\<rparr>"

definition no_text :: "jsv \<Rightarrow> string" where
  "no_text v = []"

lemma shop_decision:
  "decide no_text no_text shop_env shop_handler =
     Inr \<lparr>de_outcome = Suspended,
       de_commands = [ScheduleStep ''step-1'' ''charge'' (VNum (Fin 42)), StartTimer ''timer-1'' 9000 (Fin 7000)]\<rparr>"
  by code_simp

lemma shop_well_behaved: "well_behaved shop_handler (e_clock shop_env)"
  by (auto simp: shop_handler_def shop_env_def lets_through_def wakes_in_range_def MAX_TIME_def num_value_def split: sum.splits)

lemma shop_env_facts: "\<not> cancel_requested shop_env" "no_orphans (e_history shop_env)"
  by (simp_all add: shop_env_def cancel_requested_def is_cancel_requested_event_def no_orphans_def outcome_has_command_def)


lemma leased_queue_once: "queue_ok 1 leased_db"
proof -
  have "queue_ok 1 order_db" by (simp add: queue_ok_def order_tasks task_ok_def new_task_def)
  moreover have "dequeue 1 3000 worker_options order_db = Inr ([order_lease], leased_db)" by code_simp
  ultimately show ?thesis by (rule dequeue_spec(1))
qed

text \<open>The lease runs out, and a threshold of one parks the task.\<close>

definition order_task_row :: task_row where
  "order_task_row =
     (case find_task leased_db 2 of Some t \<Rightarrow> t | None \<Rightarrow> new_task 0 0 0 [] WORKFLOW_TASK VNull 0 0)"

definition parked_db :: db where
  "parked_db = (case dequeue 1 40000 worker_options leased_db of Inr (_, d) \<Rightarrow> d | Inl _ \<Rightarrow> empty_db)"

lemma order_parked: "dequeue 1 40000 worker_options leased_db = Inr ([], parked_db)"
  by code_simp

lemma order_task_row_facts:
  "find_task leased_db 2 = Some order_task_row" "t_state order_task_row = TLEASED" "poisoned 1 order_task_row"
  "order_task_row \<in> set (next_tasks worker_options (nat (optional (dq_limit worker_options) 1)) 40000 leased_db)"
     apply code_simp
    apply code_simp
   apply code_simp
  apply code_simp
  done

text \<open>A workflow whose sleep may fail: it goes on with a step unless the engine asked it to stop.\<close>

definition far_sleep_handler :: "jsnum \<Rightarrow> handler" where
  "far_sleep_handler duration =
     Sleep duration (\<lambda>slept. case slept of
         Inl e \<Rightarrow> if is_integrity_error e then Throw e
                  else Step ''a'' VNull (\<lambda>r. case r of Inl e \<Rightarrow> Throw e | Inr p \<Rightarrow> Await p (\<lambda>_. Return VNull))
       | Inr p \<Rightarrow> Await p (\<lambda>_. Return VNull))"

section \<open>A step task and its processor\<close>

definition charge_task :: leased_task where
  "charge_task =
     (case dequeue 3 3000 (worker_options\<lparr>dq_limit := Some 10\<rparr>) family_db of
        Inr (ls, _) \<Rightarrow> optional (find (\<lambda>l. lt_type l = STEP_TASK) ls) order_lease
      | Inl _ \<Rightarrow> order_lease)"

definition charging_db :: db where
  "charging_db =
     (case dequeue 3 3000 (worker_options\<lparr>dq_limit := Some 10\<rparr>) family_db of Inr (_, d) \<Rightarrow> d | Inl _ \<Rightarrow> empty_db)"

text \<open>A worker whose only step refuses the charge for good; nobody else is at work.\<close>

definition refusing_env :: process_env where
  "refusing_env =
     \<lparr>pe_now = 3500, pe_clock = 3500, pe_draw = 1 / 2, pe_encode = no_text,
      pe_lookup = (\<lambda>st. if st = ''charge'' then Some \<lparr>sd_timeout = None, sd_retry = None\<rparr> else None),
      pe_run = (\<lambda>st inp. Some (100, Inl (non_retryable_error ''card refused''))),
      pe_abort = None, pe_aborted_first = False, pe_aborted_last = False\<rparr>"

definition alone :: "nat \<Rightarrow> db \<Rightarrow> db" where
  "alone n d = d"

definition refused_db :: db where
  "refused_db = snd (process_step_task refusing_env alone charge_task charging_db)"

lemma charge_refused:
  "process_step_task refusing_env alone charge_task charging_db = (Some (Inr (StepGaveUp 1)), refused_db)"
  by code_simp

definition charge_letter :: dead_letter_input where
  "charge_letter =
     \<lparr>di_namespace = 7, di_run = 0, di_step = ''step-1'', di_queue = ''main'', di_payload = lt_payload charge_task,
      di_attempts = 3, di_error = SerializedError ''Error'' ''down'' None VUndef None, di_reason = ''MAX_ATTEMPTS_EXHAUSTED''\<rparr>"

definition parked_charge_db :: db where
  "parked_charge_db = (case insert_dead_letter 4000 charge_letter family_db of Inr (_, d) \<Rightarrow> d | Inl _ \<Rightarrow> empty_db)"

definition charge_letter_id :: uuid where
  "charge_letter_id = (case insert_dead_letter 4000 charge_letter family_db of Inr (l, _) \<Rightarrow> l | Inl _ \<Rightarrow> 0)"

lemma charge_parked: "insert_dead_letter 4000 charge_letter family_db = Inr (charge_letter_id, parked_charge_db)"
  by code_simp

section \<open>A timer\<close>

definition wait_timer :: timer_row where
  "wait_timer = the (next_due_timer ''main'' 10000 family_db)"

lemma wait_timer_due:
  "next_due_timer ''main'' 10000 family_db = Some wait_timer" "\<not> is_timeout_timer_id (tm_timer wait_timer)"
  "tm_run wait_timer = 0" "tm_fire_at wait_timer = 9000"
     apply code_simp
    apply code_simp
   apply code_simp
  apply code_simp
  done

end
