(* ===== verification/Compaction.thy ===== *)
theory Compaction
  imports Growth
begin

text \<open>
  Compaction of closed runs (\<open>packages/core/src/compaction/history-compactor.ts\<close>): a run's history up to
  a cut is folded into a snapshot that replaces it. The column \<open>projection\<close> of a snapshot holds the
  projection itself: \<open>compaction/snapshot.ts\<close> writes it as JSON and reads it back.
\<close>

section \<open>The policy\<close>

record retention_policy =
  rt_closed_run_ms :: jsnum
  rt_tail_events :: jsnum

definition assert_policy :: "retention_policy \<Rightarrow> engine_error + unit" where
  "assert_policy p =
     (if \<not> is_finite_num (rt_closed_run_ms p) \<or> num_value (rt_closed_run_ms p) < 0
      then Inl (RangeError ''closedRunRetentionMs must be zero or positive'')
      else if \<not> (is_finite_num (rt_tail_events p) \<and> of_int \<lfloor>num_value (rt_tail_events p)\<rfloor> = num_value (rt_tail_events p))
        \<or> num_value (rt_tail_events p) < 0
      then Inl (RangeError ''tailEvents must be a non-negative integer'')
      else Inr ())"

section \<open>Compacting\<close>

record compaction_result =
  cr_compacted :: bool
  cr_pruned :: nat
  cr_snapshot :: "snapshot_row option"

definition upsert_snapshot :: "snapshot_row \<Rightarrow> db \<Rightarrow> db" where
  "upsert_snapshot sn d =
     d\<lparr>d_snapshots := (if list_ex (\<lambda>s. sn_run s = sn_run sn) (d_snapshots d)
        then map (\<lambda>s. if sn_run s = sn_run sn then sn else s) (d_snapshots d) else d_snapshots d @ [sn])\<rparr>"

definition delete_events :: "uuid \<Rightarrow> nat \<Rightarrow> db \<Rightarrow> db" where
  "delete_events rid last_seq d =
     d\<lparr>d_events := filter (\<lambda>e. \<not> (er_run e = rid \<and> sequence_number (er_event e) \<le> last_seq)) (d_events d)\<rparr>"

definition compact_run :: "nat \<Rightarrow> uuid \<Rightarrow> (engine_error, db, compaction_result) tx" where
  "compact_run tail rid = (\<lambda>d.
     let untouched = \<lparr>cr_compacted = False, cr_pruned = 0, cr_snapshot = None\<rparr> in
     case find_run d rid of
       None \<Rightarrow> Inr (untouched, d)
     | Some r \<Rightarrow>
         if r_status r = RUNNING then Inr (untouched, d)
         else
           let previous = find_snapshot d rid;
               start = (case previous of None \<Rightarrow> create_initial_projection | Some s \<Rightarrow> sn_projection s);
               events = read_events_on_client d rid (p_last_seq start);
               pruned = take (length events - tail) events in
           (case fold_run_events pruned start of
              Inl e \<Rightarrow> Inl e
            | Inr p \<Rightarrow>
                let sn = \<lparr>sn_run = rid, sn_last_seq = p_last_seq p,
                      sn_pruned = (case previous of None \<Rightarrow> 0 | Some s \<Rightarrow> sn_pruned s) + length pruned, sn_projection = p\<rparr>
                in Inr (\<lparr>cr_compacted = True, cr_pruned = length pruned, cr_snapshot = Some sn\<rparr>,
                        delete_events rid (p_last_seq p) (upsert_snapshot sn d))))"

section \<open>Sweeps\<close>

record compaction_report =
  cp_runs :: nat
  cp_events :: nat

definition DEFAULT_SWEEP_BATCH :: nat where
  "DEFAULT_SWEEP_BATCH = 100"

definition sweep_candidates :: "time \<Rightarrow> nat \<Rightarrow> db \<Rightarrow> uuid list" where
  "sweep_candidates cutoff batch d =
     map r_id (take batch (sort_key (\<lambda>r. optional (r_closed_at r) 0) (sort_key r_id (filter (\<lambda>r. r_status r \<noteq> RUNNING \<and>
       (case r_closed_at r of None \<Rightarrow> False | Some t \<Rightarrow> t \<le> cutoff) \<and> find_snapshot d (r_id r) = None) (d_runs d)))))"

fun compact_all :: "nat \<Rightarrow> uuid list \<Rightarrow> compaction_report \<Rightarrow> db \<Rightarrow> (engine_error + compaction_report) \<times> db" where
  "compact_all tail [] rep d = (Inr rep, d)"
| "compact_all tail (rid # rids) rep d =
     (case compact_run tail rid d of
        Inl e \<Rightarrow> (Inl e, d)
      | Inr (res, d') \<Rightarrow>
          compact_all tail rids
            (if cr_compacted res then \<lparr>cp_runs = cp_runs rep + 1, cp_events = cp_events rep + cr_pruned res\<rparr> else rep) d')"

definition sweep :: "nat \<Rightarrow> time \<Rightarrow> time \<Rightarrow> nat \<Rightarrow> db \<Rightarrow> (engine_error + compaction_report) \<times> db" where
  "sweep tail clock retention batch d =
     compact_all tail (sweep_candidates (clock - retention) batch d) \<lparr>cp_runs = 0, cp_events = 0\<rparr> d"

section \<open>What compaction leaves alone\<close>

lemma compaction_frame [simp]:
  "d_runs (delete_events rid n d) = d_runs d" "d_runs (upsert_snapshot sn d) = d_runs d"
  "d_tasks (delete_events rid n d) = d_tasks d" "d_tasks (upsert_snapshot sn d) = d_tasks d"
  "d_next (delete_events rid n d) = d_next d" "d_next (upsert_snapshot sn d) = d_next d"
  "d_snapshots (delete_events rid n d) = d_snapshots d" "d_events (upsert_snapshot sn d) = d_events d"
  "find_run (delete_events rid n d) x = find_run d x" "find_run (upsert_snapshot sn d) x = find_run d x"
  "find_snapshot (delete_events rid n d) x = find_snapshot d x"
  by (simp_all add: delete_events_def upsert_snapshot_def find_run_def find_snapshot_def)

lemma run_events_upsert [simp]: "run_events (upsert_snapshot sn d) x = run_events d x"
  by (simp add: run_events_def)

lemma run_events_delete:
  "run_events (delete_events rid n d) x =
     (if x = rid then filter (\<lambda>se. n < sequence_number se) (run_events d x) else run_events d x)"
proof -
  have "map er_event (filter (\<lambda>e. er_run e = x) (filter (\<lambda>e. \<not> (er_run e = rid \<and> sequence_number (er_event e) \<le> n)) es)) =
     (if x = rid then filter (\<lambda>se. n < sequence_number se) (map er_event (filter (\<lambda>e. er_run e = x) es))
      else map er_event (filter (\<lambda>e. er_run e = x) es))" for es
    by (induction es) auto
  from this [of "d_events d"] show ?thesis by (simp only: run_events_def delete_events_def) simp
qed

lemma find_snapshot_upsert:
  "find_snapshot (upsert_snapshot sn d) x = (if x = sn_run sn then Some sn else find_snapshot d x)"
proof -
  have absent: "find (\<lambda>s. sn_run s = x) ss = None" if "\<not> list_ex (\<lambda>s. sn_run s = x) ss" for ss
    using that by (induction ss) auto
  have "find (\<lambda>s. sn_run s = x) (map (\<lambda>s. if sn_run s = sn_run sn then sn else s) ss) =
     (if x = sn_run sn then (if list_ex (\<lambda>s. sn_run s = sn_run sn) ss then Some sn else None) else find (\<lambda>s. sn_run s = x) ss)" for ss
    by (induction ss) auto
  moreover have "find (\<lambda>s. sn_run s = x) (ss @ [sn]) =
     (case find (\<lambda>s. sn_run s = x) ss of None \<Rightarrow> if x = sn_run sn then Some sn else None | Some y \<Rightarrow> Some y)" for ss
    by (induction ss) auto
  ultimately show ?thesis using absent [of "d_snapshots d"]
    by (auto simp: find_snapshot_def upsert_snapshot_def split: option.splits)
qed

section \<open>Compaction keeps the projection\<close>

text \<open>A closed run's history goes no further than its row: what was folded cannot be followed.\<close>

lemma fold_from_closed:
  assumes "fold_run_events xs p = Inr q" and "p_state q \<noteq> RUNNING" and "fold_run_events (xs @ ys) p = Inr r"
  shows "ys = []"
proof (cases ys)
  case (Cons y zs)
  from assms(3) assms(1) obtain q' where "apply_event_to_projection q y = Inr q'"
    by (auto simp: fold_run_events_append Cons split: sum.splits)
  from apply_event_Inr(1) [OF this] assms(2) show ?thesis by simp
qed simp

lemma compact_run_cases:
  assumes run: "compact_run tail rid d = Inr (res, d')" and ok: "runs_ok d"
  obtains (untouched) "d' = d" "\<not> cr_compacted res" "cr_pruned res = 0"
  | (compacted) r p sn where "find_run d rid = Some r" "r_status r \<noteq> RUNNING" "cr_compacted res"
      "cr_pruned res = length (run_events d rid) - tail"
      "fold_run_events (take (cr_pruned res) (run_events d rid)) (projection_start d rid) = Inr p"
      "sn_run sn = rid" "sn_last_seq sn = p_last_seq p" "sn_projection sn = p"
      "d' = delete_events rid (p_last_seq p) (upsert_snapshot sn d)"
proof (cases "\<exists>r. find_run d rid = Some r \<and> r_status r \<noteq> RUNNING")
  case False
  then have "d' = d" "\<not> cr_compacted res" "cr_pruned res = 0"
    using run by (auto simp: compact_run_def Let_def split: option.splits if_splits)
  then show ?thesis by (rule untouched)
next
  case True
  then obtain r where r: "find_run d rid = Some r" "r_status r \<noteq> RUNNING" by blast
  have "row_synced d r" and log: "log_ok d" using ok r(1) by (simp_all add: runs_ok_def row_ok_def)
  then have base: "p_last_seq (projection_start d rid) = snapshot_seq d rid"
    using find_run_Some [OF r(1)] by (simp add: row_synced_def Let_def)
  have events: "read_events_on_client d rid (p_last_seq (projection_start d rid)) = run_events d rid"
    using read_events_ok [OF log, of rid "snapshot_seq d rid"] by (simp add: base)
  have start: "(case find_snapshot d rid of None \<Rightarrow> create_initial_projection | Some s \<Rightarrow> sn_projection s) = projection_start d rid"
    by (simp add: projection_start_def)
  obtain p where p: "fold_run_events (take (length (run_events d rid) - tail) (run_events d rid)) (projection_start d rid) = Inr p"
    using run r by (auto simp: compact_run_def Let_def start events split: sum.splits)
  let ?sn = "\<lparr>sn_run = rid, sn_last_seq = p_last_seq p,
     sn_pruned = (case find_snapshot d rid of None \<Rightarrow> 0 | Some s \<Rightarrow> sn_pruned s) + (length (run_events d rid) - tail), sn_projection = p\<rparr>"
  have "res = \<lparr>cr_compacted = True, cr_pruned = length (run_events d rid) - tail, cr_snapshot = Some ?sn\<rparr>"
    and "d' = delete_events rid (p_last_seq p) (upsert_snapshot ?sn d)"
    using run r p by (simp_all add: compact_run_def Let_def start events)
  then show ?thesis by (intro compacted [OF r, of p ?sn]) (simp_all add: p)
qed

text \<open>The table after a compaction, as the other operations read it.\<close>

lemma compacted_table:
  assumes ok: "runs_ok d" and r: "find_run d rid = Some r"
    and fold: "fold_run_events (take n (run_events d rid)) (projection_start d rid) = Inr p"
    and n: "n \<le> length (run_events d rid)"
    and sn: "sn_run sn = rid" "sn_last_seq sn = p_last_seq p" "sn_projection sn = p"
    and d': "d' = delete_events rid (p_last_seq p) (upsert_snapshot sn d)"
  shows "p_last_seq p = snapshot_seq d rid + n"
    and "run_events d' x = (if x = rid then drop n (run_events d rid) else run_events d x)"
    and "snapshot_seq d' x = (if x = rid then p_last_seq p else snapshot_seq d x)"
    and "projection_start d' x = (if x = rid then p else projection_start d x)"
    and "log_ok d'"
proof -
  have log: "log_ok d" and "row_synced d r" using ok r by (simp_all add: runs_ok_def row_ok_def)
  then have base: "p_last_seq (projection_start d rid) = snapshot_seq d rid"
    using find_run_Some [OF r] by (simp add: row_synced_def Let_def)
  show last: "p_last_seq p = snapshot_seq d rid + n"
    using fold_run_events_last_seq [OF fold] n base by simp
  have consec: "consecutive_from (snapshot_seq d y) (run_events d y)" for y using log by (simp add: log_ok_def)
  show events: "run_events d' x = (if x = rid then drop n (run_events d rid) else run_events d x)" for x
    using consecutive_from_filter [OF consec [of rid], of "p_last_seq p"]
    by (simp add: d' run_events_delete last)
  show seq: "snapshot_seq d' x = (if x = rid then p_last_seq p else snapshot_seq d x)" for x
    by (simp add: d' snapshot_seq_def find_snapshot_upsert sn)
  show "projection_start d' x = (if x = rid then p else projection_start d x)"
    by (simp add: d' projection_start_def find_snapshot_upsert sn)
  show "log_ok d'"
    using consec consecutive_from_drop [OF consec n] by (simp add: log_ok_def events seq last)
qed

lemma compact_run_ok:
  assumes ok: "runs_ok d" and run: "compact_run tail rid d = Inr (res, d')"
  shows "runs_ok d' \<and> d_runs d' = d_runs d \<and> d_next d' = d_next d \<and> d_tasks d' = d_tasks d \<and>
     (\<forall>x. x \<noteq> rid \<longrightarrow> run_events d' x = run_events d x \<and> find_snapshot d' x = find_snapshot d x) \<and>
     run_events d' rid = drop (cr_pruned res) (run_events d rid) \<and>
     fold_run_events (run_events d' rid) (projection_start d' rid) = fold_run_events (run_events d rid) (projection_start d rid)"
  using run ok
proof (cases rule: compact_run_cases)
  case untouched
  then show ?thesis using ok by simp
next
  case (compacted r p sn)
  let ?h = "run_events d rid" and ?cut = "cr_pruned res" and ?start = "projection_start d rid"
  have cut: "?cut \<le> length ?h" using compacted(4) by simp
  note t = compacted_table [OF ok compacted(1,5) cut compacted(6-9)]
  have fold: "fold_run_events (drop ?cut ?h) p = fold_run_events ?h ?start"
    using fold_run_events_append [of "take ?cut ?h" "drop ?cut ?h" ?start] compacted(5) by simp
  have id: "r_id r = rid" using find_run_Some [OF compacted(1)] by simp
  have "row_ok d r" using ok compacted(1) by (simp add: runs_ok_def)
  then have sync: "fold_run_events (take (r_last_seq r - snapshot_seq d rid) ?h) ?start = Inr (projection_from_row r)"
    "snapshot_seq d rid \<le> r_last_seq r"
    using compacted(2) by (auto simp: row_ok_def row_synced_def Let_def id create_initial_projection_def projection_from_row_def)
  let ?k = "r_last_seq r - snapshot_seq d rid"
  have state: "p_state (projection_from_row r) \<noteq> RUNNING" using compacted(2) by (simp add: projection_from_row_def)
  have k: "?cut \<le> ?k"
  proof (rule ccontr)
    assume "\<not> ?cut \<le> ?k"
    then have "take ?cut ?h = take ?k ?h @ take (?cut - ?k) (drop ?k ?h)" by (metis le_add_diff_inverse nat_le_linear take_add)
    with fold_from_closed [OF sync(1) state] compacted(5) have "take (?cut - ?k) (drop ?k ?h) = []" by metis
    with \<open>\<not> ?cut \<le> ?k\<close> cut show False by simp
  qed
  then have "take ?k ?h = take ?cut ?h @ take (?k - ?cut) (drop ?cut ?h)" by (metis le_add_diff_inverse take_add)
  with sync(1) compacted(5) have "fold_run_events (take (?k - ?cut) (drop ?cut ?h)) p = Inr (projection_from_row r)"
    by (simp add: fold_run_events_append)
  then have "row_ok d' r"
    using compacted(2) k sync(2) by (simp add: row_ok_def row_synced_def Let_def id t diff_diff_left)
  moreover have "row_ok d' u" if "row_ok d u" "r_id u \<noteq> rid" for u
    using that unfolding row_ok_def row_synced_def Let_def by (simp add: t) metis
  moreover have runs: "d_runs d' = d_runs d" and find: "\<And>x. find_run d' x = find_run d x" by (simp_all add: compacted(9))
  ultimately have "runs_ok d'"
    using ok compacted(1) id unfolding runs_ok_def by (metis find_run_Some option.inject t(5))
  moreover have "find_snapshot d' x = find_snapshot d x" if "x \<noteq> rid" for x
    using that by (simp add: compacted(9) find_snapshot_upsert compacted(6))
  ultimately show ?thesis using fold by (simp add: t runs) (simp add: compacted(9))
qed

text \<open>Compacting twice prunes nothing the second time.\<close>

lemma compact_run_twice:
  assumes ok: "runs_ok d" and run: "compact_run tail rid d = Inr (res, d')" and again: "compact_run tail rid d' = Inr (res', d'')"
  shows "cr_pruned res' = 0 \<and> run_events d'' rid = run_events d' rid"
proof -
  have ok': "runs_ok d'" and events: "run_events d' rid = drop (cr_pruned res) (run_events d rid)"
    and runs: "d_runs d' = d_runs d"
    using compact_run_ok [OF ok run] by blast+
  have "cr_pruned res' = 0"
    using again ok'
  proof (cases rule: compact_run_cases)
    case (compacted r' p' sn')
    then have closed: "find_run d rid = Some r'" "r_status r' \<noteq> RUNNING" using runs by (simp_all add: find_run_def)
    from run ok have "cr_pruned res = length (run_events d rid) - tail"
    proof (cases rule: compact_run_cases)
      case untouched
      with run closed show ?thesis by (auto simp: compact_run_def Let_def split: sum.splits)
    qed
    with compacted(4) events show ?thesis by simp
  qed
  then show ?thesis using compact_run_ok [OF ok' again] by simp
qed

text \<open>A rebuild gives the same projection before and after.\<close>

lemma rebuild_after_compaction:
  assumes ok: "runs_ok d" and run: "compact_run tail rid d = Inr (res, d')"
  shows "map_sum id fst (rebuild_projection x d') = map_sum id fst (rebuild_projection x d)"
proof -
  note c = compact_run_ok [OF ok run]
  have rebuild: "map_sum id fst (rebuild_projection x e) = (case find_run e x of None \<Rightarrow> Inl (RunNotFoundError x)
      | Some _ \<Rightarrow> fold_run_events (run_events e x) (projection_start e x))" if "runs_ok e" for e
  proof (cases "find_run e x")
    case (Some r)
    then have "row_synced e r" and log: "log_ok e" using that by (simp_all add: runs_ok_def row_ok_def)
    then have base: "p_last_seq (projection_start e x) = snapshot_seq e x"
      using find_run_Some [OF Some] by (simp add: row_synced_def Let_def)
    have "read_events_on_client e x (p_last_seq (projection_start e x)) = run_events e x"
      using read_events_ok [OF log, of x "snapshot_seq e x"] by (simp add: base)
    then show ?thesis using Some
      by (simp add: rebuild_projection_def fold_into_def Let_def projection_start_def split: sum.splits)
  qed (simp add: rebuild_projection_def fold_into_def)
  have "fold_run_events (run_events d' x) (projection_start d' x) = fold_run_events (run_events d x) (projection_start d x)"
    using c by (cases "x = rid") (auto simp: projection_start_def)
  moreover have "find_run d' x = find_run d x" using c by (simp add: find_run_def)
  ultimately show ?thesis using rebuild [OF ok] rebuild [of d'] c by (simp split: option.splits)
qed

section \<open>A sweep\<close>

lemma compact_all_ok:
  assumes "runs_ok d" and "compact_all tail rids rep d = (out, d')"
  shows "runs_ok d' \<and> d_runs d' = d_runs d \<and>
     (\<forall>x. fold_run_events (run_events d' x) (projection_start d' x) = fold_run_events (run_events d x) (projection_start d x))"
  using assms
proof (induction tail rids rep d rule: compact_all.induct)
  case (2 tail rid rids rep d)
  show ?case
  proof (cases "compact_run tail rid d")
    case (Inl e)
    with "2.prems" show ?thesis by auto
  next
    case (Inr x)
    obtain res d1 where x: "x = (res, d1)" by fastforce
    note c = compact_run_ok [OF "2.prems"(1) Inr [unfolded x]]
    have same: "fold_run_events (run_events d1 y) (projection_start d1 y) = fold_run_events (run_events d y) (projection_start d y)" for y
      using c by (cases "y = rid") (auto simp: projection_start_def)
    have "runs_ok d1" "d_runs d1 = d_runs d" using c by simp_all
    with "2.IH" [OF Inr x [symmetric]] "2.prems"(2) Inr x same show ?thesis by simp
  qed
qed auto

end
