(* ===== verification/Janitor.thy ===== *)
theory Janitor
  imports Control
begin

text \<open>
  Recovery after a crash (\<open>packages/core/src/recovery/janitor.ts\<close> and \<open>metrics.ts\<close>): leases whose worker
  is gone go back to the queue or into quarantine, and runs nothing is going to move get a
  workflow task. \<open>now\<close> is the instant of the janitor's clock, \<open>wall\<close> the database's, which dates the rows
  it inserts. The statements skip rows another transaction has locked; one after another they act as
  the transitions here.
\<close>

section \<open>Metrics\<close>

record recovery_metrics =
  mt_sweeps :: nat
  mt_reclaimed :: nat
  mt_quarantined :: nat
  mt_stalled_detected :: nat
  mt_stalled_recovered :: nat
  mt_by_worker :: "string \<Rightarrow> nat option"
  mt_last_sweep :: "time option"

definition create_recovery_metrics :: recovery_metrics where
  "create_recovery_metrics =
     \<lparr>mt_sweeps = 0, mt_reclaimed = 0, mt_quarantined = 0, mt_stalled_detected = 0, mt_stalled_recovered = 0,
      mt_by_worker = (\<lambda>_. None), mt_last_sweep = None\<rparr>"

definition record_sweep :: "time \<Rightarrow> recovery_metrics \<Rightarrow> recovery_metrics" where
  "record_sweep t m = m\<lparr>mt_sweeps := mt_sweeps m + 1, mt_last_sweep := Some t\<rparr>"

definition record_reclaimed :: "string option \<Rightarrow> recovery_metrics \<Rightarrow> recovery_metrics" where
  "record_reclaimed worker m =
     (let key = optional worker ''unknown'' in
      m\<lparr>mt_reclaimed := mt_reclaimed m + 1,
        mt_by_worker := (mt_by_worker m)(key := Some (optional (mt_by_worker m key) 0 + 1))\<rparr>)"

definition record_quarantined :: "nat \<Rightarrow> recovery_metrics \<Rightarrow> recovery_metrics" where
  "record_quarantined n m = m\<lparr>mt_quarantined := mt_quarantined m + n\<rparr>"

definition record_stalled_detected :: "nat \<Rightarrow> recovery_metrics \<Rightarrow> recovery_metrics" where
  "record_stalled_detected n m = m\<lparr>mt_stalled_detected := mt_stalled_detected m + n\<rparr>"

definition record_stalled_recovered :: "nat \<Rightarrow> recovery_metrics \<Rightarrow> recovery_metrics" where
  "record_stalled_recovered n m = m\<lparr>mt_stalled_recovered := mt_stalled_recovered m + n\<rparr>"

section \<open>Orphaned leases and the quarantine\<close>

record reclaimed_task =
  rc_task :: uuid
  rc_run :: uuid
  rc_queue :: string
  rc_attempts :: nat
  rc_leased_by :: "string option"
  rc_leased_by_version :: "string option"
  rc_quarantined :: bool

definition expired_lease :: "time \<Rightarrow> task_row \<Rightarrow> bool" where
  "expired_lease now t \<longleftrightarrow> t_state t = TLEASED \<and> t_visible_at t \<le> now"

definition reclaim_task :: "nat \<Rightarrow> time \<Rightarrow> task_row \<Rightarrow> task_row" where
  "reclaim_task threshold now t =
     (let poison = threshold \<le> t_reclaim_count t + 1 in
      t\<lparr>t_state := (if poison then TQUARANTINED else TPENDING),
        t_lease_token := None, t_leased_by := None, t_leased_by_version := None, t_leased_at := None,
        t_reclaim_count := t_reclaim_count t + 1,
        t_quarantined_at := (if poison then Some now else None),
        t_quarantine_reason := (if poison then Some (''lease lost '' @ show_nat (t_reclaim_count t + 1) @ '' times'') else None),
        t_visible_at := now, t_updated_at := now\<rparr>)"

definition to_reclaimed_task :: "nat \<Rightarrow> time \<Rightarrow> task_row \<Rightarrow> reclaimed_task" where
  "to_reclaimed_task threshold now t =
     \<lparr>rc_task = t_id t, rc_run = t_run t, rc_queue = t_queue t, rc_attempts = t_attempts t,
      rc_leased_by = t_leased_by t, rc_leased_by_version = t_leased_by_version t,
      rc_quarantined = (t_state (reclaim_task threshold now t) = TQUARANTINED)\<rparr>"

definition reclaim_orphaned_leases ::
    "nat \<Rightarrow> time \<Rightarrow> recovery_metrics \<Rightarrow> db \<Rightarrow> reclaimed_task list \<times> recovery_metrics \<times> db" where
  "reclaim_orphaned_leases threshold now m d =
     (let reclaimed = map (to_reclaimed_task threshold now) (filter (expired_lease now) (d_tasks d));
          m1 = fold (\<lambda>t. record_reclaimed (rc_leased_by t)) reclaimed m
      in (reclaimed, record_quarantined (length (filter rc_quarantined reclaimed)) m1,
          d\<lparr>d_tasks := map (\<lambda>t. if expired_lease now t then reclaim_task threshold now t else t) (d_tasks d)\<rparr>))"

record quarantined_task =
  qt_task :: uuid
  qt_namespace :: uuid
  qt_run :: uuid
  qt_queue :: string
  qt_type :: task_type
  qt_reclaim_count :: nat
  qt_at :: "time option"
  qt_reason :: "string option"

definition list_quarantined :: "uuid option \<Rightarrow> db \<Rightarrow> quarantined_task list" where
  "list_quarantined ns d =
     map (\<lambda>t. \<lparr>qt_task = t_id t, qt_namespace = t_namespace t, qt_run = t_run t, qt_queue = t_queue t,
        qt_type = t_type t, qt_reclaim_count = t_reclaim_count t, qt_at = t_quarantined_at t, qt_reason = t_quarantine_reason t\<rparr>)
       (sort_key (\<lambda>t. optional (t_quarantined_at t) 0) (sort_key t_id (filter (\<lambda>t. t_state t = TQUARANTINED \<and>
          (case ns of None \<Rightarrow> True | Some n \<Rightarrow> t_namespace t = n)) (d_tasks d))))"

definition release_task :: "time \<Rightarrow> task_row \<Rightarrow> task_row" where
  "release_task now t =
     t\<lparr>t_state := TPENDING, t_reclaim_count := 0, t_quarantined_at := None, t_quarantine_reason := None,
       t_visible_at := now, t_updated_at := now\<rparr>"

definition release_quarantined :: "time \<Rightarrow> uuid \<Rightarrow> db \<Rightarrow> bool \<times> db" where
  "release_quarantined now tid d =
     (list_ex (\<lambda>t. t_id t = tid \<and> t_state t = TQUARANTINED) (d_tasks d),
      d\<lparr>d_tasks := map (\<lambda>t. if t_id t = tid \<and> t_state t = TQUARANTINED then release_task now t else t) (d_tasks d)\<rparr>)"

section \<open>Stalled runs\<close>

definition MAX_RECOVERY_BACKOFF_MS :: int where
  "MAX_RECOVERY_BACKOFF_MS = 3600000"

record stalled_run =
  sl_run :: uuid
  sl_namespace :: uuid
  sl_workflow_type :: string

definition to_stalled_run :: "run_row \<Rightarrow> stalled_run" where
  "to_stalled_run r = \<lparr>sl_run = r_id r, sl_namespace = r_namespace r, sl_workflow_type = r_workflow_type r\<rparr>"

definition last_activity :: "db \<Rightarrow> run_row \<Rightarrow> time" where
  "last_activity d r =
     (case map created_at (run_events d (r_id r)) of [] \<Rightarrow> r_created_at r | t # ts \<Rightarrow> foldl max t ts)"

definition stalled :: "time \<Rightarrow> int \<Rightarrow> string \<Rightarrow> db \<Rightarrow> run_row \<Rightarrow> bool" where
  "stalled now grace q d r \<longleftrightarrow>
     r_status r = RUNNING \<and> r_queue r = q \<and> r_waiting r = None \<and>
     (case r_last_recovered_at r of None \<Rightarrow> True
      | Some t \<Rightarrow> t + min (grace * 2 ^ min (r_recovery_count r) 20) MAX_RECOVERY_BACKOFF_MS \<le> now) \<and>
     last_activity d r \<le> now - grace \<and>
     \<not> list_ex (\<lambda>t. t_run t = r_id r \<and> t_state t \<in> {TPENDING, TLEASED, TQUARANTINED}) (d_tasks d) \<and>
     \<not> list_ex (\<lambda>m. tm_run m = r_id r \<and> tm_state m = TimerPending) (d_timers d)"

definition find_stalled_runs :: "time \<Rightarrow> int \<Rightarrow> string \<Rightarrow> db \<Rightarrow> engine_error + stalled_run list" where
  "find_stalled_runs now grace q d =
     (case assert_non_negative_integer ''graceMs'' grace of
        Inl e \<Rightarrow> Inl e
      | Inr _ \<Rightarrow> Inr (map to_stalled_run
          (sort_key r_created_at (sort_key r_id (filter (stalled now grace q d) (d_runs d))))))"

definition bump_recovery :: "time \<Rightarrow> run_row \<Rightarrow> run_row" where
  "bump_recovery now r = r\<lparr>r_recovery_count := r_recovery_count r + 1, r_last_recovered_at := Some now\<rparr>"

definition enqueue_recovery :: "time \<Rightarrow> time \<Rightarrow> run_row \<Rightarrow> db \<Rightarrow> db" where
  "enqueue_recovery now wall r = insert_workflow_task r (VObj [(''reason'', VStr ''stalled_run_recovery'')]) now wall"

text \<open>\<open>locked\<close>: whether the transaction gets the advisory lock that keeps two recoveries apart.\<close>

definition recover_stalled_runs ::
    "bool \<Rightarrow> time \<Rightarrow> time \<Rightarrow> int \<Rightarrow> string \<Rightarrow> (engine_error, db, stalled_run list) tx" where
  "recover_stalled_runs locked now wall grace q = (\<lambda>d.
     case assert_non_negative_integer ''graceMs'' grace of
       Inl e \<Rightarrow> Inl e
     | Inr _ \<Rightarrow>
         if \<not> locked then Inr ([], d)
         else
           let rs = filter (stalled now grace q d) (d_runs d);
               bumped = d\<lparr>d_runs := map (\<lambda>r. if stalled now grace q d r then bump_recovery now r else r) (d_runs d)\<rparr>
           in Inr (map to_stalled_run (sort_key r_id rs), fold (enqueue_recovery now wall) rs bumped))"

section \<open>A sweep\<close>

record sweep_report =
  sw_reclaimed :: "reclaimed_task list"
  sw_stalled :: "stalled_run list"
  sw_recovered :: "stalled_run list"

text \<open>
  One pass. Every statement commits on its own: an error of a later one leaves what the earlier ones did.
  \<open>others\<close> is what the rest of the system commits between finding the stalled runs and recovering them.
\<close>

definition janitor_sweep ::
    "nat \<Rightarrow> bool \<Rightarrow> (db \<Rightarrow> db) \<Rightarrow> time \<Rightarrow> time \<Rightarrow> (int \<times> string) option \<Rightarrow> recovery_metrics \<Rightarrow> db \<Rightarrow>
     (engine_error + sweep_report) \<times> recovery_metrics \<times> db" where
  "janitor_sweep threshold locked others now wall opts m d =
     (let (reclaimed, m1, d1) = reclaim_orphaned_leases threshold now m d in
      case opts of
        None \<Rightarrow> (Inr \<lparr>sw_reclaimed = reclaimed, sw_stalled = [], sw_recovered = []\<rparr>, record_sweep now m1, d1)
      | Some (grace, q) \<Rightarrow>
          (case find_stalled_runs now grace q d1 of
             Inl e \<Rightarrow> (Inl e, m1, d1)
           | Inr found \<Rightarrow>
               (case recover_stalled_runs locked now wall grace q (others d1) of
                  Inl e \<Rightarrow> (Inl e, m1, others d1)
                | Inr (recovered, d2) \<Rightarrow>
                    (Inr \<lparr>sw_reclaimed = reclaimed, sw_stalled = found, sw_recovered = recovered\<rparr>,
                     record_sweep now (record_stalled_recovered (length recovered)
                       (record_stalled_detected (length found) m1)),
                     d2))))"

section \<open>What reclaiming does to the queue\<close>

lemma reclaim_task_fields [simp]:
  "t_id (reclaim_task th now t) = t_id t" "t_run (reclaim_task th now t) = t_run t"
  "t_lease_token (reclaim_task th now t) = None" "t_state (reclaim_task th now t) \<noteq> TLEASED"
  "t_visible_at (reclaim_task th now t) = now" "t_queue (reclaim_task th now t) = t_queue t"
  "t_reclaim_count (reclaim_task th now t) = t_reclaim_count t + 1" "t_type (reclaim_task th now t) = t_type t"
  by (simp_all add: reclaim_task_def Let_def)

lemma reclaimed_tasks:
  "reclaim_orphaned_leases th now m d = (out, m', d') \<Longrightarrow>
   d' = d\<lparr>d_tasks := map (\<lambda>t. if expired_lease now t then reclaim_task th now t else t) (d_tasks d)\<rparr>"
  by (simp add: reclaim_orphaned_leases_def Let_def)

text \<open>A map over the rows that keeps ids and takes tokens away only keeps the queue in order.\<close>

lemma queue_ok_map_rows:
  assumes ok: "queue_ok th d" and ids: "\<And>t. t_id (f t) = t_id t"
    and row: "\<And>t. t \<in> set (d_tasks d) \<Longrightarrow> task_ok th (d_next d) (f t)"
    and tok: "\<And>t. t_lease_token (f t) = None \<or> f t = t"
  shows "queue_ok th (d\<lparr>d_tasks := map f (d_tasks d)\<rparr>)"
proof -
  have "map t_id (map f (d_tasks d)) = map t_id (d_tasks d)" by (simp add: ids)
  moreover have "f t = f u" if "t \<in> set (d_tasks d)" "u \<in> set (d_tasks d)" "t_lease_token (f t) \<noteq> None"
    "t_lease_token (f t) = t_lease_token (f u)" for t u
    using that tok [of t] tok [of u] ok by (metis queue_ok_def)
  ultimately show ?thesis using ok row 
    by (simp add: queue_ok_def del: map_map) (metis option.discI)
qed

lemma task_ok_reclaim: "task_ok th s t \<Longrightarrow> task_ok th s (reclaim_task th now t)"
  by (auto simp: task_ok_def reclaim_task_def Let_def)

lemma reclaim_ok:
  assumes "queue_ok th d" and "reclaim_orphaned_leases th now m d = (out, m', d')"
  shows "queue_ok th d'"
proof -
  have "queue_ok th (d\<lparr>d_tasks := map (\<lambda>t. if expired_lease now t then reclaim_task th now t else t) (d_tasks d)\<rparr>)"
    using assms(1) by (intro queue_ok_map_rows) (auto simp: task_ok_reclaim queue_ok_def)
  then show ?thesis using reclaimed_tasks [OF assms(2)] by simp
qed

lemma find_task_reclaimed:
  assumes "reclaim_orphaned_leases th now m d = (out, m', d')"
  shows "find_task d' x = map_option (\<lambda>t. if expired_lease now t then reclaim_task th now t else t) (find_task d x)"
  using find_mapped_if [of "expired_lease now" "reclaim_task th now" x "d_tasks d"] reclaimed_tasks [OF assms]
  by (simp add: find_task_def)

lemma release_ok:
  assumes "queue_ok th d" and "0 < th"
  shows "queue_ok th (snd (release_quarantined now tid d))"
proof -
  have "t_lease_token t = None" if "t \<in> set (d_tasks d)" "t_state t = TQUARANTINED" for t
    using assms(1) that by (auto simp: queue_ok_def task_ok_def)
  then have "queue_ok th (d\<lparr>d_tasks := map (\<lambda>t. if t_id t = tid \<and> t_state t = TQUARANTINED \<and> t_lease_token t = None
      then release_task now t else t) (d_tasks d)\<rparr>)"
    using assms by (intro queue_ok_map_rows) (auto simp: release_task_def queue_ok_def task_ok_def)
  moreover have "map (\<lambda>t. if t_id t = tid \<and> t_state t = TQUARANTINED \<and> t_lease_token t = None then release_task now t else t) (d_tasks d) =
     map (\<lambda>t. if t_id t = tid \<and> t_state t = TQUARANTINED then release_task now t else t) (d_tasks d)"
    using \<open>\<And>t. t \<in> set (d_tasks d) \<Longrightarrow> t_state t = TQUARANTINED \<Longrightarrow> t_lease_token t = None\<close> by auto
  ultimately show ?thesis by (simp add: release_quarantined_def)
qed

text \<open>The counters agree with what the pass did.\<close>

lemma reclaimed_counts:
  "mt_reclaimed (fold (\<lambda>t. record_reclaimed (rc_leased_by t)) ts m) = mt_reclaimed m + length ts"
  "mt_quarantined (fold (\<lambda>t. record_reclaimed (rc_leased_by t)) ts m) = mt_quarantined m"
  by (induction ts arbitrary: m) (simp_all add: record_reclaimed_def Let_def)

section \<open>What recovery does to the runs\<close>

lemma keeps_row_bump: "keeps_row (\<lambda>r. if P r then bump_recovery now r else r)"
  by (simp add: keeps_row_def bump_recovery_def same_links_def projection_from_row_def)

lemma enqueue_recovery_frame [simp]:
  "d_runs (enqueue_recovery now wall r d) = d_runs d" "d_events (enqueue_recovery now wall r d) = d_events d"
  "d_snapshots (enqueue_recovery now wall r d) = d_snapshots d" "d_timers (enqueue_recovery now wall r d) = d_timers d"
  by (simp_all add: enqueue_recovery_def insert_workflow_task_def)

lemma enqueue_recovery_step:
  assumes "engine_ok d" and "find_run d (r_id r) = Some u" and "r_status u = RUNNING"
  shows "engine_ok (enqueue_recovery now wall r d) \<and> extends d (enqueue_recovery now wall r d)"
proof -
  have "extends d (enqueue_recovery now wall r d)"
  proof (rule extends_same_runs)
    show "waiting_tasks (enqueue_recovery now wall r d) x \<subseteq> waiting_tasks d x"
      if "find_run d x = Some q" "r_status q \<noteq> RUNNING" for x q
      using that assms(2,3)
      by (auto simp: waiting_tasks_def enqueue_recovery_def insert_workflow_task_def new_task_def)
    show "keeps d (enqueue_recovery now wall r d)"
      by (auto simp: keeps_def task_keys_def timer_keys_def timeouts_ok_def enqueue_recovery_def insert_workflow_task_def)
  qed (simp_all add: enqueue_recovery_def insert_workflow_task_def)
  moreover have "runs_ok (enqueue_recovery now wall r d)"
    by (rule runs_ok_same_runs [of d]) (use assms(1) in \<open>simp_all add: engine_ok_def\<close>)
  ultimately show ?thesis using engine_okI assms(1) by blast
qed

lemma fold_enqueue_recovery:
  assumes "engine_ok d" and "\<forall>r \<in> set rs. \<exists>u. find_run d (r_id r) = Some u \<and> r_status u = RUNNING"
  shows "engine_ok (fold (enqueue_recovery now wall) rs d) \<and> extends d (fold (enqueue_recovery now wall) rs d)"
  using assms
proof (induction rs arbitrary: d)
  case (Cons r rs)
  let ?d = "enqueue_recovery now wall r d"
  have st: "engine_ok ?d" "extends d ?d" using enqueue_recovery_step Cons.prems by fastforce+
  have "find_run ?d x = find_run d x" for x by (simp add: find_run_def)
  with Cons.IH [OF st(1)] Cons.prems(2) extends_trans [OF st(2)] show ?case by simp
qed simp

lemma fold_enqueue_tables:
  "d_runs (fold (enqueue_recovery now wall) rs d) = d_runs d \<and> d_events (fold (enqueue_recovery now wall) rs d) = d_events d \<and>
   d_timers (fold (enqueue_recovery now wall) rs d) = d_timers d \<and>
   (\<exists>new. d_tasks (fold (enqueue_recovery now wall) rs d) = d_tasks d @ new \<and>
      list_all2 (\<lambda>r t. t_run t = r_id r \<and> t_queue t = r_queue r \<and> t_namespace t = r_namespace r \<and> t_type t = WORKFLOW_TASK \<and>
        t_state t = TPENDING \<and> t_visible_at t = now) rs new)"
proof (induction rs arbitrary: d)
  case (Cons r rs)
  have "d_tasks (enqueue_recovery now wall r d) = d_tasks d @ [new_task (d_next d) (r_namespace r) (r_id r) (r_queue r) WORKFLOW_TASK
      (VObj [(''reason'', VStr ''stalled_run_recovery'')]) now wall]"
    by (simp add: enqueue_recovery_def insert_workflow_task_def)
  moreover obtain new where "d_tasks (fold (enqueue_recovery now wall) rs (enqueue_recovery now wall r d)) =
      d_tasks (enqueue_recovery now wall r d) @ new"
    "list_all2 (\<lambda>r t. t_run t = r_id r \<and> t_queue t = r_queue r \<and> t_namespace t = r_namespace r \<and> t_type t = WORKFLOW_TASK \<and>
        t_state t = TPENDING \<and> t_visible_at t = now) rs new"
    using Cons.IH [of "enqueue_recovery now wall r d"] by blast
  ultimately show ?case using Cons.IH [of "enqueue_recovery now wall r d"]
    by (simp add: list_all2_Cons1 new_task_def)
qed simp

lemma recover_ok:
  assumes ok: "engine_ok d" and rec: "recover_stalled_runs locked now wall grace q d = Inr (out, d')"
  shows "engine_ok d' \<and> extends d d'"
proof (cases locked)
  case True
  let ?f = "\<lambda>r. if stalled now grace q d r then bump_recovery now r else r"
  let ?rs = "filter (stalled now grace q d) (d_runs d)" and ?b = "d\<lparr>d_runs := map ?f (d_runs d)\<rparr>"
  have d': "d' = fold (enqueue_recovery now wall) ?rs ?b"
    using rec True by (auto simp: recover_stalled_runs_def Let_def split: sum.splits)
  have b: "engine_ok ?b" "extends d ?b" using map_rows_keeps [OF ok keeps_row_bump] by blast+
  have "\<exists>u. find_run ?b (r_id r) = Some u \<and> r_status u = RUNNING" if "r \<in> set ?rs" for r
  proof -
    have st: "r_status r = RUNNING" using that by (simp add: stalled_def)
    have "find (\<lambda>x. r_id x = r_id r) (map ?f xs) = map_option ?f (find (\<lambda>x. r_id x = r_id r) xs)" for xs
      by (induction xs) (simp_all add: bump_recovery_def)
    moreover have "find_run d (r_id r) = Some r"
      using find_run_in that ok by (auto simp: engine_ok_def runs_ok_def)
    ultimately show ?thesis using st by (simp add: find_run_def) (simp add: bump_recovery_def)
  qed
  then show ?thesis using fold_enqueue_recovery [OF b(1), of ?rs now wall] extends_trans [OF b(2)] d' by blast
next
  case False
  then show ?thesis using rec ok by (auto simp: recover_stalled_runs_def split: sum.splits)
qed

text \<open>Nothing the pass looked at is stalled after it, and each run it woke has a task in its queue.\<close>

lemma recover_wakes:
  assumes rec: "recover_stalled_runs True now wall grace q d = Inr (out, d')"
  shows "find_stalled_runs now grace q d' = Inr []"
    and "find_stalled_runs now grace q d = Inr found \<Longrightarrow> set out = set found"
    and "s \<in> set out \<Longrightarrow> \<exists>t \<in> set (d_tasks d'). t \<notin> set (d_tasks d) \<and> t_run t = sl_run s \<and> t_queue t = q \<and>
       t_type t = WORKFLOW_TASK \<and> t_state t = TPENDING \<and> t_visible_at t = now"
proof -
  let ?f = "\<lambda>r. if stalled now grace q d r then bump_recovery now r else r"
  let ?rs = "filter (stalled now grace q d) (d_runs d)" and ?b = "d\<lparr>d_runs := map ?f (d_runs d)\<rparr>"
  have grace: "\<not> grace < 0" and d': "d' = fold (enqueue_recovery now wall) ?rs ?b"
    and out: "out = map to_stalled_run (sort_key r_id ?rs)"
    using rec by (auto simp: recover_stalled_runs_def assert_non_negative_integer_def Let_def split: if_splits)
  obtain new where t: "d_runs d' = map ?f (d_runs d)" "d_events d' = d_events d" "d_timers d' = d_timers d"
      "d_tasks d' = d_tasks d @ new"
      "list_all2 (\<lambda>r t. t_run t = r_id r \<and> t_queue t = r_queue r \<and> t_namespace t = r_namespace r \<and> t_type t = WORKFLOW_TASK \<and>
        t_state t = TPENDING \<and> t_visible_at t = now) ?rs new"
    using fold_enqueue_tables [of now wall ?rs ?b] d' by auto
  have woken: "\<exists>t \<in> set new. t_run t = r_id r \<and> t_queue t = q \<and> t_type t = WORKFLOW_TASK \<and> t_state t = TPENDING \<and>
      t_visible_at t = now" if "r \<in> set ?rs" for r
  proof -
    from that obtain i where i: "i < length ?rs" "?rs ! i = r" by (meson in_set_conv_nth)
    with list_all2_nthD [OF t(5), of i] have "t_run (new ! i) = r_id r \<and> t_queue (new ! i) = r_queue r \<and>
        t_type (new ! i) = WORKFLOW_TASK \<and> t_state (new ! i) = TPENDING \<and> t_visible_at (new ! i) = now" by simp
    moreover have "new ! i \<in> set new" using list_all2_lengthD [OF t(5)] i by simp
    moreover have "r_queue r = q" using that by (simp add: stalled_def)
    ultimately show ?thesis by auto
  qed
  have still: "stalled now grace q d r" if "stalled now grace q d' (?f r)" "\<not> stalled now grace q d r" for r
  proof -
    have "last_activity d' r = last_activity d r" by (simp add: last_activity_def run_events_def t(2))
    moreover have "stalled now grace q d' r" using that by simp
    ultimately show ?thesis unfolding stalled_def t(3,4) list_ex_append by simp
  qed
  have "\<not> stalled now grace q d' r'" if "r' \<in> set (d_runs d')" for r'
  proof
    assume st: "stalled now grace q d' r'"
    from that t(1) obtain r where r: "r \<in> set (d_runs d)" "r' = ?f r" by auto
    have "stalled now grace q d r" using still [of r] st r(2) by blast
    with r(1) have "r \<in> set ?rs" by simp
    with woken obtain u where "u \<in> set new" "t_run u = r_id r" "t_state u = TPENDING" by blast
    moreover have "r_id r' = r_id r" using r(2) by (simp add: bump_recovery_def)
    ultimately show False using st t(4) by (auto simp: stalled_def list_ex_iff)
  qed
  then have "filter (stalled now grace q d') (d_runs d') = []" by (simp add: filter_empty_conv)
  then show "find_stalled_runs now grace q d' = Inr []"
    using grace by (simp add: find_stalled_runs_def assert_non_negative_integer_def)
  show "set out = set found" if "find_stalled_runs now grace q d = Inr found"
    using that grace by (auto simp: out find_stalled_runs_def assert_non_negative_integer_def)
  assume "s \<in> set out"
  then obtain r where r: "r \<in> set ?rs" "s = to_stalled_run r" by (auto simp: out)
  have none: "t_run t \<noteq> r_id r \<or> t_state t \<noteq> TPENDING" if "t \<in> set (d_tasks d)" for t
    using r(1) that by (auto simp: stalled_def list_ex_iff)
  show "\<exists>t \<in> set (d_tasks d'). t \<notin> set (d_tasks d) \<and> t_run t = sl_run s \<and> t_queue t = q \<and>
       t_type t = WORKFLOW_TASK \<and> t_state t = TPENDING \<and> t_visible_at t = now"
  proof -
    obtain u where u: "u \<in> set new" "t_run u = r_id r" "t_queue u = q" "t_type u = WORKFLOW_TASK"
      "t_state u = TPENDING" "t_visible_at u = now" using woken [OF r(1)] by blast
    have "u \<notin> set (d_tasks d)" using none [of u] u by blast
    moreover have "u \<in> set (d_tasks d')" "t_run u = sl_run s" using u t(4) r(2) by (simp_all add: to_stalled_run_def)
    ultimately show ?thesis using u by blast
  qed
qed

end
