(* ===== verification/Quotas.thy ===== *)
theory Quotas
  imports TaskQueue
begin

text \<open>
  Limits on a namespace: the token bucket (\<open>packages/core/src/quota/token-bucket.ts\<close>), the stored limits and
  the usage they are compared with (\<open>quota/quota-store.ts\<close>) and the guard in front of the requests
  (\<open>packages/api/src/quota-guard.ts\<close>). Tokens are exact rationals where the code has doubles.
\<close>

section \<open>The token bucket\<close>

record token_bucket_config =
  tc_rate :: jsnum
  tc_burst :: jsnum

record rate_limit_decision =
  rd_allowed :: bool
  rd_retry_after :: int
  rd_remaining :: int

record bucket_state =
  bk_tokens :: rat
  bk_updated :: time

type_synonym limiter = "string \<Rightarrow> bucket_state option"

definition assert_config :: "token_bucket_config \<Rightarrow> engine_error + unit" where
  "assert_config c =
     (if \<not> is_finite_num (tc_rate c) \<or> num_value (tc_rate c) \<le> 0 then Inl (RangeError ''ratePerSecond'')
      else if \<not> (is_finite_num (tc_burst c) \<and> of_int \<lfloor>num_value (tc_burst c)\<rfloor> = num_value (tc_burst c))
        \<or> num_value (tc_burst c) \<le> 0
      then Inl (RangeError ''burst'')
      else Inr ())"

definition refill :: "token_bucket_config \<Rightarrow> time \<Rightarrow> bucket_state \<Rightarrow> bucket_state" where
  "refill c now b =
     (let elapsed = max 0 (now - bk_updated b) in
      \<lparr>bk_tokens = min (num_value (tc_burst c)) (bk_tokens b + of_int elapsed * num_value (tc_rate c) / 1000),
       bk_updated = max (bk_updated b) now\<rparr>)"

definition take_token :: "time \<Rightarrow> string \<Rightarrow> token_bucket_config \<Rightarrow> (engine_error, limiter, rate_limit_decision) tx" where
  "take_token now key c = (\<lambda>buckets.
     case assert_config c of
       Inl e \<Rightarrow> Inl e
     | Inr _ \<Rightarrow>
         let b = refill c now (optional (buckets key) \<lparr>bk_tokens = num_value (tc_burst c), bk_updated = now\<rparr>) in
         if 1 \<le> bk_tokens b then
           Inr (\<lparr>rd_allowed = True, rd_retry_after = 0, rd_remaining = \<lfloor>bk_tokens b - 1\<rfloor>\<rparr>,
                buckets(key \<mapsto> b\<lparr>bk_tokens := bk_tokens b - 1\<rparr>))
         else
           let missing = 1 - bk_tokens b in
           Inr (\<lparr>rd_allowed = False, rd_retry_after = \<lceil>missing / num_value (tc_rate c) * 1000\<rceil>, rd_remaining = 0\<rparr>,
                buckets(key \<mapsto> b)))"

definition reset_bucket :: "string \<Rightarrow> limiter \<Rightarrow> limiter" where
  "reset_bucket key buckets = buckets(key := None)"

text \<open>Calls of one key at the instants of a list.\<close>

fun take_tokens :: "string \<Rightarrow> token_bucket_config \<Rightarrow> time list \<Rightarrow> (engine_error, limiter, rate_limit_decision list) tx" where
  "take_tokens key c [] buckets = Inr ([], buckets)"
| "take_tokens key c (t # ts) buckets =
     (case take_token t key c buckets of
        Inl e \<Rightarrow> Inl e
      | Inr (x, b1) \<Rightarrow> (case take_tokens key c ts b1 of Inl e \<Rightarrow> Inl e | Inr (xs, b2) \<Rightarrow> Inr (x # xs, b2)))"

lemma assert_config_Inr:
  "assert_config c = Inr u \<Longrightarrow> 0 < num_value (tc_rate c) \<and> 1 \<le> num_value (tc_burst c)"
proof -
  assume "assert_config c = Inr u"
  then have rate: "0 < num_value (tc_rate c)" and b: "of_int \<lfloor>num_value (tc_burst c)\<rfloor> = num_value (tc_burst c)"
    "0 < num_value (tc_burst c)"
    by (auto simp: assert_config_def split: if_splits)
  from b have "1 \<le> \<lfloor>num_value (tc_burst c)\<rfloor>" by (metis int_one_le_iff_zero_less of_int_0_less_iff)
  with b(1) rate show ?thesis by (metis of_int_1_le_iff)
qed

lemma take_token_other_keys:
  "take_token now key c lm = Inr (x, lm') \<Longrightarrow> k \<noteq> key \<Longrightarrow> lm' k = lm k"
  by (auto simp: take_token_def Let_def split: sum.splits if_splits)

text \<open>
  What a bucket can still let through by the instant \<open>T\<close>: its tokens and what it is refilled with. A
  call that passes uses one of these up, one that is refused none.
\<close>

definition allowance :: "token_bucket_config \<Rightarrow> time \<Rightarrow> bucket_state \<Rightarrow> rat" where
  "allowance c T b = bk_tokens b + of_int (T - bk_updated b) * num_value (tc_rate c) / 1000"

lemma allowance_refill:
  assumes "0 < num_value (tc_rate c)"
  shows "allowance c T (refill c now b) \<le> allowance c T b"
proof -
  let ?r = "num_value (tc_rate c) / 1000"
  have "of_int (T - bk_updated b) = of_int (max 0 (now - bk_updated b)) + (of_int (T - max (bk_updated b) now) :: rat)"
    by (simp add: max_def)
  then have "of_int (T - bk_updated b) * ?r = of_int (max 0 (now - bk_updated b)) * ?r + of_int (T - max (bk_updated b) now) * ?r"
    by (simp only: distrib_right)
  moreover have "min a b + c \<le> b + c" for a b c :: rat by simp
  ultimately show ?thesis by (simp add: allowance_def refill_def Let_def add_divide_distrib)
qed

lemma take_token_allowance:
  assumes take: "take_token now key c lm = Inr (x, lm')" and b: "lm key = Some b" and now: "now \<le> T" "bk_updated b \<le> T"
  shows "\<exists>b'. lm' key = Some b' \<and> bk_updated b' \<le> T \<and>
     allowance c T b' + (if rd_allowed x then 1 else 0) \<le> allowance c T b \<and> (0 \<le> bk_tokens b \<longrightarrow> 0 \<le> bk_tokens b')"
proof -
  have c: "assert_config c = Inr ()" using take by (auto simp: take_token_def split: sum.splits)
  let ?b = "refill c now b"
  have rate: "0 < num_value (tc_rate c)" "1 \<le> num_value (tc_burst c)" using assert_config_Inr [OF c] by auto
  have upd: "bk_updated ?b \<le> T" using now by (simp add: refill_def Let_def)
  have pos: "0 \<le> bk_tokens ?b" if "0 \<le> bk_tokens b" using that rate by (simp add: refill_def Let_def)
  show ?thesis
  proof (cases "1 \<le> bk_tokens ?b")
    case True
    then have "x = \<lparr>rd_allowed = True, rd_retry_after = 0, rd_remaining = \<lfloor>bk_tokens ?b - 1\<rfloor>\<rparr>"
      "lm' key = Some (?b\<lparr>bk_tokens := bk_tokens ?b - 1\<rparr>)"
      using take by (auto simp: take_token_def c b Let_def)
    with True upd allowance_refill [OF rate(1), of T now b] show ?thesis by (simp add: allowance_def)
  next
    case False
    then have "\<not> rd_allowed x" "lm' key = Some ?b" using take by (auto simp: take_token_def c b Let_def)
    with upd pos allowance_refill [OF rate(1), of T now b] show ?thesis by simp
  qed
qed

lemma take_tokens_allowance:
  assumes "take_tokens key c ts lm = Inr (xs, lm')" and "lm key = Some b" and "\<forall>t \<in> set ts. t \<le> T" and "bk_updated b \<le> T"
    and "0 \<le> bk_tokens b" and "0 < num_value (tc_rate c)"
  shows "of_nat (length (filter rd_allowed xs)) \<le> allowance c T b"
  using assms
proof (induction ts arbitrary: lm b xs)
  case Nil
  then show ?case by (simp add: allowance_def)
next
  case (Cons t ts)
  from Cons.prems(1) obtain x lm1 ys where step: "take_token t key c lm = Inr (x, lm1)"
    and rest: "take_tokens key c ts lm1 = Inr (ys, lm')" and xs: "xs = x # ys"
    by (auto split: sum.splits)
  obtain b1 where b1: "lm1 key = Some b1" "bk_updated b1 \<le> T" "0 \<le> bk_tokens b1"
    "allowance c T b1 + (if rd_allowed x then 1 else 0) \<le> allowance c T b"
    using take_token_allowance [OF step Cons.prems(2)] Cons.prems(3-5) by auto
  from Cons.IH [OF rest b1(1) _ b1(2,3) Cons.prems(6)] Cons.prems(3) b1(4) show ?case by (auto simp: xs split: if_splits)
qed

text \<open>A wait of the advertised length is enough, unless another call takes the token.\<close>

lemma retry_after_suffices:
  assumes take: "take_token now key c lm = Inr (x, lm')" and no: "\<not> rd_allowed x"
    and b': "lm' key = Some b'" and later: "bk_updated b' + rd_retry_after x \<le> later"
  shows "\<exists>y lm''. take_token later key c lm' = Inr (y, lm'') \<and> rd_allowed y"
proof -
  have c: "assert_config c = Inr ()" using take by (auto simp: take_token_def split: sum.splits)
  have rate: "0 < num_value (tc_rate c)" "1 \<le> num_value (tc_burst c)" using assert_config_Inr [OF c] by auto
  let ?r = "num_value (tc_rate c)"
  have low: "bk_tokens b' < 1" and after: "rd_retry_after x = \<lceil>(1 - bk_tokens b') / ?r * 1000\<rceil>"
    using take no b' by (auto simp: take_token_def c Let_def split: if_splits)
  have "(1 - bk_tokens b') / ?r * 1000 \<le> of_int (rd_retry_after x)" by (simp add: after)
  also have "\<dots> \<le> of_int (max 0 (later - bk_updated b'))" using later by simp
  finally have "(1 - bk_tokens b') / ?r * 1000 \<le> of_int (max 0 (later - bk_updated b'))" .
  then have "1 - bk_tokens b' \<le> of_int (max 0 (later - bk_updated b')) * ?r / 1000"
    using rate(1) by (simp add: field_simps)
  then have "1 \<le> bk_tokens (refill c later b')" using rate by (simp add: refill_def Let_def)
  then show ?thesis by (simp add: take_token_def c b' Let_def)
qed

section \<open>Limits and usage\<close>

record namespace_quota =
  nq_max_runs :: "int option"
  nq_max_tasks :: "int option"
  nq_rate :: "jsnum option"
  nq_burst :: "int option"

definition UNLIMITED_QUOTA :: namespace_quota where
  "UNLIMITED_QUOTA = \<lparr>nq_max_runs = None, nq_max_tasks = None, nq_rate = None, nq_burst = None\<rparr>"

text \<open>The table \<open>namespace_quotas\<close>, one row per namespace.\<close>

type_synonym quota_table = "uuid \<Rightarrow> namespace_quota option"

definition get_quota :: "quota_table \<Rightarrow> uuid \<Rightarrow> namespace_quota" where
  "get_quota tab ns = (case tab ns of None \<Rightarrow> UNLIMITED_QUOTA | Some q \<Rightarrow> q)"

text \<open>
  A partial quota is one with \<open>null\<close> for what is missing. The \<open>check\<close> constraints of the table refuse a row;
  \<open>double precision\<close> has an infinity and a NaN, which compare greater than zero.
\<close>

definition quota_row_valid :: "namespace_quota \<Rightarrow> bool" where
  "quota_row_valid q \<longleftrightarrow>
     (case nq_max_runs q of None \<Rightarrow> True | Some n \<Rightarrow> 0 \<le> n) \<and> (case nq_max_tasks q of None \<Rightarrow> True | Some n \<Rightarrow> 0 \<le> n) \<and>
     (case nq_rate q of None \<Rightarrow> True | Some (Fin r) \<Rightarrow> 0 < r | Some NegZero \<Rightarrow> False | Some NaN \<Rightarrow> True | Some (Infinite positive) \<Rightarrow> positive) \<and>
     (case nq_burst q of None \<Rightarrow> True | Some n \<Rightarrow> 0 < n)"

definition set_quota :: "uuid \<Rightarrow> namespace_quota \<Rightarrow> (engine_error, quota_table, namespace_quota) tx" where
  "set_quota ns q = (\<lambda>tab. if quota_row_valid q then Inr (q, tab(ns \<mapsto> q)) else Inl (CheckViolation ''namespace_quotas''))"

record namespace_usage =
  nu_open_runs :: nat
  nu_pending_tasks :: nat

definition namespace_usage_of :: "uuid \<Rightarrow> db \<Rightarrow> namespace_usage" where
  "namespace_usage_of ns d =
     \<lparr>nu_open_runs = length (filter (\<lambda>r. r_namespace r = ns \<and> r_status r = RUNNING) (d_runs d)),
      nu_pending_tasks = length (filter (\<lambda>t. t_namespace t = ns \<and> t_state t \<in> {TPENDING, TLEASED}) (d_tasks d))\<rparr>"

definition queue_depth :: "string \<Rightarrow> db \<Rightarrow> nat" where
  "queue_depth q d = length (filter (\<lambda>t. t_queue t = q \<and> t_state t = TPENDING) (d_tasks d))"

section \<open>The guard\<close>

datatype request_kind = ReadRequest | WriteRequest | StartRequest

datatype rejection_code = RateLimited | RunQuotaExceeded | TaskQuotaExceeded | Overloaded

record rejection =
  rj_status :: nat
  rj_code :: rejection_code
  rj_message :: string
  rj_retry_after :: int

record quota_guard_options =
  qg_queue :: "string option"
  qg_max_depth :: "int option"
  qg_retry_after :: "int option"

definition DEFAULT_QUOTA_RETRY_AFTER_SECONDS :: int where
  "DEFAULT_QUOTA_RETRY_AFTER_SECONDS = 5"

definition bucket_config_of :: "jsnum \<Rightarrow> int option \<Rightarrow> token_bucket_config" where
  "bucket_config_of rate burst =
     \<lparr>tc_rate = rate,
      tc_burst = (case burst of Some n \<Rightarrow> Fin (of_int n)
        | None \<Rightarrow> if is_finite_num rate then Fin (of_int (max 1 \<lceil>num_value rate\<rceil>)) else rate)\<rparr>"

definition rate_check ::
    "time \<Rightarrow> namespace_quota \<Rightarrow> string \<Rightarrow> (engine_error, limiter, rejection option) tx" where
  "rate_check now quota key = (\<lambda>lm.
     case nq_rate quota of
       None \<Rightarrow> Inr (None, lm)
     | Some rate \<Rightarrow>
         (case take_token now key (bucket_config_of rate (nq_burst quota)) lm of
            Inl e \<Rightarrow> Inl e
          | Inr (x, lm') \<Rightarrow>
              Inr (if rd_allowed x then None
                   else Some \<lparr>rj_status = 429, rj_code = RateLimited,
                     rj_message = ''the namespace exceeded its request rate limit'',
                     rj_retry_after = max 1 \<lceil>of_int (rd_retry_after x) / (1000 :: rat)\<rceil>\<rparr>, lm')))"

text \<open>The checks after the rate limit, in their order.\<close>

definition usage_check :: "quota_guard_options \<Rightarrow> namespace_quota \<Rightarrow> uuid \<Rightarrow> request_kind \<Rightarrow> db \<Rightarrow> rejection option" where
  "usage_check opt quota ns kind d =
     (let retry = optional (qg_retry_after opt) DEFAULT_QUOTA_RETRY_AFTER_SECONDS; usage = namespace_usage_of ns d in
      if kind = ReadRequest then None
      else if (case (qg_queue opt, qg_max_depth opt) of (Some q, Some n) \<Rightarrow> n \<le> int (queue_depth q d) | _ \<Rightarrow> False)
      then Some \<lparr>rj_status = 503, rj_code = Overloaded, rj_message = ''the task queue is full, try again later'',
                 rj_retry_after = retry\<rparr>
      else if (case nq_max_tasks quota of Some n \<Rightarrow> n \<le> int (nu_pending_tasks usage) | None \<Rightarrow> False)
      then Some \<lparr>rj_status = 429, rj_code = TaskQuotaExceeded,
                 rj_message = ''the namespace has '' @ show_nat (nu_pending_tasks usage) @ '' pending tasks, the limit is '' @
                   show_nat (nat (optional (nq_max_tasks quota) 0)),
                 rj_retry_after = retry\<rparr>
      else if kind = StartRequest \<and> (case nq_max_runs quota of Some n \<Rightarrow> n \<le> int (nu_open_runs usage) | None \<Rightarrow> False)
      then Some \<lparr>rj_status = 429, rj_code = RunQuotaExceeded,
                 rj_message = ''the namespace has '' @ show_nat (nu_open_runs usage) @ '' open runs, the limit is '' @
                   show_nat (nat (optional (nq_max_runs quota) 0)),
                 rj_retry_after = retry\<rparr>
      else None)"

definition check_request ::
    "quota_guard_options \<Rightarrow> quota_table \<Rightarrow> time \<Rightarrow> (uuid \<Rightarrow> string) \<Rightarrow> uuid \<Rightarrow> request_kind \<Rightarrow> db \<Rightarrow>
     (engine_error, limiter, rejection option) tx" where
  "check_request opt tab now key ns kind d = (\<lambda>lm.
     let quota = get_quota tab ns in
     case rate_check now quota (key ns) lm of
       Inl e \<Rightarrow> Inl e
     | Inr (Some rejected, lm') \<Rightarrow> Inr (Some rejected, lm')
     | Inr (None, lm') \<Rightarrow> Inr (usage_check opt quota ns kind d, lm'))"

lemma get_set_quota: "set_quota ns q tab = Inr (x, tab') \<Longrightarrow> get_quota tab' m = (if m = ns then q else get_quota tab m)"
  by (auto simp: set_quota_def get_quota_def split: if_splits)

text \<open>What a request that passes has been compared with.\<close>

lemma passed_start_within_limits:
  assumes "check_request opt tab now key ns StartRequest d lm = Inr (None, lm')"
  shows "(\<forall>n. nq_max_runs (get_quota tab ns) = Some n \<longrightarrow> int (nu_open_runs (namespace_usage_of ns d)) < n) \<and>
     (\<forall>n. nq_max_tasks (get_quota tab ns) = Some n \<longrightarrow> int (nu_pending_tasks (namespace_usage_of ns d)) < n) \<and>
     (\<forall>q n. qg_queue opt = Some q \<longrightarrow> qg_max_depth opt = Some n \<longrightarrow> int (queue_depth q d) < n)"
proof -
  have "usage_check opt (get_quota tab ns) ns StartRequest d = None"
    using assms by (auto simp: check_request_def Let_def split: sum.splits option.splits)
  then show ?thesis by (auto simp: usage_check_def Let_def split: if_splits option.splits)
qed

lemma rate_rejection:
  assumes "check_request opt tab now key ns kind d lm = Inr (Some r, lm')" and "rj_code r = RateLimited"
  shows "rj_status r = 429 \<and> 1 \<le> rj_retry_after r"
  using assms by (auto simp: check_request_def rate_check_def usage_check_def Let_def split: sum.splits option.splits if_splits prod.splits)

end
