(* ===== verification/Sticky.thy ===== *)
theory Sticky
  imports Growth TaskQueue
begin

text \<open>
  Sticky execution: the cache of run state a worker keeps (\<open>packages/core/src/sticky/run-cache.ts\<close>) and the
  claims that route a run's workflow tasks to the worker that has it cached (\<open>sticky/sticky-router.ts\<close>).
\<close>

section \<open>The run cache\<close>

text \<open>A \<open>Map\<close> keeps its keys in insertion order: the entries are a list, the least recently used one first.\<close>

record 'v cache_entry =
  ce_run :: uuid
  ce_value :: 'v
  ce_last_used :: time

record 'v run_cache =
  ca_max_runs :: int
  ca_timeout :: int
  ca_entries :: "'v cache_entry list"
  ca_hits :: nat
  ca_misses :: nat
  ca_evictions :: nat
  ca_expirations :: nat

definition create_run_cache :: "int \<Rightarrow> int \<Rightarrow> engine_error + 'v run_cache" where
  "create_run_cache max_runs timeout =
     (if max_runs < 1 then Inl (RangeError ''maxRuns'')
      else if timeout < 1 then Inl (RangeError ''stickyTimeoutMs'')
      else Inr \<lparr>ca_max_runs = max_runs, ca_timeout = timeout, ca_entries = [], ca_hits = 0, ca_misses = 0,
                ca_evictions = 0, ca_expirations = 0\<rparr>)"

definition cache_size :: "'v run_cache \<Rightarrow> nat" where
  "cache_size c = length (ca_entries c)"

definition find_entry :: "uuid \<Rightarrow> 'v run_cache \<Rightarrow> 'v cache_entry option" where
  "find_entry k c = find (\<lambda>e. ce_run e = k) (ca_entries c)"

definition without_entry :: "uuid \<Rightarrow> 'v cache_entry list \<Rightarrow> 'v cache_entry list" where
  "without_entry k es = filter (\<lambda>e. ce_run e \<noteq> k) es"

definition cache_get :: "time \<Rightarrow> uuid \<Rightarrow> 'v run_cache \<Rightarrow> 'v option \<times> 'v run_cache" where
  "cache_get now k c =
     (case find_entry k c of
        None \<Rightarrow> (None, c\<lparr>ca_misses := ca_misses c + 1\<rparr>)
      | Some e \<Rightarrow>
          if ca_timeout c < now - ce_last_used e then
            (None, c\<lparr>ca_entries := without_entry k (ca_entries c),
                     ca_expirations := ca_expirations c + 1, ca_misses := ca_misses c + 1\<rparr>)
          else
            (Some (ce_value e),
             c\<lparr>ca_entries := without_entry k (ca_entries c) @ [e\<lparr>ce_last_used := now\<rparr>], ca_hits := ca_hits c + 1\<rparr>))"

text \<open>The loop that drops the oldest entries while there are too many.\<close>

fun evict :: "int \<Rightarrow> 'v cache_entry list \<Rightarrow> nat \<Rightarrow> 'v cache_entry list \<times> nat" where
  "evict max_runs [] n = ([], n)"
| "evict max_runs (e # es) n =
     (if max_runs < int (length (e # es)) then evict max_runs es (n + 1) else (e # es, n))"

definition cache_set :: "time \<Rightarrow> uuid \<Rightarrow> 'v \<Rightarrow> 'v run_cache \<Rightarrow> 'v run_cache" where
  "cache_set now k v c =
     (let (es, n) = evict (ca_max_runs c)
            (without_entry k (ca_entries c) @ [\<lparr>ce_run = k, ce_value = v, ce_last_used = now\<rparr>]) (ca_evictions c)
      in c\<lparr>ca_entries := es, ca_evictions := n\<rparr>)"

definition cache_delete :: "uuid \<Rightarrow> 'v run_cache \<Rightarrow> bool \<times> 'v run_cache" where
  "cache_delete k c = (find_entry k c \<noteq> None, c\<lparr>ca_entries := without_entry k (ca_entries c)\<rparr>)"

definition cache_clear :: "'v run_cache \<Rightarrow> 'v run_cache" where
  "cache_clear c = c\<lparr>ca_entries := []\<rparr>"

text \<open>At most \<open>maxRuns\<close> entries, one per run.\<close>

definition cache_ok :: "'v run_cache \<Rightarrow> bool" where
  "cache_ok c \<longleftrightarrow> 1 \<le> ca_max_runs c \<and> 1 \<le> ca_timeout c \<and> int (length (ca_entries c)) \<le> ca_max_runs c \<and>
     distinct (map ce_run (ca_entries c))"

lemma evict_drop:
  assumes "0 \<le> m"
  shows "evict m es n = (drop (length es - nat m) es, n + (length es - nat m))"
  using assms
proof (induction m es n rule: evict.induct)
  case (2 m e es n)
  then show ?case by (cases "m < int (length (e # es))") (simp_all add: Suc_diff_le)
qed simp

lemma without_entry_facts [simp]:
  "length (without_entry k es) \<le> length es" "k \<notin> ce_run ` set (without_entry k es)"
  "distinct (map ce_run es) \<Longrightarrow> distinct (map ce_run (without_entry k es))"
  by (auto simp: without_entry_def distinct_map_filter)

lemma length_without_entry:
  "find (\<lambda>e. ce_run e = k) es = Some e \<Longrightarrow> length (without_entry k es) < length es"
proof (induction es)
  case (Cons x xs)
  have "length (without_entry k xs) \<le> length xs" by simp
  with Cons show ?case by (auto simp: without_entry_def le_imp_less_Suc split: if_splits simp del: length_filter_le)
qed simp

lemma find_without_entry:
  "find (\<lambda>e. ce_run e = j) (without_entry k es) = (if j = k then None else find (\<lambda>e. ce_run e = j) es)"
  by (induction es) (auto simp: without_entry_def)

lemma find_snoc:
  "find P (xs @ [x]) = (case find P xs of None \<Rightarrow> if P x then Some x else None | Some y \<Rightarrow> Some y)"
  by (induction xs) auto

lemma cache_set_entries:
  fixes k c
  defines "es \<equiv> without_entry k (ca_entries c)"
  assumes "1 \<le> ca_max_runs c"
  shows "ca_entries (cache_set now k v c) =
     drop (length es + 1 - nat (ca_max_runs c)) es @ [\<lparr>ce_run = k, ce_value = v, ce_last_used = now\<rparr>]"
proof -
  have "length es + 1 - nat (ca_max_runs c) \<le> length es" using assms(2) by simp
  then show ?thesis using assms(2) by (simp add: cache_set_def evict_drop es_def)
qed

lemma cache_ok_set:
  assumes "cache_ok c"
  shows "cache_ok (cache_set now k v c)"
proof -
  let ?es = "without_entry k (ca_entries c)"
  have m: "1 \<le> ca_max_runs c" using assms by (simp add: cache_ok_def)
  have "ca_max_runs (cache_set now k v c) = ca_max_runs c" "ca_timeout (cache_set now k v c) = ca_timeout c"
    by (simp_all add: cache_set_def split: prod.splits)
  moreover have "distinct (map ce_run (drop n ?es @ [\<lparr>ce_run = k, ce_value = v, ce_last_used = now\<rparr>]))" for n
  proof -
    have "distinct (map ce_run ?es)" "k \<notin> set (map ce_run ?es)" using assms by (simp_all add: cache_ok_def)
    then show ?thesis by (auto simp flip: drop_map dest: in_set_dropD)
  qed
  ultimately show ?thesis using assms m by (simp add: cache_ok_def cache_set_entries)
qed

lemma cache_ok_get:
  assumes "cache_ok c"
  shows "cache_ok (snd (cache_get now k c))"
proof (cases "find_entry k c")
  case (Some e)
  then have "ce_run e = k" "length (without_entry k (ca_entries c)) < length (ca_entries c)"
    using length_without_entry by (auto simp: find_entry_def find_Some_iff)
  moreover have "k \<notin> ce_run ` set (without_entry k (ca_entries c))" by simp
  ultimately show ?thesis using assms Some by (auto simp: cache_get_def cache_ok_def)
qed (use assms in \<open>simp add: cache_get_def cache_ok_def\<close>)

lemma cache_ok_delete: "cache_ok c \<Longrightarrow> cache_ok (snd (cache_delete k c))"
  using without_entry_facts(1) [of k "ca_entries c"]
  by (auto simp: cache_ok_def cache_delete_def simp del: without_entry_facts(1))

lemma cache_ok_clear: "cache_ok c \<Longrightarrow> cache_ok (cache_clear c)"
  by (simp add: cache_ok_def cache_clear_def)

text \<open>What a \<open>get\<close> answers after a \<open>set\<close>.\<close>

lemma cache_get_set:
  assumes "cache_ok c"
  shows "now' - now \<le> ca_timeout c \<Longrightarrow> fst (cache_get now' k (cache_set now k v c)) = Some v"
    and "j \<noteq> k \<Longrightarrow> fst (cache_get now' j (cache_set now k v c)) \<in> {None, fst (cache_get now' j c)}"
proof -
  have m: "1 \<le> ca_max_runs c" using assms by (simp add: cache_ok_def)
  let ?es = "without_entry k (ca_entries c)" and ?n = "length (without_entry k (ca_entries c)) + 1 - nat (ca_max_runs c)"
  have t: "ca_timeout (cache_set now k v c) = ca_timeout c" by (simp add: cache_set_def split: prod.splits)
  have none: "find (\<lambda>e. ce_run e = k) (drop n ?es) = None" for n
    by (auto simp: find_None_iff without_entry_def dest: in_set_dropD)
  show "fst (cache_get now' k (cache_set now k v c)) = Some v" if "now' - now \<le> ca_timeout c"
    using that by (simp add: cache_get_def find_entry_def cache_set_entries [OF m] find_snoc none t)
  assume j: "j \<noteq> k"
  have dist: "distinct (map ce_run ?es)" using assms by (simp add: cache_ok_def)
  have drop: "find (\<lambda>e. ce_run e = j) (drop n xs) \<in> {None, find (\<lambda>e. ce_run e = j) xs}"
    if "distinct (map ce_run xs)" for n and xs :: "'a cache_entry list"
    using that
  proof (induction xs arbitrary: n)
    case (Cons x xs)
    have absent: "ce_run x = j \<Longrightarrow> find (\<lambda>e. ce_run e = j) xs = None" using Cons.prems by (auto simp: find_None_iff) (metis image_eqI)
    show ?case
    proof (cases n)
      case (Suc m)
      have "find (\<lambda>e. ce_run e = j) (drop m xs) \<in> {None, find (\<lambda>e. ce_run e = j) xs}"
        using Cons.IH Cons.prems by simp
      then show ?thesis using absent Suc by auto
    qed simp
  qed simp
  have "find_entry j (cache_set now k v c) \<in> {None, find_entry j c}"
    using drop [OF dist, of ?n] j
    by (auto simp: find_entry_def cache_set_entries [OF m] find_snoc find_without_entry split: option.splits)
  then show "fst (cache_get now' j (cache_set now k v c)) \<in> {None, fst (cache_get now' j c)}"
    by (auto simp: cache_get_def t split: option.splits)
qed

text \<open>A miss is an entry that is absent or idle for too long, and leaves the entry absent.\<close>

lemma cache_get_None:
  assumes "cache_get now k c = (None, c')"
  shows "find_entry k c' = None"
  using assms find_without_entry [of k k "ca_entries c"]
  by (auto simp: cache_get_def find_entry_def split: option.splits if_splits)

section \<open>Claims\<close>

record sticky_claim =
  ck_run :: uuid
  ck_worker :: string
  ck_expires_at :: time

definition to_claim :: "stickiness_row \<Rightarrow> sticky_claim" where
  "to_claim s = \<lparr>ck_run = st_run s, ck_worker = st_worker s, ck_expires_at = st_expires_at s\<rparr>"

definition renew_claim :: "string \<Rightarrow> time \<Rightarrow> int \<Rightarrow> stickiness_row \<Rightarrow> stickiness_row" where
  "renew_claim worker now timeout s =
     (if st_worker s = worker \<or> st_expires_at s \<le> now
      then s\<lparr>st_worker := worker, st_expires_at := now + timeout\<rparr> else s)"

definition claim_run :: "time \<Rightarrow> uuid \<Rightarrow> string \<Rightarrow> int \<Rightarrow> (engine_error, db, sticky_claim) tx" where
  "claim_run now rid worker timeout = (\<lambda>d.
     if timeout < 1 then Inl (RangeError ''stickyTimeoutMs'')
     else case find (\<lambda>s. st_run s = rid) (d_stickiness d) of
       Some s \<Rightarrow> Inr (to_claim (renew_claim worker now timeout s),
         d\<lparr>d_stickiness := map (\<lambda>s. if st_run s = rid then renew_claim worker now timeout s else s) (d_stickiness d)\<rparr>)
     | None \<Rightarrow>
         if find_run d rid = None then Inl (ForeignKeyViolation ''run_stickiness_run_id_fkey'')
         else
           let s = \<lparr>st_run = rid, st_worker = worker, st_expires_at = now + timeout\<rparr>
           in Inr (to_claim s, d\<lparr>d_stickiness := d_stickiness d @ [s]\<rparr>))"

definition find_claim :: "time \<Rightarrow> uuid \<Rightarrow> db \<Rightarrow> sticky_claim option" where
  "find_claim now rid d =
     map_option to_claim (find (\<lambda>s. st_run s = rid \<and> now < st_expires_at s) (d_stickiness d))"

definition release_claim :: "uuid \<Rightarrow> string \<Rightarrow> db \<Rightarrow> bool \<times> db" where
  "release_claim rid worker d =
     (length (filter (\<lambda>s. st_run s = rid \<and> st_worker s = worker) (d_stickiness d)) = 1,
      d\<lparr>d_stickiness := filter (\<lambda>s. \<not> (st_run s = rid \<and> st_worker s = worker)) (d_stickiness d)\<rparr>)"

definition release_worker :: "string \<Rightarrow> db \<Rightarrow> nat \<times> db" where
  "release_worker worker d =
     (length (filter (\<lambda>s. st_worker s = worker) (d_stickiness d)),
      d\<lparr>d_stickiness := filter (\<lambda>s. st_worker s \<noteq> worker) (d_stickiness d)\<rparr>)"

definition claims_ok :: "db \<Rightarrow> bool" where
  "claims_ok d \<longleftrightarrow> distinct (map st_run (d_stickiness d))"

lemma renew_claim_run [simp]: "st_run (renew_claim w now timeout s) = st_run s"
  by (simp add: renew_claim_def)

lemma claim_run_frame:
  assumes "claim_run now rid w timeout d = Inr (cl, d')"
  shows "d_tasks d' = d_tasks d" "d_runs d' = d_runs d" "d_events d' = d_events d" "d_next d' = d_next d"
  using assms by (auto simp: claim_run_def Let_def split: if_splits option.splits)

lemma claims_ok_claim:
  assumes "claims_ok d" and "claim_run now rid w timeout d = Inr (cl, d')"
  shows "claims_ok d'"
proof -
  have "map st_run (map (\<lambda>s. if st_run s = rid then renew_claim w now timeout s else s) ss) = map st_run ss" for ss
    by (induction ss) simp_all
  moreover have "st_run s \<noteq> rid" if "find (\<lambda>s. st_run s = rid) (d_stickiness d) = None" "s \<in> set (d_stickiness d)" for s
    using that by (auto simp: find_None_iff)
  ultimately have "distinct (map st_run (d_stickiness d'))" using assms
    by (fastforce simp: claims_ok_def claim_run_def Let_def simp del: map_map split: if_splits option.splits)
  then show ?thesis by (simp add: claims_ok_def)
qed

lemma claims_ok_release: "claims_ok d \<Longrightarrow> claims_ok (snd (release_claim rid w d))" "claims_ok d \<Longrightarrow> claims_ok (snd (release_worker w d))"
  by (simp_all add: claims_ok_def release_claim_def release_worker_def distinct_map_filter)

text \<open>The claim a run has in the table.\<close>

definition claim_of :: "db \<Rightarrow> uuid \<Rightarrow> stickiness_row option" where
  "claim_of d rid = find (\<lambda>s. st_run s = rid) (d_stickiness d)"

lemma claim_of_claimed:
  assumes "claim_run now rid w timeout d = Inr (cl, d')"
  shows "\<exists>s. claim_of d' rid = Some s \<and> cl = to_claim s \<and> st_run s = rid \<and>
     (case claim_of d rid of
        Some old \<Rightarrow> s = renew_claim w now timeout old
      | None \<Rightarrow> s = \<lparr>st_run = rid, st_worker = w, st_expires_at = now + timeout\<rparr>)"
proof -
  have upd: "find (\<lambda>s. st_run s = rid) (map (\<lambda>s. if st_run s = rid then renew_claim w now timeout s else s) ss) =
     map_option (renew_claim w now timeout) (find (\<lambda>s. st_run s = rid) ss)" for ss
    by (induction ss) simp_all
  show ?thesis
  proof (cases "claim_of d rid")
    case None
    with assms show ?thesis by (auto simp: claim_run_def claim_of_def Let_def find_snoc split: if_splits)
  next
    case (Some old)
    then have "st_run old = rid" by (auto simp: claim_of_def find_Some_iff)
    moreover have "cl = to_claim (renew_claim w now timeout old)" "claim_of d' rid = Some (renew_claim w now timeout old)"
      using assms Some by (auto simp: claim_run_def claim_of_def upd split: if_splits)
    ultimately show ?thesis using Some by simp
  qed
qed

text \<open>What a dequeue hands out is a row it chose.\<close>

lemma take_tasks_rows:
  "take_tasks opt th now ts d = (out, d') \<Longrightarrow> l \<in> set out \<Longrightarrow> \<exists>t \<in> set ts. lt_run l = t_run t \<and> lt_type l = t_type t"
proof (induction opt th now ts d arbitrary: out rule: take_tasks.induct)
  case (2 opt th now t ts d)
  show ?case
  proof (cases "poisoned th t")
    case True
    with 2 show ?thesis by auto
  next
    case False
    let ?d = "update_task (t_id t) (lease_task opt now (d_next d)) (d\<lparr>d_next := Suc (d_next d)\<rparr>)"
    obtain rest where rest: "take_tasks opt th now ts ?d = (rest, d')"
      and "out = to_leased_task (d_next d) (lease_task opt now (d_next d) t) # rest"
      using 2(3) False by (auto simp: Let_def split: prod.splits)
    with 2(2) [OF False refl rest] 2(4) show ?thesis by (auto simp: to_leased_task_def lease_task_def)
  qed
qed simp

text \<open>While a claim lives, the queue hands the run's workflow tasks to its worker only.\<close>

lemma live_claim_delivers_to_owner:
  assumes s: "claim_of d rid = Some s" "now < st_expires_at s"
    and dq: "queue_ok th d" "dequeue th now opt d = Inr (out, d')" "dq_sticky_for opt = Some w'" "w' \<noteq> st_worker s"
    and l: "l \<in> set out"
  shows "\<not> (lt_run l = rid \<and> lt_type l = WORKFLOW_TASK)"
proof
  assume run: "lt_run l = rid \<and> lt_type l = WORKFLOW_TASK"
  let ?chosen = "next_tasks opt (nat (optional (dq_limit opt) 1)) now d"
  have "take_tasks opt th now ?chosen d = (out, d')"
    using dq(2) by (auto simp: dequeue_def Let_def split: sum.splits)
  from take_tasks_rows [OF this l] run obtain t where "t \<in> set ?chosen" "t_run t = rid" "t_type t = WORKFLOW_TASK" by auto
  moreover from this(1) have "deliverable opt now d t" using next_tasks_facts(2) [OF dq(1)] by blast
  moreover have "s \<in> set (d_stickiness d)" "st_run s = rid" using s(1) by (auto simp: claim_of_def find_Some_iff)
  ultimately show False using s(2) dq(3,4) by (auto simp: deliverable_def)
qed

end
