(* ===== verification/Live.thy ===== *)
theory Live
  imports Replay
begin

text \<open>
  Live sessions (\<open>packages/core/src/workflow/live-session.ts\<close>): a workflow kept alive between decisions
  and fed only the events recorded since, and what makes that sound: the decision is the one
  the decision loop makes on the whole history.

  \<open>live_handler\<close> is the code of a workflow as a session sees it: promises are held by their position
  in the order the calls made them, and may be awaited any time later. The calls a session does not
  resume are \<open>LOther\<close>; what the code does after one is a \<open>handler\<close> only a replay runs. A call that throws
  at once, because the history holds another command, ends the code.
\<close>

section \<open>Handlers\<close>

datatype live_handler =
    LReturn jsv
  | LThrow thrown
  | LAwait nat "thrown + jsv \<Rightarrow> live_handler"
  | LStep string jsv live_handler
  | LSleep jsnum live_handler
  | LWaitForSignal string live_handler
  | LNow "time \<Rightarrow> live_handler"
  | LRandom "jsv \<Rightarrow> live_handler"
  | LUuid "jsv \<Rightarrow> live_handler"
  | LSetQueryHandler string "jsv \<Rightarrow> jsv" live_handler
  | LOther "promise list \<Rightarrow> handler"

text \<open>The same code as the decision loop replays it, given the promises it holds.\<close>

primrec replayed :: "live_handler \<Rightarrow> promise list \<Rightarrow> handler" where
  "replayed (LReturn v) ps = Return v"
| "replayed (LThrow e) ps = Throw e"
| "replayed (LAwait i k) ps = Await (optional (nth_opt ps i) PNever) (\<lambda>out. replayed (k out) ps)"
| "replayed (LStep st inp k) ps = Step st inp (\<lambda>r. case r of Inl e \<Rightarrow> Throw e | Inr p \<Rightarrow> replayed k (ps @ [p]))"
| "replayed (LSleep dur k) ps = Sleep dur (\<lambda>r. case r of Inl e \<Rightarrow> Throw e | Inr p \<Rightarrow> replayed k (ps @ [p]))"
| "replayed (LWaitForSignal name k) ps = WaitForSignal name (\<lambda>p. replayed k (ps @ [p]))"
| "replayed (LNow k) ps = Now (\<lambda>t. replayed (k t) ps)"
| "replayed (LRandom k) ps = Random (\<lambda>v. replayed (k v) ps)"
| "replayed (LUuid k) ps = Uuid (\<lambda>v. replayed (k v) ps)"
| "replayed (LSetQueryHandler name f k) ps = SetQueryHandler name f (replayed k ps)"
| "replayed (LOther g) ps = g ps"

section \<open>Sessions\<close>

text \<open>What a promise waits for; an invalid sleep is rejected from the start.\<close>

datatype wait_key = KStep string string | KTimer string | KSignal string nat | KRejected thrown

text \<open>
  \<open>ls_state\<close> holds the counters, the matcher, the consumed signals and the new commands, as a replay
  does; \<open>ls_promises\<close> the promises made so far, with their outcome once they have one; \<open>ls_rest\<close> is
  where the code stands.
\<close>

record live_session =
  ls_history :: "event list"
  ls_state :: replay_state
  ls_promises :: "(wait_key \<times> (thrown + jsv) option) list"
  ls_finished_steps :: "string \<Rightarrow> event option"
  ls_fired :: "string list"
  ls_signals :: "string \<Rightarrow> jsv list"
  ls_times :: "time list"
  ls_rest :: live_handler
  ls_emitted :: "command list"
  ls_started :: bool
  ls_finished :: bool
  ls_unsupported :: bool

definition is_supported_event :: "event \<Rightarrow> bool" where
  "is_supported_event e =
     (case e of RunStarted _ _ \<Rightarrow> True | StepScheduled _ _ _ \<Rightarrow> True | StepCompleted _ _ \<Rightarrow> True | StepFailed _ _ _ \<Rightarrow> True
      | StepAttemptFailed _ _ _ _ \<Rightarrow> True | TimerStarted _ _ _ \<Rightarrow> True | TimerFired _ \<Rightarrow> True | SignalReceived _ _ \<Rightarrow> True
      | TimeRecorded _ \<Rightarrow> True | _ \<Rightarrow> False)"

definition empty_replay_state :: replay_state where
  "empty_replay_state =
     \<lparr>w_step = 0, w_timer = 0, w_child = 0, w_matcher = create_command_matcher, w_commands = [], w_signals = (\<lambda>_. 0),
      w_patches = Map.empty, w_consulted = [], w_times = 0, w_draws = 0, w_compensations = [], w_in_flight = [],
      w_continuation = None, w_queries = []\<rparr>"

definition create_live_session :: "live_handler \<Rightarrow> live_session" where
  "create_live_session h =
     \<lparr>ls_history = [], ls_state = empty_replay_state, ls_promises = [], ls_finished_steps = (\<lambda>_. None), ls_fired = [],
      ls_signals = (\<lambda>_. []), ls_times = [], ls_rest = h, ls_emitted = [], ls_started = False, ls_finished = False,
      ls_unsupported = False\<rparr>"

definition try_key :: "live_session \<Rightarrow> wait_key \<Rightarrow> (thrown + jsv) option" where
  "try_key s k =
     (case k of
        KStep sid st \<Rightarrow> (case ls_finished_steps s sid of Some e \<Rightarrow> step_outcome_of sid st e | None \<Rightarrow> None)
      | KTimer tid \<Rightarrow> if tid \<in> set (ls_fired s) then Some (Inr VUndef) else None
      | KSignal name i \<Rightarrow> map_option Inr (nth_opt (ls_signals s name) i)
      | KRejected e \<Rightarrow> Some (Inl e))"

definition register_waiter :: "wait_key \<Rightarrow> live_session \<Rightarrow> live_session" where
  "register_waiter k s = s\<lparr>ls_promises := ls_promises s @ [(k, try_key s k)]\<rparr>"

definition notify_waiters :: "(wait_key \<Rightarrow> bool) \<Rightarrow> live_session \<Rightarrow> bool \<times> live_session" where
  "notify_waiters waits s =
     (list_ex (\<lambda>(k, out). out = None \<and> waits k \<and> try_key s k \<noteq> None) (ls_promises s),
      s\<lparr>ls_promises := map (\<lambda>(k, out). (k, if out = None \<and> waits k then try_key s k else out)) (ls_promises s)\<rparr>)"

definition index_event :: "event \<Rightarrow> live_session \<Rightarrow> live_session" where
  "index_event e s =
     s\<lparr>ls_history := ls_history s @ [e],
       ls_state := (case recorded_command_of e of
           None \<Rightarrow> ls_state s
         | Some shape \<Rightarrow> (ls_state s)\<lparr>w_matcher := matcher_record [shape] (w_matcher (ls_state s))\<rparr>),
       ls_times := ls_times s @ (case e of TimeRecorded t \<Rightarrow> [t] | _ \<Rightarrow> [])\<rparr>"

definition deliver_event :: "event \<Rightarrow> live_session \<Rightarrow> bool \<times> live_session" where
  "deliver_event e s =
     (case e of
        StepCompleted sid r \<Rightarrow>
          notify_waiters (\<lambda>k. case k of KStep i _ \<Rightarrow> i = sid | _ \<Rightarrow> False) (s\<lparr>ls_finished_steps := (ls_finished_steps s)(sid \<mapsto> e)\<rparr>)
      | StepFailed sid err ex \<Rightarrow>
          notify_waiters (\<lambda>k. case k of KStep i _ \<Rightarrow> i = sid | _ \<Rightarrow> False) (s\<lparr>ls_finished_steps := (ls_finished_steps s)(sid \<mapsto> e)\<rparr>)
      | TimerFired tid \<Rightarrow>
          notify_waiters (\<lambda>k. case k of KTimer i \<Rightarrow> i = tid | _ \<Rightarrow> False) (s\<lparr>ls_fired := List.insert tid (ls_fired s)\<rparr>)
      | SignalReceived name p \<Rightarrow>
          notify_waiters (\<lambda>k. case k of KSignal n _ \<Rightarrow> n = name | _ \<Rightarrow> False)
            (s\<lparr>ls_signals := (ls_signals s)(name := ls_signals s name @ [p])\<rparr>)
      | _ \<Rightarrow> (False, s))"

section \<open>The calls\<close>

definition live_step :: "string \<Rightarrow> jsv \<Rightarrow> live_session \<Rightarrow> thrown option \<times> live_session" where
  "live_step st inp s =
     (let w1 = (ls_state s)\<lparr>w_step := w_step (ls_state s) + 1\<rparr>;
          sid = step_id (w_step w1);
          (recorded, w2) = issue_command (ShapeStep sid st inp) False w1 in
      case recorded of
        Inl e \<Rightarrow> (Some e, s\<lparr>ls_state := w2\<rparr>)
      | Inr known \<Rightarrow>
          (None, register_waiter (KStep sid st) (s\<lparr>ls_state := if known then w2 else push_command (ScheduleStep sid st inp) w2\<rparr>)))"

definition live_sleep :: "replay_env \<Rightarrow> jsnum \<Rightarrow> live_session \<Rightarrow> thrown option \<times> live_session" where
  "live_sleep env dur s =
     (case sleep_duration_error dur of
        Some invalid \<Rightarrow> (None, register_waiter (KRejected invalid) s)
      | None \<Rightarrow>
          let w1 = (ls_state s)\<lparr>w_timer := w_timer (ls_state s) + 1\<rparr>;
              tid = timer_id (w_timer w1);
              (recorded, w2) = issue_command (ShapeTimer tid (Some dur)) False w1 in
          case recorded of
            Inl e \<Rightarrow> (Some e, s\<lparr>ls_state := w2\<rparr>)
          | Inr True \<Rightarrow> (None, register_waiter (KTimer tid) (s\<lparr>ls_state := w2\<rparr>))
          | Inr False \<Rightarrow>
              (case to_instant (of_int (e_clock env) + num_value dur) of
                 Inl e \<Rightarrow> (Some e, s\<lparr>ls_state := w2\<rparr>)
               | Inr fire_at \<Rightarrow>
                   (None, register_waiter (KTimer tid) (s\<lparr>ls_state := push_command (StartTimer tid fire_at dur) w2\<rparr>))))"

definition live_wait_for_signal :: "string \<Rightarrow> live_session \<Rightarrow> live_session" where
  "live_wait_for_signal name s =
     (let consumed = w_signals (ls_state s) name in
      register_waiter (KSignal name consumed)
        (s\<lparr>ls_state := (ls_state s)\<lparr>w_signals := (w_signals (ls_state s))(name := consumed + 1)\<rparr>\<rparr>))"

definition live_now :: "replay_env \<Rightarrow> live_session \<Rightarrow> time \<times> live_session" where
  "live_now env s =
     (let w = ls_state s; w1 = w\<lparr>w_times := w_times w + 1\<rparr> in
      case nth_opt (ls_times s) (w_times w) of
        Some t \<Rightarrow> (t, s\<lparr>ls_state := w1\<rparr>)
      | None \<Rightarrow> let t = optional (e_triggered env) (e_clock env) in (t, s\<lparr>ls_state := push_command (RecordTime t) w1\<rparr>))"

text \<open>The code runs until it ends or waits for a promise without an outcome.\<close>

primrec run_live :: "live_handler \<Rightarrow> replay_env \<Rightarrow> live_session \<Rightarrow> live_session" where
  "run_live (LReturn v) env s = s\<lparr>ls_rest := LReturn v\<rparr>"
| "run_live (LThrow e) env s = s\<lparr>ls_rest := LThrow e\<rparr>"
| "run_live (LAwait i k) env s =
     (case nth_opt (ls_promises s) i of
        Some (key, Some out) \<Rightarrow> run_live (k out) env s
      | _ \<Rightarrow> s\<lparr>ls_rest := LAwait i k\<rparr>)"
| "run_live (LStep st inp k) env s =
     (case live_step st inp s of (Some e, s') \<Rightarrow> s'\<lparr>ls_rest := LThrow e\<rparr> | (None, s') \<Rightarrow> run_live k env s')"
| "run_live (LSleep dur k) env s =
     (case live_sleep env dur s of (Some e, s') \<Rightarrow> s'\<lparr>ls_rest := LThrow e\<rparr> | (None, s') \<Rightarrow> run_live k env s')"
| "run_live (LWaitForSignal name k) env s = run_live k env (live_wait_for_signal name s)"
| "run_live (LNow k) env s = (case live_now env s of (t, s') \<Rightarrow> run_live (k t) env s')"
| "run_live (LRandom k) env s =
     run_live (k (e_random env (w_draws (ls_state s)))) env (s\<lparr>ls_state := (ls_state s)\<lparr>w_draws := w_draws (ls_state s) + 1\<rparr>\<rparr>)"
| "run_live (LUuid k) env s =
     run_live (k (e_uuid env (w_draws (ls_state s)))) env (s\<lparr>ls_state := (ls_state s)\<lparr>w_draws := w_draws (ls_state s) + 1\<rparr>\<rparr>)"
| "run_live (LSetQueryHandler name f k) env s =
     run_live k env (s\<lparr>ls_state := (ls_state s)\<lparr>w_queries := filter (\<lambda>(n, _). n \<noteq> name) (w_queries (ls_state s)) @ [(name, f)]\<rparr>\<rparr>)"
| "run_live (LOther g) env s = s\<lparr>ls_unsupported := True, ls_rest := LOther g\<rparr>"

definition resume :: "replay_env \<Rightarrow> live_session \<Rightarrow> live_session" where
  "resume env s = run_live (ls_rest s) env s"

text \<open>Delivering the events one by one; the code runs on when a promise got its outcome.\<close>

fun feed :: "replay_env \<Rightarrow> event list \<Rightarrow> live_session \<Rightarrow> live_session" where
  "feed env [] s = s"
| "feed env (e # es) s = (case deliver_event e s of (resolved, s') \<Rightarrow> feed env es (if resolved then resume env s' else s'))"

section \<open>Advancing\<close>

datatype live_advance = LiveDecided decision "(nat \<times> nat) option" | LiveUnsupported | LiveDiverged

text \<open>The commands of the previous decision are among the events recorded since.\<close>

definition emitted_are_recorded :: "command list \<Rightarrow> event list \<Rightarrow> bool" where
  "emitted_are_recorded emitted slice \<longleftrightarrow>
     length (filter (\<lambda>c. case c of RecordTime _ \<Rightarrow> True | _ \<Rightarrow> False) emitted) \<le> length (recorded_times slice) \<and>
     list_all (\<lambda>c. case c of
         ScheduleStep sid _ _ \<Rightarrow> list_ex (\<lambda>e. case e of StepScheduled i _ _ \<Rightarrow> i = sid | _ \<Rightarrow> False) slice
       | StartTimer tid _ _ \<Rightarrow> list_ex (\<lambda>e. case e of TimerStarted i _ _ \<Rightarrow> i = tid | _ \<Rightarrow> False) slice
       | _ \<Rightarrow> True) emitted"

definition settled_rest :: "(jsv \<Rightarrow> string) \<Rightarrow> live_handler \<Rightarrow> settled option" where
  "settled_rest js_string h =
     (case h of LReturn v \<Rightarrow> Some (SettledCompleted v) | LThrow e \<Rightarrow> Some (SettledFailed (to_error js_string e)) | _ \<Rightarrow> None)"

definition build_decision :: "(jsv \<Rightarrow> string) \<Rightarrow> (jsv \<Rightarrow> string) \<Rightarrow> live_session \<Rightarrow> decision" where
  "build_decision js_string enc s =
     (let cs = w_commands (ls_state s) in
      case settled_rest js_string (ls_rest s) of
        None \<Rightarrow> \<lparr>de_outcome = Suspended, de_commands = cs\<rparr>
      | Some (SettledCompleted v) \<Rightarrow> \<lparr>de_outcome = Completed v, de_commands = cs @ [CompleteRun v]\<rparr>
      | Some (SettledFailed e) \<Rightarrow> \<lparr>de_outcome = Failed_with e, de_commands = cs @ [FailRun (to_recorded_error enc e)]\<rparr>)"

definition feed_slice :: "replay_env \<Rightarrow> event list \<Rightarrow> live_session \<Rightarrow> live_session" where
  "feed_slice env slice s =
     (let s1 = fold index_event slice (s\<lparr>ls_state := (ls_state s)\<lparr>w_commands := []\<rparr>\<rparr>);
          s2 = (if ls_started s1 then s1 else resume env (s1\<lparr>ls_started := True\<rparr>))
      in feed env slice s2)"

definition advance ::
    "(jsv \<Rightarrow> string) \<Rightarrow> (jsv \<Rightarrow> string) \<Rightarrow> nat option \<Rightarrow> replay_env \<Rightarrow> event list \<Rightarrow> live_session \<Rightarrow>
     (thrown + live_advance) \<times> live_session" where
  "advance js_string enc threshold env full s =
     (let seen = length (ls_history s); slice = drop seen full in
      if ls_finished s \<or> ls_unsupported s \<or> length full < seen then (Inr LiveDiverged, s)
      else if seen \<noteq> 0 \<and> nth_opt full (seen - 1) \<noteq> nth_opt (ls_history s) (seen - 1) then (Inr LiveDiverged, s)
      else if \<not> list_all is_supported_event slice then (Inr LiveUnsupported, s\<lparr>ls_unsupported := True\<rparr>)
      else if \<not> emitted_are_recorded (ls_emitted s) slice then (Inr LiveDiverged, s)
      else
        let s' = feed_slice env slice s in
        if ls_unsupported s' then (Inr LiveUnsupported, s')
        else case integrity_failure (settled_rest js_string (ls_rest s')) of
          Some e \<Rightarrow> (Inl e, s'\<lparr>ls_finished := True\<rparr>)
        | None \<Rightarrow>
            (case assert_all_issued (w_matcher (ls_state s')) of
               Some e \<Rightarrow> (Inl e, s'\<lparr>ls_finished := True\<rparr>)
             | None \<Rightarrow>
                 let dec = build_decision js_string enc s' in
                 (Inr (LiveDecided dec (case threshold of None \<Rightarrow> None
                     | Some n \<Rightarrow> if length (ls_history s') < n then None else Some (length (ls_history s'), n))),
                  s'\<lparr>ls_emitted := de_commands dec,
                     ls_finished := (settled_rest js_string (ls_rest s') \<noteq> None)\<rparr>)))"

end
