(* ===== verification/LiveProof.thy ===== *)
theory LiveProof
  imports Live
begin

text \<open>
  A live session decides what a replay of the whole history decides.
\<close>

section \<open>Outcomes\<close>

definition key_outcome :: "event list \<Rightarrow> wait_key \<Rightarrow> (thrown + jsv) option" where
  "key_outcome es k =
     (case k of
        KStep sid st \<Rightarrow> map_option snd (first_outcome 0 (step_outcome_of sid st) es)
      | KTimer tid \<Rightarrow> map_option snd (first_outcome 0 (timer_outcome_of tid) es)
      | KSignal name i \<Rightarrow> map_option snd (nth_signal 0 name i es)
      | KRejected e \<Rightarrow> Some (Inl e))"

definition key_promise :: "event list \<Rightarrow> wait_key \<Rightarrow> promise" where
  "key_promise es k =
     (case k of
        KStep sid st \<Rightarrow> promise_of (first_outcome 0 (step_outcome_of sid st) es)
      | KTimer tid \<Rightarrow> promise_of (first_outcome 0 (timer_outcome_of tid) es)
      | KSignal name i \<Rightarrow> promise_of (nth_signal 0 name i es)
      | KRejected e \<Rightarrow> PRejected False e)"

definition finishes :: "string \<Rightarrow> event \<Rightarrow> bool" where
  "finishes sid e = (case e of StepCompleted i _ \<Rightarrow> i = sid | StepFailed i _ _ \<Rightarrow> i = sid | _ \<Rightarrow> False)"

fun payloads :: "string \<Rightarrow> event list \<Rightarrow> jsv list" where
  "payloads name [] = []"
| "payloads name (e # es) = (case e of SignalReceived n p \<Rightarrow> if n = name then [p] else [] | _ \<Rightarrow> []) @ payloads name es"

lemma payloads_append: "payloads name (xs @ ys) = payloads name xs @ payloads name ys"
  by (induction xs) simp_all

lemma await_key_promise: "await_promise (key_promise es k) = key_outcome es k"
  by (auto simp: key_promise_def key_outcome_def promise_of_def await_promise_def split: wait_key.split option.split)

lemma first_outcome_hd:
  "map_option snd (first_outcome n f es) = (case filter (\<lambda>e. f e \<noteq> None) es of [] \<Rightarrow> None | e # _ \<Rightarrow> f e)"
  by (induction es arbitrary: n) (auto split: option.split)

lemma nth_opt_simps: "nth_opt [] k = None" "nth_opt (x # xs) k = (if k = 0 then Some x else nth_opt xs (k - 1))"
  by (cases k; simp add: nth_opt_def)+

lemma nth_signal_payloads: "map_option snd (nth_signal n name k es) = map_option Inr (nth_opt (payloads name es) k)"
proof (induction es arbitrary: n k)
  case (Cons e es)
  show ?case by (cases "\<exists>p. e = SignalReceived name p") (auto simp: Cons.IH nth_opt_simps split: event.split)
qed (simp add: nth_opt_simps)

lemma step_outcome_finishes: "step_outcome_of sid st e \<noteq> None \<longleftrightarrow> finishes sid e"
  by (auto simp: step_outcome_of_def finishes_def split: event.split)

lemma key_outcome_simps:
  "key_outcome es (KStep sid st) = (case filter (finishes sid) es of [] \<Rightarrow> None | e # _ \<Rightarrow> step_outcome_of sid st e)"
  "key_outcome es (KTimer tid) = (if TimerFired tid \<in> set es then Some (Inr VUndef) else None)"
  "key_outcome es (KSignal name i) = map_option Inr (nth_opt (payloads name es) i)"
  "key_outcome es (KRejected x) = Some (Inl x)"
proof -
  show "key_outcome es (KStep sid st) = (case filter (finishes sid) es of [] \<Rightarrow> None | e # _ \<Rightarrow> step_outcome_of sid st e)"
    unfolding key_outcome_def wait_key.case first_outcome_hd step_outcome_finishes ..
  have "timer_outcome_of tid e = (if e = TimerFired tid then Some (Inr VUndef) else None)" for e
    by (auto simp: timer_outcome_of_def split: event.split)
  then have "map_option snd (first_outcome n (timer_outcome_of tid) es) = (if TimerFired tid \<in> set es then Some (Inr VUndef) else None)" for n
    by (induction es arbitrary: n) auto
  then show "key_outcome es (KTimer tid) = (if TimerFired tid \<in> set es then Some (Inr VUndef) else None)"
    by (simp add: key_outcome_def)
  show "key_outcome es (KSignal name i) = map_option Inr (nth_opt (payloads name es) i)"
    by (simp add: key_outcome_def nth_signal_payloads)
qed (simp add: key_outcome_def)

lemma key_outcome_append: "key_outcome xs k = Some out \<Longrightarrow> key_outcome (xs @ ys) k = Some out"
proof (cases k)
  case (KSignal name i)
  then show "key_outcome xs k = Some out \<Longrightarrow> ?thesis" by (auto simp: key_outcome_simps payloads_append nth_opt_append1)
qed (auto simp: key_outcome_simps split: list.splits if_splits)

text \<open>Whether a promise waits for the outcome an event brings.\<close>

definition concerns :: "event \<Rightarrow> wait_key \<Rightarrow> bool" where
  "concerns e k =
     (case k of KStep sid _ \<Rightarrow> finishes sid e | KTimer tid \<Rightarrow> e = TimerFired tid
      | KSignal name _ \<Rightarrow> (case e of SignalReceived n _ \<Rightarrow> n = name | _ \<Rightarrow> False) | KRejected _ \<Rightarrow> False)"

lemma key_outcome_unconcerned: "\<not> concerns e k \<Longrightarrow> key_outcome (es @ [e]) k = key_outcome es k"
  by (cases k) (auto simp: key_outcome_simps concerns_def payloads_append split: event.splits)

definition settled_once :: "event list \<Rightarrow> bool" where
  "settled_once es \<longleftrightarrow> (\<forall>sid. length (filter (finishes sid) es) \<le> 1)"

lemma settled_once_append: "settled_once (xs @ ys) \<Longrightarrow> settled_once xs"
  unfolding settled_once_def filter_append length_append by (meson add_leD1)

section \<open>Delivering\<close>

definition in_step :: "live_session \<Rightarrow> event list \<Rightarrow> bool" where
  "in_step s es \<longleftrightarrow> (\<forall>k. try_key s k = key_outcome es k) \<and> (\<forall>(k, out) \<in> set (ls_promises s). out = key_outcome es k)"

text \<open>What a delivery leaves alone.\<close>

definition same_code :: "live_session \<Rightarrow> live_session \<Rightarrow> bool" where
  "same_code s s' \<longleftrightarrow> ls_history s' = ls_history s \<and> ls_state s' = ls_state s \<and> ls_times s' = ls_times s \<and> ls_rest s' = ls_rest s \<and>
     ls_emitted s' = ls_emitted s \<and> ls_started s' = ls_started s \<and> ls_finished s' = ls_finished s \<and>
     ls_unsupported s' = ls_unsupported s \<and> map fst (ls_promises s') = map fst (ls_promises s)"

text \<open>A delivery keeps what the session knows in step with the events delivered.\<close>

lemma in_step_notify:
  assumes "\<forall>k. try_key t k = key_outcome (es @ [e]) k" and "\<forall>(k, out) \<in> set (ls_promises t). out = key_outcome es k"
    and "notify_waiters (concerns e) t = (resolved, s')"
  shows "in_step s' (es @ [e]) \<and> same_code t s' \<and> (resolved \<or> ls_promises s' = ls_promises t)"
proof -
  let ?f = "\<lambda>(k, out). (k, if out = None \<and> concerns e k then try_key t k else out)"
  have s': "s' = t\<lparr>ls_promises := map ?f (ls_promises t)\<rparr>"
    and resolved: "resolved = list_ex (\<lambda>(k, out). out = None \<and> concerns e k \<and> try_key t k \<noteq> None) (ls_promises t)"
    using assms(3) by (simp_all add: notify_waiters_def)
  have "try_key s' k = try_key t k" for k by (simp add: s' try_key_def split: wait_key.split)
  moreover have "snd (?f (k, out)) = key_outcome (es @ [e]) k" if "(k, out) \<in> set (ls_promises t)" for k out
  proof -
    from that assms(2) have out: "out = key_outcome es k" by auto
    show ?thesis using assms(1) key_outcome_unconcerned [of e k es] key_outcome_append [of es k _ "[e]"] out
      by (cases out) auto
  qed
  ultimately have "in_step s' (es @ [e])" using assms(1) by (fastforce simp: in_step_def s')
  moreover have "same_code t s'" by (simp add: same_code_def s' case_prod_beta)
  moreover have "map ?f (ls_promises t) = ls_promises t" if "\<not> resolved"
    using that by (intro map_idI) (fastforce simp: resolved list_ex_iff)
  ultimately show ?thesis by (auto simp: s')
qed

lemma concerns_case:
  "concerns (StepCompleted sid r) = (\<lambda>k. case k of KStep i _ \<Rightarrow> i = sid | _ \<Rightarrow> False)"
  "concerns (StepFailed sid err ex) = (\<lambda>k. case k of KStep i _ \<Rightarrow> i = sid | _ \<Rightarrow> False)"
  "concerns (TimerFired tid) = (\<lambda>k. case k of KTimer i \<Rightarrow> i = tid | _ \<Rightarrow> False)"
  "concerns (SignalReceived name p) = (\<lambda>k. case k of KSignal n _ \<Rightarrow> n = name | _ \<Rightarrow> False)"
  by (auto simp: concerns_def finishes_def fun_eq_iff split: wait_key.split)

lemma finished_step_outcome:
  assumes "settled_once (es @ [e])" and "finishes sid e"
  shows "key_outcome (es @ [e]) (KStep sid st) = step_outcome_of sid st e"
proof -
  have "length (filter (finishes sid) (es @ [e])) \<le> 1" using assms(1) by (simp add: settled_once_def)
  with assms(2) have "filter (finishes sid) es = []" by simp
  with assms(2) show ?thesis by (simp add: key_outcome_simps)
qed

lemma deliver_in_step:
  assumes st: "in_step s es" and once: "settled_once (es @ [e])" and del: "deliver_event e s = (resolved, s')"
  shows "in_step s' (es @ [e]) \<and> same_code s s' \<and> (resolved \<or> ls_promises s' = ls_promises s)"
proof -
  have known: "try_key s k = key_outcome es k" for k using st by (simp add: in_step_def)
  have table: "\<forall>(k, out) \<in> set (ls_promises s). out = key_outcome es k" using st by (simp add: in_step_def)
  have refl: "same_code s s" by (simp add: same_code_def)
  have go: ?thesis if t: "same_code s t" "ls_promises t = ls_promises s" "notify_waiters (concerns e) t = (resolved, s')"
    "\<And>k. concerns e k \<Longrightarrow> try_key t k = key_outcome (es @ [e]) k" "\<And>k. \<not> concerns e k \<Longrightarrow> try_key t k = try_key s k" for t
  proof -
    have "try_key t k = key_outcome (es @ [e]) k" for k
      using t(4,5) known key_outcome_unconcerned by (cases "concerns e k") auto
    then have "in_step s' (es @ [e]) \<and> same_code t s' \<and> (resolved \<or> ls_promises s' = ls_promises t)"
      using in_step_notify [of t es e resolved s'] t(2,3) table by auto
    then show ?thesis using t(1,2) by (auto simp: same_code_def)
  qed
  show ?thesis
  proof (cases "(\<exists>sid r. e = StepCompleted sid r) \<or> (\<exists>sid err ex. e = StepFailed sid err ex)")
    case True
    then obtain sid where sid: "finishes sid e" and nt: "notify_waiters (concerns e) (s\<lparr>ls_finished_steps := (ls_finished_steps s)(sid \<mapsto> e)\<rparr>) = (resolved, s')"
      using del by (auto simp: deliver_event_def finishes_def concerns_case)
    show ?thesis
    proof (rule go [OF _ _ nt])
      fix k
      show "try_key (s\<lparr>ls_finished_steps := (ls_finished_steps s)(sid \<mapsto> e)\<rparr>) k = key_outcome (es @ [e]) k" if "concerns e k"
        using that sid finished_step_outcome [OF once] True
        by (auto simp: concerns_def try_key_def finishes_def split: wait_key.splits)
      show "try_key (s\<lparr>ls_finished_steps := (ls_finished_steps s)(sid \<mapsto> e)\<rparr>) k = try_key s k" if "\<not> concerns e k"
        using that sid by (auto simp: concerns_def try_key_def split: wait_key.splits)
    qed (simp_all add: same_code_def)
  next
    case False
    show ?thesis
    proof (cases "\<exists>tid. e = TimerFired tid")
      case True
      then obtain tid where e: "e = TimerFired tid" by blast
      show ?thesis
      proof (rule go [of "s\<lparr>ls_fired := List.insert tid (ls_fired s)\<rparr>"])
        fix k
        show "try_key (s\<lparr>ls_fired := List.insert tid (ls_fired s)\<rparr>) k = key_outcome (es @ [e]) k" if "concerns e k"
          using that e by (auto simp: concerns_def try_key_def key_outcome_simps finishes_def split: wait_key.splits)
        show "try_key (s\<lparr>ls_fired := List.insert tid (ls_fired s)\<rparr>) k = try_key s k" if "\<not> concerns e k"
          using that e by (auto simp: concerns_def try_key_def split: wait_key.splits)
      qed (use del e in \<open>simp_all add: same_code_def deliver_event_def concerns_case\<close>)
    next
      case no_timer: False
      show ?thesis
      proof (cases "\<exists>name p. e = SignalReceived name p")
        case True
        then obtain name p where e: "e = SignalReceived name p" by blast
        have same: "nth_opt (ls_signals s n) i = nth_opt (payloads n es) i" for n i
          using known [of "KSignal n i"]
          by (cases "nth_opt (ls_signals s n) i"; cases "nth_opt (payloads n es) i") (simp_all add: try_key_def key_outcome_simps)
        have "ls_signals s n = payloads n es" for n
          using same [of n] by (metis nth_opt_None_iff nth_opt_Some_iff linorder_not_less nth_equalityI nle_le)
        then show ?thesis
          by (intro go [of "s\<lparr>ls_signals := (ls_signals s)(name := ls_signals s name @ [p])\<rparr>"])
            (use del e in \<open>auto simp: same_code_def deliver_event_def concerns_case concerns_def finishes_def try_key_def key_outcome_simps payloads_append split: wait_key.splits\<close>)
      next
        case no_signal: False
        with False no_timer del have s': "s' = s" and conc: "\<And>k. \<not> concerns e k"
          by (auto simp: deliver_event_def concerns_def finishes_def split: event.splits wait_key.splits)
        have "key_outcome (es @ [e]) k = key_outcome es k" for k using key_outcome_unconcerned conc by blast
        then show ?thesis using st refl by (simp add: s' in_step_def)
      qed
    qed
  qed
qed

section \<open>The calls\<close>

text \<open>
  The state of a replay over a longer history at the point where a session stands: what the session issued as new
  is on the log by then.
\<close>

definition ahead :: "command_shape list \<Rightarrow> replay_state \<Rightarrow> replay_state" where
  "ahead shapes w = w\<lparr>w_matcher := \<lparr>m_recorded = shapes, m_issued = m_issued (w_matcher w)\<rparr>, w_commands := []\<rparr>"

lemma ahead_fields [simp]:
  "w_step (ahead xs w) = w_step w" "w_timer (ahead xs w) = w_timer w" "w_times (ahead xs w) = w_times w"
  "w_signals (ahead xs w) = w_signals w" "w_draws (ahead xs w) = w_draws w" "w_queries (ahead xs w) = w_queries w"
  "ahead xs (w\<lparr>w_step := n\<rparr>) = (ahead xs w)\<lparr>w_step := n\<rparr>" "ahead xs (w\<lparr>w_timer := n\<rparr>) = (ahead xs w)\<lparr>w_timer := n\<rparr>"
  "ahead xs (w\<lparr>w_times := n\<rparr>) = (ahead xs w)\<lparr>w_times := n\<rparr>" "ahead xs (w\<lparr>w_signals := f\<rparr>) = (ahead xs w)\<lparr>w_signals := f\<rparr>"
  "ahead xs (w\<lparr>w_draws := n\<rparr>) = (ahead xs w)\<lparr>w_draws := n\<rparr>" "ahead xs (w\<lparr>w_queries := q\<rparr>) = (ahead xs w)\<lparr>w_queries := q\<rparr>"
  "ahead xs (push_command c w) = ahead xs w" "ahead xs (bump w) = bump (ahead xs w)"
  by (simp_all add: ahead_def push_command_def bump_def)

lemma new_shapes_fields [simp]:
  "new_shapes (w\<lparr>w_step := n\<rparr>) = new_shapes w" "new_shapes (w\<lparr>w_timer := n\<rparr>) = new_shapes w"
  "new_times (w\<lparr>w_step := n\<rparr>) = new_times w" "new_times (w\<lparr>w_timer := n\<rparr>) = new_times w"
  "new_shapes (w\<lparr>w_times := n\<rparr>) = new_shapes w" "new_times (w\<lparr>w_times := n\<rparr>) = new_times w"
  "new_shapes (w\<lparr>w_signals := f\<rparr>) = new_shapes w" "new_times (w\<lparr>w_signals := f\<rparr>) = new_times w"
  "new_shapes (w\<lparr>w_draws := n\<rparr>) = new_shapes w" "new_times (w\<lparr>w_draws := n\<rparr>) = new_times w"
  "new_shapes (w\<lparr>w_queries := q\<rparr>) = new_shapes w" "new_times (w\<lparr>w_queries := q\<rparr>) = new_times w"
  by (simp_all add: new_shapes_def new_times_def)

lemma issue_ahead:
  assumes rec: "m_recorded (w_matcher w) = rec" "length (new_shapes w) = m_issued (w_matcher w) - length rec"
    and iss: "issue_command shape False w = (Inr known, t)"
    and new: "\<not> known \<Longrightarrow> comparable shape \<and> prefix (new_shapes w @ [shape]) xs"
  shows "issue_command shape False (ahead (rec @ xs) w) = (Inr True, ahead (rec @ xs) t)"
proof -
  have t: "t = bump w" and known: "known \<longleftrightarrow> m_issued (w_matcher w) < length rec"
    using iss rec(1) by (auto simp: issue_command_def matcher_issue_live bump_def nth_opt_def split: if_splits)
  have "\<exists>x. nth_opt (rec @ xs) (m_issued (w_matcher w)) = Some x \<and> same_command x shape"
  proof (cases known)
    case True
    then have "same_command (rec ! m_issued (w_matcher w)) shape"
      using iss rec(1) known by (auto simp: issue_command_def matcher_issue_live nth_opt_def split: if_splits)
    then show ?thesis using True known by (simp add: nth_opt_def nth_append)
  next
    case False
    then obtain zs where xs: "xs = new_shapes w @ shape # zs" and comp: "comparable shape"
      using new by (auto simp: prefix_def)
    have "m_issued (w_matcher w) = length rec + length (new_shapes w)" using False known rec(2) by simp
    then show ?thesis using same_command_refl [OF comp] by (auto simp: nth_opt_def nth_append xs)
  qed
  then show ?thesis by (auto simp: issue_command_def matcher_issue_live t) (simp_all add: ahead_def bump_def)
qed

lemma ctx_step_eq:
  "ctx_step env False st inp w =
     (case issue_command (ShapeStep (step_id (w_step w + 1)) st inp) False (w\<lparr>w_step := w_step w + 1\<rparr>) of
        (Inl e, w2) \<Rightarrow> (Inl e, w2)
      | (Inr known, w2) \<Rightarrow> (Inr (key_promise (e_history env) (KStep (step_id (w_step w + 1)) st)),
          if known \<or> key_outcome (e_history env) (KStep (step_id (w_step w + 1)) st) \<noteq> None then w2
          else push_command (ScheduleStep (step_id (w_step w + 1)) st inp) w2))"
  by (auto simp: ctx_step_def Let_def key_promise_def key_outcome_def promise_of_def split: prod.splits sum.splits option.splits)

lemma ctx_sleep_eq:
  assumes "sleep_duration_error d = None"
  shows "ctx_sleep env False d w =
     (case issue_command (ShapeTimer (timer_id (w_timer w + 1)) (Some d)) False (w\<lparr>w_timer := w_timer w + 1\<rparr>) of
        (Inl e, w2) \<Rightarrow> (Inl e, w2)
      | (Inr known, w2) \<Rightarrow>
          if known \<or> key_outcome (e_history env) (KTimer (timer_id (w_timer w + 1))) \<noteq> None
          then (Inr (key_promise (e_history env) (KTimer (timer_id (w_timer w + 1)))), w2)
          else (case to_instant (of_int (e_clock env) + num_value d) of
              Inl e \<Rightarrow> (Inl e, w2)
            | Inr fire_at \<Rightarrow> (Inr (key_promise (e_history env) (KTimer (timer_id (w_timer w + 1)))),
                push_command (StartTimer (timer_id (w_timer w + 1)) fire_at d) w2)))"
  using assms
  by (auto simp: ctx_sleep_def Let_def key_promise_def key_outcome_def promise_of_def split: prod.splits sum.splits option.splits)

text \<open>A command that is new has no outcome in the history.\<close>

lemma new_step_no_outcome:
  assumes inv: "replay_inv env w" and orph: "no_orphans (e_history env)" and past: "length (recorded_shapes (e_history env)) \<le> m_issued (w_matcher w)"
  shows "key_outcome (e_history env) (KStep (step_id (w_step w + 1)) st) = None"
    and "key_outcome (e_history env) (KTimer (timer_id (w_timer w + 1))) = None"
proof -
  have log: "issued_log w = recorded_shapes (e_history env) @ new_shapes w"
    using issued_log_past past inv by (simp add: replay_inv_def)
  have "step_id (w_step w + 1) \<notin> set (shape_ids is_step (issued_log w))" using inv by (auto simp: replay_inv_def)
  then have "step_id (w_step w + 1) \<notin> set (shape_ids is_step (recorded_shapes (e_history env)))" by (simp add: log)
  then show "key_outcome (e_history env) (KStep (step_id (w_step w + 1)) st) = None"
    using orphans(1) [OF orph] by (cases "first_outcome 0 (step_outcome_of (step_id (w_step w + 1)) st) (e_history env)") (auto simp: key_outcome_def)
  have "timer_id (w_timer w + 1) \<notin> set (shape_ids is_timer (issued_log w))" using inv by (auto simp: replay_inv_def)
  then have "timer_id (w_timer w + 1) \<notin> set (shape_ids is_timer (recorded_shapes (e_history env)))" by (simp add: log)
  then show "key_outcome (e_history env) (KTimer (timer_id (w_timer w + 1))) = None"
    using orphans(2) [OF orph] by (cases "first_outcome 0 (timer_outcome_of (timer_id (w_timer w + 1))) (e_history env)") (auto simp: key_outcome_def)
qed

lemma issue_unknown:
  assumes "matcher_inv env w" and "issue_command shape False w = (Inr False, t)"
  shows "length (recorded_shapes (e_history env)) \<le> m_issued (w_matcher w)"
  using assms by (auto simp: matcher_inv_def issue_command_def matcher_issue_live nth_opt_def split: if_splits)

text \<open>
  What a call of a session has in common with the call of the replays it stands for: the one over the history it
  has, and the one over every history that goes on with the commands it issued.
\<close>

definition follows_on :: "replay_state \<Rightarrow> event list \<Rightarrow> bool" where
  "follows_on w later_es \<longleftrightarrow> prefix (new_shapes w) (recorded_shapes later_es) \<and> prefix (new_times w) (recorded_times later_es)"

lemma follows_on_push: "follows_on (push_command c w) later_es \<Longrightarrow> follows_on w later_es"
  by (auto simp: follows_on_def dest: append_prefixD)

lemma live_step_replays:
  assumes inv: "replay_inv env (ls_state s)" and env: "e_history env = ls_history s" and orph: "no_orphans (ls_history s)"
    and call: "live_step st inp s = (r, s')"
  defines "key \<equiv> KStep (step_id (w_step (ls_state s) + 1)) st"
  shows "case r of
       Some e \<Rightarrow> ctx_step env False st inp (ls_state s) = (Inl e, ls_state s') \<and> s' = s\<lparr>ls_state := ls_state s'\<rparr>
     | None \<Rightarrow> s' = register_waiter key (s\<lparr>ls_state := ls_state s'\<rparr>) \<and>
         ctx_step env False st inp (ls_state s) = (Inr (key_promise (ls_history s) key), ls_state s') \<and>
         (\<forall>later_es env'. e_history env' = ls_history s @ later_es \<longrightarrow> follows_on (ls_state s') later_es \<longrightarrow>
            ctx_step env' False st inp (ahead (recorded_shapes (ls_history s @ later_es)) (ls_state s)) =
              (Inr (key_promise (ls_history s @ later_es) key), ahead (recorded_shapes (ls_history s @ later_es)) (ls_state s')) \<and>
            follows_on (ls_state s) later_es)"
proof -
  let ?w = "ls_state s" and ?sid = "step_id (w_step (ls_state s) + 1)"
  let ?w1 = "?w\<lparr>w_step := w_step ?w + 1\<rparr>"
  obtain q w2 where iss: "issue_command (ShapeStep ?sid st inp) False ?w1 = (q, w2)" by fastforce
  have m1: "matcher_inv env ?w1" using inv by (simp add: replay_inv_def matcher_inv_def new_shapes_def)
  show ?thesis
  proof (cases q)
    case (Inl e)
    then have "r = Some e" "s' = s\<lparr>ls_state := w2\<rparr>" using call iss by (simp_all add: live_step_def Let_def)
    with Inl iss show ?thesis by (simp add: ctx_step_eq)
  next
    case (Inr known)
    let ?t = "if known then w2 else push_command (ScheduleStep ?sid st inp) w2"
    have r: "r = None" and s': "s' = register_waiter key (s\<lparr>ls_state := ?t\<rparr>)"
      using call iss Inr by (auto simp: live_step_def Let_def key_def)
    have st': "ls_state s' = ?t" by (simp add: s' register_waiter_def)
    have none: "key_outcome (ls_history s) key = None" if "\<not> known"
      using new_step_no_outcome(1) [OF inv, of st] orph issue_unknown [OF m1, of "ShapeStep ?sid st inp" w2] iss Inr that
      by (simp add: env key_def)
    have "ctx_step env False st inp ?w = (Inr (key_promise (ls_history s) key), ?t)"
      using iss Inr none by (auto simp: ctx_step_eq env key_def)
    moreover have "ctx_step env' False st inp (ahead (recorded_shapes (ls_history s @ later_es)) ?w) =
          (Inr (key_promise (ls_history s @ later_es) key), ahead (recorded_shapes (ls_history s @ later_es)) ?t) \<and> follows_on ?w later_es"
      if "e_history env' = ls_history s @ later_es" "follows_on ?t later_es" for later_es env'
    proof -
      have w2: "w2 = bump ?w1" using iss by (auto simp: issue_command_def matcher_issue_live bump_def split: option.splits)
      have new: "\<not> known \<Longrightarrow> prefix (new_shapes ?w1 @ [ShapeStep ?sid st inp]) (recorded_shapes later_es)"
        using that(2) by (simp add: follows_on_def w2)
      have "issue_command (ShapeStep ?sid st inp) False (ahead (recorded_shapes (ls_history s) @ recorded_shapes later_es) ?w1) =
          (Inr True, ahead (recorded_shapes (ls_history s) @ recorded_shapes later_es) w2)"
        by (rule issue_ahead [OF _ _ iss [unfolded Inr]]) (use m1 new env in \<open>auto simp: matcher_inv_def\<close>)
      moreover have "follows_on ?w later_es"
        using that(2) by (cases known) (auto simp: follows_on_def w2 dest: append_prefixD split: if_splits)
      ultimately show ?thesis using that(1) by (simp add: ctx_step_eq key_def)
    qed
    ultimately show ?thesis by (simp add: r st' s' register_waiter_def)
  qed
qed

lemma live_step_inv:
  assumes inv: "replay_inv env w" and orph: "no_orphans (e_history env)" and "ctx_step env False st inp w = (Inr p, t)"
  shows "replay_inv env t"
  using step_follows [OF assms, of "w_commands t"] by simp

lemma replay_inv_timer:
  assumes inv: "replay_inv env w" and valid: "d \<noteq> NaN"
    and iss: "issue_command (ShapeTimer (timer_id (w_timer w + 1)) (Some d)) False (w\<lparr>w_timer := w_timer w + 1\<rparr>) = (Inr known, w2)"
  shows "replay_inv env (if known then w2 else push_command (StartTimer (timer_id (w_timer w + 1)) fire_at d) w2)"
proof -
  define w1 where "w1 = w\<lparr>w_timer := w_timer w + 1\<rparr>"
  define shape where "shape = ShapeTimer (timer_id (w_timer w + 1)) (Some d)"
  let ?push = "push_command (StartTimer (timer_id (w_timer w + 1)) fire_at d)"
  have log1: "issued_log w1 = issued_log w" "new_shapes w1 = new_shapes w" "new_times w1 = new_times w" "w_matcher w1 = w_matcher w"
    by (simp_all add: w1_def issued_log_def)
  have m1: "matcher_inv env w1" using inv log1 by (simp add: replay_inv_def matcher_inv_def)
  have inv_t: "replay_inv env u" if "logged w1 shape u" "w_step u = w_step w" "w_timer u = w_timer w + 1"
      "w_child u = w_child w" "w_times u = w_times w" "w_patches u = w_patches w" "new_times u = new_times w" for u
    using inv that logged_ids [OF that(1)] logged_matcher_inv [OF that(1) m1]
    by (simp add: replay_inv_def log1 shape_def)
  note live = issue_live [OF m1 iss [folded w1_def shape_def], of "[]"]
  have w2: "w2 = bump w1" using live by simp
  have comp: "comparable shape" using valid by (simp add: shape_def)
  show ?thesis
  proof (cases known)
    case True
    then have "logged w1 shape w2" using live by auto
    then have "replay_inv env w2" by (rule inv_t) (simp_all add: w2 w1_def)
    with True show ?thesis by simp
  next
    case False
    then have "logged w1 shape (?push w2)" using live comp by (auto simp: shape_def)
    then have "replay_inv env (?push w2)"
      by (rule inv_t) (simp_all add: w2 w1_def push_command_def bump_def new_times_def map_filter_append time_of_command_def List.map_filter_def)
    with False show ?thesis by simp
  qed
qed

definition sleep_key :: "jsnum \<Rightarrow> replay_state \<Rightarrow> wait_key" where
  "sleep_key dur w = (case sleep_duration_error dur of Some invalid \<Rightarrow> KRejected invalid | None \<Rightarrow> KTimer (timer_id (w_timer w + 1)))"

lemma live_sleep_replays:
  assumes inv: "replay_inv env (ls_state s)" and env: "e_history env = ls_history s" and orph: "no_orphans (ls_history s)"
    and call: "live_sleep env dur s = (r, s')"
  defines "key \<equiv> sleep_key dur (ls_state s)"
  shows "case r of
       Some e \<Rightarrow> ctx_sleep env False dur (ls_state s) = (Inl e, ls_state s') \<and> s' = s\<lparr>ls_state := ls_state s'\<rparr>
     | None \<Rightarrow> s' = register_waiter key (s\<lparr>ls_state := ls_state s'\<rparr>) \<and>
         ctx_sleep env False dur (ls_state s) = (Inr (key_promise (ls_history s) key), ls_state s') \<and> replay_inv env (ls_state s') \<and>
         (\<forall>later_es env'. e_history env' = ls_history s @ later_es \<longrightarrow> follows_on (ls_state s') later_es \<longrightarrow>
            ctx_sleep env' False dur (ahead (recorded_shapes (ls_history s @ later_es)) (ls_state s)) =
              (Inr (key_promise (ls_history s @ later_es) key), ahead (recorded_shapes (ls_history s @ later_es)) (ls_state s')) \<and>
            follows_on (ls_state s) later_es)"
proof (cases "sleep_duration_error dur")
  case (Some invalid)
  then have "ctx_sleep env' False dur w = (Inr (PRejected False invalid), w)" for env' w by (simp add: ctx_sleep_def)
  moreover have "r = None" "s' = register_waiter key s" using call Some by (auto simp: live_sleep_def key_def sleep_key_def)
  ultimately show ?thesis using inv Some by (simp add: key_def sleep_key_def register_waiter_def key_promise_def)
next
  case valid: None
  then have num: "dur \<noteq> NaN" by (auto simp: sleep_duration_error_def is_finite_num_def split: if_splits)
  let ?w = "ls_state s" and ?tid = "timer_id (w_timer (ls_state s) + 1)" and ?at = "of_int (e_clock env) + num_value dur"
  let ?w1 = "?w\<lparr>w_timer := w_timer ?w + 1\<rparr>" and ?shape = "ShapeTimer (timer_id (w_timer (ls_state s) + 1)) (Some dur)"
  have key: "key = KTimer ?tid" using valid by (simp add: key_def sleep_key_def)
  obtain q w2 where iss: "issue_command ?shape False ?w1 = (q, w2)" by fastforce
  have m1: "matcher_inv env ?w1" using inv by (simp add: replay_inv_def matcher_inv_def)
  show ?thesis
  proof (cases q)
    case (Inl e)
    then have "r = Some e" "s' = s\<lparr>ls_state := w2\<rparr>" using call iss valid by (simp_all add: live_sleep_def Let_def)
    with Inl iss valid show ?thesis by (simp add: ctx_sleep_eq)
  next
    case (Inr known)
    have none: "key_outcome (ls_history s) key = None" if "\<not> known"
      using new_step_no_outcome(2) [OF inv] orph issue_unknown [OF m1, of ?shape w2] iss Inr that by (simp add: env key)
    show ?thesis
    proof (cases "\<not> known \<and> (\<exists>e. to_instant ?at = Inl e)")
      case True
      then obtain e where e: "\<not> known" "to_instant ?at = Inl e" by blast
      then have "r = Some e" "s' = s\<lparr>ls_state := w2\<rparr>" using call iss valid Inr by (simp_all add: live_sleep_def Let_def)
      with Inr iss valid e none show ?thesis by (simp add: ctx_sleep_eq env key)
    next
      case False
      then obtain fire_at where at_ok: "\<not> known \<Longrightarrow> to_instant ?at = Inr fire_at" by (cases "to_instant ?at") auto
      let ?t = "if known then w2 else push_command (StartTimer ?tid fire_at dur) w2"
      have r: "r = None" and s': "s' = register_waiter key (s\<lparr>ls_state := ?t\<rparr>)"
        using call iss Inr valid at_ok by (cases known; simp add: live_sleep_def Let_def key)+
      have st': "ls_state s' = ?t" by (simp add: s' register_waiter_def)
      have "ctx_sleep env False dur ?w = (Inr (key_promise (ls_history s) key), ?t)"
        using iss Inr none at_ok by (auto simp: ctx_sleep_eq [OF valid] env key)
      moreover have "replay_inv env ?t" by (rule replay_inv_timer [OF inv num iss [unfolded Inr]])
      moreover have "ctx_sleep env' False dur (ahead (recorded_shapes (ls_history s @ later_es)) ?w) =
            (Inr (key_promise (ls_history s @ later_es) key), ahead (recorded_shapes (ls_history s @ later_es)) ?t) \<and> follows_on ?w later_es"
        if "e_history env' = ls_history s @ later_es" "follows_on ?t later_es" for later_es env'
      proof -
        have w2: "w2 = bump ?w1" using iss by (auto simp: issue_command_def matcher_issue_live bump_def split: option.splits)
        have new: "\<not> known \<Longrightarrow> prefix (new_shapes ?w1 @ [?shape]) (recorded_shapes later_es)"
          using that(2) by (simp add: follows_on_def w2)
        have "issue_command ?shape False (ahead (recorded_shapes (ls_history s) @ recorded_shapes later_es) ?w1) =
            (Inr True, ahead (recorded_shapes (ls_history s) @ recorded_shapes later_es) w2)"
          by (rule issue_ahead [OF _ _ iss [unfolded Inr]]) (use m1 new env num in \<open>auto simp: matcher_inv_def\<close>)
        moreover have "follows_on ?w later_es"
          using that(2) by (cases known) (auto simp: follows_on_def w2 dest: append_prefixD split: if_splits)
        ultimately show ?thesis using that(1) by (simp add: ctx_sleep_eq [OF valid] key)
      qed
      ultimately show ?thesis by (simp add: r st' s' register_waiter_def)
    qed
  qed
qed

lemma live_now_replays:
  assumes inv: "replay_inv env (ls_state s)" and env: "e_history env = ls_history s" and times: "ls_times s = recorded_times (ls_history s)"
    and call: "live_now env s = (t, s')"
  shows "s' = s\<lparr>ls_state := ls_state s'\<rparr>" and "ctx_now env (ls_state s) = (t, ls_state s')" and "replay_inv env (ls_state s')"
    and "e_history env' = ls_history s @ later_es \<Longrightarrow> follows_on (ls_state s') later_es \<Longrightarrow>
      ctx_now env' (ahead xs (ls_state s)) = (t, ahead xs (ls_state s')) \<and> follows_on (ls_state s) later_es"
proof -
  let ?w = "ls_state s"
  have len: "length (new_times ?w) = w_times ?w - length (recorded_times (ls_history s))" using inv env by (simp add: replay_inv_def)
  show s': "s' = s\<lparr>ls_state := ls_state s'\<rparr>" and now: "ctx_now env (ls_state s) = (t, ls_state s')"
    using call by (auto simp: live_now_def ctx_now_def Let_def times env split: option.splits)
  show "replay_inv env (ls_state s')"
    using now_follows [OF inv now, of "w_commands (ls_state s')"] by simp
  assume env': "e_history env' = ls_history s @ later_es" and fol: "follows_on (ls_state s') later_es"
  have rec: "recorded_times (ls_history s @ later_es) = recorded_times (ls_history s) @ recorded_times later_es"
    by (simp add: recorded_times_def map_filter_append)
  show "ctx_now env' (ahead xs ?w) = (t, ahead xs (ls_state s')) \<and> follows_on ?w later_es"
  proof (cases "nth_opt (recorded_times (ls_history s)) (w_times ?w)")
    case (Some x)
    then have "t = x" "ls_state s' = ?w\<lparr>w_times := w_times ?w + 1\<rparr>" using now by (simp_all add: ctx_now_def Let_def env)
    moreover have "nth_opt (recorded_times (ls_history s @ later_es)) (w_times ?w) = Some x"
      using nth_opt_append1 [OF Some] by (simp add: rec)
    ultimately show ?thesis using fol by (simp add: ctx_now_def Let_def env' follows_on_def)
  next
    case None
    then have st': "ls_state s' = push_command (RecordTime t) (?w\<lparr>w_times := w_times ?w + 1\<rparr>)"
      using now by (auto simp: ctx_now_def Let_def env)
    have pre: "prefix (new_times ?w @ [t]) (recorded_times later_es)" "prefix (new_shapes ?w) (recorded_shapes later_es)"
      using fol by (simp_all add: follows_on_def st' time_of_command_def)
    have "w_times ?w = length (recorded_times (ls_history s)) + length (new_times ?w)"
      using None len by (simp add: nth_opt_None_iff)
    then have "nth_opt (recorded_times (ls_history s @ later_es)) (w_times ?w) = Some t"
      using pre(1) by (auto simp: rec nth_opt_def nth_append prefix_def)
    then show ?thesis using pre by (auto simp: ctx_now_def Let_def env' st' follows_on_def dest: append_prefixD)
  qed
qed

section \<open>The code runs as in a replay\<close>

definition promises_at :: "event list \<Rightarrow> live_session \<Rightarrow> promise list" where
  "promises_at es s = map (\<lambda>(k, out). key_promise es k) (ls_promises s)"

definition live_ok :: "live_session \<Rightarrow> event list \<Rightarrow> bool" where
  "live_ok s es \<longleftrightarrow> in_step s es \<and> prefix es (ls_history s) \<and> ls_times s = recorded_times (ls_history s) \<and>
     w_continuation (ls_state s) = None"

definition awaiting :: "live_session \<Rightarrow> bool" where
  "awaiting s \<longleftrightarrow> (\<exists>i k. ls_rest s = LAwait i k)"

definition stopped :: "live_session \<Rightarrow> bool" where
  "stopped s \<longleftrightarrow>
     (case ls_rest s of LReturn _ \<Rightarrow> True | LThrow _ \<Rightarrow> True | LOther _ \<Rightarrow> ls_unsupported s
      | LAwait i _ \<Rightarrow> (case nth_opt (ls_promises s) i of Some (_, Some _) \<Rightarrow> False | _ \<Rightarrow> True)
      | _ \<Rightarrow> False)"

definition same_session :: "live_session \<Rightarrow> live_session \<Rightarrow> bool" where
  "same_session s s' \<longleftrightarrow> ls_history s' = ls_history s \<and> ls_emitted s' = ls_emitted s \<and> ls_started s' = ls_started s \<and>
     ls_finished s' = ls_finished s"

definition same_draws :: "replay_env \<Rightarrow> replay_env \<Rightarrow> bool" where
  "same_draws env env' \<longleftrightarrow> e_random env' = e_random env \<and> e_uuid env' = e_uuid env \<and> e_max_children env' = e_max_children env"

text \<open>
  From \<open>s\<close>, where the code stands at \<open>h\<close>, to \<open>s'\<close>: the replay of the history, and of every history that goes on
  with what is new, passes from the one point to the other.
\<close>

definition runs_to :: "replay_env \<Rightarrow> live_handler \<Rightarrow> live_session \<Rightarrow> live_session \<Rightarrow> bool" where
  "runs_to env h s s' \<longleftrightarrow>
     same_session s s' \<and>
     replay (replayed h (promises_at (ls_history s) s)) env False (ls_state s) =
       replay (replayed (ls_rest s') (promises_at (ls_history s) s')) env False (ls_state s') \<and>
     (awaiting s' \<longrightarrow> replay_inv env (ls_state s') \<and>
       (\<forall>later_es env'. e_history env' = ls_history s @ later_es \<longrightarrow> same_draws env env' \<longrightarrow> follows_on (ls_state s') later_es \<longrightarrow>
          replay (replayed h (promises_at (e_history env') s)) env' False (ahead (recorded_shapes (e_history env')) (ls_state s)) =
            replay (replayed (ls_rest s') (promises_at (e_history env') s')) env' False (ahead (recorded_shapes (e_history env')) (ls_state s')) \<and>
          follows_on (ls_state s) later_es))"

lemma runs_to_refl: "(awaiting s \<Longrightarrow> replay_inv env (ls_state s)) \<Longrightarrow> ls_rest s = h \<Longrightarrow> runs_to env h s s"
  by (simp add: runs_to_def same_session_def)

lemma runs_to_trans:
  assumes "runs_to env h s s'" and "runs_to env (ls_rest s') s' s''" and "\<not> awaiting s' \<Longrightarrow> \<not> awaiting s''"
  shows "runs_to env h s s''"
  using assms unfolding runs_to_def same_session_def by metis

text \<open>One call, then the rest.\<close>

lemma runs_to_call:
  assumes rest: "runs_to env k t s'" and same: "same_session s t"
    and now: "replay (replayed h (promises_at (ls_history s) s)) env False (ls_state s) =
       replay (replayed k (promises_at (ls_history s) t)) env False (ls_state t)"
    and later: "\<And>later_es env'. e_history env' = ls_history s @ later_es \<Longrightarrow> same_draws env env' \<Longrightarrow> follows_on (ls_state t) later_es \<Longrightarrow>
       replay (replayed h (promises_at (e_history env') s)) env' False (ahead (recorded_shapes (e_history env')) (ls_state s)) =
         replay (replayed k (promises_at (e_history env') t)) env' False (ahead (recorded_shapes (e_history env')) (ls_state t)) \<and>
       follows_on (ls_state s) later_es"
  shows "runs_to env h s s'"
proof -
  have hist: "ls_history t = ls_history s" using same by (simp add: same_session_def)
  show ?thesis
    unfolding runs_to_def
  proof (intro conjI impI allI)
    show "same_session s s'" using rest same by (simp add: runs_to_def same_session_def)
    show "replay (replayed h (promises_at (ls_history s) s)) env False (ls_state s) =
       replay (replayed (ls_rest s') (promises_at (ls_history s) s')) env False (ls_state s')"
      using rest now hist by (simp add: runs_to_def)
    show "replay_inv env (ls_state s')" if "awaiting s'" using rest that by (simp add: runs_to_def)
  next
    fix later_es env'
    assume a: "awaiting s'" and e: "e_history env' = ls_history s @ later_es" "same_draws env env'" "follows_on (ls_state s') later_es"
    have r: "replay (replayed k (promises_at (e_history env') t)) env' False (ahead (recorded_shapes (e_history env')) (ls_state t)) =
        replay (replayed (ls_rest s') (promises_at (e_history env') s')) env' False (ahead (recorded_shapes (e_history env')) (ls_state s'))"
      "follows_on (ls_state t) later_es"
      using rest a e hist by (auto simp: runs_to_def)
    from later [OF e(1,2) r(2)] r(1)
    show "replay (replayed h (promises_at (e_history env') s)) env' False (ahead (recorded_shapes (e_history env')) (ls_state s)) =
        replay (replayed (ls_rest s') (promises_at (e_history env') s')) env' False (ahead (recorded_shapes (e_history env')) (ls_state s'))"
      and "follows_on (ls_state s) later_es" by auto
  qed
qed

lemma promises_at_register [simp]:
  "promises_at es (register_waiter k s) = promises_at es s @ [key_promise es k]"
  "promises_at es (s\<lparr>ls_state := w\<rparr>) = promises_at es s" "promises_at es (s\<lparr>ls_rest := h\<rparr>) = promises_at es s"
  by (simp_all add: promises_at_def register_waiter_def)

lemma try_key_fields [simp]:
  "try_key (s\<lparr>ls_state := w\<rparr>) k = try_key s k" "try_key (s\<lparr>ls_rest := h\<rparr>) k = try_key s k"
  "try_key (s\<lparr>ls_promises := ps\<rparr>) k = try_key s k" "try_key (s\<lparr>ls_unsupported := b\<rparr>) k = try_key s k"
  "try_key (s\<lparr>ls_started := b\<rparr>) k = try_key s k"
  by (simp_all add: try_key_def split: wait_key.split)

lemma in_step_register: "in_step s es \<Longrightarrow> in_step (register_waiter k (s\<lparr>ls_state := w\<rparr>)) es"
  by (auto simp: in_step_def register_waiter_def)

lemma live_ok_register:
  "live_ok s es \<Longrightarrow> w_continuation w = None \<Longrightarrow> live_ok (register_waiter k (s\<lparr>ls_state := w\<rparr>)) es"
  using in_step_register [of s es k w] by (auto simp: live_ok_def register_waiter_def)

lemma live_ok_rest [simp]: "live_ok (s\<lparr>ls_rest := h\<rparr>) es = live_ok s es"
  by (simp add: live_ok_def in_step_def)

lemma ctx_continuation:
  "ctx_step env c st inp w = (r, t) \<Longrightarrow> w_continuation t = w_continuation w"
  "ctx_sleep env c d w = (r1, t) \<Longrightarrow> w_continuation t = w_continuation w"
  "ctx_now env w = (r2, t) \<Longrightarrow> w_continuation t = w_continuation w"
  by (auto simp: ctx_step_def ctx_sleep_def ctx_now_def Let_def issue_command_def push_command_def
      split: sum.splits prod.splits option.splits if_splits)

lemma same_session_simps [simp]:
  "same_session s (s\<lparr>ls_rest := h\<rparr>)" "same_session s (register_waiter k (s\<lparr>ls_state := w\<rparr>))" "same_session s (s\<lparr>ls_state := w\<rparr>)"
  by (simp_all add: same_session_def register_waiter_def)

lemma run_live_throws:
  assumes ok: "live_ok s es" and w: "w_continuation w = None"
    and now: "replay (replayed h (promises_at (ls_history s) s)) env False (ls_state s) = (Threw e, w)"
  defines "t \<equiv> s\<lparr>ls_state := w, ls_rest := LThrow e\<rparr>"
  shows "runs_to env h s t \<and> live_ok t es \<and> stopped t"
  using ok w now by (simp add: t_def live_ok_def in_step_def runs_to_def awaiting_def stopped_def same_session_def)

lemma run_live_runs:
  assumes "live_ok s es" and "replay_inv env (ls_state s)" and "e_history env = ls_history s" and "no_orphans (ls_history s)"
  shows "runs_to env h s (run_live h env s) \<and> live_ok (run_live h env s) es \<and> stopped (run_live h env s)"
  using assms
proof (induction h arbitrary: s)
  case (LReturn v)
  then show ?case by (simp add: runs_to_def awaiting_def stopped_def)
next
  case (LThrow e)
  then show ?case by (simp add: runs_to_def awaiting_def stopped_def)
next
  case (LAwait i k)
  show ?case
  proof (cases "\<exists>key out. nth_opt (ls_promises s) i = Some (key, Some out)")
    case True
    then obtain key out where i: "nth_opt (ls_promises s) i = Some (key, Some out)" by blast
    then have "(key, Some out) \<in> set (ls_promises s)" by (metis nth_mem nth_opt_Some_iff)
    then have known: "key_outcome es key = Some out" using LAwait.prems(1) by (auto simp: live_ok_def in_step_def)
    have at: "await_promise (optional (nth_opt (promises_at ys s) i) PNever) = Some out" if "prefix es ys" for ys
    proof -
      have "nth_opt (promises_at ys s) i = Some (key_promise ys key)"
        using i by (simp add: promises_at_def nth_opt_def split: if_splits)
      moreover have "key_outcome ys key = Some out" using key_outcome_append known that by (auto simp: prefix_def)
      ultimately show ?thesis by (simp add: await_key_promise)
    qed
    have pre: "prefix es (ls_history s)" using LAwait.prems(1) by (simp add: live_ok_def)
    have run: "run_live (LAwait i k) env s = run_live (k out) env s" using i by simp
    have "runs_to env (LAwait i k) s (run_live (k out) env s)"
    proof (rule runs_to_call)
      show "runs_to env (k out) s (run_live (k out) env s)" using LAwait.IH LAwait.prems by blast
      show "same_session s s" by (simp add: same_session_def)
    qed (use at pre in \<open>auto simp: prefix_order.trans\<close>)
    then show ?thesis unfolding run using LAwait.IH LAwait.prems by blast
  next
    case False
    then have "run_live (LAwait i k) env s = s\<lparr>ls_rest := LAwait i k\<rparr>" by (auto split: option.splits prod.splits)
    moreover have "stopped (s\<lparr>ls_rest := LAwait i k\<rparr>)" using False by (auto simp: stopped_def split: option.splits prod.splits)
    ultimately show ?thesis using LAwait.prems by (simp add: runs_to_def)
  qed
next
  case (LStep st inp k)
  obtain r t where call: "live_step st inp s = (r, t)" by fastforce
  note replays = live_step_replays [OF LStep.prems(2-4) call]
  have cont: "w_continuation (ls_state s) = None" using LStep.prems(1) by (simp add: live_ok_def)
  show ?case
  proof (cases r)
    case (Some e)
    with replays have c: "ctx_step env False st inp (ls_state s) = (Inl e, ls_state t)" "t = s\<lparr>ls_state := ls_state t\<rparr>" by auto
    from c(2) obtain w where t: "t = s\<lparr>ls_state := w\<rparr>" by blast
    show ?thesis using run_live_throws [OF LStep.prems(1), of w "LStep st inp k" env e] ctx_continuation(1) [OF c(1)] cont c(1) call Some by (simp add: t)
  next
    case None
    let ?key = "KStep (step_id (w_step (ls_state s) + 1)) st"
    from None replays have c: "ctx_step env False st inp (ls_state s) = (Inr (key_promise (ls_history s) ?key), ls_state t)"
      "t = register_waiter ?key (s\<lparr>ls_state := ls_state t\<rparr>)"
      "\<And>later_es env'. e_history env' = ls_history s @ later_es \<Longrightarrow> follows_on (ls_state t) later_es \<Longrightarrow>
         ctx_step env' False st inp (ahead (recorded_shapes (ls_history s @ later_es)) (ls_state s)) =
           (Inr (key_promise (ls_history s @ later_es) ?key), ahead (recorded_shapes (ls_history s @ later_es)) (ls_state t)) \<and>
         follows_on (ls_state s) later_es" by auto
    from c(2) obtain w where t: "t = register_waiter ?key (s\<lparr>ls_state := w\<rparr>)" by blast
    then have w: "ls_state t = w" by (simp add: register_waiter_def)
    have ps: "promises_at ys t = promises_at ys s @ [key_promise ys ?key]" for ys by (simp add: t)
    have same: "same_session s t" by (simp add: t)
    have ok: "live_ok t es" unfolding t by (rule live_ok_register [OF LStep.prems(1)]) (use ctx_continuation(1) [OF c(1)] cont w in simp)
    have inv: "replay_inv env (ls_state t)" using live_step_inv [OF LStep.prems(2) _ c(1)] LStep.prems(3,4) by simp
    have hist: "ls_history t = ls_history s" using same by (simp add: same_session_def)
    note ih = LStep.IH [OF ok inv]
    have "runs_to env (LStep st inp k) s (run_live k env t)"
      by (rule runs_to_call [OF _ same]) (use ih hist LStep.prems(3,4) c ps in auto)
    then show ?thesis using ih hist LStep.prems(3,4) call None by simp
  qed
next
  case (LSleep dur k)
  obtain r t where call: "live_sleep env dur s = (r, t)" by fastforce
  note replays = live_sleep_replays [OF LSleep.prems(2-4) call]
  have cont: "w_continuation (ls_state s) = None" using LSleep.prems(1) by (simp add: live_ok_def)
  show ?case
  proof (cases r)
    case (Some e)
    with replays have c: "ctx_sleep env False dur (ls_state s) = (Inl e, ls_state t)" "t = s\<lparr>ls_state := ls_state t\<rparr>" by auto
    from c(2) obtain w where t: "t = s\<lparr>ls_state := w\<rparr>" by blast
    show ?thesis using run_live_throws [OF LSleep.prems(1), of w "LSleep dur k" env e] ctx_continuation(2) [OF c(1)] cont c(1) call Some by (simp add: t)
  next
    case None
    let ?key = "sleep_key dur (ls_state s)"
    from None replays have c: "ctx_sleep env False dur (ls_state s) = (Inr (key_promise (ls_history s) ?key), ls_state t)"
      "t = register_waiter ?key (s\<lparr>ls_state := ls_state t\<rparr>)" "replay_inv env (ls_state t)"
      "\<And>later_es env'. e_history env' = ls_history s @ later_es \<Longrightarrow> follows_on (ls_state t) later_es \<Longrightarrow>
         ctx_sleep env' False dur (ahead (recorded_shapes (ls_history s @ later_es)) (ls_state s)) =
           (Inr (key_promise (ls_history s @ later_es) ?key), ahead (recorded_shapes (ls_history s @ later_es)) (ls_state t)) \<and>
         follows_on (ls_state s) later_es" by auto
    from c(2) obtain w where t: "t = register_waiter ?key (s\<lparr>ls_state := w\<rparr>)" by blast
    then have w: "ls_state t = w" by (simp add: register_waiter_def)
    have ps: "promises_at ys t = promises_at ys s @ [key_promise ys ?key]" for ys by (simp add: t)
    have same: "same_session s t" by (simp add: t)
    have ok: "live_ok t es" unfolding t by (rule live_ok_register [OF LSleep.prems(1)]) (use ctx_continuation(2) [OF c(1)] cont w in simp)
    have hist: "ls_history t = ls_history s" using same by (simp add: same_session_def)
    note ih = LSleep.IH [OF ok c(3)]
    have "runs_to env (LSleep dur k) s (run_live k env t)"
      by (rule runs_to_call [OF _ same]) (use ih hist LSleep.prems(3,4) c ps in auto)
    then show ?thesis using ih hist LSleep.prems(3,4) call None by simp
  qed
next
  case (LWaitForSignal name k)
  let ?key = "KSignal name (w_signals (ls_state s) name)"
  let ?w = "(ls_state s)\<lparr>w_signals := (w_signals (ls_state s))(name := w_signals (ls_state s) name + 1)\<rparr>"
  define t where "t = live_wait_for_signal name s"
  have t: "t = register_waiter ?key (s\<lparr>ls_state := ?w\<rparr>)" by (simp add: t_def live_wait_for_signal_def Let_def)
  have st: "ls_state t = ?w" "ls_history t = ls_history s" by (simp_all add: t register_waiter_def)
  have ps: "promises_at ys t = promises_at ys s @ [key_promise ys ?key]" for ys by (simp add: t)
  have call: "ctx_wait_for_signal env' False name w = (key_promise (e_history env') (KSignal name (w_signals w name)),
      w\<lparr>w_signals := (w_signals w)(name := w_signals w name + 1)\<rparr>)" for env' w
    by (simp add: ctx_wait_for_signal_def Let_def key_promise_def promise_of_def split: option.split)
  have ok: "live_ok t es" unfolding t by (rule live_ok_register [OF LWaitForSignal.prems(1)]) (use LWaitForSignal.prems(1) in \<open>simp add: live_ok_def\<close>)
  have inv: "replay_inv env (ls_state t)"
    using signal_follows [OF LWaitForSignal.prems(2) call [of env "ls_state s"]] st by simp
  note ih = LWaitForSignal.IH [OF ok inv]
  have "runs_to env (LWaitForSignal name k) s (run_live k env t)"
    by (rule runs_to_call [of env k t])
      (use ih st LWaitForSignal.prems(3,4) ps in \<open>auto simp: call follows_on_def same_session_def t register_waiter_def\<close>)
  then show ?case using ih st LWaitForSignal.prems(3,4) by (simp add: t_def)
next
  case (LNow k)
  obtain x t where call: "live_now env s = (x, t)" by fastforce
  have times: "ls_times s = recorded_times (ls_history s)" using LNow.prems(1) by (simp add: live_ok_def)
  note replays = live_now_replays [OF LNow.prems(2,3) times call]
  from replays(1) obtain w where t: "t = s\<lparr>ls_state := w\<rparr>" by blast
  have hist: "ls_history t = ls_history s" "promises_at ys t = promises_at ys s" for ys by (simp_all add: t)
  have ok: "live_ok t es"
    using LNow.prems(1) ctx_continuation(3) [OF replays(2)] by (simp add: t live_ok_def in_step_def)
  have same: "same_session s t" by (simp add: t)
  note ih = LNow.IH [OF rangeI [of k x] ok replays(3)]
  have "runs_to env (LNow k) s (run_live (k x) env t)"
    by (rule runs_to_call [OF _ same, of env "k x"]) (use ih hist LNow.prems(3,4) replays(2,4) in auto)
  then show ?case using ih hist LNow.prems(3,4) call by simp
next
  case (LRandom k)
  let ?t = "s\<lparr>ls_state := (ls_state s)\<lparr>w_draws := w_draws (ls_state s) + 1\<rparr>\<rparr>"
  have ok: "live_ok ?t es" using LRandom.prems(1) by (simp add: live_ok_def in_step_def)
  note ih = LRandom.IH [OF rangeI [of k "e_random env (w_draws (ls_state s))"] ok]
  have "runs_to env (LRandom k) s (run_live (k (e_random env (w_draws (ls_state s)))) env ?t)"
    by (rule runs_to_call [of env "k (e_random env (w_draws (ls_state s)))" ?t])
      (use ih LRandom.prems(2-4) in \<open>auto simp: same_draws_def follows_on_def\<close>)
  then show ?case using ih LRandom.prems(2-4) by simp
next
  case (LUuid k)
  let ?t = "s\<lparr>ls_state := (ls_state s)\<lparr>w_draws := w_draws (ls_state s) + 1\<rparr>\<rparr>"
  have ok: "live_ok ?t es" using LUuid.prems(1) by (simp add: live_ok_def in_step_def)
  note ih = LUuid.IH [OF rangeI [of k "e_uuid env (w_draws (ls_state s))"] ok]
  have "runs_to env (LUuid k) s (run_live (k (e_uuid env (w_draws (ls_state s)))) env ?t)"
    by (rule runs_to_call [of env "k (e_uuid env (w_draws (ls_state s)))" ?t])
      (use ih LUuid.prems(2-4) in \<open>auto simp: same_draws_def follows_on_def\<close>)
  then show ?case using ih LUuid.prems(2-4) by simp
next
  case (LSetQueryHandler name f k)
  let ?t = "s\<lparr>ls_state := (ls_state s)\<lparr>w_queries := filter (\<lambda>(n, _). n \<noteq> name) (w_queries (ls_state s)) @ [(name, f)]\<rparr>\<rparr>"
  have ok: "live_ok ?t es" using LSetQueryHandler.prems(1) by (simp add: live_ok_def in_step_def)
  note ih = LSetQueryHandler.IH [of ?t, OF ok]
  have "runs_to env (LSetQueryHandler name f k) s (run_live k env ?t)"
    by (rule runs_to_call [of env k ?t]) (use ih LSetQueryHandler.prems(2-4) in \<open>auto simp: follows_on_def\<close>)
  then show ?case using ih LSetQueryHandler.prems(2-4) by simp
next
  case (LOther g)
  have "live_ok (s\<lparr>ls_unsupported := True, ls_rest := LOther g\<rparr>) es" using LOther.prems(1) by (simp add: live_ok_def in_step_def)
  then show ?case by (simp add: runs_to_def awaiting_def stopped_def same_session_def promises_at_def)
qed

section \<open>Feeding\<close>

lemma resume_settled: "stopped s \<Longrightarrow> \<not> awaiting s \<Longrightarrow> resume env s = s"
  by (auto simp: resume_def stopped_def awaiting_def split: live_handler.splits)

lemma promises_at_keys: "map fst (ls_promises s') = map fst (ls_promises s) \<Longrightarrow> promises_at es s' = promises_at es s"
proof -
  have "promises_at es u = map (key_promise es) (map fst (ls_promises u))" for u
    by (simp add: promises_at_def case_prod_beta)
  then show "map fst (ls_promises s') = map fst (ls_promises s) \<Longrightarrow> ?thesis" by (simp del: map_map)
qed

lemma feed_runs:
  assumes "live_ok s done" and "stopped s" and "awaiting s \<longrightarrow> replay_inv env (ls_state s)" and "e_history env = ls_history s"
    and "no_orphans (ls_history s)" and "settled_once (ls_history s)" and "ls_history s = done @ es"
  shows "runs_to env (ls_rest s) s (feed env es s) \<and> live_ok (feed env es s) (done @ es) \<and> stopped (feed env es s) \<and>
     (\<not> awaiting s \<longrightarrow> \<not> awaiting (feed env es s))"
  using assms
proof (induction es arbitrary: s "done")
  case Nil
  then show ?case using runs_to_refl by auto
next
  case (Cons e es)
  obtain resolved t where del: "deliver_event e s = (resolved, t)" by fastforce
  have "settled_once (done @ [e])" using Cons.prems(6,7) settled_once_append [of "done @ [e]" es] by simp
  with deliver_in_step [OF _ this del] Cons.prems(1)
  have t: "in_step t (done @ [e])" "same_code s t" "resolved \<or> ls_promises t = ls_promises s" by (auto simp: live_ok_def)
  have eqs: "ls_history t = ls_history s" "ls_state t = ls_state s" "ls_rest t = ls_rest s" "ls_unsupported t = ls_unsupported s"
    "ls_times t = ls_times s" "same_session s t" "promises_at ys t = promises_at ys s" for ys
    using t(2) promises_at_keys [of t s] by (auto simp: same_code_def same_session_def)
  have aw: "awaiting t \<longleftrightarrow> awaiting s" by (simp add: awaiting_def eqs)
  have okt: "live_ok t (done @ [e])" using Cons.prems(1,7) t(1) by (simp add: live_ok_def eqs prefix_def)
  have to_t: "runs_to env (ls_rest s) s t" using Cons.prems(3) aw by (simp add: runs_to_def eqs)
  define u where "u = (if resolved then resume env t else t)"
  have u: "runs_to env (ls_rest t) t u \<and> live_ok u (done @ [e]) \<and> stopped u \<and> (\<not> awaiting t \<longrightarrow> \<not> awaiting u)"
  proof (cases "resolved \<and> awaiting t")
    case True
    then show ?thesis using run_live_runs [OF okt, of env "ls_rest t"] Cons.prems(3-5) aw by (simp add: u_def resume_def eqs)
  next
    case False
    have "stopped t"
    proof (cases "awaiting s")
      case True
      with False t(3) aw have "ls_promises t = ls_promises s" by simp
      then show ?thesis using Cons.prems(2) by (auto simp: stopped_def eqs split: live_handler.splits)
    next
      case False
      then show ?thesis using Cons.prems(2) by (auto simp: stopped_def eqs awaiting_def split: live_handler.splits)
    qed
    then have "u = t" using False resume_settled by (auto simp: u_def)
    then show ?thesis using runs_to_refl okt \<open>stopped t\<close> Cons.prems(3) aw eqs(2) by auto
  qed
  have to_u: "runs_to env (ls_rest s) s u" using runs_to_trans [OF to_t] u by blast
  then have hist: "ls_history u = ls_history s" by (simp add: runs_to_def same_session_def)
  have inv: "awaiting u \<longrightarrow> replay_inv env (ls_state u)" using to_u by (simp add: runs_to_def)
  have ih: "runs_to env (ls_rest u) u (feed env es u) \<and> live_ok (feed env es u) ((done @ [e]) @ es) \<and> stopped (feed env es u) \<and>
      (\<not> awaiting u \<longrightarrow> \<not> awaiting (feed env es u))"
    by (rule Cons.IH) (use u inv hist Cons.prems(4-7) in simp_all)
  moreover have "feed env (e # es) s = feed env es u" using del by (simp add: u_def)
  ultimately show ?case using runs_to_trans [OF to_u] u aw by auto
qed

section \<open>Indexing\<close>

lemma index_events:
  "fold index_event es s = s\<lparr>ls_history := ls_history s @ es,
     ls_state := (ls_state s)\<lparr>w_matcher := matcher_record (recorded_shapes es) (w_matcher (ls_state s))\<rparr>,
     ls_times := ls_times s @ recorded_times es\<rparr>"
proof (induction es arbitrary: s)
  case (Cons e es)
  have "recorded_shapes (e # es) = (case recorded_command_of e of None \<Rightarrow> [] | Some x \<Rightarrow> [x]) @ recorded_shapes es"
    "recorded_times (e # es) = (case e of TimeRecorded t \<Rightarrow> [t] | _ \<Rightarrow> []) @ recorded_times es"
    by (auto simp: recorded_shapes_def recorded_times_def List.map_filter_def split: option.split event.split)
  moreover have "index_event e s = s\<lparr>ls_history := ls_history s @ [e],
     ls_state := (ls_state s)\<lparr>w_matcher := matcher_record (case recorded_command_of e of None \<Rightarrow> [] | Some x \<Rightarrow> [x]) (w_matcher (ls_state s))\<rparr>,
     ls_times := ls_times s @ (case e of TimeRecorded t \<Rightarrow> [t] | _ \<Rightarrow> [])\<rparr>"
    by (cases "recorded_command_of e") (simp_all add: index_event_def matcher_record_def)
  ultimately show ?case by (simp add: Cons.IH matcher_record_def)
qed (simp add: recorded_shapes_def recorded_times_def List.map_filter_def matcher_record_def)

lemma indexed_state:
  assumes "m_recorded (w_matcher w) = recorded_shapes h"
  shows "w\<lparr>w_commands := [], w_matcher := matcher_record (recorded_shapes es) (w_matcher w)\<rparr> = ahead (recorded_shapes (h @ es)) w"
  using assms by (simp add: ahead_def matcher_record_def)

lemma ahead_ahead [simp]: "ahead xs (ahead ys w) = ahead xs w"
  by (simp add: ahead_def)

text \<open>Once its commands are on the log the state of a session is the state of a replay there.\<close>

lemma replay_inv_ahead:
  assumes inv: "replay_inv env w" and env': "e_history env' = e_history env @ es" "e_max_children env' = e_max_children env"
    and fol: "follows_on w es"
  shows "replay_inv env' (ahead (recorded_shapes (e_history env')) w)"
proof -
  let ?h = "recorded_shapes (e_history env)" and ?n = "m_issued (w_matcher w)" and ?a = "ahead (recorded_shapes (e_history env')) w"
  have rec: "m_recorded (w_matcher w) = ?h" and new: "length (new_shapes w) = ?n - length ?h"
    and times: "length (new_times w) = w_times w - length (recorded_times (e_history env))"
    using inv by (simp_all add: replay_inv_def matcher_inv_def)
  have pre: "take (?n - length ?h) (recorded_shapes es) = new_shapes w" "length (new_times w) \<le> length (recorded_times es)"
    "length (new_shapes w) \<le> length (recorded_shapes es)"
    using fol new by (auto simp: follows_on_def prefix_def)
  have empty: "new_shapes ?a = []" "new_times ?a = []"
    by (simp_all add: ahead_def new_shapes_def new_times_def List.map_filter_def)
  have "issued_log ?a = issued_log w"
    using pre(1) by (simp add: issued_log_def empty rec) (simp add: ahead_def env')
  moreover have "matcher_inv env' ?a"
    using pre(3) new by (simp add: matcher_inv_def empty) (simp add: ahead_def env')
  moreover have "recorded_times (e_history env') = recorded_times (e_history env) @ recorded_times es"
    by (simp add: env' recorded_times_def map_filter_append)
  moreover have "w_child ?a = w_child w" "w_patches ?a = w_patches w" by (simp_all add: ahead_def)
  ultimately show ?thesis using inv times pre(2) env'(2) by (simp add: replay_inv_def empty)
qed

section \<open>Sessions\<close>

text \<open>What histories a session is fed: supported events, steps settled once and only after they were scheduled.\<close>

definition feedable :: "event list \<Rightarrow> bool" where
  "feedable es \<longleftrightarrow> list_all is_supported_event es \<and> settled_once es \<and> no_orphans es"

text \<open>
  A session of \<open>h\<close> between two decisions: the replay of any history that goes on with what the session
  issued passes through the point where the session stands.
\<close>

definition session_of :: "live_handler \<Rightarrow> replay_env \<Rightarrow> live_session \<Rightarrow> bool" where
  "session_of h env0 s \<longleftrightarrow>
     \<not> ls_finished s \<and> \<not> ls_unsupported s \<and> ls_emitted s = w_commands (ls_state s) \<and> live_ok s (ls_history s) \<and>
     (if ls_started s then awaiting s \<and> stopped s else ls_rest s = h \<and> ls_history s = []) \<and>
     (\<forall>env'. same_draws env0 env' \<longrightarrow> e_history env' = ls_history s \<longrightarrow> replay_inv env' (ls_state s)) \<and>
     (\<forall>later_es env'. same_draws env0 env' \<longrightarrow> e_history env' = ls_history s @ later_es \<longrightarrow> follows_on (ls_state s) later_es \<longrightarrow>
        replay (replayed h []) env' False (initial_state env') =
          replay (replayed (ls_rest s) (promises_at (e_history env') s)) env' False (ahead (recorded_shapes (e_history env')) (ls_state s)))"

lemma session_of_create: "session_of h env0 (create_live_session h)"
proof -
  have init: "initial_state env' = ahead (recorded_shapes (e_history env')) empty_replay_state" for env'
    by (simp add: initial_state_def ahead_def empty_replay_state_def matcher_record_def create_command_matcher_def)
  have none: "try_key (create_live_session h) k = key_outcome [] k" for k
    by (cases k) (simp_all add: try_key_def create_live_session_def key_outcome_simps nth_opt_simps)
  have "replay_inv env' empty_replay_state" if "e_history env' = []" for env'
    using initial_replay_inv [of env'] that
    by (simp add: init ahead_def empty_replay_state_def recorded_shapes_def List.map_filter_def create_command_matcher_def)
  with none show ?thesis
    by (simp add: session_of_def live_ok_def in_step_def init)
      (simp add: create_live_session_def promises_at_def recorded_times_def List.map_filter_def empty_replay_state_def)
qed

lemma follows_on_append: "follows_on w es \<Longrightarrow> follows_on w (es @ es')"
  by (auto simp: follows_on_def recorded_times_def map_filter_append)

lemma feed_slice_runs:
  assumes ses: "session_of h env0 s" and env: "same_draws env0 env" "e_history env = ls_history s @ es"
    and hist: "feedable (ls_history s @ es)" and fol: "follows_on (ls_state s) es"
  defines "s3 \<equiv> feed_slice env es s"
  shows "live_ok s3 (ls_history s3) \<and> ls_history s3 = ls_history s @ es \<and> stopped s3 \<and> \<not> ls_finished s3 \<and> ls_started s3 \<and>
     replay (replayed h []) env False (initial_state env) =
       replay (replayed (ls_rest s3) (promises_at (e_history env) s3)) env False (ls_state s3) \<and>
     (awaiting s3 \<longrightarrow> replay_inv env (ls_state s3) \<and>
       (\<forall>later_es env'. same_draws env0 env' \<longrightarrow> e_history env' = ls_history s3 @ later_es \<longrightarrow> follows_on (ls_state s3) later_es \<longrightarrow>
          replay (replayed h []) env' False (initial_state env') =
            replay (replayed (ls_rest s3) (promises_at (e_history env') s3)) env' False (ahead (recorded_shapes (e_history env')) (ls_state s3))))"
proof -
  let ?w = "ls_state s" and ?H = "ls_history s @ es"
  let ?a = "ahead (recorded_shapes ?H) ?w"
  define s1 where "s1 = s\<lparr>ls_history := ?H, ls_state := ?a, ls_times := ls_times s @ recorded_times es, ls_started := True\<rparr>"
  have inv0: "replay_inv (env0\<lparr>e_history := ls_history s\<rparr>) ?w" using ses by (simp add: session_of_def same_draws_def)
  then have rec: "m_recorded (w_matcher ?w) = recorded_shapes (ls_history s)" by (simp add: replay_inv_def matcher_inv_def)
  have inv1: "replay_inv env (ls_state s1)"
    using replay_inv_ahead [OF inv0, of env es] env fol by (simp add: same_draws_def s1_def)
  have indexed: "fold index_event es (s\<lparr>ls_state := ?w\<lparr>w_commands := []\<rparr>\<rparr>) =
      s\<lparr>ls_history := ?H, ls_state := ?a, ls_times := ls_times s @ recorded_times es\<rparr>"
    using indexed_state [OF rec, of es] by (simp add: index_events)
  have start: "ls_history s = []" "ls_rest s = h" if "\<not> ls_started s" using ses that by (simp_all add: session_of_def)
  have times: "ls_times s = recorded_times (ls_history s)" and step0: "in_step s (ls_history s)" and cont: "w_continuation ?w = None"
    using ses by (simp_all add: session_of_def live_ok_def)
  have keys: "try_key s1 k = try_key s k" for k by (simp add: s1_def try_key_def split: wait_key.split)
  have ok1: "live_ok s1 (ls_history s)"
    using times step0 cont keys
    by (simp add: live_ok_def in_step_def) (simp add: s1_def recorded_times_def map_filter_append ahead_def)
  have orph: "no_orphans (ls_history s1)" "settled_once (ls_history s1)" "e_history env = ls_history s1"
    using hist env(2) by (simp_all add: s1_def feedable_def)
  define s2 where "s2 = (if ls_started s then s1 else resume env s1)"
  have s3: "s3 = feed env es s2"
  proof (cases "ls_started s")
    case True
    then have "s1 = s\<lparr>ls_history := ?H, ls_state := ?a, ls_times := ls_times s @ recorded_times es\<rparr>" by (simp add: s1_def)
    then show ?thesis using True by (simp add: s3_def feed_slice_def indexed Let_def s2_def)
  next
    case False
    then show ?thesis by (simp add: s3_def feed_slice_def indexed Let_def s2_def s1_def)
  qed
  have s2: "runs_to env (ls_rest s) s1 s2 \<and> live_ok s2 (ls_history s) \<and> stopped s2"
  proof (cases "ls_started s")
    case True
    then have "stopped s1" "awaiting s1" using ses by (auto simp: session_of_def s1_def stopped_def awaiting_def)
    moreover have "ls_rest s1 = ls_rest s" by (simp add: s1_def)
    ultimately show ?thesis using True ok1 runs_to_refl [of s1 env] inv1 by (simp add: s2_def)
  next
    case False
    have "ls_rest s1 = ls_rest s" by (simp add: s1_def)
    then show ?thesis using run_live_runs [OF ok1 inv1 orph(3,1), of "ls_rest s"] False by (simp add: s2_def resume_def)
  qed
  then have hist2: "ls_history s2 = ls_history s1" "awaiting s2 \<longrightarrow> replay_inv env (ls_state s2)"
    by (simp_all add: runs_to_def same_session_def)
  have fed: "runs_to env (ls_rest s2) s2 s3 \<and> live_ok s3 ?H \<and> stopped s3 \<and> (\<not> awaiting s2 \<longrightarrow> \<not> awaiting s3)"
    unfolding s3 by (rule feed_runs) (use s2 hist2 orph in \<open>simp_all add: s1_def\<close>)
  have to3: "runs_to env (ls_rest s) s1 s3" using runs_to_trans s2 fed by blast
  then have hist3: "ls_history s3 = ?H" "ls_finished s3 = ls_finished s" "ls_started s3"
    by (simp_all add: runs_to_def same_session_def s1_def)
  have ps: "promises_at ys s1 = promises_at ys s" for ys by (simp add: promises_at_def s1_def)
  have passes: "replay (replayed h []) env' False (initial_state env') =
      replay (replayed (ls_rest s) (promises_at (e_history env') s)) env' False (ahead (recorded_shapes (e_history env')) ?w)"
    if "same_draws env0 env'" "e_history env' = ls_history s @ xs" "follows_on ?w xs" for env' xs
    using ses that by (simp add: session_of_def)
  have now: "replay (replayed h []) env False (initial_state env) =
      replay (replayed (ls_rest s3) (promises_at (e_history env) s3)) env False (ls_state s3)"
    using passes [OF env fol] to3 env(2) by (simp add: runs_to_def ps) (simp add: s1_def)
  have later: "replay_inv env (ls_state s3)"
    "replay (replayed h []) env' False (initial_state env') =
       replay (replayed (ls_rest s3) (promises_at (e_history env') s3)) env' False (ahead (recorded_shapes (e_history env')) (ls_state s3))"
    if a: "awaiting s3" and e: "same_draws env0 env'" "e_history env' = ls_history s3 @ xs" "follows_on (ls_state s3) xs" for env' xs
  proof -
    have draws: "same_draws env env'" using env(1) e(1) by (simp add: same_draws_def)
    have "e_history env' = ls_history s1 @ xs" using e(2) hist3 by (simp add: s1_def)
    with to3 a draws e(3) have r: "replay (replayed (ls_rest s) (promises_at (e_history env') s1)) env' False (ahead (recorded_shapes (e_history env')) (ls_state s1)) =
       replay (replayed (ls_rest s3) (promises_at (e_history env') s3)) env' False (ahead (recorded_shapes (e_history env')) (ls_state s3))"
      "replay_inv env (ls_state s3)"
      unfolding runs_to_def by blast+
    show "replay_inv env (ls_state s3)" by (rule r(2))
    have "e_history env' = ls_history s @ (es @ xs)" using e(2) hist3 by simp
    from passes [OF e(1) this follows_on_append [OF fol]] r(1)
    show "replay (replayed h []) env' False (initial_state env') =
       replay (replayed (ls_rest s3) (promises_at (e_history env') s3)) env' False (ahead (recorded_shapes (e_history env')) (ls_state s3))"
      by (simp add: ps) (simp add: s1_def)
  qed
  have "\<not> ls_finished s3" using hist3(2) ses by (simp add: session_of_def)
  moreover have "replay_inv env (ls_state s3)" if "awaiting s3" using to3 that by (simp add: runs_to_def)
  ultimately show ?thesis using fed hist3 now later(2) by simp
qed

section \<open>A session decides what a replay decides\<close>

lemma emitted_recorded:
  assumes "follows_on w es"
  shows "emitted_are_recorded (w_commands w) es"
proof -
  have count: "length (filter (\<lambda>c. case c of RecordTime _ \<Rightarrow> True | _ \<Rightarrow> False) cs) = length (List.map_filter time_of_command cs)" for cs
    by (induction cs) (auto simp: time_of_command_def map_filter_simps split: command.split)
  have pre: "set (new_shapes w) \<subseteq> set (recorded_shapes es)" "length (new_times w) \<le> length (recorded_times es)"
    using assms by (auto simp: follows_on_def dest: prefix_length_le set_mono_prefix)
  have shape: "x \<in> set (new_shapes w)" if "c \<in> set (w_commands w)" "shape_of_command c = Some x" for c x
    using that by (force simp: new_shapes_def List.map_filter_def)
  have event: "\<exists>e \<in> set es. recorded_command_of e = Some x" if "x \<in> set (recorded_shapes es)" for x
    using that by (auto simp: recorded_shapes_def List.map_filter_def)
  have "case c of
         ScheduleStep sid _ _ \<Rightarrow> list_ex (\<lambda>e. case e of StepScheduled i _ _ \<Rightarrow> i = sid | _ \<Rightarrow> False) es
       | StartTimer tid _ _ \<Rightarrow> list_ex (\<lambda>e. case e of TimerStarted i _ _ \<Rightarrow> i = tid | _ \<Rightarrow> False) es
       | _ \<Rightarrow> True" if c: "c \<in> set (w_commands w)" for c
  proof (cases "shape_of_command c")
    case None
    then show ?thesis by (cases c) simp_all
  next
    case (Some x)
    then obtain e where "e \<in> set es" "recorded_command_of e = Some x" using event shape [OF c] pre(1) by blast
    with Some show ?thesis by (cases c; cases e) (force simp: list_ex_iff)+
  qed
  then show ?thesis using pre(2) by (simp add: emitted_are_recorded_def count new_times_def list_all_iff)
qed

lemma replay_stopped:
  assumes "live_ok s (ls_history s)" and "stopped s" and "\<not> ls_unsupported s"
  shows "replay (replayed (ls_rest s) (promises_at (ls_history s) s)) env False w =
     (case ls_rest s of LReturn v \<Rightarrow> Returned v | LThrow e \<Rightarrow> Threw e | _ \<Rightarrow> Suspended_at, w)"
proof (cases "awaiting s")
  case True
  then obtain i k where rest: "ls_rest s = LAwait i k" by (auto simp: awaiting_def)
  have "await_promise (optional (nth_opt (promises_at (ls_history s) s) i) PNever) = None"
  proof (cases "nth_opt (ls_promises s) i")
    case None
    then show ?thesis by (simp add: promises_at_def nth_opt_def await_promise_def split: if_splits)
  next
    case (Some x)
    obtain key out where x: "x = (key, out)" by fastforce
    with Some rest assms(2) have none: "out = None" by (auto simp: stopped_def split: option.splits)
    have "(key, out) \<in> set (ls_promises s)" using Some x by (metis nth_mem nth_opt_Some_iff)
    with assms(1) none have "key_outcome (ls_history s) key = None" by (fastforce simp: live_ok_def in_step_def)
    moreover have "nth_opt (promises_at (ls_history s) s) i = Some (key_promise (ls_history s) key)"
      using Some x by (simp add: promises_at_def nth_opt_def split: if_splits)
    ultimately show ?thesis by (simp add: await_key_promise)
  qed
  with rest show ?thesis by simp
next
  case False
  with assms(2,3) show ?thesis by (auto simp: stopped_def awaiting_def split: live_handler.splits)
qed

lemma closing_update:
  fixes s :: live_session and cs fin
  defines "s' \<equiv> s\<lparr>ls_emitted := cs, ls_finished := fin\<rparr>"
  shows "live_ok s' xs = live_ok s xs" "awaiting s' = awaiting s" "stopped s' = stopped s" "promises_at ys s' = promises_at ys s"
proof -
  have key: "try_key s' = try_key s" by (rule ext) (simp add: s'_def try_key_def split: wait_key.split option.split)
  show "live_ok s' xs = live_ok s xs" unfolding live_ok_def in_step_def key by (simp add: s'_def)
  show "awaiting s' = awaiting s" by (simp add: s'_def awaiting_def)
  show "stopped s' = stopped s" by (simp add: s'_def stopped_def split: live_handler.split)
  show "promises_at ys s' = promises_at ys s" by (simp add: s'_def promises_at_def)
qed

text \<open>What the decision loop makes of a replay over supported events.\<close>

lemma decide_supported:
  assumes sup: "list_all is_supported_event (e_history env)"
    and run: "replay h env False (initial_state env) = (st, t)" and cont: "w_continuation t = None"
  shows "decide js enc env h =
     (case integrity_failure (settled_of js st) of
        Some e \<Rightarrow> Inl e
      | None \<Rightarrow>
          (case assert_all_issued (w_matcher t) of
             Some e \<Rightarrow> Inl e
           | None \<Rightarrow>
               (case settled_of js st of
                  None \<Rightarrow> Inr \<lparr>de_outcome = Suspended, de_commands = w_commands t\<rparr>
                | Some (SettledCompleted v) \<Rightarrow> Inr \<lparr>de_outcome = Completed v, de_commands = w_commands t @ [CompleteRun v]\<rparr>
                | Some (SettledFailed e) \<Rightarrow>
                    Inr \<lparr>de_outcome = Failed_with e, de_commands = w_commands t @ [FailRun (to_recorded_error enc e)]\<rparr>)))"
proof -
  have "\<not> is_cancel_requested_event e" if "is_supported_event e" for e
    using that by (cases e) (simp_all add: is_supported_event_def is_cancel_requested_event_def)
  then have nc: "\<not> cancel_requested env" using sup by (auto simp: cancel_requested_def list_all_iff list_ex_iff)
  have "recorded_patch_ids es = []" if "list_all is_supported_event es" for es
    using that by (induction es) (auto simp: recorded_patch_ids_def map_filter_simps is_supported_event_def split: event.splits)
  then have "recorded_patch_ids (e_history env) = []" using sup by simp
  then show ?thesis
    using replay_history_uncancelled [OF nc run, of js enc] cont
    by (auto simp: decide_def Let_def split: option.split settled.split)
qed

theorem advance_replays:
  assumes ses: "session_of h env0 s" and env: "same_draws env0 env" "e_history env = ls_history s @ es"
    and hist: "feedable (ls_history s @ es)" and fol: "follows_on (ls_state s) es"
    and adv: "advance js enc threshold env (ls_history s @ es) s = (r, s')"
  shows "case r of
       Inl e \<Rightarrow> run_decision_loop js enc threshold env (replayed h []) = Inl e
     | Inr (LiveDecided dec warning) \<Rightarrow>
         run_decision_loop js enc threshold env (replayed h []) = Inr (dec, warning) \<and>
         (de_outcome dec = Suspended \<longrightarrow> session_of h env0 s' \<and> ls_history s' = ls_history s @ es \<and>
            w_commands (ls_state s') = de_commands dec)
     | Inr LiveUnsupported \<Rightarrow> True
     | Inr LiveDiverged \<Rightarrow> False"
proof -
  let ?s3 = "feed_slice env es s"
  note f = feed_slice_runs [OF ses env hist fol]
  have open_s: "\<not> ls_finished s" "\<not> ls_unsupported s" "ls_emitted s = w_commands (ls_state s)" using ses by (simp_all add: session_of_def)
  have emitted: "emitted_are_recorded (ls_emitted s) es" using emitted_recorded [OF fol] open_s(3) by simp
  have supported: "list_all is_supported_event es" "list_all is_supported_event (e_history env)"
    using hist env(2) by (simp_all add: feedable_def)
  have d: "drop (length (ls_history s)) (ls_history s @ es) = es" by simp
  have guards: "(ls_finished s \<or> ls_unsupported s \<or> length (ls_history s @ es) < length (ls_history s)) = False"
      "(\<not> list_all is_supported_event es) = False" "(\<not> emitted_are_recorded (ls_emitted s) es) = False"
    using open_s emitted supported(1) by simp_all
  have seen: "(length (ls_history s) \<noteq> 0 \<and> nth_opt (ls_history s @ es) (length (ls_history s) - 1) \<noteq> nth_opt (ls_history s) (length (ls_history s) - 1)) = False"
    by (cases "ls_history s" rule: rev_cases) (auto simp: nth_opt_def nth_append)
  have adv': "(r, s') =
      (if ls_unsupported ?s3 then (Inr LiveUnsupported, ?s3)
       else case integrity_failure (settled_rest js (ls_rest ?s3)) of
         Some e \<Rightarrow> (Inl e, ?s3\<lparr>ls_finished := True\<rparr>)
       | None \<Rightarrow>
           (case assert_all_issued (w_matcher (ls_state ?s3)) of
              Some e \<Rightarrow> (Inl e, ?s3\<lparr>ls_finished := True\<rparr>)
            | None \<Rightarrow>
                let dec = build_decision js enc ?s3 in
                (Inr (LiveDecided dec (case threshold of None \<Rightarrow> None
                    | Some n \<Rightarrow> if length (ls_history ?s3) < n then None else Some (length (ls_history ?s3), n))),
                 ?s3\<lparr>ls_emitted := de_commands dec, ls_finished := (settled_rest js (ls_rest ?s3) \<noteq> None)\<rparr>)))"
    using adv[symmetric] unfolding advance_def Let_def d by (simp only: guards seen if_False)
  show ?thesis
  proof (cases "ls_unsupported ?s3")
    case True
    with adv' show ?thesis by simp
  next
    case False
    define st where "st = (case ls_rest ?s3 of LReturn v \<Rightarrow> Returned v | LThrow e \<Rightarrow> Threw e | _ \<Rightarrow> Suspended_at)"
    have hist3: "ls_history ?s3 = e_history env" using f env(2) by simp
    have "replay (replayed (ls_rest ?s3) (promises_at (ls_history ?s3) ?s3)) env False (ls_state ?s3) = (st, ls_state ?s3)"
      unfolding st_def by (rule replay_stopped) (use f False in blast)+
    then have run: "replay (replayed h []) env False (initial_state env) = (st, ls_state ?s3)" using f hist3 by simp
    have cont: "w_continuation (ls_state ?s3) = None" using f by (simp add: live_ok_def)
    have settled: "settled_of js st = settled_rest js (ls_rest ?s3)"
      by (simp add: st_def settled_of_def settled_rest_def split: live_handler.split)
    note dec = decide_supported [OF supported(2) run cont, of js enc, unfolded settled]
    show ?thesis
    proof (cases "integrity_failure (settled_rest js (ls_rest ?s3))")
      case (Some e)
      with adv' False dec show ?thesis by (simp add: run_decision_loop_def)
    next
      case whole: None
      show ?thesis
      proof (cases "assert_all_issued (w_matcher (ls_state ?s3))")
        case (Some e)
        with adv' False dec whole show ?thesis by (simp add: run_decision_loop_def)
      next
        case None
        let ?dec = "build_decision js enc ?s3"
        have decided: "decide js enc env (replayed h []) = Inr ?dec"
          using dec whole None by (auto simp: build_decision_def Let_def split: option.splits settled.splits)
        have r: "r = Inr (LiveDecided ?dec (case threshold of None \<Rightarrow> None
            | Some n \<Rightarrow> if length (ls_history ?s3) < n then None else Some (length (ls_history ?s3), n)))"
          and s': "s' = ?s3\<lparr>ls_emitted := de_commands ?dec, ls_finished := (settled_rest js (ls_rest ?s3) \<noteq> None)\<rparr>"
          using adv' False whole None by (simp_all add: Let_def)
        have loop: "run_decision_loop js enc threshold env (replayed h []) = Inr (?dec, case threshold of None \<Rightarrow> None
            | Some n \<Rightarrow> if length (ls_history ?s3) < n then None else Some (length (ls_history ?s3), n))"
          using decided hist3 by (simp add: run_decision_loop_def split: option.split)
        have "session_of h env0 s' \<and> ls_history s' = ls_history s @ es \<and> w_commands (ls_state s') = de_commands ?dec"
          if sus: "de_outcome ?dec = Suspended"
        proof -
          have rest: "settled_rest js (ls_rest ?s3) = None" and cmds: "de_commands ?dec = w_commands (ls_state ?s3)"
            using sus by (auto simp: build_decision_def Let_def split: option.splits settled.splits)
          have aw: "awaiting ?s3"
            using rest f False by (auto simp: settled_rest_def stopped_def awaiting_def split: live_handler.splits)
          have inv: "replay_inv env' (ls_state ?s3)" if "same_draws env0 env'" "e_history env' = ls_history ?s3" for env'
          proof -
            have "replay_inv env (ls_state ?s3)" using f aw by simp
            then show ?thesis using that env hist3 by (simp add: replay_inv_def matcher_inv_def same_draws_def)
          qed
          have same: "live_ok s' (ls_history s') = live_ok ?s3 (ls_history ?s3)" "awaiting s' = awaiting ?s3" "stopped s' = stopped ?s3"
            "promises_at ys s' = promises_at ys ?s3" "ls_rest s' = ls_rest ?s3" "ls_state s' = ls_state ?s3" "ls_history s' = ls_history ?s3"
            "ls_started s' = ls_started ?s3" "ls_unsupported s' = ls_unsupported ?s3" "ls_emitted s' = de_commands ?dec" "\<not> ls_finished s'" for ys
            using rest by (simp_all add: s' closing_update)
          have replays: "replay (replayed h []) env' False (initial_state env') =
              replay (replayed (ls_rest ?s3) (promises_at (e_history env') ?s3)) env' False
                (ahead (recorded_shapes (e_history env')) (ls_state ?s3))"
            if "same_draws env0 env'" "e_history env' = ls_history ?s3 @ later_es" "follows_on (ls_state ?s3) later_es" for later_es env'
            using f aw that by (simp add: recorded_shapes_append)
          have ok: "live_ok s' (ls_history s')" using f unfolding same(1) by blast
          have stop: "stopped ?s3" "ls_started ?s3" using f by blast+
          have hist_s': "ls_history s' = ls_history s @ es" using f same by simp
          have "session_of h env0 s'"
            unfolding session_of_def same(2-6,8-10) cmds using ok same(11) False aw stop inv replays
            unfolding same(7) by simp
          then show ?thesis using hist_s' cmds same(6) by simp
        qed
        with loop r show ?thesis by simp
      qed
    qed
  qed
qed

end
