(* ===== verification/StickyDecider.thy ===== *)
theory StickyDecider
  imports Sticky LiveProof
begin

text \<open>
  Sticky decisions (\<open>packages/core/src/sticky/sticky-decider.ts\<close>): a worker keeps the live session of each run
  in its cache and decides by feeding it what the log gained, or by a full replay when there is no session
  or it cannot be advanced. What makes that sound is an invariant on the cache, which holds along every
  sequence of decisions, recordings by this worker and by others, and losses of the cache.
\<close>

section \<open>The decider\<close>

datatype decision_source = FromCache | FromReplay

text \<open>\<open>sd_uncacheable\<close> is the \<open>WeakSet\<close> of handlers: a handler is known by a name.\<close>

record sticky_decider =
  sd_cache :: "live_session run_cache"
  sd_uncacheable :: "string list"
  sd_hits :: nat
  sd_misses :: nat
  sd_full_replays :: nat
  sd_replayed :: nat
  sd_incremental :: nat
  sd_invalidations :: nat

record sticky_stats =
  ts_hits :: nat
  ts_misses :: nat
  ts_full_replays :: nat
  ts_replayed :: nat
  ts_incremental :: nat
  ts_invalidations :: nat

type_synonym sticky_decision = "(decision \<times> (nat \<times> nat) option) \<times> decision_source"

definition create_sticky_decider :: "live_session run_cache \<Rightarrow> sticky_decider" where
  "create_sticky_decider c =
     \<lparr>sd_cache = c, sd_uncacheable = [], sd_hits = 0, sd_misses = 0, sd_full_replays = 0, sd_replayed = 0,
      sd_incremental = 0, sd_invalidations = 0\<rparr>"

definition drop_session :: "uuid \<Rightarrow> sticky_decider \<Rightarrow> sticky_decider" where
  "drop_session rid sd = sd\<lparr>sd_cache := snd (cache_delete rid (sd_cache sd))\<rparr>"

definition keep_session :: "time \<Rightarrow> uuid \<Rightarrow> live_session \<Rightarrow> sticky_decider \<Rightarrow> sticky_decider" where
  "keep_session t rid s sd = sd\<lparr>sd_cache := cache_set t rid s (sd_cache sd)\<rparr>"

definition count_replay :: "nat \<Rightarrow> sticky_decider \<Rightarrow> sticky_decider" where
  "count_replay n sd = sd\<lparr>sd_full_replays := sd_full_replays sd + 1, sd_replayed := sd_replayed sd + n\<rparr>"

text \<open>\<open>t\<close> is the cache's clock when a session is stored, \<open>name\<close> the handler's identity, \<open>h\<close> its code on its input.\<close>

definition replay_from_scratch ::
    "(jsv \<Rightarrow> string) \<Rightarrow> (jsv \<Rightarrow> string) \<Rightarrow> nat option \<Rightarrow> time \<Rightarrow> uuid \<Rightarrow> string \<Rightarrow> live_handler \<Rightarrow> replay_env \<Rightarrow>
     sticky_decider \<Rightarrow> (thrown + sticky_decision) \<times> sticky_decider" where
  "replay_from_scratch js enc threshold t rid name h env sd =
     (let history = e_history env;
          fallback = (\<lambda>sd. (map_sum id (\<lambda>d. (d, FromReplay)) (run_decision_loop js enc threshold env (replayed h [])),
            count_replay (length history) sd)) in
      if name \<in> set (sd_uncacheable sd) then fallback sd
      else
        let sd1 = count_replay (length history) sd in
        case advance js enc threshold env history (create_live_session h) of
          (Inl e, _) \<Rightarrow> (Inl e, sd1)
        | (Inr (LiveDecided dec warning), s) \<Rightarrow>
            (Inr ((dec, warning), FromReplay), if de_outcome dec = Suspended then keep_session t rid s sd1 else sd1)
        | (Inr _, _) \<Rightarrow> fallback (sd1\<lparr>sd_uncacheable := List.insert name (sd_uncacheable sd1)\<rparr>))"

definition replay_or_drop ::
    "(jsv \<Rightarrow> string) \<Rightarrow> (jsv \<Rightarrow> string) \<Rightarrow> nat option \<Rightarrow> time \<Rightarrow> uuid \<Rightarrow> string \<Rightarrow> live_handler \<Rightarrow> replay_env \<Rightarrow>
     sticky_decider \<Rightarrow> (thrown + sticky_decision) \<times> sticky_decider" where
  "replay_or_drop js enc threshold t rid name h env sd =
     (case replay_from_scratch js enc threshold t rid name h env sd of
        (Inl e, sd') \<Rightarrow> (Inl e, drop_session rid sd')
      | (Inr d, sd') \<Rightarrow> (Inr d, sd'))"

definition sticky_decide ::
    "(jsv \<Rightarrow> string) \<Rightarrow> (jsv \<Rightarrow> string) \<Rightarrow> nat option \<Rightarrow> time \<Rightarrow> time \<Rightarrow> uuid \<Rightarrow> string \<Rightarrow> live_handler \<Rightarrow> replay_env \<Rightarrow>
     sticky_decider \<Rightarrow> (thrown + sticky_decision) \<times> sticky_decider" where
  "sticky_decide js enc threshold t0 t1 rid name h env sd =
     (let (cached, c) = cache_get t0 rid (sd_cache sd); sd0 = sd\<lparr>sd_cache := c\<rparr>; history = e_history env in
      case cached of
        None \<Rightarrow> replay_or_drop js enc threshold t1 rid name h env (sd0\<lparr>sd_misses := sd_misses sd0 + 1\<rparr>)
      | Some s \<Rightarrow>
          (case advance js enc threshold env history s of
             (Inl e, _) \<Rightarrow> (Inl e, drop_session rid sd0)
           | (Inr (LiveDecided dec warning), s') \<Rightarrow>
               (let sd1 = sd0\<lparr>sd_hits := sd_hits sd0 + 1,
                    sd_incremental := sd_incremental sd0 + (length history - length (ls_history s))\<rparr>
                in (Inr ((dec, warning), FromCache),
                    if de_outcome dec = Suspended then keep_session t1 rid s' sd1 else drop_session rid sd1))
           | (Inr _, _) \<Rightarrow>
               replay_or_drop js enc threshold t1 rid name h env
                 (drop_session rid (sd0\<lparr>sd_misses := sd_misses sd0 + 1, sd_invalidations := sd_invalidations sd0 + 1\<rparr>))))"

definition invalidate :: "uuid \<Rightarrow> sticky_decider \<Rightarrow> sticky_decider" where
  "invalidate rid sd =
     (let (gone, c) = cache_delete rid (sd_cache sd)
      in sd\<lparr>sd_cache := c, sd_invalidations := sd_invalidations sd + (if gone then 1 else 0)\<rparr>)"

definition flush :: "sticky_decider \<Rightarrow> sticky_decider" where
  "flush sd = sd\<lparr>sd_cache := cache_clear (sd_cache sd)\<rparr>"

definition decider_stats :: "sticky_decider \<Rightarrow> sticky_stats" where
  "decider_stats sd =
     \<lparr>ts_hits = sd_hits sd, ts_misses = sd_misses sd, ts_full_replays = sd_full_replays sd, ts_replayed = sd_replayed sd,
      ts_incremental = sd_incremental sd, ts_invalidations = sd_invalidations sd\<rparr>"

section \<open>What the cache holds\<close>

definition sessions :: "sticky_decider \<Rightarrow> (uuid \<times> live_session) set" where
  "sessions sd = (\<lambda>e. (ce_run e, ce_value e)) ` set (ca_entries (sd_cache sd))"

lemma sessions_simps [simp]:
  "sessions (drop_session rid sd) = {(r, s) \<in> sessions sd. r \<noteq> rid}"
  "sessions (invalidate rid sd) = {(r, s) \<in> sessions sd. r \<noteq> rid}"
  "sessions (flush sd) = {}" "sessions (create_sticky_decider c) = sessions \<lparr>sd_cache = c, sd_uncacheable = [], sd_hits = 0,
     sd_misses = 0, sd_full_replays = 0, sd_replayed = 0, sd_incremental = 0, sd_invalidations = 0\<rparr>"
  "sessions (count_replay n sd) = sessions sd"
  "sessions (sd\<lparr>sd_misses := a\<rparr>) = sessions sd" "sessions (sd\<lparr>sd_hits := a\<rparr>) = sessions sd"
  "sessions (sd\<lparr>sd_incremental := a\<rparr>) = sessions sd" "sessions (sd\<lparr>sd_invalidations := a\<rparr>) = sessions sd"
  "sessions (sd\<lparr>sd_uncacheable := names\<rparr>) = sessions sd"
  by (auto simp: sessions_def drop_session_def invalidate_def flush_def cache_delete_def cache_clear_def create_sticky_decider_def
      count_replay_def without_entry_def)

lemma evict_subset: "set (fst (evict m es n)) \<subseteq> set es"
  by (induction m es n rule: evict.induct) auto

lemma sessions_keep: "sessions (keep_session t rid s sd) \<subseteq> insert (rid, s) {(r, s) \<in> sessions sd. r \<noteq> rid}"
proof
  fix x assume "x \<in> sessions (keep_session t rid s sd)"
  then obtain e where e: "e \<in> set (ca_entries (cache_set t rid s (sd_cache sd)))" "x = (ce_run e, ce_value e)"
    by (auto simp: sessions_def keep_session_def)
  then have "e \<in> set (without_entry rid (ca_entries (sd_cache sd)) @ [\<lparr>ce_run = rid, ce_value = s, ce_last_used = t\<rparr>])"
    using evict_subset [of "ca_max_runs (sd_cache sd)"
        "without_entry rid (ca_entries (sd_cache sd)) @ [\<lparr>ce_run = rid, ce_value = s, ce_last_used = t\<rparr>]" "ca_evictions (sd_cache sd)"]
    by (auto simp: cache_set_def split: prod.splits)
  then show "x \<in> insert (rid, s) {(r, s) \<in> sessions sd. r \<noteq> rid}"
    by (auto simp: e(2) without_entry_def sessions_def)
qed

lemma sessions_get:
  assumes "cache_get t rid (sd_cache sd) = (cached, c)"
  shows "sessions (sd\<lparr>sd_cache := c\<rparr>) \<subseteq> sessions sd"
    and "cached = Some s \<Longrightarrow> (rid, s) \<in> sessions sd"
    and "cached = None \<Longrightarrow> (rid, s) \<notin> sessions (sd\<lparr>sd_cache := c\<rparr>)"
proof -
  show "(rid, s) \<notin> sessions (sd\<lparr>sd_cache := c\<rparr>)" if "cached = None"
    using cache_get_None [of t rid "sd_cache sd" c] assms that by (auto simp: sessions_def find_entry_def find_None_iff)
  have found: "e \<in> set (ca_entries (sd_cache sd)) \<and> ce_run e = rid" if "find_entry rid (sd_cache sd) = Some e" for e
    using that by (auto simp: find_entry_def find_Some_iff)
  show "cached = Some s \<Longrightarrow> (rid, s) \<in> sessions sd"
    using assms found by (force simp: cache_get_def sessions_def split: option.splits if_splits)
  show "sessions (sd\<lparr>sd_cache := c\<rparr>) \<subseteq> sessions sd"
    using assms found by (force simp: cache_get_def sessions_def without_entry_def split: option.splits if_splits)
qed

section \<open>A sound cache decides what a replay decides\<close>

text \<open>
  The session of a run stands at a point of the replay of its log, and the log goes on with what the
  session decided.
\<close>

definition session_fits :: "live_handler \<Rightarrow> replay_env \<Rightarrow> event list \<Rightarrow> live_session \<Rightarrow> bool" where
  "session_fits h env0 hist s \<longleftrightarrow>
     session_of h env0 s \<and> list_all is_supported_event (ls_history s) \<and>
     (\<exists>es. hist = ls_history s @ es \<and> follows_on (ls_state s) es)"

text \<open>What a recording keeps in order: one outcome for each step, and none without the command.\<close>

definition log_in_order :: "event list \<Rightarrow> bool" where
  "log_in_order es \<longleftrightarrow> settled_once es \<and> no_orphans es"

lemma session_fits_append: "session_fits h env0 hist s \<Longrightarrow> session_fits h env0 (hist @ es) s"
  by (auto simp: session_fits_def dest: follows_on_append [of _ _ es])

lemma session_fits_create: "session_fits h env0 hist (create_live_session h)"
  using session_of_create by (simp add: session_fits_def follows_on_def new_shapes_def new_times_def List.map_filter_def
      create_live_session_def empty_replay_state_def)

lemma advance_supported:
  assumes "advance js enc th env full s = (Inr (LiveDecided dec w), s')"
  shows "list_all is_supported_event (drop (length (ls_history s)) full)"
  using assms by (auto simp: advance_def Let_def split: if_splits)

lemma advance_fits:
  assumes fits: "session_fits h env0 (e_history env) s" and env: "same_draws env0 env" and hist: "log_in_order (e_history env)"
    and adv: "advance js enc th env (e_history env) s = (r, s')"
  shows "case r of
       Inl e \<Rightarrow> run_decision_loop js enc th env (replayed h []) = Inl e
     | Inr (LiveDecided dec warning) \<Rightarrow>
         run_decision_loop js enc th env (replayed h []) = Inr (dec, warning) \<and>
         (de_outcome dec = Suspended \<longrightarrow> session_of h env0 s' \<and> ls_history s' = e_history env \<and>
            list_all is_supported_event (e_history env) \<and> w_commands (ls_state s') = de_commands dec)
     | _ \<Rightarrow> True"
proof -
  obtain es where es: "e_history env = ls_history s @ es" "follows_on (ls_state s) es"
    and ses: "session_of h env0 s" and seen: "list_all is_supported_event (ls_history s)"
    using fits by (auto simp: session_fits_def)
  show ?thesis
  proof (cases "list_all is_supported_event es")
    case True
    then have "feedable (ls_history s @ es)" "list_all is_supported_event (e_history env)"
      using seen hist es(1) by (simp_all add: feedable_def log_in_order_def)
    with advance_replays [OF ses env es(1) _ es(2), of js enc th r s'] adv es(1)
    show ?thesis by (auto split: sum.splits live_advance.splits)
  next
    case False
    with adv es(1) show ?thesis
      by (auto simp: advance_def Let_def split: if_splits)
  qed
qed

lemma follows_own_commands: "follows_on w (map command_to_event (w_commands w))"
proof -
  have "recorded_times (map command_to_event cs) = List.map_filter time_of_command cs" for cs
    by (induction cs) (auto simp: recorded_times_def time_of_command_def map_filter_simps split: command.split)
  then show ?thesis by (simp add: follows_on_def new_shapes_def new_times_def recorded_shapes_commands)
qed

text \<open>A decision: what it answers, and the sessions it leaves.\<close>

definition fresh_session :: "live_handler \<Rightarrow> replay_env \<Rightarrow> replay_env \<Rightarrow> uuid \<Rightarrow> thrown + sticky_decision \<Rightarrow> (uuid \<times> live_session) set" where
  "fresh_session h env0 env rid r =
     {(rid', s). rid' = rid \<and> (\<exists>dec w src. r = Inr ((dec, w), src) \<and>
        session_fits h env0 (e_history env @ map command_to_event (de_commands dec)) s)}"

lemma advance_leaves:
  assumes "session_fits h env0 (e_history env) s" and "same_draws env0 env" and "log_in_order (e_history env)"
    and "advance js enc th env (e_history env) s = (Inr (LiveDecided dec w), s')" and "de_outcome dec = Suspended"
  shows "(rid, s') \<in> fresh_session h env0 env rid (Inr ((dec, w), src))"
proof -
  from advance_fits [OF assms(1-4)] assms(5) have "session_of h env0 s'" "ls_history s' = e_history env"
    "list_all is_supported_event (e_history env)" "w_commands (ls_state s') = de_commands dec" by auto
  then show ?thesis using follows_own_commands [of "ls_state s'"] by (auto simp: fresh_session_def session_fits_def)
qed

lemma replay_from_scratch_sound:
  assumes env: "same_draws env0 env" and ok: "log_in_order (e_history env)"
    and run: "replay_from_scratch js enc th t rid name h env sd = (r, sd')" and gone: "\<And>s. (rid, s) \<notin> sessions sd"
  shows "map_sum id fst r = run_decision_loop js enc th env (replayed h [])"
    and "sessions sd' \<subseteq> {(x, s) \<in> sessions sd. x \<noteq> rid} \<union> fresh_session h env0 env rid r"
proof -
  let ?s = "create_live_session h"
  obtain a s' where adv: "advance js enc th env (e_history env) ?s = (a, s')" by fastforce
  note fits = session_fits_create [of h env0 "e_history env"]
  note f = advance_fits [OF fits env ok adv]
  have map_id: "map_sum id fst (map_sum id (\<lambda>d. (d, FromReplay)) x) = x" for x :: "thrown + decision \<times> (nat \<times> nat) option"
    by (cases x) simp_all
  have others: "sessions sd \<subseteq> {(x, s) \<in> sessions sd. x \<noteq> rid}" using gone by auto
  have "map_sum id fst r = run_decision_loop js enc th env (replayed h []) \<and>
      sessions sd' \<subseteq> {(x, s) \<in> sessions sd. x \<noteq> rid} \<union> fresh_session h env0 env rid r"
  proof (cases "name \<in> set (sd_uncacheable sd)")
    case True
    with run others show ?thesis by (auto simp: replay_from_scratch_def Let_def map_id)
  next
    case False
    show ?thesis
    proof (cases "\<exists>dec w. a = Inr (LiveDecided dec w)")
      case True
      then obtain dec w where a: "a = Inr (LiveDecided dec w)" by blast
      with run False adv have r: "r = Inr ((dec, w), FromReplay)"
        and sd': "sd' = (if de_outcome dec = Suspended then keep_session t rid s' (count_replay (length (e_history env)) sd)
            else count_replay (length (e_history env)) sd)"
        by (simp_all add: replay_from_scratch_def Let_def)
      have "sessions sd' \<subseteq> {(x, s) \<in> sessions sd. x \<noteq> rid} \<union> fresh_session h env0 env rid r"
      proof (cases "de_outcome dec = Suspended")
        case True
        from advance_leaves [OF fits env ok _ True, of js enc th w s' rid FromReplay] adv a
        have "(rid, s') \<in> fresh_session h env0 env rid r" by (simp add: r)
        moreover have "sessions sd' \<subseteq> insert (rid, s') {(x, s) \<in> sessions sd. x \<noteq> rid}"
          using sessions_keep [of t rid s' "count_replay (length (e_history env)) sd"] True sd' by simp
        ultimately show ?thesis by blast
      next
        case False
        then show ?thesis using others sd' by auto
      qed
      with f a r show ?thesis by simp
    next
      case other: False
      with run False adv f others show ?thesis
        by (cases a) (auto simp: replay_from_scratch_def Let_def map_id split: live_advance.splits)
    qed
  qed
  then show "map_sum id fst r = run_decision_loop js enc th env (replayed h [])"
    and "sessions sd' \<subseteq> {(x, s) \<in> sessions sd. x \<noteq> rid} \<union> fresh_session h env0 env rid r" by blast+
qed

lemma replay_or_drop_sound:
  assumes env: "same_draws env0 env" and ok: "log_in_order (e_history env)"
    and run: "replay_or_drop js enc th t rid name h env sd = (r, sd')" and gone: "\<And>s. (rid, s) \<notin> sessions sd"
  shows "map_sum id fst r = run_decision_loop js enc th env (replayed h [])"
    and "sessions sd' \<subseteq> {(x, s) \<in> sessions sd. x \<noteq> rid} \<union> fresh_session h env0 env rid r"
proof -
  obtain r1 sd1 where "replay_from_scratch js enc th t rid name h env sd = (r1, sd1)" by fastforce
  note f = replay_from_scratch_sound [OF env ok this gone]
  have "r = r1" "sessions sd' \<subseteq> sessions sd1"
    using run \<open>replay_from_scratch js enc th t rid name h env sd = (r1, sd1)\<close> by (auto simp: replay_or_drop_def split: sum.splits)
  with f show "map_sum id fst r = run_decision_loop js enc th env (replayed h [])"
    and "sessions sd' \<subseteq> {(x, s) \<in> sessions sd. x \<noteq> rid} \<union> fresh_session h env0 env rid r" by blast+
qed

lemma sticky_decide_sound:
  assumes env: "same_draws env0 env" and ok: "log_in_order (e_history env)"
    and fits: "\<And>s. (rid, s) \<in> sessions sd \<Longrightarrow> session_fits h env0 (e_history env) s"
    and run: "sticky_decide js enc th t0 t1 rid name h env sd = (r, sd')"
  shows "map_sum id fst r = run_decision_loop js enc th env (replayed h [])"
    and "sessions sd' \<subseteq> {(x, s) \<in> sessions sd. x \<noteq> rid} \<union> fresh_session h env0 env rid r"
proof -
  obtain cached c where get: "cache_get t0 rid (sd_cache sd) = (cached, c)" by fastforce
  define sd0 where "sd0 = sd\<lparr>sd_cache := c\<rparr>"
  note got = sessions_get [OF get, folded sd0_def]
  have "map_sum id fst r = run_decision_loop js enc th env (replayed h []) \<and>
      sessions sd' \<subseteq> {(x, s) \<in> sessions sd. x \<noteq> rid} \<union> fresh_session h env0 env rid r"
  proof (cases cached)
    case None
    with run get have miss: "replay_or_drop js enc th t1 rid name h env (sd0\<lparr>sd_misses := sd_misses sd0 + 1\<rparr>) = (r, sd')"
      by (simp add: sticky_decide_def sd0_def Let_def)
    from replay_or_drop_sound [OF env ok this] got(3) [OF None] got(1) show ?thesis by auto
  next
    case (Some s)
    note fit = fits [OF got(2) [OF Some]]
    obtain a s' where adv: "advance js enc th env (e_history env) s = (a, s')" by fastforce
    note f = advance_fits [OF fit env ok adv]
    show ?thesis
    proof (cases "\<exists>dec w. a = Inr (LiveDecided dec w)")
      case True
      then obtain dec w where a: "a = Inr (LiveDecided dec w)" by blast
      define sd1 where "sd1 = sd0\<lparr>sd_hits := sd_hits sd0 + 1,
         sd_incremental := sd_incremental sd0 + (length (e_history env) - length (ls_history s))\<rparr>"
      have r: "r = Inr ((dec, w), FromCache)"
        and sd': "sd' = (if de_outcome dec = Suspended then keep_session t1 rid s' sd1 else drop_session rid sd1)"
        using run get Some adv a by (auto simp: sticky_decide_def sd1_def sd0_def Let_def)
      have sub: "sessions sd1 \<subseteq> sessions sd" using got(1) by (simp add: sd1_def)
      have "sessions sd' \<subseteq> {(x, s) \<in> sessions sd. x \<noteq> rid} \<union> fresh_session h env0 env rid r"
      proof (cases "de_outcome dec = Suspended")
        case True
        from advance_leaves [OF fit env ok _ True, of js enc th w s' rid FromCache] adv a
        have "(rid, s') \<in> fresh_session h env0 env rid r" by (simp add: r)
        moreover have "sessions sd' \<subseteq> insert (rid, s') {(x, s) \<in> sessions sd1. x \<noteq> rid}"
          using sessions_keep [of t1 rid s' sd1] True sd' by simp
        ultimately show ?thesis using sub by blast
      next
        case False
        then show ?thesis using sub sd' by auto
      qed
      with f a r show ?thesis by simp
    next
      case other: False
      show ?thesis
      proof (cases a)
        case (Inl e)
        with run get Some adv f have "map_sum id fst r = run_decision_loop js enc th env (replayed h [])" "sd' = drop_session rid sd0"
          by (auto simp: sticky_decide_def sd0_def Let_def)
        with got(1) show ?thesis by auto
      next
        case (Inr x)
        define sd1 where "sd1 = drop_session rid (sd0\<lparr>sd_misses := sd_misses sd0 + 1, sd_invalidations := sd_invalidations sd0 + 1\<rparr>)"
        have "replay_or_drop js enc th t1 rid name h env sd1 = (r, sd')"
          using run get Some adv Inr other by (auto simp: sticky_decide_def sd1_def sd0_def Let_def split: live_advance.splits)
        from replay_or_drop_sound [OF env ok this] got(1) show ?thesis by (auto simp: sd1_def)
      qed
    qed
  qed
  then show "map_sum id fst r = run_decision_loop js enc th env (replayed h [])"
    and "sessions sd' \<subseteq> {(x, s) \<in> sessions sd. x \<noteq> rid} \<union> fresh_session h env0 env rid r" by blast+
qed

section \<open>A worker and its log\<close>

text \<open>
  One worker's decider over the logs of the runs. A log grows by what others record (outcomes, signals, the
  decisions of other workers), and by the worker's decision when it is recorded; a decision that is not
  recorded drops the session, as the worker's task handler does.
\<close>

record sticky_world =
  wo_logs :: "uuid \<Rightarrow> event list"
  wo_decider :: sticky_decider

record sticky_setting =
  wk_string :: "jsv \<Rightarrow> string"
  wk_enc :: "jsv \<Rightarrow> string"
  wk_threshold :: "nat option"
  wk_name :: "uuid \<Rightarrow> string"
  wk_code :: "uuid \<Rightarrow> live_handler"
  wk_env :: "uuid \<Rightarrow> replay_env"

definition decide_in :: "sticky_setting \<Rightarrow> time \<Rightarrow> time \<Rightarrow> uuid \<Rightarrow> replay_env \<Rightarrow> sticky_decider \<Rightarrow> (thrown + sticky_decision) \<times> sticky_decider" where
  "decide_in st t0 t1 rid env = sticky_decide (wk_string st) (wk_enc st) (wk_threshold st) t0 t1 rid (wk_name st rid) (wk_code st rid) env"

definition decides_for :: "sticky_setting \<Rightarrow> uuid \<Rightarrow> sticky_world \<Rightarrow> replay_env \<Rightarrow> bool" where
  "decides_for st rid w env \<longleftrightarrow> same_draws (wk_env st rid) env \<and> e_history env = wo_logs w rid"

inductive sticky_step :: "sticky_setting \<Rightarrow> sticky_world \<Rightarrow> sticky_world \<Rightarrow> bool" for st where
  grew: "log_in_order (wo_logs w rid @ es) \<Longrightarrow>
    sticky_step st w (w\<lparr>wo_logs := (wo_logs w)(rid := wo_logs w rid @ es)\<rparr>)"
| recorded: "decides_for st rid w env \<Longrightarrow> decide_in st t0 t1 rid env (wo_decider w) = (Inr ((dec, warning), src), sd) \<Longrightarrow>
    sticky_step st w \<lparr>wo_logs = (wo_logs w)(rid := wo_logs w rid @ map command_to_event (de_commands dec)), wo_decider = sd\<rparr>"
| not_recorded: "decides_for st rid w env \<Longrightarrow> decide_in st t0 t1 rid env (wo_decider w) = (Inr (d, src), sd) \<Longrightarrow>
    sticky_step st w (w\<lparr>wo_decider := invalidate rid sd\<rparr>)"
| threw: "decides_for st rid w env \<Longrightarrow> decide_in st t0 t1 rid env (wo_decider w) = (Inl e, sd) \<Longrightarrow>
    sticky_step st w (w\<lparr>wo_decider := sd\<rparr>)"
| invalidated: "sticky_step st w (w\<lparr>wo_decider := invalidate rid (wo_decider w)\<rparr>)"
| flushed: "sticky_step st w (w\<lparr>wo_decider := flush (wo_decider w)\<rparr>)"

definition world_fits :: "sticky_setting \<Rightarrow> sticky_world \<Rightarrow> bool" where
  "world_fits st w \<longleftrightarrow> (\<forall>rid. log_in_order (wo_logs w rid)) \<and>
     (\<forall>(rid, s) \<in> sessions (wo_decider w). session_fits (wk_code st rid) (wk_env st rid) (wo_logs w rid) s)"

lemma log_in_order_commands:
  assumes "log_in_order es"
  shows "log_in_order (es @ map command_to_event cs)"
proof -
  have "\<not> finishes sid (command_to_event c)" for sid c by (cases c) (simp_all add: finishes_def)
  then have "filter (finishes sid) (map command_to_event cs) = []" for sid by (simp add: filter_empty_conv)
  moreover have "outcome_has_command h (command_to_event c)" for h c by (cases c) (simp_all add: outcome_has_command_def)
  moreover have "outcome_has_command es e \<Longrightarrow> outcome_has_command (es @ xs) e" for e xs
    by (cases e) (auto simp: outcome_has_command_def shape_ids_def)
  ultimately show ?thesis using assms by (auto simp: log_in_order_def settled_once_def no_orphans_def list_all_iff)
qed

lemma world_fitsD:
  "world_fits st w \<Longrightarrow> log_in_order (wo_logs w rid)"
  "world_fits st w \<Longrightarrow> (rid, s) \<in> sessions (wo_decider w) \<Longrightarrow> session_fits (wk_code st rid) (wk_env st rid) (wo_logs w rid) s"
  by (auto simp: world_fits_def)

lemma world_fitsI:
  assumes "\<And>rid. log_in_order (wo_logs w rid)"
    and "\<And>rid s. (rid, s) \<in> sessions (wo_decider w) \<Longrightarrow> session_fits (wk_code st rid) (wk_env st rid) (wo_logs w rid) s"
  shows "world_fits st w"
  using assms by (auto simp: world_fits_def)

lemma decide_in_fits:
  assumes fits: "world_fits st w" and env: "decides_for st rid w env" and run: "decide_in st t0 t1 rid env (wo_decider w) = (r, sd)"
  shows "map_sum id fst r = run_decision_loop (wk_string st) (wk_enc st) (wk_threshold st) env (replayed (wk_code st rid) [])"
    and "sessions sd \<subseteq> {(x, s) \<in> sessions (wo_decider w). x \<noteq> rid} \<union> fresh_session (wk_code st rid) (wk_env st rid) env rid r"
proof -
  have e: "same_draws (wk_env st rid) env" "e_history env = wo_logs w rid" using env by (simp_all add: decides_for_def)
  note d = sticky_decide_sound [OF e(1) _ _ run [unfolded decide_in_def]]
  show "map_sum id fst r = run_decision_loop (wk_string st) (wk_enc st) (wk_threshold st) env (replayed (wk_code st rid) [])"
    by (rule d(1)) (use world_fitsD [OF fits] e(2) in auto)
  show "sessions sd \<subseteq> {(x, s) \<in> sessions (wo_decider w). x \<noteq> rid} \<union> fresh_session (wk_code st rid) (wk_env st rid) env rid r"
    by (rule d(2)) (use world_fitsD [OF fits] e(2) in auto)
qed

lemma sticky_step_fits:
  assumes "sticky_step st w w'" and fits: "world_fits st w"
  shows "world_fits st w'"
  using assms(1)
proof cases
  case (grew rid es)
  show ?thesis
    by (rule world_fitsI) (use grew world_fitsD [OF fits] in \<open>auto intro: session_fits_append\<close>)
next
  case (recorded rid env t0 t1 dec warning src sd)
  note d = decide_in_fits(2) [OF fits recorded(2,3)]
  have e: "e_history env = wo_logs w rid" using recorded(2) by (simp add: decides_for_def)
  show ?thesis
  proof (rule world_fitsI)
    fix x s assume "(x, s) \<in> sessions (wo_decider w')"
    then have "(x, s) \<in> sessions sd" by (simp add: recorded(1))
    then show "session_fits (wk_code st x) (wk_env st x) (wo_logs w' x) s"
      using d world_fitsD(2) [OF fits, of x s] by (auto simp: recorded(1) fresh_session_def e)
  qed (use world_fitsD(1) [OF fits] in \<open>simp add: recorded(1) log_in_order_commands\<close>)
next
  case (not_recorded rid env t0 t1 d src sd)
  note d = decide_in_fits(2) [OF fits not_recorded(2,3)]
  show ?thesis
    by (rule world_fitsI) (use d world_fitsD [OF fits] in \<open>auto simp: not_recorded(1) fresh_session_def\<close>)
next
  case (threw rid env t0 t1 e sd)
  note d = decide_in_fits(2) [OF fits threw(2,3)]
  show ?thesis
    by (rule world_fitsI) (use d world_fitsD [OF fits] in \<open>auto simp: threw(1) fresh_session_def\<close>)
next
  case (invalidated rid)
  show ?thesis by (rule world_fitsI) (use world_fitsD [OF fits] in \<open>auto simp: invalidated\<close>)
next
  case flushed
  show ?thesis by (rule world_fitsI) (use world_fitsD [OF fits] in \<open>auto simp: flushed\<close>)
qed

lemma sticky_steps_fit: "(sticky_step st)\<^sup>*\<^sup>* w w' \<Longrightarrow> world_fits st w \<Longrightarrow> world_fits st w'"
  by (induction rule: rtranclp_induct) (auto intro: sticky_step_fits)

text \<open>A worker that just came up.\<close>

definition fresh_world :: "(uuid \<Rightarrow> event list) \<Rightarrow> live_session run_cache \<Rightarrow> sticky_world" where
  "fresh_world logs c = \<lparr>wo_logs = logs, wo_decider = create_sticky_decider (cache_clear c)\<rparr>"

lemma fresh_world_fits: "\<forall>rid. log_in_order (logs rid) \<Longrightarrow> world_fits st (fresh_world logs c)"
  by (simp add: world_fits_def fresh_world_def sessions_def create_sticky_decider_def cache_clear_def)

lemma decisions_are_replays:
  assumes "(sticky_step st)\<^sup>*\<^sup>* (fresh_world logs c) w" and "\<forall>rid. log_in_order (logs rid)"
    and "decides_for st rid w env"
  shows "map_sum id fst (fst (decide_in st t0 t1 rid env (wo_decider w))) =
     run_decision_loop (wk_string st) (wk_enc st) (wk_threshold st) env (replayed (wk_code st rid) [])"
proof -
  obtain r sd where "decide_in st t0 t1 rid env (wo_decider w) = (r, sd)" by fastforce
  with decide_in_fits(1) [OF sticky_steps_fit [OF assms(1) fresh_world_fits [OF assms(2)]] assms(3) this] show ?thesis by simp
qed

end
