(* ===== verification/Checker.thy ===== *)
theory Checker
  imports Compaction Runs Timers
begin

text \<open>
  The invariant checker (\<open>packages/core/src/invariants/invariant-checker.ts\<close>): the engine's own test of its
  tables. It reads only. Rows of a query without an order come in the order of the table.
\<close>

section \<open>Reports\<close>

datatype invariant_name =
  RunTerminalOrAdvancing | TaskNotLost | StepResultWrittenOnce | ProjectionConsistent | TimerFiredOnce

record invariant_violation =
  iv_invariant :: invariant_name
  iv_run :: "uuid option"
  iv_task :: "uuid option"
  iv_detail :: string

record invariant_report =
  ir_runs :: nat
  ir_tasks :: nat
  ir_violations :: "invariant_violation list"

definition run_violation :: "invariant_name \<Rightarrow> string \<Rightarrow> uuid \<Rightarrow> invariant_violation" where
  "run_violation name detail rid = \<lparr>iv_invariant = name, iv_run = Some rid, iv_task = None, iv_detail = detail\<rparr>"

text \<open>\<open>$1 is null or id = any($1)\<close>.\<close>

definition in_scope :: "uuid list option \<Rightarrow> uuid \<Rightarrow> bool" where
  "in_scope ids rid = (case ids of None \<Rightarrow> True | Some xs \<Rightarrow> rid \<in> set xs)"

text \<open>The keys that occur more than once, each with its number.\<close>

definition repeated :: "'a list \<Rightarrow> ('a \<times> nat) list" where
  "repeated xs = filter (\<lambda>(x, n). 1 < n) (map (\<lambda>x. (x, count_list xs x)) (remdups xs))"

section \<open>Runs that cannot move\<close>

definition cannot_move :: "db \<Rightarrow> run_row \<Rightarrow> bool" where
  "cannot_move d r \<longleftrightarrow> r_status r = RUNNING \<and>
     \<not> list_ex (\<lambda>t. t_run t = r_id r \<and> t_state t \<in> {TPENDING, TLEASED, TQUARANTINED}) (d_tasks d) \<and>
     \<not> list_ex (\<lambda>m. tm_run m = r_id r \<and> tm_state m = TimerPending) (d_timers d) \<and>
     \<not> list_ex (\<lambda>l. dl_run l = r_id r \<and> dl_requeued_at l = None) (d_dead_letters d) \<and>
     \<not> list_ex (\<lambda>c. r_parent c = Some (r_id r) \<and> r_status c = RUNNING) (d_runs d)"

definition stalled_violations :: "uuid list option \<Rightarrow> db \<Rightarrow> invariant_violation list" where
  "stalled_violations ids d =
     map (\<lambda>r. run_violation RunTerminalOrAdvancing
           ''run is RUNNING but has no open task, pending timer, open dead letter or running child'' (r_id r))
       (sort_key r_id (filter (\<lambda>r. in_scope ids (r_id r) \<and> cannot_move d r) (d_runs d)))"

section \<open>Tasks\<close>

text \<open>The step an event reports on, and whether it settles it.\<close>

definition reported_step :: "event \<Rightarrow> string option" where
  "reported_step e =
     (case e of StepCompleted sid _ \<Rightarrow> Some sid | StepFailed sid _ _ \<Rightarrow> Some sid | StepAttemptFailed sid _ _ _ \<Rightarrow> Some sid
      | _ \<Rightarrow> None)"

definition settled_step :: "event \<Rightarrow> string option" where
  "settled_step e = (case e of StepCompleted sid _ \<Rightarrow> Some sid | StepFailed sid _ _ \<Rightarrow> Some sid | _ \<Rightarrow> None)"

definition unrecorded_step :: "db \<Rightarrow> task_row \<Rightarrow> string option" where
  "unrecorded_step d t =
     (case (find_run d (t_run t), payload_text (t_payload t) ''stepId'') of
        (Some r, Some sid) \<Rightarrow>
          if t_type t = STEP_TASK \<and> t_state t = TCOMPLETED \<and> r_status r \<in> {RUNNING, COMPLETED} \<and>
             find_snapshot d (t_run t) = None \<and>
             \<not> list_ex (\<lambda>se. reported_step (stored se) = Some sid) (run_events d (t_run t)) \<and>
             \<not> list_ex (\<lambda>l. dl_run l = t_run t \<and> dl_step l = sid) (d_dead_letters d)
          then Some sid else None
      | _ \<Rightarrow> None)"

definition lost_tasks :: "uuid list option \<Rightarrow> uuid list \<Rightarrow> db \<Rightarrow> invariant_violation list \<times> nat" where
  "lost_tasks ids expected d =
     (let unleased = map (\<lambda>t. \<lparr>iv_invariant = TaskNotLost, iv_run = Some (t_run t), iv_task = Some (t_id t),
              iv_detail = ''task is LEASED without a lease token''\<rparr>)
            (filter (\<lambda>t. t_state t = TLEASED \<and> t_lease_token t = None \<and> in_scope ids (t_run t)) (d_tasks d));
          unrecorded = List.map_filter (\<lambda>t. map_option (\<lambda>sid. \<lparr>iv_invariant = TaskNotLost, iv_run = Some (t_run t), iv_task = Some (t_id t),
              iv_detail = ''step task for '' @ quoted sid @ '' was acked but the step has no outcome, failed attempt or dead letter''\<rparr>)
              (if in_scope ids (t_run t) then unrecorded_step d t else None)) (d_tasks d);
          present = filter (\<lambda>tid. find_task d tid \<noteq> None) expected;
          missing = map (\<lambda>tid. \<lparr>iv_invariant = TaskNotLost, iv_run = None, iv_task = Some tid, iv_detail = ''task no longer exists''\<rparr>)
            (filter (\<lambda>tid. find_task d tid = None) expected)
      in (unleased @ unrecorded @ missing, length (remdups present)))"

section \<open>Steps and timers\<close>

definition settled_keys :: "(event \<Rightarrow> string option) \<Rightarrow> uuid list option \<Rightarrow> db \<Rightarrow> (uuid \<times> string) list" where
  "settled_keys key ids d =
     List.map_filter (\<lambda>e. if in_scope ids (er_run e) then map_option (Pair (er_run e)) (key (stored (er_event e))) else None) (d_events d)"

definition duplicate_steps :: "uuid list option \<Rightarrow> db \<Rightarrow> invariant_violation list" where
  "duplicate_steps ids d =
     map (\<lambda>((rid, sid), n). run_violation StepResultWrittenOnce (''step '' @ quoted sid @ '' has '' @ show_nat n @ '' terminal events'') rid)
       (repeated (settled_keys settled_step ids d)) @
     map (\<lambda>((rid, sid), n). run_violation StepResultWrittenOnce (''step '' @ quoted sid @ '' has '' @ show_nat n @ '' stored results'') rid)
       (repeated (map (\<lambda>s. (sr_run s, sr_step s)) (filter (\<lambda>s. in_scope ids (sr_run s)) (d_step_results d)))) @
     map (\<lambda>(rid, sid). run_violation StepResultWrittenOnce (''step '' @ quoted sid @ '' has a stored result but no terminal event'') rid)
       (remdups (map (\<lambda>s. (sr_run s, sr_step s)) (filter (\<lambda>s. in_scope ids (sr_run s) \<and> find_snapshot d (sr_run s) = None \<and>
          \<not> list_ex (\<lambda>se. settled_step (stored se) = Some (sr_step s)) (run_events d (sr_run s))) (d_step_results d))))"

definition fired_timer_of :: "event \<Rightarrow> string option" where
  "fired_timer_of e = (case e of TimerFired tid \<Rightarrow> Some tid | _ \<Rightarrow> None)"

definition unannounced_timer :: "db \<Rightarrow> timer_row \<Rightarrow> bool" where
  "unannounced_timer d t \<longleftrightarrow> tm_state t = TimerDone \<and> find_snapshot d (tm_run t) = None \<and>
     \<not> list_ex (\<lambda>se. fired_timer_of (stored se) = Some (tm_timer t)) (run_events d (tm_run t))"

definition early_timer :: "timer_row \<Rightarrow> bool" where
  "early_timer t \<longleftrightarrow> tm_state t = TimerDone \<and> (case tm_fired_at t of None \<Rightarrow> False | Some fired \<Rightarrow> fired < tm_fire_at t)"

definition timer_violations :: "uuid list option \<Rightarrow> db \<Rightarrow> invariant_violation list" where
  "timer_violations ids d =
     map (\<lambda>((rid, tid), n). run_violation TimerFiredOnce (''timer '' @ quoted tid @ '' has '' @ show_nat n @ '' timer_fired events'') rid)
       (repeated (settled_keys fired_timer_of ids d)) @
     map (\<lambda>t. run_violation TimerFiredOnce (''timer '' @ quoted (tm_timer t) @ '' is marked fired but has no timer_fired event'') (tm_run t))
       (filter (\<lambda>t. in_scope ids (tm_run t) \<and> unannounced_timer d t) (d_timers d)) @
     map (\<lambda>t. run_violation TimerFiredOnce (''timer '' @ quoted (tm_timer t) @ '' fired before it was due'') (tm_run t))
       (filter (\<lambda>t. in_scope ids (tm_run t) \<and> early_timer t) (d_timers d))"

section \<open>Projections\<close>

fun deep_equal_error :: "recorded_error \<Rightarrow> recorded_error \<Rightarrow> bool" where
  "deep_equal_error (RecordedError n m x None) (RecordedError n' m' x' c') \<longleftrightarrow> n = n' \<and> m = m' \<and> deep_equal x x' \<and> c' = None"
| "deep_equal_error (RecordedError n m x (Some c)) (RecordedError n' m' x' None) \<longleftrightarrow> False"
| "deep_equal_error (RecordedError n m x (Some c)) (RecordedError n' m' x' (Some c')) \<longleftrightarrow>
     n = n' \<and> m = m' \<and> deep_equal x x' \<and> deep_equal_error c c'"

definition same_error :: "recorded_error option \<Rightarrow> recorded_error option \<Rightarrow> bool" where
  "same_error a b = (case a of None \<Rightarrow> b = None | Some x \<Rightarrow> (case b of None \<Rightarrow> False | Some y \<Rightarrow> deep_equal_error x y))"

definition describe_projection_difference :: "run_row \<Rightarrow> run_projection \<Rightarrow> string option" where
  "describe_projection_difference r p =
     (let upto_row = '' the log up to '' @ show_nat (r_last_seq r) in
      if r_status r \<noteq> p_state p
      then Some (''row status '' @ state_name (r_status r) @ '' but'' @ upto_row @ '' gives '' @ state_name (p_state p))
      else if \<not> deep_equal (r_result r) (p_result p) then Some (''row result differs from'' @ upto_row)
      else if \<not> same_error (r_error r) (p_error p) then Some (''row error differs from'' @ upto_row)
      else if 0 < r_last_seq r \<and> \<not> deep_equal (r_input r) (p_input p) then Some (''row input differs from'' @ upto_row)
      else if (r_closed_at r = None) \<noteq> (p_closed_at p = None)
      then Some (''row closed_at is '' @ (if r_closed_at r = None then ''empty'' else ''set'') @ '' but the log says '' @
             (if p_closed_at p = None then ''open'' else ''closed''))
      else None)"

text \<open>The message of what a fold throws.\<close>

definition fold_error_message :: "engine_error \<Rightarrow> string" where
  "fold_error_message e =
     (case e of
        SequenceGapError expected got \<Rightarrow> ''event sequence gap: expected '' @ show_nat expected @ '', got '' @ show_nat got
      | InvalidTransitionError s attempted \<Rightarrow>
          ''invalid run transition: cannot apply '' @ quoted attempted @ '' to a run in state '' @ s
      | _ \<Rightarrow> [])"

definition check_projection :: "db \<Rightarrow> run_row \<Rightarrow> string list" where
  "check_projection d r =
     (let base = (case find_snapshot d (r_id r) of None \<Rightarrow> create_initial_projection | Some s \<Rightarrow> sn_projection s);
          events = store_read d (r_id r) (p_last_seq base) None;
          log_end = (if events = [] then p_last_seq base else sequence_number (last events)) in
      if log_end < r_last_seq r
      then [''row is at sequence '' @ show_nat (r_last_seq r) @ '' but the log ends at '' @ show_nat log_end]
      else if r_last_seq r < p_last_seq base
      then [''row is at sequence '' @ show_nat (r_last_seq r) @ '', before its snapshot at '' @ show_nat (p_last_seq base)]
      else
        (case fold_run_events (filter (\<lambda>se. sequence_number se \<le> r_last_seq r) events) base of
           Inl e \<Rightarrow> [''the log is not a valid history: '' @ fold_error_message e]
         | Inr up_to_row \<Rightarrow>
             (case describe_projection_difference r up_to_row of None \<Rightarrow> [] | Some diff \<Rightarrow> [diff]) @
             (case fold_run_events events base of
                Inl e \<Rightarrow> [''the log is not a valid history: '' @ fold_error_message e]
              | Inr full \<Rightarrow>
                  if is_terminal_state (p_state full) \<and> \<not> is_terminal_state (p_state up_to_row)
                  then [''the log closed the run as '' @ state_name (p_state full) @ '' but the row is still '' @
                        state_name (p_state up_to_row)]
                  else [])))"

definition inconsistent_projections :: "uuid list option \<Rightarrow> db \<Rightarrow> invariant_violation list \<times> nat" where
  "inconsistent_projections ids d =
     (let runs = sort_key r_id (filter (\<lambda>r. in_scope ids (r_id r)) (d_runs d))
      in (concat (map (\<lambda>r. map (\<lambda>detail. run_violation ProjectionConsistent detail (r_id r)) (check_projection d r)) runs),
          length runs))"

definition check_invariants :: "uuid list option \<Rightarrow> uuid list option \<Rightarrow> db \<Rightarrow> invariant_report" where
  "check_invariants ids expected d =
     (let (lost, tasks) = lost_tasks ids (optional expected []) d;
          (projections, runs) = inconsistent_projections ids d
      in \<lparr>ir_runs = runs, ir_tasks = tasks,
          ir_violations = stalled_violations ids d @ lost @ duplicate_steps ids d @ projections @ timer_violations ids d\<rparr>)"

section \<open>What the projection check decides\<close>

lemma deep_equal_refl [simp]: "deep_equal v v"
  by (simp add: deep_equal_def)

lemma deep_equal_error_refl [simp]: "deep_equal_error e e"
  by (induction e rule: measure_induct_rule [of size]) (case_tac x, case_tac "re_cause x", auto)

lemma same_error_refl [simp]: "same_error e e"
  by (simp add: same_error_def split: option.split)

lemma no_difference: "describe_projection_difference r (projection_from_row r) = None"
  by (simp add: describe_projection_difference_def projection_from_row_def Let_def)

lemma consecutive_take:
  "consecutive_from n ses \<Longrightarrow> n \<le> k \<Longrightarrow> filter (\<lambda>se. sequence_number se \<le> k) ses = take (k - n) ses"
proof (induction ses arbitrary: n)
  case (Cons se ses)
  show ?case
  proof (cases "n = k")
    case True
    have "k < sequence_number x" if "x \<in> set (se # ses)" for x
      using consecutive_from_bounds [OF Cons.prems(1) that] True by simp
    then show ?thesis using True by (auto simp: filter_empty_conv not_le)
  next
    case False
    with Cons.prems have "Suc n \<le> k" "k - n = Suc (k - Suc n)" by simp_all
    with Cons show ?thesis by simp
  qed
qed simp

lemma fold_run_events_open:
  "fold_run_events ses p = Inr q \<Longrightarrow> p_state p = RUNNING \<Longrightarrow> \<forall>se \<in> set ses. \<not> is_closing_event (stored se) \<Longrightarrow>
     p_state q = RUNNING"
proof (induction ses arbitrary: p)
  case (Cons se ses)
  then obtain p' where p': "apply_event_to_projection p se = Inr p'" "fold_run_events ses p' = Inr q"
    by (auto split: sum.splits)
  with Cons.prems(3) have "p_state p' = RUNNING" using apply_event_Inr(4) [OF p'(1)] by (auto simp: closing_event_iff)
  with Cons.IH p'(2) Cons.prems(3) show ?case by simp
qed simp

text \<open>
  On tables in order the check of a run is silent exactly when the whole history folds: the
  row then equals the fold up to it, and is closed when the log is.
\<close>

lemma check_projection_silent:
  assumes ok: "runs_ok d" and r: "find_run d (r_id r) = Some r"
  shows "check_projection d r = [] \<longleftrightarrow> (\<exists>q. fold_run_events (run_events d (r_id r)) (projection_start d (r_id r)) = Inr q)"
proof -
  let ?h = "run_events d (r_id r)" and ?base = "projection_start d (r_id r)" and ?k = "r_last_seq r - snapshot_seq d (r_id r)"
  have log: "log_ok d" and row: "row_ok d r" using ok r by (auto simp: runs_ok_def)
  have start: "(case find_snapshot d (r_id r) of None \<Rightarrow> create_initial_projection | Some s \<Rightarrow> sn_projection s) = ?base"
    by (simp add: projection_start_def)
  have base: "p_last_seq ?base = snapshot_seq d (r_id r)" using row by (simp add: row_ok_def row_synced_def Let_def)
  have events: "store_read d (r_id r) (snapshot_seq d (r_id r)) None = ?h"
    using read_events_ok [OF log, of "r_id r" "snapshot_seq d (r_id r)"] by (simp add: store_read_def)
  have consec: "consecutive_from (snapshot_seq d (r_id r)) ?h" using log by (simp add: log_ok_def)
  have bound: "snapshot_seq d (r_id r) \<le> r_last_seq r" "r_last_seq r \<le> snapshot_seq d (r_id r) + length ?h"
    using row_synced_bound [of d r] row by (simp_all add: row_ok_def)
  have log_end: "(if ?h = [] then snapshot_seq d (r_id r) else sequence_number (last ?h)) = snapshot_seq d (r_id r) + length ?h"
    using consecutive_last [OF consec] by simp
  have cut: "filter (\<lambda>se. sequence_number se \<le> r_last_seq r) ?h = take ?k ?h" by (rule consecutive_take [OF consec bound(1)])
  obtain p where p: "fold_run_events (take ?k ?h) ?base = Inr p" "describe_projection_difference r p = None" "p_state p = r_status r"
  proof -
    from row base consider "fold_run_events (take ?k ?h) ?base = Inr (projection_from_row r)"
      | "r_last_seq r = 0" "projection_from_row r = create_initial_projection\<lparr>p_input := r_input r\<rparr>" "?base = create_initial_projection"
      by (auto simp: row_ok_def row_synced_def Let_def)
    then show thesis
    proof cases
      case 1
      with that no_difference show thesis by (simp add: projection_from_row_def)
    next
      case 2
      then have "describe_projection_difference r create_initial_projection = None" "r_status r = RUNNING"
        by (auto simp: describe_projection_difference_def projection_from_row_def create_initial_projection_def Let_def)
      with that [of create_initial_projection] 2 show thesis by (simp add: create_initial_projection_def)
    qed
  qed
  have open_row: "p_state q = RUNNING" if "fold_run_events ?h ?base = Inr q" "p_state p = RUNNING" for q
  proof -
    have h: "?h = take ?k ?h @ drop ?k ?h" by simp
    from that(1) p(1) have q: "fold_run_events (drop ?k ?h) p = Inr q"
      by (subst (asm) h) (simp only: fold_run_events_append sum.case)
    have "\<forall>se \<in> set (drop ?k ?h). \<not> is_closing_event (stored se)"
      using row that(2) p(3) by (auto simp: row_ok_def dest: in_set_dropD)
    with q that(2) show ?thesis using fold_run_events_open by blast
  qed
  show ?thesis
    unfolding check_projection_def Let_def start base events log_end cut
    using p open_row bound by (auto split: sum.splits)
qed

lemma projections_silent:
  assumes "runs_ok d"
  shows "fst (inconsistent_projections ids d) = [] \<longleftrightarrow>
     (\<forall>r \<in> set (d_runs d). in_scope ids (r_id r) \<longrightarrow>
        (\<exists>q. fold_run_events (run_events d (r_id r)) (projection_start d (r_id r)) = Inr q))"
proof -
  have "find_run d (r_id r) = Some r" if "r \<in> set (d_runs d)" for r
    using find_run_in that assms by (auto simp: runs_ok_def)
  then show ?thesis
    using check_projection_silent [OF assms] by (auto simp: inconsistent_projections_def Let_def)
qed

text \<open>Compaction does not change the verdict.\<close>

lemma compaction_keeps_verdict:
  assumes ok: "runs_ok d" and run: "compact_run tail rid d = Inr (res, d')"
  shows "fst (inconsistent_projections ids d') = [] \<longleftrightarrow> fst (inconsistent_projections ids d) = []"
proof -
  note c = compact_run_ok [OF ok run]
  have "fold_run_events (run_events d' x) (projection_start d' x) = fold_run_events (run_events d x) (projection_start d x)" for x
    using c by (cases "x = rid") (auto simp: projection_start_def)
  moreover have "runs_ok d'" "d_runs d' = d_runs d" using c by blast+
  ultimately show ?thesis using projections_silent [OF ok] projections_silent [of d'] by simp
qed

text \<open>A queue in order has no leased task without a token.\<close>

lemma no_unleased:
  assumes "queue_ok th d"
  shows "filter (\<lambda>t. t_state t = TLEASED \<and> t_lease_token t = None \<and> in_scope ids (t_run t)) (d_tasks d) = []"
  using assms by (auto simp: filter_empty_conv queue_ok_def task_ok_def)

section \<open>Timeouts\<close>

text \<open>
  A run that its timeout closed has a fired timer and no event \<open>timer_fired\<close> for it: what closes the
  run is the event \<open>run_timed_out\<close>. The check of the timers reports it.
\<close>

lemma set_timer_row:
  "t \<in> set (d_timers d) \<Longrightarrow> t\<lparr>tm_state := st, tm_fired_at := Some reading\<rparr> \<in> set (d_timers (set_timer (tm_id t) st reading d))"
  by (auto simp: set_timer_def)

lemma timeout_reported:
  assumes ok: "engine_ok d" and t: "next_due_timer q reading d = Some t" "is_timeout_timer_id (tm_timer t)"
    and r: "find_run d (tm_run t) = Some r" "r_status r = RUNNING" and sn: "find_snapshot d (tm_run t) = None"
    and quiet: "\<forall>se \<in> set (run_events d (tm_run t)). stored se \<noteq> TimerFired (tm_timer t)"
  shows "\<exists>f d'. fire_next q now reading d = Inr (Fired f, d') \<and> engine_ok d' \<and>
     run_violation TimerFiredOnce (''timer '' @ quoted (tm_timer t) @ '' is marked fired but has no timer_fired event'') (tm_run t)
       \<in> set (ir_violations (check_invariants None None d'))"
proof -
  from time_out_run_ok [OF ok r] obtain se d1 where d1: "time_out_run_on_client now (tm_run t) (tm_timer t) d = Inr (True, d1)"
    "engine_ok d1" "extends d d1" "run_events d1 (tm_run t) = run_events d (tm_run t) @ [se]"
    "stored se = RunTimedOut (Some (if tm_timer t = EXECUTION_TIMEOUT_TIMER_ID then ExecutionTimeout else RunTimeout))"
    by blast
  let ?d = "set_timer (tm_id t) TimerDone reading d1" and ?u = "t\<lparr>tm_state := TimerDone, tm_fired_at := Some reading\<rparr>"
  have fire: "fire_next q now reading d = Inr (Fired (fired_record t reading None), ?d)"
    using t d1(1) by (simp add: fire_next_def)
  have "t \<in> set (d_timers d1)" using next_due_timer_Some(1) [OF t(1)] time_out_run_timers [OF d1(1)] by simp
  from set_timer_row [OF this] have u: "?u \<in> set (d_timers ?d)" .
  have "find_snapshot d1 (tm_run t) = None" using d1(3) sn by (simp add: extends_def find_snapshot_def)
  moreover have "find_snapshot ?d x = find_snapshot d1 x" "run_events ?d x = run_events d1 x" for x
    by (simp_all add: find_snapshot_def run_events_def)
  ultimately have "unannounced_timer ?d ?u"
    using d1(4,5) quiet by (auto simp: unannounced_timer_def fired_timer_of_def list_ex_iff split: event.splits)
  with u have "run_violation TimerFiredOnce (''timer '' @ quoted (tm_timer t) @ '' is marked fired but has no timer_fired event'') (tm_run t)
       \<in> set (timer_violations None ?d)"
    unfolding timer_violations_def set_append set_map by (intro UnI2 UnI1 image_eqI [of _ _ ?u]) (simp_all add: in_scope_def)
  then show ?thesis using fire engine_ok_set_timer [OF d1(2)]
    by (auto simp: check_invariants_def Let_def split: prod.splits)
qed

end
