(* ===== verification/LogMachine.thy ===== *)
theory LogMachine
  imports Engine
begin

text \<open>
  What the engine promises about runs, as a machine of its own: a run is a log that grows until an event
  closes it and never changes again. Every transaction of the engine is a step of this machine under the
  abstraction \<open>abs_runs\<close>, whatever tables it touches besides.
\<close>

section \<open>The abstract machine\<close>

datatype abs_run = Open "event list" | Closed run_state "event list"

inductive abs_run_step :: "abs_run \<Rightarrow> abs_run \<Rightarrow> bool" where
  grows: "\<forall>e \<in> set tail. terminal_state_for e = None \<Longrightarrow> abs_run_step (Open h) (Open (h @ tail))"
| closes: "e \<in> set tail \<Longrightarrow> terminal_state_for e = Some s \<Longrightarrow> abs_run_step (Open h) (Closed s (h @ tail))"
| rests: "abs_run_step (Closed s h) (Closed s h)"

text \<open>One transaction: every run there is makes a step, and runs appear.\<close>

definition log_step :: "(uuid \<Rightarrow> abs_run option) \<Rightarrow> (uuid \<Rightarrow> abs_run option) \<Rightarrow> bool" where
  "log_step m m' \<longleftrightarrow> (\<forall>x a. m x = Some a \<longrightarrow> (\<exists>b. m' x = Some b \<and> abs_run_step a b))"

inductive_cases abs_step_closedE: "abs_run_step (Closed s h) b"
inductive_cases abs_step_openE: "abs_run_step (Open h) b"
inductive_simps abs_step_closed_iff: "abs_run_step (Closed s h) b"

definition abs_history :: "abs_run \<Rightarrow> event list" where
  "abs_history a = (case a of Open h \<Rightarrow> h | Closed _ h \<Rightarrow> h)"

lemma abs_run_step_extends: "abs_run_step a b \<Longrightarrow> \<exists>tail. abs_history b = abs_history a @ tail"
  by (induction rule: abs_run_step.induct) (simp_all add: abs_history_def)

lemma log_steps_closed:
  "log_step\<^sup>*\<^sup>* m m' \<Longrightarrow> m x = Some (Closed s h) \<Longrightarrow> m' x = Some (Closed s h)"
proof (induction rule: rtranclp_induct)
  case (step m1 m2)
  then obtain b where "m2 x = Some b" "abs_run_step (Closed s h) b" unfolding log_step_def by meson
  then show ?case by (simp add: abs_step_closed_iff)
qed simp

lemma log_steps_extend:
  "log_step\<^sup>*\<^sup>* m m' \<Longrightarrow> m x = Some a \<Longrightarrow> \<exists>b tail. m' x = Some b \<and> abs_history b = abs_history a @ tail"
proof (induction rule: rtranclp_induct)
  case (step m1 m2)
  then obtain b tail where b: "m1 x = Some b" "abs_history b = abs_history a @ tail" by blast
  with step(2) obtain c where "m2 x = Some c" "abs_run_step b c" by (auto simp: log_step_def)
  with b abs_run_step_extends show ?case by fastforce
qed simp

section \<open>The engine is such a machine\<close>

definition abs_run_of :: "db \<Rightarrow> run_row \<Rightarrow> abs_run" where
  "abs_run_of d r =
     (let h = map stored (run_events d (r_id r)) in if r_status r = RUNNING then Open h else Closed (r_status r) h)"

definition abs_runs :: "db \<Rightarrow> uuid \<Rightarrow> abs_run option" where
  "abs_runs d x = map_option (abs_run_of d) (find_run d x)"

lemma fold_closed_event:
  "fold_run_events ses p = Inr q \<Longrightarrow> p_state p = RUNNING \<Longrightarrow> p_state q \<noteq> RUNNING \<Longrightarrow>
     \<exists>se \<in> set ses. terminal_state_for (stored se) = Some (p_state q)"
proof (induction ses arbitrary: p)
  case (Cons se ses)
  then obtain p' where p': "apply_event_to_projection p se = Inr p'" "fold_run_events ses p' = Inr q"
    by (auto split: sum.splits)
  show ?case
  proof (cases "p_state p' = RUNNING")
    case True
    with Cons p'(2) show ?thesis by auto
  next
    case False
    then have "ses = []" using p'(2) apply_event_Inr(1) by (cases ses) (auto split: sum.splits)
    then show ?thesis using p' False apply_event_Inr(4) [OF p'(1)] by (auto split: option.splits)
  qed
qed simp

lemma fold_from_running: "fold_run_events ses p = Inr q \<Longrightarrow> p_state q = RUNNING \<Longrightarrow> p_state p = RUNNING"
  using apply_event_Inr(1) by (cases ses) (auto split: sum.splits)

text \<open>An open run starts its fold open; a closed one whose fold starts open has its closing event.\<close>

lemma open_start:
  assumes "row_synced d r" and "r_status r = RUNNING"
  shows "p_state (projection_start d (r_id r)) = RUNNING"
  using assms fold_from_running
  by (fastforce simp: row_synced_def Let_def projection_from_row_def create_initial_projection_def)

lemma closing_event_found:
  assumes "row_synced d r" and "r_status r \<noteq> RUNNING" and "p_state (projection_start d (r_id r)) = RUNNING"
  shows "\<exists>se \<in> set (run_events d (r_id r)). terminal_state_for (stored se) = Some (r_status r)"
proof -
  let ?k = "r_last_seq r - p_last_seq (projection_start d (r_id r))"
  have "projection_from_row r \<noteq> create_initial_projection\<lparr>p_input := r_input r\<rparr>"
    using assms(2) by (auto simp: projection_from_row_def create_initial_projection_def)
  then have "fold_run_events (take ?k (run_events d (r_id r))) (projection_start d (r_id r)) = Inr (projection_from_row r)"
    using assms(1) by (auto simp: row_synced_def Let_def)
  from fold_closed_event [OF this assms(3)] assms(2) show ?thesis
    by (auto simp: projection_from_row_def dest: in_set_takeD)
qed

lemma engine_refines_log:
  assumes st: "engine_step d d'" and ok: "engine_ok d"
  shows "log_step (abs_runs d) (abs_runs d')"
proof -
  have ok': "engine_ok d'" and ext: "extends d d'" using engine_step_ok [OF st ok] by auto
  have "\<exists>b. abs_runs d' x = Some b \<and> abs_run_step (abs_run_of d r) b" if r: "find_run d x = Some r" for x r
  proof -
    have id: "r_id r = x" using find_run_Some [OF r] by simp
    from ext r obtain r' where r': "find_run d' x = Some r'"
      "r_status r \<noteq> RUNNING \<longrightarrow> projection_from_row r' = projection_from_row r"
      unfolding extends_def by meson
    have id': "r_id r' = x" using find_run_Some [OF r'(1)] by simp
    have rows: "row_ok d r" "row_ok d' r'" using ok ok' r r'(1) by (auto simp: engine_ok_def runs_ok_def)
    have abs': "abs_runs d' x = Some (abs_run_of d' r')" using r'(1) by (simp add: abs_runs_def)
    show ?thesis
    proof (cases "r_status r = RUNNING")
      case False
      then have "run_events d' x = run_events d x" using extends_frozen [OF ext r] by blast
      moreover have "r_status r' = r_status r" using r'(2) False by (simp add: projection_from_row_def)
      ultimately show ?thesis using abs' False id id' by (auto simp: abs_run_of_def Let_def intro: rests)
    next
      case True
      obtain tail where tail: "run_events d' x = run_events d x @ tail" using ext unfolding extends_def by meson
      show ?thesis
      proof (cases "r_status r' = RUNNING")
        case open_run: True
        then have "\<forall>e \<in> set (map stored tail). terminal_state_for e = None"
          using rows(2) tail id' by (auto simp: row_ok_def closing_event_iff)
        from grows [OF this] show ?thesis using abs' True open_run tail id id' by (auto simp: abs_run_of_def Let_def)
      next
        case closed: False
        have start: "projection_start d' x = projection_start d x"
          using ext by (simp add: extends_def projection_start_def find_snapshot_def)
        with open_start [of d r] rows(1) True id have "p_state (projection_start d' x) = RUNNING" by (simp add: row_ok_def)
        then obtain se where se: "se \<in> set (run_events d' x)" "terminal_state_for (stored se) = Some (r_status r')"
          using closing_event_found [of d' r'] rows(2) closed id' by (auto simp: row_ok_def)
        moreover have "se \<notin> set (run_events d x)"
          using rows(1) True id se(2) by (auto simp: row_ok_def closing_event_iff)
        ultimately have "stored se \<in> set (map stored tail)" using tail by auto
        from closes [OF this se(2)] show ?thesis using abs' True closed tail id id' by (auto simp: abs_run_of_def Let_def)
      qed
    qed
  qed
  then show ?thesis by (auto simp: log_step_def abs_runs_def)
qed

lemma engine_steps_refine:
  assumes "engine_step\<^sup>*\<^sup>* d d'" and "engine_ok d"
  shows "log_step\<^sup>*\<^sup>* (abs_runs d) (abs_runs d')"
  using assms
proof (induction rule: rtranclp_induct)
  case (step d1 d2)
  then have "engine_ok d1" using engine_steps_ok by blast
  with step engine_refines_log show ?case by (meson rtranclp.rtrancl_into_rtrancl)
qed simp

end
