(* ===== verification/OperationsExamples.thy ===== *)
theory OperationsExamples
  imports Examples Compaction Janitor Quotas StickyDecider Checker LogMachine
begin

text \<open>
  Concrete states for the operations around the engine: a run whose task an operator removed, the
  queue after a lease ran out, a claimed run, a run whose timeout is due, and a worker that keeps a session.
\<close>

section \<open>A run nothing moves\<close>

definition quiet_input :: start_run_input where
  "quiet_input = order_input\<lparr>si_run_timeout_ms := None\<rparr>"

definition quiet_db :: db where
  "quiet_db = (case start_run None 1000 1000 ''main'' 7 quiet_input empty_db of Inr (_, d) \<Rightarrow> d | Inl _ \<Rightarrow> empty_db)"

lemma quiet_db_ok [simp]: "engine_ok quiet_db"
proof -
  have free: "find_by_key empty_db 7 quiet_input = Inr None"
    by (simp add: find_by_key_def quiet_input_def order_input_def empty_db_def)
  have t: "valid_timeout (si_run_timeout_ms quiet_input)" "valid_timeout (si_execution_timeout_ms quiet_input)"
    by (simp_all add: quiet_input_def order_input_def valid_timeout_def)
  from start_run_new [OF engine_ok_base [OF engine_ok_empty] _ free t, of None 1000 1000 "''main''"]
  obtain n d where "start_run None 1000 1000 ''main'' 7 quiet_input empty_db = Inr (n, d)" by auto
  then have "engine_step empty_db d" "quiet_db = d" by (auto simp: quiet_db_def intro: engine_step.started)
  then show ?thesis using engine_step_ok engine_ok_empty by blast
qed

definition stuck_db :: db where
  "stuck_db = quiet_db\<lparr>d_tasks := []\<rparr>"

lemma stuck_db_ok [simp]: "engine_ok stuck_db"
proof -
  have tables: "d_runs stuck_db = d_runs quiet_db" "d_events stuck_db = d_events quiet_db"
    "d_snapshots stuck_db = d_snapshots quiet_db" "d_next stuck_db = d_next quiet_db"
    by (simp_all add: stuck_db_def)
  with quiet_db_ok have "runs_ok stuck_db" "timeouts_ok stuck_db" "fresh_ok stuck_db"
    using runs_ok_same_runs [of quiet_db stuck_db]
    by (simp_all add: engine_ok_def timeouts_ok_def fresh_ok_def run_events_def find_run_def find_snapshot_def del: quiet_db_ok)
  then show ?thesis by (simp add: engine_ok_def)
qed

lemma stuck_recovered:
  "\<exists>d. recover_stalled_runs True 9000 9000 5000 ''main'' stuck_db =
     Inr ([\<lparr>sl_run = 0, sl_namespace = 7, sl_workflow_type = ''order''\<rparr>], d)"
proof -
  have "map_sum id fst (recover_stalled_runs True 9000 9000 5000 ''main'' stuck_db) =
      Inr [\<lparr>sl_run = 0, sl_namespace = 7, sl_workflow_type = ''order''\<rparr>]" by code_simp
  then show ?thesis by (cases "recover_stalled_runs True 9000 9000 5000 ''main'' stuck_db") auto
qed

section \<open>A lease that ran out\<close>

definition order_leased_row :: task_row where
  "order_leased_row = the (find_task leased_db 2)"

lemma order_leased_row_facts:
  "find_task leased_db 2 = Some order_leased_row" "expired_lease 40000 order_leased_row" "t_lease_token order_leased_row = Some 3"
    apply code_simp
   apply code_simp
  apply code_simp
  done

section \<open>A claimed run\<close>

definition claimed_db :: db where
  "claimed_db = (case claim_run 1500 0 ''w1'' 60000 order_db of Inr (_, d) \<Rightarrow> d | Inl _ \<Rightarrow> empty_db)"

lemma order_claimed:
  "claim_run 1500 0 ''w1'' 60000 order_db = Inr (\<lparr>ck_run = 0, ck_worker = ''w1'', ck_expires_at = 61500\<rparr>, claimed_db)"
  "claims_ok order_db"
   apply code_simp
  apply code_simp
  done

lemma claimed_queue_ok: "queue_ok 3 claimed_db"
  unfolding queue_ok_def claim_run_frame [OF order_claimed(1)] using order_queue_ok unfolding queue_ok_def .

section \<open>A timeout\<close>

definition timeout_timer :: timer_row where
  "timeout_timer = the (next_due_timer ''main'' 70000 order_db)"

lemma timeout_timer_facts:
  "next_due_timer ''main'' 70000 order_db = Some timeout_timer" "is_timeout_timer_id (tm_timer timeout_timer)"
  "find_run order_db (tm_run timeout_timer) = Some order_row" "find_snapshot order_db (tm_run timeout_timer) = None"
  "\<forall>se \<in> set (run_events order_db (tm_run timeout_timer)). stored se \<noteq> TimerFired (tm_timer timeout_timer)"
      apply code_simp
     apply code_simp
    apply code_simp
   apply code_simp
  apply code_simp
  done

section \<open>A session\<close>

text \<open>A workflow that looks at the clock, charges and returns what the clock said.\<close>

definition pay_code :: live_handler where
  "pay_code =
     LNow (\<lambda>t. LStep ''charge'' VNull (LAwait 0 (\<lambda>out. case out of Inl e \<Rightarrow> LThrow e | Inr _ \<Rightarrow> LReturn (VNum (Fin (of_int t))))))"

definition pay_env :: "time \<Rightarrow> event list \<Rightarrow> replay_env" where
  "pay_env t es = shop_env\<lparr>e_history := es, e_clock := t, e_triggered := None\<rparr>"

definition pay_started :: "event list" where
  "pay_started = [RunStarted ''pay'' VNull]"

definition pay_settled :: "time \<Rightarrow> event list" where
  "pay_settled t = pay_started @ [TimeRecorded t, StepScheduled ''step-1'' ''charge'' VNull, StepCompleted ''step-1'' VNull]"

definition pay_setting :: sticky_setting where
  "pay_setting =
     \<lparr>wk_string = no_text, wk_enc = no_text, wk_threshold = None, wk_name = (\<lambda>_. ''pay''), wk_code = (\<lambda>_. pay_code),
      wk_env = (\<lambda>_. pay_env 0 [])\<rparr>"

definition pay_cache :: "live_session run_cache" where
  "pay_cache = projr (create_run_cache 2 60000)"

definition pay_world :: sticky_world where
  "pay_world = fresh_world (\<lambda>_. pay_started) pay_cache"

definition pay_decided :: sticky_world where
  "pay_decided =
     \<lparr>wo_logs = (wo_logs pay_world)(1 := pay_started @ [TimeRecorded 500, StepScheduled ''step-1'' ''charge'' VNull]),
      wo_decider = snd (decide_in pay_setting 500 500 1 (pay_env 500 pay_started) (wo_decider pay_world))\<rparr>"

definition pay_charged :: sticky_world where
  "pay_charged = pay_decided\<lparr>wo_logs := (wo_logs pay_decided)(1 := wo_logs pay_decided 1 @ [StepCompleted ''step-1'' VNull])\<rparr>"

lemma pay_first_decision:
  "fst (decide_in pay_setting 500 500 1 (pay_env 500 pay_started) (wo_decider pay_world)) =
     Inr ((\<lparr>de_outcome = Suspended, de_commands = [RecordTime 500, ScheduleStep ''step-1'' ''charge'' VNull]\<rparr>, None), FromReplay)"
  by code_simp

lemma pay_second_decision:
  "fst (decide_in pay_setting 900 900 1 (pay_env 900 (pay_settled 500)) (wo_decider pay_charged)) =
     Inr ((\<lparr>de_outcome = Completed (VNum (Fin 500)), de_commands = [CompleteRun (VNum (Fin 500))]\<rparr>, None), FromCache)"
  by code_simp

lemma pay_log_in_order: "log_in_order pay_started" "log_in_order (pay_settled 500)"
proof -
  show "log_in_order pay_started"
    by (simp add: log_in_order_def settled_once_def no_orphans_def pay_started_def finishes_def outcome_has_command_def)
  have "length (filter (finishes sid) (pay_settled 500)) \<le> 1" for sid by (simp add: pay_settled_def pay_started_def finishes_def)
  moreover have "no_orphans (pay_settled 500)"
    by (simp add: no_orphans_def pay_settled_def pay_started_def outcome_has_command_def recorded_shapes_def shape_ids_def
        List.map_filter_def is_step_def)
  ultimately show "log_in_order (pay_settled 500)" by (simp add: log_in_order_def settled_once_def)
qed

lemma pay_reachable: "(sticky_step pay_setting)\<^sup>*\<^sup>* pay_world pay_charged"
proof -
  have logs: "wo_logs pay_world = (\<lambda>_. pay_started)" by (simp add: pay_world_def fresh_world_def)
  have "decides_for pay_setting 1 pay_world (pay_env 500 pay_started)"
    by (simp add: decides_for_def logs pay_setting_def pay_env_def same_draws_def)
  from sticky_step.recorded [OF this, of 500 500] pay_first_decision
  have "sticky_step pay_setting pay_world \<lparr>wo_logs = (wo_logs pay_world)(1 := wo_logs pay_world 1 @
       map command_to_event [RecordTime 500, ScheduleStep ''step-1'' ''charge'' VNull]),
      wo_decider = snd (decide_in pay_setting 500 500 1 (pay_env 500 pay_started) (wo_decider pay_world))\<rparr>"
    by (cases "decide_in pay_setting 500 500 1 (pay_env 500 pay_started) (wo_decider pay_world)") auto
  then have "sticky_step pay_setting pay_world pay_decided" by (simp add: pay_decided_def logs)
  moreover have "sticky_step pay_setting pay_decided pay_charged"
    using sticky_step.grew [of pay_decided 1 "[StepCompleted ''step-1'' VNull]" pay_setting] pay_log_in_order(2)
    by (simp add: pay_charged_def pay_decided_def pay_settled_def)
  ultimately show ?thesis by simp
qed

text \<open>What a session that read the clock at \<open>t\<close> makes of a history that recorded \<open>t'\<close>.\<close>

lemma pay_session_result:
  "fst (advance no_text no_text None (pay_env t2 (pay_settled t')) (pay_settled t')
      (snd (advance no_text no_text None (pay_env t pay_started) pay_started (create_live_session pay_code)))) =
     Inr (LiveDecided \<lparr>de_outcome = Completed (VNum (Fin (of_int t))), de_commands = [CompleteRun (VNum (Fin (of_int t)))]\<rparr> None)"
proof -
  have one: "show_nat (Suc 0) = ''1''" by code_simp
  show ?thesis
    by (simp add: pay_env_def pay_settled_def pay_started_def pay_code_def create_live_session_def empty_replay_state_def
        advance_def Let_def feed_slice_def is_supported_event_def emitted_are_recorded_def index_event_def resume_def live_now_def
        live_step_def nth_opt_def push_command_def issue_command_def matcher_issue_def create_command_matcher_def register_waiter_def
        try_key_def shop_env_def integrity_failure_def settled_rest_def assert_all_issued_def build_decision_def step_id_def
        recorded_times_def List.map_filter_def deliver_event_def notify_waiters_def step_outcome_of_def matcher_record_def one)
qed

lemma pay_replay_result:
  "run_decision_loop no_text no_text None (pay_env t2 (pay_settled t')) (replayed pay_code []) =
     Inr (\<lparr>de_outcome = Completed (VNum (Fin (of_int t'))), de_commands = [CompleteRun (VNum (Fin (of_int t')))]\<rparr>, None)"
proof -
  let ?env = "pay_env t2 (pay_settled t')"
  have one: "show_nat (Suc 0) = ''1''" by code_simp
  have "\<exists>w. replay (replayed pay_code []) ?env False (initial_state ?env) = (Returned (VNum (Fin (of_int t'))), w) \<and>
      w_continuation w = None \<and> assert_all_issued (w_matcher w) = None \<and> w_commands w = []"
    by (simp add: pay_env_def pay_settled_def pay_started_def pay_code_def initial_state_def ctx_now_def ctx_step_def Let_def
        recorded_times_def List.map_filter_def nth_opt_def issue_command_def matcher_issue_def create_command_matcher_def matcher_record_def
        recorded_shapes_def step_id_def one step_outcome_of_def shop_env_def promise_of_def await_promise_def assert_all_issued_def)
  then obtain w where w: "replay (replayed pay_code []) ?env False (initial_state ?env) = (Returned (VNum (Fin (of_int t'))), w)"
      "w_continuation w = None" "assert_all_issued (w_matcher w) = None" "w_commands w = []" by blast
  have "list_all is_supported_event (e_history ?env)" by (simp add: pay_env_def pay_settled_def pay_started_def is_supported_event_def)
  from decide_supported [OF this w(1,2), of no_text no_text] w(3,4) show ?thesis
    by (simp add: run_decision_loop_def settled_of_def integrity_failure_def)
qed

end
