(* ===== verification/TaskHandler.thy ===== *)
theory TaskHandler
  imports StickyDecider StepTasks Engine
begin

text \<open>
  The task handler of a worker (\<open>packages/worker/src/engine/task-handler.ts\<close>): a workflow task reads the run's
  history, decides through the cached sessions, records the decision, claims the run and heals lost step
  tasks; a step task runs the step and wakes the run. Between two statements of the handler the
  rest of the system may commit anything: \<open>others k\<close> is what it commits before statement \<open>k\<close>.
\<close>

section \<open>Options, reports and errors\<close>

text \<open>\<open>ho_router\<close>: the worker's id and the sticky timeout, when both a router and an id are given.\<close>

record handler_options =
  ho_queue :: string
  ho_workflows :: "string \<Rightarrow> (jsv \<Rightarrow> live_handler) option"
  ho_router :: "(string \<times> int) option"
  ho_string :: "jsv \<Rightarrow> string"
  ho_enc :: "jsv \<Rightarrow> string"
  ho_threshold :: "nat option"

definition DEFAULT_STICKY_TIMEOUT_MS :: int where
  "DEFAULT_STICKY_TIMEOUT_MS = 60000"

definition DEFAULT_MAX_CACHED_RUNS :: int where
  "DEFAULT_MAX_CACHED_RUNS = 1000"

record decision_report =
  dr_run :: uuid
  dr_workflow_type :: string
  dr_outcome :: string
  dr_recorded :: nat
  dr_source :: "decision_source option"

datatype handler_error =
    UnknownWorkflowError string
  | NotStartedError uuid
  | DecisionThrew thrown
  | StatementFailed engine_error

text \<open>What the handler of a task tells the worker loop; \<open>HandlerParked\<close> is a \<open>ParkTaskError\<close>.\<close>

datatype handler_result = HandlerDone | HandlerFailed handler_error | HandlerParked handler_error

definition outcome_name :: "decision_outcome \<Rightarrow> string" where
  "outcome_name oc =
     (case oc of Completed _ \<Rightarrow> ''completed'' | Failed_with _ \<Rightarrow> ''failed'' | Suspended \<Rightarrow> ''suspended''
      | Cancelled \<Rightarrow> ''cancelled'' | ContinuedAsNew _ \<Rightarrow> ''continued_as_new'')"

text \<open>What a worker reads from its clocks, and how it draws for a run.\<close>

record task_clock =
  tk_cache_get :: time
  tk_cache_set :: time
  tk_record :: time
  tk_now :: time
  tk_env :: "uuid \<Rightarrow> replay_env"

section \<open>After the decision\<close>

definition open_steps :: "event list \<Rightarrow> (string \<times> string \<times> jsv) list" where
  "open_steps es =
     List.map_filter (\<lambda>e. case e of
         StepScheduled sid st inp \<Rightarrow>
           if list_ex (\<lambda>x. case x of StepCompleted i _ \<Rightarrow> i = sid | StepFailed i _ _ \<Rightarrow> i = sid | _ \<Rightarrow> False) es then None
           else Some (sid, st, inp)
       | _ \<Rightarrow> None) es"

definition ensure_step_tasks :: "time \<Rightarrow> uuid \<Rightarrow> uuid \<Rightarrow> string \<Rightarrow> event list \<Rightarrow> db \<Rightarrow> db" where
  "ensure_step_tasks now ns rid q es =
     fold (\<lambda>(sid, st, inp) d. snd (enqueue_step_task_on_client ns rid q sid st inp now now d)) (open_steps es)"

definition waiting_on_for :: "uuid \<Rightarrow> event list \<Rightarrow> db \<Rightarrow> waiting_on option" where
  "waiting_on_for rid es d =
     (let pending = open_steps es in
      if pending = [] then Some WaitExternal
      else if list_all (\<lambda>(sid, _, _). list_ex (\<lambda>l. dl_run l = rid \<and> dl_step l = sid \<and> dl_requeued_at l = None) (d_dead_letters d)) pending
      then Some WaitDeadLetter else None)"

definition mark_waiting :: "(nat \<Rightarrow> db \<Rightarrow> db) \<Rightarrow> uuid \<Rightarrow> bool \<Rightarrow> event list \<Rightarrow> nat \<Rightarrow> db \<Rightarrow> db" where
  "mark_waiting others rid suspended es recorded_count d =
     (let d1 = others 4 d; waiting = (if suspended then waiting_on_for rid es d1 else None)
      in mark_run_waiting rid waiting (0 < recorded_count) (others 5 d1))"

text \<open>An error of the router is reported and forgotten.\<close>

definition update_claim :: "handler_options \<Rightarrow> time \<Rightarrow> uuid \<Rightarrow> bool \<Rightarrow> db \<Rightarrow> db" where
  "update_claim opt now rid suspended d =
     (case ho_router opt of
        None \<Rightarrow> d
      | Some (worker, timeout) \<Rightarrow>
          if suspended then (case claim_run now rid worker timeout d of Inl _ \<Rightarrow> d | Inr (_, d') \<Rightarrow> d')
          else snd (release_claim rid worker d))"

text \<open>The second component says whether the session of the run is dropped.\<close>

definition record_decision ::
    "handler_options \<Rightarrow> task_clock \<Rightarrow> (nat \<Rightarrow> db \<Rightarrow> db) \<Rightarrow> leased_task \<Rightarrow> uuid \<Rightarrow> string \<Rightarrow> stored_event list \<Rightarrow> decision \<Rightarrow>
     decision_source \<Rightarrow> db \<Rightarrow> (handler_error + decision_report) \<times> bool \<times> db" where
  "record_decision opt clk others task ns wt stored_events dec src d =
     (let rid = lt_run task; events = map command_to_event (de_commands dec); now = tk_now clk;
          expected = (case stored_events of [] \<Rightarrow> 0 | _ \<Rightarrow> sequence_number (last stored_events));
          suspended = (de_outcome dec = Suspended); whole = map stored stored_events @ events in
      case record_workflow_task_result (Some (ho_queue opt)) (tk_record clk) now rid (show_nat (lt_id task)) expected events (others 2 d) of
        Inl (ConcurrencyError _ _ _) \<Rightarrow>
          (Inr \<lparr>dr_run = rid, dr_workflow_type = wt, dr_outcome = ''superseded'', dr_recorded = 0, dr_source = None\<rparr>, True, others 2 d)
      | Inl e \<Rightarrow> (Inl (StatementFailed e), True, others 2 d)
      | Inr ((recorded, _), d1) \<Rightarrow>
          let report = \<lparr>dr_run = rid, dr_workflow_type = wt, dr_outcome = outcome_name (de_outcome dec),
                dr_recorded = (if recorded then length events else 0), dr_source = Some src\<rparr>;
              d2 = update_claim opt now rid suspended (others 3 d1);
              d3 = (if recorded then mark_waiting others rid suspended whole (length events) d2 else d2);
              d4 = (if suspended then ensure_step_tasks now ns rid (ho_queue opt) whole (others 6 d3) else d3)
          in (Inr report, \<not> recorded, d4))"

section \<open>The workflow task\<close>

definition handle_workflow_task ::
    "handler_options \<Rightarrow> task_clock \<Rightarrow> (nat \<Rightarrow> db \<Rightarrow> db) \<Rightarrow> leased_task \<Rightarrow> sticky_decider \<Rightarrow> db \<Rightarrow>
     (handler_error + decision_report option) \<times> sticky_decider \<times> db" where
  "handle_workflow_task opt clk others task sd d =
     (let rid = lt_run task; d0 = others 0 d; absent = (Inr None, invalidate rid sd, d0) in
      case find_run d0 rid of
        None \<Rightarrow> absent
      | Some r \<Rightarrow>
          if is_terminal_state (r_status r) then absent
          else
            let d1 = others 1 d0; stored_events = store_read d1 rid 0 None; history = map stored stored_events;
                env = (tk_env clk rid)\<lparr>e_history := history,
                  e_triggered := (case stored_events of [] \<Rightarrow> None | _ \<Rightarrow> Some (created_at (last stored_events)))\<rparr> in
            case history of
              RunStarted wt inp # _ \<Rightarrow>
                (case ho_workflows opt wt of
                   None \<Rightarrow> (Inl (UnknownWorkflowError wt), sd, d1)
                 | Some code \<Rightarrow>
                     (case sticky_decide (ho_string opt) (ho_enc opt) (ho_threshold opt) (tk_cache_get clk) (tk_cache_set clk)
                         rid wt (code inp) env sd of
                        (Inl e, sd') \<Rightarrow> (Inl (DecisionThrew e), sd', d1)
                      | (Inr ((dec, _), src), sd') \<Rightarrow>
                          (case record_decision opt clk others task (r_namespace r) wt stored_events dec src d1 of
                             (res, lost, d2) \<Rightarrow> (map_sum id Some res, if lost then invalidate rid sd' else sd', d2))))
            | _ \<Rightarrow> (Inl (NotStartedError rid), sd, d1))"

section \<open>The step task and the handler\<close>

definition handle_step_task :: "process_env \<Rightarrow> (nat \<Rightarrow> db \<Rightarrow> db) \<Rightarrow> string \<Rightarrow> time \<Rightarrow> leased_task \<Rightarrow> db \<Rightarrow> (handler_error + unit) option \<times> db" where
  "handle_step_task env others q now task d =
     (case process_step_task env others task d of
        (None, d1) \<Rightarrow> (None, d1)
      | (Some (Inl e), d1) \<Rightarrow> (Some (Inl (StatementFailed e)), d1)
      | (Some (Inr out), d1) \<Rightarrow>
          if (case out of StepDone _ \<Rightarrow> True | StepGaveUp _ \<Rightarrow> True | AlreadyRecorded \<Rightarrow> True | _ \<Rightarrow> False) then
            (case enqueue now (lt_namespace task) (lt_run task) q WORKFLOW_TASK
                (VObj [(''reason'', VStr ''step_completed'')]) None (others 7 d1) of
               Inl e \<Rightarrow> (Some (Inl (StatementFailed e)), others 7 d1)
             | Inr (_, d2) \<Rightarrow> (Some (Inr ()), d2))
          else (Some (Inr ()), d1))"

definition parks :: "handler_error \<Rightarrow> bool" where
  "parks e =
     (case e of
        UnknownWorkflowError _ \<Rightarrow> True
      | DecisionThrew t \<Rightarrow> thrown_class t \<in> {NonDeterminismErrorClass, VersionMismatchErrorClass}
      | _ \<Rightarrow> False)"

definition workflow_task_handler ::
    "handler_options \<Rightarrow> task_clock \<Rightarrow> (nat \<Rightarrow> db \<Rightarrow> db) \<Rightarrow> leased_task \<Rightarrow> sticky_decider \<Rightarrow> db \<Rightarrow>
     handler_result \<times> decision_report option \<times> sticky_decider \<times> db" where
  "workflow_task_handler opt clk others task sd d =
     (case handle_workflow_task opt clk others task sd d of
        (Inr rep, sd', d') \<Rightarrow> (HandlerDone, rep, sd', d')
      | (Inl e, sd', d') \<Rightarrow>
          if parks e then (HandlerParked e, None, invalidate (lt_run task) sd', d')
          else (HandlerFailed e, None, sd', d'))"

end
