(* ===== verification/TaskHandlerProof.thy ===== *)
theory TaskHandlerProof
  imports TaskHandler
begin

text \<open>
  A worker that keeps sessions over the engine's tables: whatever else happens to the tables, its workflow
  tasks report and write what those of a worker with an empty cache do.
\<close>

section \<open>What others may do\<close>

text \<open>
  The tables move on: runs stay, a run that is open now was open before, and its history only grew. The
  transactions of the engine move the tables this way, and so does a compaction.
\<close>

definition moves :: "db \<Rightarrow> db \<Rightarrow> bool" where
  "moves d d' \<longleftrightarrow> engine_ok d' \<and>
     (\<forall>x r. find_run d x = Some r \<longrightarrow> (\<exists>r'. find_run d' x = Some r' \<and>
        (r_status r' = RUNNING \<longrightarrow> r_status r = RUNNING \<and> snapshot_seq d' x = snapshot_seq d x \<and>
           (\<exists>tail. run_events d' x = run_events d x @ tail))))"

lemma moves_refl: "engine_ok d \<Longrightarrow> moves d d"
  by (auto simp: moves_def)

lemma moves_trans [trans]: "moves a b \<Longrightarrow> moves b c \<Longrightarrow> moves a c"
  unfolding moves_def by (metis append.assoc)

lemma moves_extends:
  assumes "extends d d'" and "engine_ok d'"
  shows "moves d d'"
proof -
  have snap: "snapshot_seq d' x = snapshot_seq d x" for x
    using assms(1) by (simp add: extends_def snapshot_seq_def find_snapshot_def)
  have "\<exists>r'. find_run d' x = Some r' \<and> (r_status r' = RUNNING \<longrightarrow> r_status r = RUNNING)" if r: "find_run d x = Some r" for x r
  proof -
    obtain r' where "find_run d' x = Some r'" "r_status r \<noteq> RUNNING \<longrightarrow> projection_from_row r' = projection_from_row r"
      using assms(1) r unfolding extends_def by meson
    moreover have "projection_from_row r' = projection_from_row r \<Longrightarrow> r_status r' = r_status r"
      by (simp add: projection_from_row_def)
    ultimately show ?thesis by auto
  qed
  then show ?thesis using assms snap unfolding moves_def extends_def by metis
qed

lemma moves_same:
  assumes "engine_ok d" and "d_runs d' = d_runs d" and "d_events d' = d_events d" and "d_snapshots d' = d_snapshots d"
    and "d_next d \<le> d_next d'"
  shows "moves d d'"
proof -
  have "engine_ok d'" using assms runs_ok_same_runs [of d d']
    by (auto simp: engine_ok_def timeouts_ok_def fresh_ok_def run_events_def find_run_def find_snapshot_def)
  then show ?thesis using assms
    by (auto simp: moves_def find_run_def run_events_def snapshot_seq_def find_snapshot_def)
qed

lemma moves_engine_ok: "moves d d' \<Longrightarrow> engine_ok d'"
  by (simp add: moves_def)

definition others_move :: "(nat \<Rightarrow> db \<Rightarrow> db) \<Rightarrow> bool" where
  "others_move others \<longleftrightarrow> (\<forall>k d. engine_ok d \<longrightarrow> moves d (others k d))"

lemma others_moveD: "others_move others \<Longrightarrow> engine_ok d \<Longrightarrow> moves d (others k d)"
  by (simp add: others_move_def)

section \<open>What the handler does to the tables\<close>

lemma ensure_step_tasks_moves:
  assumes "engine_ok d"
  shows "moves d (ensure_step_tasks now ns rid q es d)"
proof -
  have "moves d (fold (\<lambda>(sid, st, inp) d. snd (enqueue_step_task_on_client ns rid q sid st inp now now d)) xs d)" for xs
    using assms
  proof (induction xs arbitrary: d)
    case (Cons x xs)
    obtain sid st inp where x: "x = (sid, st, inp)" by (cases x)
    let ?d = "snd (enqueue_step_task_on_client ns rid q sid st inp now now d)"
    have "moves d ?d" using Cons.prems
      by (intro moves_same) (simp_all add: enqueue_step_task_on_client_def)
    with Cons.IH [OF moves_engine_ok [OF this]] show ?case by (auto simp: x intro: moves_trans)
  qed (simp add: moves_refl)
  then show ?thesis by (simp add: ensure_step_tasks_def)
qed

lemma update_claim_moves:
  assumes "engine_ok d"
  shows "moves d (update_claim opt now rid s d)"
  using assms
  by (intro moves_same)
    (auto simp: update_claim_def claim_run_def release_claim_def Let_def split: option.splits sum.splits if_splits)

lemma mark_waiting_moves:
  assumes "others_move others" and "engine_ok d"
  shows "moves d (mark_waiting others rid s es n d)"
proof -
  let ?d1 = "others 4 d" and ?d2 = "others 5 (others 4 d)"
  have m: "moves d ?d1" "moves ?d1 ?d2" using assms by (auto dest: others_moveD intro: moves_engine_ok)
  have "moves ?d2 (mark_run_waiting rid w p ?d2)" for w p
    using mark_run_waiting_ok [OF moves_engine_ok [OF m(2)]] moves_extends by blast
  with m show ?thesis by (auto simp: mark_waiting_def Let_def intro: moves_trans)
qed

lemma record_moves:
  assumes ok: "engine_ok d" and shape: "list_all event_valid es \<Longrightarrow> \<not> run_closed d rid \<Longrightarrow> decision_shape es"
    and rec: "record_workflow_task_result (Some q) clock now rid key n es d = Inr ((b, z), d')"
  shows "moves d d'" and "b \<Longrightarrow> read_current_sequence d rid = n"
    and "b \<Longrightarrow> \<exists>r. find_run d rid = Some r \<and> r_status r = RUNNING"
    and "b \<Longrightarrow> map stored (run_events d' rid) = map stored (run_events d rid) @ es"
proof -
  obtain x y where z: "z = (x, y)" by fastforce
  note inr = record_workflow_task_result_Inr [OF rec [unfolded z]]
  have "parse_events es = Inr es" using rec by (auto simp: record_workflow_task_result_def parse_events_Inr split: sum.splits)
  then have sh: "decision_shape es" if b using shape inr that by (simp add: parse_events_Inr list_all_iff)
  show "moves d d'"
  proof (cases b)
    case True
    from record_decision_step [OF ok sh [OF True] rec] show ?thesis using moves_extends by blast
  qed (use inr moves_refl [OF ok] in simp)
  show n: "b \<Longrightarrow> read_current_sequence d rid = n" using inr by simp
  have run: "\<exists>r. find_run d rid = Some r \<and> r_status r = RUNNING" if b
  proof -
    have "record_workflow_task_result (Some q) clock now rid key n es d = Inr ((True, z), d')" using rec that by simp
    from record_run_open [OF ok sh [OF that] this] show ?thesis .
  qed
  then show "b \<Longrightarrow> \<exists>r. find_run d rid = Some r \<and> r_status r = RUNNING" .
  show "map stored (run_events d' rid) = map stored (run_events d rid) @ es" if b: b
  proof -
    obtain r where r: "find_run d rid = Some r" "r_status r = RUNNING" using run [OF b] by blast
    have key: "find_task_result d rid key = None" using inr b by simp
    from record_decision_ok [OF ok r key sh [OF b] n [OF b, symmetric], of q clock now] rec b show ?thesis by auto
  qed
qed

text \<open>Between the read and the recording nobody wrote to the history when the sequence number still fits.\<close>

lemma nothing_between:
  assumes "moves d d'" and "engine_ok d" and r: "find_run d rid = Some r" and r': "find_run d' rid = Some r'" "r_status r' = RUNNING"
    and ne: "run_events d rid \<noteq> []" and seq: "read_current_sequence d' rid = sequence_number (last (run_events d rid))"
  shows "run_events d' rid = run_events d rid"
proof -
  have log: "log_ok d" "log_ok d'" using assms(1,2) by (simp_all add: moves_def engine_ok_def runs_ok_def)
  obtain tail where tail: "run_events d' rid = run_events d rid @ tail" "snapshot_seq d' rid = snapshot_seq d rid"
    using assms(1) r r' unfolding moves_def by fastforce
  have "sequence_number (last (run_events d rid)) = snapshot_seq d rid + length (run_events d rid)"
    using log(1) ne by (auto simp: log_ok_def intro: consecutive_last)
  then have "length (run_events d' rid) = length (run_events d rid)"
    using seq read_current_sequence_ok [OF log(2), of rid] tail(2) by simp
  with tail(1) show ?thesis by simp
qed

lemma record_decision_fits:
  assumes others: "others_move others" and ok: "engine_ok d" and r: "find_run d (lt_run task) = Some r"
    and stored_events: "stored_events = run_events d (lt_run task)" "stored_events \<noteq> []"
    and shape: "list_all event_valid (map command_to_event (de_commands dec)) \<Longrightarrow> \<not> run_closed (others 2 d) (lt_run task) \<Longrightarrow>
      decision_shape (map command_to_event (de_commands dec))"
    and rec: "record_decision opt clk others task ns wt stored_events dec src d = (res, lost, d')"
  shows "moves d d'"
    and "\<not> lost \<Longrightarrow> \<exists>d1. moves d1 d' \<and> engine_ok d1 \<and> (\<exists>r1. find_run d1 (lt_run task) = Some r1) \<and>
      map stored (run_events d1 (lt_run task)) = map stored stored_events @ map command_to_event (de_commands dec)"
proof -
  let ?rid = "lt_run task" and ?d2 = "others 2 d" and ?es = "map command_to_event (de_commands dec)"
  let ?rec = "record_workflow_task_result (Some (ho_queue opt)) (tk_record clk) (tk_now clk) ?rid (show_nat (lt_id task))
      (sequence_number (last stored_events)) ?es ?d2"
  have expected: "(case stored_events of [] \<Rightarrow> 0 | _ \<Rightarrow> sequence_number (last stored_events)) = sequence_number (last stored_events)"
    using stored_events(2) by (cases stored_events) simp_all
  have m2: "moves d ?d2" by (rule others_moveD [OF others ok])
  note ok2 = moves_engine_ok [OF m2]
  have "moves d d' \<and> (\<not> lost \<longrightarrow> (\<exists>d1. moves d1 d' \<and> engine_ok d1 \<and> (\<exists>r1. find_run d1 ?rid = Some r1) \<and>
      map stored (run_events d1 ?rid) = map stored stored_events @ ?es))"
  proof (cases ?rec)
    case (Inl e)
    then have "lost" "d' = ?d2" using rec by (auto simp: record_decision_def Let_def expected split: engine_error.splits)
    with m2 show ?thesis by simp
  next
    case (Inr out)
    obtain b a z d1 where out: "out = ((b, a, z), d1)" by (metis prod.exhaust)
    note rec1 = Inr [unfolded out]
    have m1: "moves ?d2 d1" and seq: "b \<Longrightarrow> read_current_sequence ?d2 ?rid = sequence_number (last stored_events)"
      and run: "b \<Longrightarrow> \<exists>r. find_run ?d2 ?rid = Some r \<and> r_status r = RUNNING"
      and ext: "b \<Longrightarrow> map stored (run_events d1 ?rid) = map stored (run_events ?d2 ?rid) @ ?es"
      using record_moves [OF ok2 shape rec1] by blast+
    let ?sus = "de_outcome dec = Suspended" and ?whole = "map stored stored_events @ ?es"
    define e2 where "e2 = update_claim opt (tk_now clk) ?rid ?sus (others 3 d1)"
    define e3 where "e3 = (if b then mark_waiting others ?rid ?sus ?whole (length ?es) e2 else e2)"
    define e4 where "e4 = (if ?sus then ensure_step_tasks (tk_now clk) ns ?rid (ho_queue opt) ?whole (others 6 e3) else e3)"
    have d': "lost = (\<not> b)" "d' = e4"
      using rec rec1 by (auto simp: record_decision_def Let_def expected e2_def e3_def e4_def)
    have o3: "moves d1 (others 3 d1)" by (rule others_moveD [OF others moves_engine_ok [OF m1]])
    have m12: "moves d1 e2" unfolding e2_def by (rule moves_trans [OF o3 update_claim_moves [OF moves_engine_ok [OF o3]]])
    have m23: "moves e2 e3"
      using mark_waiting_moves [OF others moves_engine_ok [OF m12]] moves_refl [OF moves_engine_ok [OF m12]] by (simp add: e3_def)
    have m34: "moves e3 e4"
    proof (cases ?sus)
      case True
      note o6 = others_moveD [OF others moves_engine_ok [OF m23], of 6]
      from moves_trans [OF o6 ensure_step_tasks_moves [OF moves_engine_ok [OF o6]]] True show ?thesis by (simp add: e4_def)
    qed (simp add: e4_def moves_refl [OF moves_engine_ok [OF m23]])
    have m14: "moves d1 e4" using m12 m23 m34 moves_trans by blast
    have "\<exists>r1. find_run d1 ?rid = Some r1" using r moves_trans [OF m2 m1] unfolding moves_def by blast
    moreover have "map stored (run_events d1 ?rid) = map stored stored_events @ ?es" if b: b
    proof -
      obtain r2 where r2: "find_run ?d2 ?rid = Some r2" "r_status r2 = RUNNING" using run [OF b] by blast
      have "run_events ?d2 ?rid = run_events d ?rid"
        by (rule nothing_between [OF m2 ok r r2]) (use stored_events seq [OF b] in simp_all)
      with ext [OF b] stored_events(1) show ?thesis by simp
    qed
    ultimately show ?thesis using d' m14 moves_trans [OF moves_trans [OF m2 m1] m14] moves_engine_ok [OF m1] by blast
  qed
  then show "moves d d'" and "\<not> lost \<Longrightarrow> \<exists>d1. moves d1 d' \<and> engine_ok d1 \<and> (\<exists>r1. find_run d1 (lt_run task) = Some r1) \<and>
      map stored (run_events d1 (lt_run task)) = map stored stored_events @ map command_to_event (de_commands dec)" by blast+
qed

section \<open>Sessions that fit the tables\<close>

definition fits_in :: "handler_options \<Rightarrow> (uuid \<Rightarrow> replay_env) \<Rightarrow> db \<Rightarrow> uuid \<Rightarrow> live_session \<Rightarrow> bool" where
  "fits_in opt envs d rid s \<longleftrightarrow> (\<exists>r. find_run d rid = Some r \<and> (r_status r = RUNNING \<longrightarrow>
     (\<exists>wt inp rest code. map stored (run_events d rid) = RunStarted wt inp # rest \<and> ho_workflows opt wt = Some code \<and>
        session_fits (code inp) (envs rid) (map stored (run_events d rid)) s)))"

definition worker_fits :: "handler_options \<Rightarrow> (uuid \<Rightarrow> replay_env) \<Rightarrow> db \<Rightarrow> sticky_decider \<Rightarrow> bool" where
  "worker_fits opt envs d sd \<longleftrightarrow> (\<forall>(rid, s) \<in> sessions sd. fits_in opt envs d rid s)"

lemma fits_in_moves:
  assumes "fits_in opt envs d rid s" and "moves d d'"
  shows "fits_in opt envs d' rid s"
proof -
  obtain r where r: "find_run d rid = Some r"
    and fits: "r_status r = RUNNING \<Longrightarrow> \<exists>wt inp rest code. map stored (run_events d rid) = RunStarted wt inp # rest \<and>
        ho_workflows opt wt = Some code \<and> session_fits (code inp) (envs rid) (map stored (run_events d rid)) s"
    using assms(1) by (auto simp: fits_in_def)
  obtain r' where r': "find_run d' rid = Some r'"
    and open_run: "r_status r' = RUNNING \<Longrightarrow> r_status r = RUNNING \<and> (\<exists>tail. run_events d' rid = run_events d rid @ tail)"
    using assms(2) r unfolding moves_def by blast
  have "\<exists>wt inp rest code. map stored (run_events d' rid) = RunStarted wt inp # rest \<and> ho_workflows opt wt = Some code \<and>
      session_fits (code inp) (envs rid) (map stored (run_events d' rid)) s" if run: "r_status r' = RUNNING"
  proof -
    obtain tail where tail: "run_events d' rid = run_events d rid @ tail" using open_run [OF run] by blast
    obtain wt inp rest code where h: "map stored (run_events d rid) = RunStarted wt inp # rest" "ho_workflows opt wt = Some code"
        "session_fits (code inp) (envs rid) (map stored (run_events d rid)) s"
      using fits [OF conjunct1 [OF open_run [OF run]]] by (elim exE conjE) (rule that)
    then have "map stored (run_events d' rid) = RunStarted wt inp # (rest @ map stored tail)"
      "session_fits (code inp) (envs rid) (map stored (run_events d' rid)) s"
      using session_fits_append [OF h(3), of "map stored tail"] by (simp_all add: tail h(1))
    with h(2) show ?thesis by (intro exI conjI)
  qed
  with r' show ?thesis by (simp add: fits_in_def)
qed

lemma worker_fits_moves: "worker_fits opt envs d sd \<Longrightarrow> moves d d' \<Longrightarrow> worker_fits opt envs d' sd"
  by (auto simp: worker_fits_def intro: fits_in_moves)

lemma worker_fits_subset: "worker_fits opt envs d sd \<Longrightarrow> sessions sd' \<subseteq> sessions sd \<Longrightarrow> worker_fits opt envs d sd'"
  by (auto simp: worker_fits_def)

section \<open>One workflow task\<close>

text \<open>What a task decides on: the history it reads, and the environment of the replay.\<close>

definition task_env :: "task_clock \<Rightarrow> uuid \<Rightarrow> stored_event list \<Rightarrow> replay_env" where
  "task_env clk rid ses =
     (tk_env clk rid)\<lparr>e_history := map stored ses,
       e_triggered := (case ses of [] \<Rightarrow> None | _ \<Rightarrow> Some (created_at (last ses)))\<rparr>"

lemma task_env_facts [simp]:
  "e_history (task_env clk rid ses) = map stored ses" "same_draws env (task_env clk rid ses) = same_draws env (tk_env clk rid)"
  by (simp_all add: task_env_def same_draws_def)

lemma handle_decides:
  assumes "engine_ok (others 1 (others 0 d))" and "find_run (others 0 d) (lt_run task) = Some r" and "r_status r = RUNNING"
    and "map stored (run_events (others 1 (others 0 d)) (lt_run task)) = RunStarted wt inp # rest" and "ho_workflows opt wt = Some code"
  shows "handle_workflow_task opt clk others task sd d =
     (let d1 = others 1 (others 0 d); ses = run_events d1 (lt_run task) in
      case sticky_decide (ho_string opt) (ho_enc opt) (ho_threshold opt) (tk_cache_get clk) (tk_cache_set clk)
          (lt_run task) wt (code inp) (task_env clk (lt_run task) ses) sd of
        (Inl e, sd') \<Rightarrow> (Inl (DecisionThrew e), sd', d1)
      | (Inr ((dec, _), src), sd') \<Rightarrow>
          (case record_decision opt clk others task (r_namespace r) wt ses dec src d1 of
             (res, lost, d2) \<Rightarrow> (map_sum id Some res, if lost then invalidate (lt_run task) sd' else sd', d2)))"
proof -
  have read: "store_read (others 1 (others 0 d)) (lt_run task) 0 None = run_events (others 1 (others 0 d)) (lt_run task)"
    using read_all [of "others 1 (others 0 d)" "lt_run task"] assms(1) by (simp add: store_read_def engine_ok_def runs_ok_def)
  show ?thesis unfolding handle_workflow_task_def Let_def task_env_def read using assms(2-5) by simp
qed

lemma handle_without_deciding:
  assumes "engine_ok (others 1 (others 0 d))"
    and "\<not> (\<exists>r wt inp rest code. find_run (others 0 d) (lt_run task) = Some r \<and> r_status r = RUNNING \<and>
       map stored (run_events (others 1 (others 0 d)) (lt_run task)) = RunStarted wt inp # rest \<and> ho_workflows opt wt = Some code)"
  shows "\<exists>res gone d'. d' \<in> {others 0 d, others 1 (others 0 d)} \<and> (\<forall>sd. handle_workflow_task opt clk others task sd d =
     (res, if gone then invalidate (lt_run task) sd else sd, d'))"
proof -
  have read: "store_read (others 1 (others 0 d)) (lt_run task) 0 None = run_events (others 1 (others 0 d)) (lt_run task)"
    using read_all [of "others 1 (others 0 d)" "lt_run task"] assms(1) by (simp add: store_read_def engine_ok_def runs_ok_def)
  show ?thesis
  proof (cases "find_run (others 0 d) (lt_run task)")
    case None
    show ?thesis by (intro exI [of _ "Inr None"] exI [of _ True] exI [of _ "others 0 d"]) (simp add: handle_workflow_task_def None)
  next
    case (Some r)
    show ?thesis
    proof (cases "r_status r = RUNNING")
      case False
      then show ?thesis
        by (intro exI [of _ "Inr None"] exI [of _ True] exI [of _ "others 0 d"]) (simp add: handle_workflow_task_def Some)
    next
      case True
      note run = True
      show ?thesis
      proof (cases "\<exists>wt inp rest. map stored (run_events (others 1 (others 0 d)) (lt_run task)) = RunStarted wt inp # rest")
        case True
        then obtain wt inp rest where h: "map stored (run_events (others 1 (others 0 d)) (lt_run task)) = RunStarted wt inp # rest"
          by (elim exE) (rule that)
        then have "ho_workflows opt wt = None" using assms(2) Some run by (metis option.exhaust)
        then show ?thesis
          by (intro exI [of _ "Inl (UnknownWorkflowError wt)"] exI [of _ False] exI [of _ "others 1 (others 0 d)"])
            (simp add: handle_workflow_task_def Some run read h Let_def del: One_nat_def)
      next
        case False
        then show ?thesis
          by (intro exI [of _ "Inl (NotStartedError (lt_run task))"] exI [of _ False] exI [of _ "others 1 (others 0 d)"])
            (auto simp: handle_workflow_task_def Some run read Let_def simp del: One_nat_def split: list.split event.split)
      qed
    qed
  qed
qed

text \<open>The decision of a task with sessions that fit is that of a replay, and the sessions it leaves fit what is recorded.\<close>

lemma task_decision:
  assumes ok: "engine_ok d1" and r: "find_run d1 rid = Some r" "r_status r = RUNNING"
    and hist: "map stored (run_events d1 rid) = RunStarted wt inp # rest" and code: "ho_workflows opt wt = Some code"
    and fits: "worker_fits opt envs d1 sd" and draws: "same_draws (envs rid) (tk_env clk rid)"
    and logs: "log_in_order (map stored (run_events d1 rid))"
    and dec: "sticky_decide js enc th t0 t1 rid wt (code inp) (task_env clk rid (run_events d1 rid)) sd = (out, sd')"
  shows "map_sum id fst out = run_decision_loop js enc th (task_env clk rid (run_events d1 rid)) (replayed (code inp) [])"
    and "sessions sd' \<subseteq> {(x, s) \<in> sessions sd. x \<noteq> rid} \<union>
      fresh_session (code inp) (envs rid) (task_env clk rid (run_events d1 rid)) rid out"
proof -
  have session: "session_fits (code inp) (envs rid) (map stored (run_events d1 rid)) s" if "(rid, s) \<in> sessions sd" for s
  proof -
    have "fits_in opt envs d1 rid s" using fits that by (auto simp: worker_fits_def)
    then show ?thesis using r hist code by (auto simp: fits_in_def)
  qed
  note f = sticky_decide_sound [OF _ _ _ dec, of "envs rid"]
  show "map_sum id fst out = run_decision_loop js enc th (task_env clk rid (run_events d1 rid)) (replayed (code inp) [])"
    by (rule f(1)) (use draws logs session in simp_all)
  show "sessions sd' \<subseteq> {(x, s) \<in> sessions sd. x \<noteq> rid} \<union>
      fresh_session (code inp) (envs rid) (task_env clk rid (run_events d1 rid)) rid out"
    by (rule f(2)) (use draws logs session in simp_all)
qed

text \<open>Whatever the sessions are, a decision touches the session of its own run only.\<close>

lemma sticky_decide_others:
  assumes "sticky_decide js enc th t0 t1 rid name h env sd = (out, sd')"
  shows "{(x, s) \<in> sessions sd'. x \<noteq> rid} \<subseteq> sessions sd"
proof -
  have keep: "{(x, y) \<in> sessions (keep_session t rid s sd). x \<noteq> rid} \<subseteq> sessions sd" for t s sd
    using sessions_keep [of t rid s sd] by auto
  have scratch: "{(x, s) \<in> sessions sd'. x \<noteq> rid} \<subseteq> sessions sd"
    if "replay_or_drop js enc th t1 rid name h env sd = (out, sd')" for out sd sd'
    using that keep [of t1 _ "count_replay (length (e_history env)) sd"]
    by (auto simp: replay_or_drop_def replay_from_scratch_def Let_def split: sum.splits prod.splits if_splits live_advance.splits)
  obtain cached c where get: "cache_get t0 rid (sd_cache sd) = (cached, c)" by fastforce
  note sub = sessions_get(1) [OF get]
  show ?thesis
  proof (cases cached)
    case None
    then show ?thesis using assms scratch [of "sd\<lparr>sd_cache := c, sd_misses := sd_misses sd + 1\<rparr>" out sd'] sub
      by (auto simp: sticky_decide_def get Let_def)
  next
    case (Some s)
    obtain a s' where adv: "advance js enc th env (e_history env) s = (a, s')" by fastforce
    show ?thesis
    proof (cases "\<exists>e dec w. a = Inl e \<or> a = Inr (LiveDecided dec w)")
      case True
      then show ?thesis using assms sub sessions_keep
        by (fastforce simp: sticky_decide_def get Some adv Let_def split: if_splits)
    next
      case False
      define sd1 where "sd1 = drop_session rid (sd\<lparr>sd_cache := c, sd_misses := sd_misses sd + 1, sd_invalidations := sd_invalidations sd + 1\<rparr>)"
      have "replay_or_drop js enc th t1 rid name h env sd1 = (out, sd')"
        using assms False by (cases a) (auto simp: sticky_decide_def get Some adv Let_def sd1_def split: live_advance.splits)
      from scratch [OF this] show ?thesis using sub by (auto simp: sd1_def)
    qed
  qed
qed

lemma sessions_invalidate_sub: "sessions (if b then invalidate rid sd else sd) \<subseteq> sessions sd"
  by auto

lemma handle_workflow_task_fits:
  assumes others: "others_move others" and ok: "engine_ok d" and fits: "worker_fits opt envs d sd"
    and draws: "same_draws (envs (lt_run task)) (tk_env clk (lt_run task))"
    and logs: "log_in_order (map stored (run_events (others 1 (others 0 d)) (lt_run task)))"
    and run: "handle_workflow_task opt clk others task sd d = (res, sd', d')"
  shows "moves d d' \<and> worker_fits opt envs d' sd'"
proof -
  let ?rid = "lt_run task" and ?d0 = "others 0 d" and ?d1 = "others 1 (others 0 d)"
  have m0: "moves d ?d0" by (rule others_moveD [OF others ok])
  have m1: "moves d ?d1" by (rule moves_trans [OF m0 others_moveD [OF others moves_engine_ok [OF m0]]])
  note ok1 = moves_engine_ok [OF m1]
  show ?thesis
  proof (cases "\<exists>r wt inp rest code. find_run ?d0 ?rid = Some r \<and> r_status r = RUNNING \<and>
       map stored (run_events ?d1 ?rid) = RunStarted wt inp # rest \<and> ho_workflows opt wt = Some code")
    case False
    from handle_without_deciding [OF ok1 False, of clk] obtain res1 gone d2 where
      "d2 \<in> {?d0, ?d1}" "handle_workflow_task opt clk others task sd d = (res1, if gone then invalidate ?rid sd else sd, d2)"
      by (elim exE conjE allE) (rule that)
    then have "d' \<in> {?d0, ?d1}" "sd' = (if gone then invalidate ?rid sd else sd)" using run by simp_all
    then show ?thesis
      using m0 m1 worker_fits_moves [OF fits] worker_fits_subset sessions_invalidate_sub by blast
  next
    case True
    then obtain r wt inp rest code where r: "find_run ?d0 ?rid = Some r" "r_status r = RUNNING"
      and hist: "map stored (run_events ?d1 ?rid) = RunStarted wt inp # rest" and code: "ho_workflows opt wt = Some code"
      by (elim exE conjE) (rule that)
    let ?ses = "run_events ?d1 ?rid" and ?env = "task_env clk ?rid (run_events ?d1 ?rid)"
    obtain out sd1 where dec: "sticky_decide (ho_string opt) (ho_enc opt) (ho_threshold opt) (tk_cache_get clk) (tk_cache_set clk)
        ?rid wt (code inp) ?env sd = (out, sd1)" by fastforce
    note h = handle_decides [OF ok1 r hist code, of clk sd, unfolded Let_def dec, unfolded run]
    have fits1: "worker_fits opt envs ?d1 sd" by (rule worker_fits_moves [OF fits m1])
    obtain r1 where r1: "find_run ?d1 ?rid = Some r1"
      using others_moveD [OF others moves_engine_ok [OF m0], of 1] r(1) unfolding moves_def by blast
    show ?thesis
    proof (cases "r_status r1 = RUNNING")
      case True
      note t = task_decision [OF ok1 r1 True hist code fits1 draws logs dec]
      show ?thesis
      proof (cases out)
        case (Inl e)
        then have "sd' = sd1" "d' = ?d1" "fresh_session (code inp) (envs ?rid) ?env ?rid out = {}"
          using h by (simp_all add: fresh_session_def)
        then show ?thesis using m1 worker_fits_subset [OF fits1] t(2) by auto
      next
        case (Inr x)
        obtain dec w src where x: "x = ((dec, w), src)" by (metis prod.exhaust)
        obtain res1 lost d2 where rec: "record_decision opt clk others task (r_namespace r) wt ?ses dec src ?d1 = (res1, lost, d2)"
          by (rule prod_cases3)
        have out': "sd' = (if lost then invalidate ?rid sd1 else sd1)" "d' = d2" using h by (simp_all add: Inr x rec del: One_nat_def)
        have "run_decision_loop (ho_string opt) (ho_enc opt) (ho_threshold opt) ?env (replayed (code inp) []) = Inr (dec, w)"
          using t(1) by (simp add: Inr x)
        then have "decide (ho_string opt) (ho_enc opt) ?env (replayed (code inp) []) = Inr dec"
          by (auto simp: run_decision_loop_def split: sum.splits)
        note shape = decide_shape [OF this]
        have ne: "?ses \<noteq> []" using hist by auto
        have m: "moves ?d1 d2"
          by (rule record_decision_fits(1) [OF others ok1 r1 refl ne _ rec]) (rule shape)
        have went: "\<exists>d1. moves d1 d2 \<and> engine_ok d1 \<and> (\<exists>r1. find_run d1 ?rid = Some r1) \<and>
            map stored (run_events d1 ?rid) = map stored ?ses @ map command_to_event (de_commands dec)" if "\<not> lost"
          by (rule record_decision_fits(2) [OF others ok1 r1 refl ne _ rec that]) (rule shape)
        have "fits_in opt envs d2 x s" if xs: "(x, s) \<in> sessions sd'" for x s
        proof (cases "x = ?rid")
          case True
          with xs out' have keep: "\<not> lost" "(?rid, s) \<in> sessions sd1" by (auto split: if_splits)
          with t(2) have s: "session_fits (code inp) (envs ?rid) (map stored ?ses @ map command_to_event (de_commands dec)) s"
            by (auto simp: fresh_session_def Inr x)
          obtain d3 r3 where d3: "moves d3 d2" "find_run d3 ?rid = Some r3"
            "map stored (run_events d3 ?rid) = map stored ?ses @ map command_to_event (de_commands dec)"
            using went [OF keep(1)] by blast
          have "fits_in opt envs d3 ?rid s" using d3(2,3) s hist code by (auto simp: fits_in_def)
          then show ?thesis using fits_in_moves d3(1) True by blast
        next
          case False
          have "(x, s) \<in> sessions sd1" using xs sessions_invalidate_sub unfolding out'(1) by blast
          then have "(x, s) \<in> sessions sd" using False sticky_decide_others [OF dec] by blast
          then have "fits_in opt envs ?d1 x s" using fits1 by (auto simp: worker_fits_def)
          then show ?thesis by (rule fits_in_moves [OF _ m])
        qed
        then show ?thesis using moves_trans [OF m1 m] out'(2) by (auto simp: worker_fits_def)
      qed
    next
      case False
      then have closed: "fits_in opt envs d2 ?rid s" if "moves ?d1 d2" for d2 s
        using that r1 unfolding fits_in_def moves_def by blast
      have fit: "worker_fits opt envs d' sdx" if m: "moves ?d1 d'" and sub: "sessions sdx \<subseteq> sessions sd1" for sdx
      proof -
        have "fits_in opt envs d' x s" if "(x, s) \<in> sessions sdx" for x s
        proof (cases "x = ?rid")
          case False
          then have "(x, s) \<in> sessions sd" using that sub sticky_decide_others [OF dec] by blast
          then show ?thesis using fits1 fits_in_moves [OF _ m] by (auto simp: worker_fits_def)
        qed (use closed [OF m] in simp)
        then show ?thesis by (auto simp: worker_fits_def)
      qed
      show ?thesis
      proof (cases out)
        case (Inl e)
        then have "sd' = sd1" "d' = ?d1" using h by simp_all
        then show ?thesis using m1 fit [OF _ subset_refl] moves_refl [OF ok1] by simp
      next
        case (Inr x)
        obtain dec w src where x: "x = ((dec, w), src)" by (metis prod.exhaust)
        obtain res1 lost d2 where rec: "record_decision opt clk others task (r_namespace r) wt ?ses dec src ?d1 = (res1, lost, d2)"
          by (rule prod_cases3)
        have out': "sd' = (if lost then invalidate ?rid sd1 else sd1)" "d' = d2" using h by (simp_all add: Inr x rec del: One_nat_def)
        have "run_closed (others 2 ?d1) ?rid"
          using others_moveD [OF others ok1, of 2] r1 False unfolding moves_def run_closed_def by force
        then have m: "moves ?d1 d2"
          using record_decision_fits(1) [OF others ok1 r1 refl _ _ rec] hist by fastforce
        then show ?thesis using moves_trans [OF m1 m] fit [of sd'] out' sessions_invalidate_sub by simp
      qed
    qed
  qed
qed

section \<open>The cache does not show\<close>

text \<open>What a worker reports, without where its decision came from.\<close>

definition unsourced :: "decision_report option \<Rightarrow> decision_report option" where
  "unsourced = map_option (dr_source_update (\<lambda>_. None))"

lemma record_decision_source:
  assumes "record_decision opt clk others task ns wt ses dec src d = (res, lost, d')"
    and "record_decision opt clk others task ns wt ses dec src0 d = (res0, lost0, d0')"
  shows "d0' = d' \<and> map_sum id (dr_source_update (\<lambda>_. None)) res0 = map_sum id (dr_source_update (\<lambda>_. None)) res"
  using assms by (auto simp: record_decision_def Let_def split: sum.splits prod.splits engine_error.splits)

lemma handle_workflow_task_cache:
  assumes others: "others_move others" and ok: "engine_ok d"
    and fits: "worker_fits opt envs d sd" "worker_fits opt envs d sd0"
    and draws: "same_draws (envs (lt_run task)) (tk_env clk (lt_run task))"
    and logs: "log_in_order (map stored (run_events (others 1 (others 0 d)) (lt_run task)))"
    and still: "run_closed (others 1 (others 0 d)) (lt_run task) \<longrightarrow> run_closed (others 0 d) (lt_run task)"
    and run: "handle_workflow_task opt clk others task sd d = (res, sd', d')"
    and run0: "handle_workflow_task opt clk others task sd0 d = (res0, sd0', d0')"
  shows "d0' = d' \<and> map_sum id unsourced res0 = map_sum id unsourced res"
proof -
  let ?rid = "lt_run task" and ?d0 = "others 0 d" and ?d1 = "others 1 (others 0 d)"
  have m0: "moves d ?d0" by (rule others_moveD [OF others ok])
  have m1: "moves d ?d1" by (rule moves_trans [OF m0 others_moveD [OF others moves_engine_ok [OF m0]]])
  note ok1 = moves_engine_ok [OF m1]
  show ?thesis
  proof (cases "\<exists>r wt inp rest code. find_run ?d0 ?rid = Some r \<and> r_status r = RUNNING \<and>
       map stored (run_events ?d1 ?rid) = RunStarted wt inp # rest \<and> ho_workflows opt wt = Some code")
    case False
    from handle_without_deciding [OF ok1 False, of clk] obtain res1 gone d2 where
      "\<forall>sd. handle_workflow_task opt clk others task sd d = (res1, if gone then invalidate ?rid sd else sd, d2)"
      by (elim exE conjE) (rule that)
    then show ?thesis using run run0 by simp
  next
    case True
    then obtain r wt inp rest code where r: "find_run ?d0 ?rid = Some r" "r_status r = RUNNING"
      and hist: "map stored (run_events ?d1 ?rid) = RunStarted wt inp # rest" and code: "ho_workflows opt wt = Some code"
      by (elim exE conjE) (rule that)
    obtain r1 where r1: "find_run ?d1 ?rid = Some r1"
      using others_moveD [OF others moves_engine_ok [OF m0], of 1] r(1) unfolding moves_def by blast
    then have open_run: "r_status r1 = RUNNING" using still r by (simp add: run_closed_def)
    let ?ses = "run_events ?d1 ?rid" and ?env = "task_env clk ?rid (run_events ?d1 ?rid)"
    obtain out sd1 where dec: "sticky_decide (ho_string opt) (ho_enc opt) (ho_threshold opt) (tk_cache_get clk) (tk_cache_set clk)
        ?rid wt (code inp) ?env sd = (out, sd1)" by fastforce
    obtain out0 sd2 where dec0: "sticky_decide (ho_string opt) (ho_enc opt) (ho_threshold opt) (tk_cache_get clk) (tk_cache_set clk)
        ?rid wt (code inp) ?env sd0 = (out0, sd2)" by fastforce
    note h = handle_decides [OF ok1 r hist code, of clk sd, unfolded Let_def dec, unfolded run]
      and h0 = handle_decides [OF ok1 r hist code, of clk sd0, unfolded Let_def dec0, unfolded run0]
    have same: "map_sum id fst out0 = map_sum id fst out"
      using task_decision(1) [OF ok1 r1 open_run hist code worker_fits_moves [OF fits(1) m1] draws logs dec]
        task_decision(1) [OF ok1 r1 open_run hist code worker_fits_moves [OF fits(2) m1] draws logs dec0] by simp
    show ?thesis
    proof (cases out)
      case (Inl e)
      then have "out0 = Inl e" using same by (cases out0) simp_all
      then show ?thesis using h h0 Inl by simp
    next
      case (Inr x)
      obtain dec w src where x: "x = ((dec, w), src)" by (metis prod.exhaust)
      obtain src0 where out0: "out0 = Inr ((dec, w), src0)" using same by (cases out0) (auto simp: Inr x)
      obtain res1 lost d2 where rec: "record_decision opt clk others task (r_namespace r) wt ?ses dec src ?d1 = (res1, lost, d2)"
        by (rule prod_cases3)
      obtain res2 lost0 d3 where rec0: "record_decision opt clk others task (r_namespace r) wt ?ses dec src0 ?d1 = (res2, lost0, d3)"
        by (rule prod_cases3)
      have "res = map_sum id Some res1" "d' = d2" "res0 = map_sum id Some res2" "d0' = d3"
        using h h0 by (simp_all add: Inr x rec out0 rec0 del: One_nat_def)
      with record_decision_source [OF rec rec0] show ?thesis
        by (cases res1; cases res2) (simp_all add: unsourced_def)
    qed
  qed
qed

text \<open>What a worker does over the tables, and what happens to the tables meanwhile.\<close>

inductive worker_reaches ::
    "handler_options \<Rightarrow> (uuid \<Rightarrow> replay_env) \<Rightarrow> sticky_decider \<times> db \<Rightarrow> sticky_decider \<times> db \<Rightarrow> bool"
  for opt envs w where
  worker_starts: "worker_reaches opt envs w w"
| others_commit: "worker_reaches opt envs w (sd, d) \<Longrightarrow> moves d d' \<Longrightarrow> worker_reaches opt envs w (sd, d')"
| task_handled: "worker_reaches opt envs w (sd, d) \<Longrightarrow> others_move others \<Longrightarrow>
    same_draws (envs (lt_run task)) (tk_env clk (lt_run task)) \<Longrightarrow>
    log_in_order (map stored (run_events (others 1 (others 0 d)) (lt_run task))) \<Longrightarrow>
    workflow_task_handler opt clk others task sd d = (hr, rep, sd', d') \<Longrightarrow> worker_reaches opt envs w (sd', d')"
| cache_flushed: "worker_reaches opt envs w (sd, d) \<Longrightarrow> worker_reaches opt envs w (flush sd, d)"

lemma workflow_task_handler_fits:
  assumes "others_move others" and "engine_ok d" and "worker_fits opt envs d sd"
    and "same_draws (envs (lt_run task)) (tk_env clk (lt_run task))"
    and "log_in_order (map stored (run_events (others 1 (others 0 d)) (lt_run task)))"
    and run: "workflow_task_handler opt clk others task sd d = (hr, rep, sd', d')"
  shows "moves d d' \<and> worker_fits opt envs d' sd'"
proof -
  obtain res sd1 d1 where h: "handle_workflow_task opt clk others task sd d = (res, sd1, d1)" by (rule prod_cases3)
  note f = handle_workflow_task_fits [OF assms(1-5) h]
  have "d' = d1" "sd' = sd1 \<or> sd' = invalidate (lt_run task) sd1"
    using run by (auto simp: workflow_task_handler_def h split: sum.splits if_splits)
  with f show ?thesis by (auto simp: worker_fits_def)
qed

lemma worker_reaches_fits:
  assumes "worker_reaches opt envs w w'" and "engine_ok (snd w)" and "worker_fits opt envs (snd w) (fst w)"
  shows "engine_ok (snd w') \<and> worker_fits opt envs (snd w') (fst w')"
  using assms
proof (induction rule: worker_reaches.induct)
  case (others_commit sd d d')
  then show ?case using worker_fits_moves moves_engine_ok by auto
next
  case (task_handled sd d others task clk hr rep sd' d')
  then have "engine_ok d" "worker_fits opt envs d sd" by simp_all
  from workflow_task_handler_fits [OF task_handled.hyps(2) this task_handled.hyps(3-5)] show ?case by (simp add: moves_def)
next
  case (cache_flushed sd d)
  then show ?case by (simp add: worker_fits_def)
qed simp

lemma workflow_task_handler_cache:
  assumes reach: "worker_reaches opt envs (create_sticky_decider c, d0) (sd, d)" and c: "ca_entries c = []" and ok: "engine_ok d0"
    and others: "others_move others" and draws: "same_draws (envs (lt_run task)) (tk_env clk (lt_run task))"
    and logs: "log_in_order (map stored (run_events (others 1 (others 0 d)) (lt_run task)))"
    and still: "run_closed (others 1 (others 0 d)) (lt_run task) \<longrightarrow> run_closed (others 0 d) (lt_run task)"
    and run: "workflow_task_handler opt clk others task sd d = (hr, rep, sd', d')"
    and run0: "workflow_task_handler opt clk others task (create_sticky_decider c) d = (hr0, rep0, sd0', d0')"
  shows "hr0 = hr \<and> unsourced rep0 = unsourced rep \<and> d0' = d'"
proof -
  have none: "worker_fits opt envs x (create_sticky_decider c)" for x
    using c by (simp add: worker_fits_def sessions_def create_sticky_decider_def)
  have inv: "engine_ok d" "worker_fits opt envs d sd" using worker_reaches_fits [OF reach] ok none by simp_all
  obtain res sd1 d1 where h: "handle_workflow_task opt clk others task sd d = (res, sd1, d1)" by (rule prod_cases3)
  obtain res0 sd2 d2 where h0: "handle_workflow_task opt clk others task (create_sticky_decider c) d = (res0, sd2, d2)" by (rule prod_cases3)
  from handle_workflow_task_cache [OF others inv none draws logs still h h0]
  have "d2 = d1" "map_sum id unsourced res0 = map_sum id unsourced res" by simp_all
  then show ?thesis using run run0
    by (cases res; cases res0) (auto simp: workflow_task_handler_def h h0 unsourced_def split: if_splits)
qed

section \<open>Waking the run of a step\<close>

definition workflow_tasks :: "db \<Rightarrow> uuid \<Rightarrow> task_row list" where
  "workflow_tasks d rid = filter (\<lambda>t. t_run t = rid \<and> t_type t = WORKFLOW_TASK) (d_tasks d)"

lemma update_leased_workflow_tasks:
  assumes "\<forall>t \<in> set (workflow_tasks d rid). t_id t \<noteq> tid"
    and "\<And>t. t_run (f t) = t_run t \<and> t_type (f t) = t_type t"
  shows "workflow_tasks (snd (update_leased g f tid token d)) rid = workflow_tasks d rid"
proof -
  have "filter P (map (\<lambda>t. if b t then f t else t) xs) = filter P xs"
    if "\<And>t. P (f t) = P t" "\<And>t. t \<in> set xs \<Longrightarrow> P t \<Longrightarrow> \<not> b t" for P :: "task_row \<Rightarrow> bool" and b xs
    using that(2) by (induction xs) (auto simp: that(1))
  then show ?thesis using assms by (auto simp: workflow_tasks_def update_leased_def holds_lease_def)
qed

lemma ack_workflow_tasks:
  assumes "\<forall>t \<in> set (workflow_tasks d rid). t_id t \<noteq> tid"
  shows "workflow_tasks (snd (ack now tid token d)) rid = workflow_tasks d rid"
  unfolding ack_def by (rule update_leased_workflow_tasks [OF assms]) simp

lemma record_step_result_tasks:
  assumes "record_step_result now rid sid key out d = Inr (x, d')"
  shows "d_tasks d' = d_tasks d"
proof -
  obtain b o' where x: "x = (b, o')" by (cases x)
  with assms show ?thesis
    by (auto simp: record_step_result_def append_at_current_def andThen_Inr_iff split: sum.splits option.splits if_splits
        dest!: append_events_frame(3))
qed

lemma record_failure_tasks:
  assumes "record_failure now rid sid attempt e retry_at d = Inr (x, d')"
  shows "d_tasks d' = d_tasks d"
  using assms by (auto simp: record_failure_def append_at_current_def andThen_Inr_iff split: sum.splits if_splits
      dest!: append_events_frame(3))

text \<open>Others who leave the workflow tasks of a run as they are.\<close>

definition others_let_sleep :: "uuid \<Rightarrow> (nat \<Rightarrow> db \<Rightarrow> db) \<Rightarrow> bool" where
  "others_let_sleep rid others \<longleftrightarrow> (\<forall>k d. workflow_tasks (others k d) rid = workflow_tasks d rid)"

lemma dead_letter_workflow_tasks:
  assumes "add_and_ack now clock i tid token
      (andThen (record_step_result now rid sid key out) (\<lambda>_. ret ())) d = Inr (Some lid, d')"
    and "\<forall>t \<in> set (workflow_tasks d x). t_id t \<noteq> tid"
  shows "workflow_tasks d' x = workflow_tasks d x"
proof -
  obtain y d1 d2 where steps: "record_step_result now rid sid key out d = Inr (y, d1)"
      "ack clock tid token d1 = (True, d2)" "insert_dead_letter now i d2 = Inr (lid, d')"
    using assms(1) by (auto simp: add_and_ack_def andThen_Inr_iff split: sum.splits prod.splits bool.splits)
  have "workflow_tasks d1 x = workflow_tasks d x" using record_step_result_tasks [OF steps(1)] by (simp add: workflow_tasks_def)
  moreover have "workflow_tasks d2 x = workflow_tasks d1 x"
    using ack_workflow_tasks [of d1 x tid clock token] assms(2) steps(2) calculation by simp
  moreover have "workflow_tasks d' x = workflow_tasks d2 x"
    using steps(3) by (auto simp: insert_dead_letter_def workflow_tasks_def split: option.splits if_splits)
  ultimately show ?thesis by simp
qed

lemma step_failed_dead_letter:
  assumes run: "step_failed env others task sid attempt failed policy reason d = (Some (Inr (DeadLettered n lid)), d')"
    and others: "others_let_sleep x others" and other_task: "\<forall>t \<in> set (workflow_tasks d x). t_id t \<noteq> lt_id task"
  shows "workflow_tasks d' x = workflow_tasks d x"
proof -
  note sleep = others [unfolded others_let_sleep_def, rule_format]
  define e where "e = serialize_error (pe_encode env) reason"
  obtain y d1 where rec: "record_failure (pe_now env) (lt_run task) sid attempt e
      (case decide_retry policy failed e (pe_draw env) of RetryAfter ms \<Rightarrow> Some (pe_clock env + ms) | GiveUp _ \<Rightarrow> None) (others 4 d) = Inr (y, d1)"
    using run by (auto simp: step_failed_def Let_def e_def split: if_splits sum.splits prod.splits)
  have d1: "workflow_tasks (others 5 d1) x = workflow_tasks d x"
    using record_failure_tasks [OF rec] sleep by (simp add: workflow_tasks_def)
  have "decide_retry policy failed e (pe_draw env) = GiveUp MAX_ATTEMPTS_EXHAUSTED"
    using run rec by (auto simp: step_failed_def Let_def e_def split: if_splits sum.splits prod.splits retry_decision.splits give_up_reason.splits)
  with run rec obtain i where "add_and_ack (pe_now env) (pe_clock env) i (lt_id task) (lt_lease_token task)
      (andThen (record_step_result (pe_now env) (lt_run task) sid (attempt_key attempt) (OutcomeFailed e True)) (\<lambda>_. ret ()))
      (others 5 d1) = Inr (Some lid, d')"
    by (auto simp: step_failed_def Let_def e_def split: if_splits sum.splits prod.splits option.splits)
  from dead_letter_workflow_tasks [OF this] d1 other_task show ?thesis by simp
qed

lemma process_dead_letter:
  assumes run: "process_step_task env others task d = (Some (Inr (DeadLettered n lid)), d')"
    and others: "others_let_sleep x others" and other_task: "\<forall>t \<in> set (workflow_tasks d x). t_id t \<noteq> lt_id task"
  shows "workflow_tasks d' x = workflow_tasks d x"
proof -
  note sleep = others [unfolded others_let_sleep_def, rule_format]
  have failed: "workflow_tasks d' x = workflow_tasks d2 x" if "workflow_tasks d2 x = workflow_tasks d x"
      "step_failed env others task sid attempt k policy reason d2 = (Some (Inr (DeadLettered n lid)), d')" for d2 sid attempt k policy reason
    using step_failed_dead_letter [OF that(2) others] that(1) other_task by simp
  show ?thesis using run
    by (auto simp: process_step_task_def Let_def sleep split: sum.splits prod.splits if_splits option.splits dest!: failed [rotated])
qed

section \<open>A decision that comes too late\<close>

lemma record_superseded:
  assumes "\<not> run_closed (others 2 d) (lt_run task)" and "find_task_result (others 2 d) (lt_run task) (show_nat (lt_id task)) = None"
    and "list_all event_valid (map command_to_event (de_commands dec))" and "stored_events \<noteq> []"
    and "read_current_sequence (others 2 d) (lt_run task) \<noteq> sequence_number (last stored_events)"
  shows "record_decision opt clk others task ns wt stored_events dec src d =
     (Inr \<lparr>dr_run = lt_run task, dr_workflow_type = wt, dr_outcome = ''superseded'', dr_recorded = 0, dr_source = None\<rparr>, True, others 2 d)"
proof -
  have "parse_events (map command_to_event (de_commands dec)) = Inr (map command_to_event (de_commands dec))"
    using assms(3) by (simp add: parse_events_Inr list_all_iff)
  then have "record_workflow_task_result (Some (ho_queue opt)) (tk_record clk) (tk_now clk) (lt_run task) (show_nat (lt_id task))
      (sequence_number (last stored_events)) (map command_to_event (de_commands dec)) (others 2 d) =
    Inl (ConcurrencyError (lt_run task) (sequence_number (last stored_events)) (Some (read_current_sequence (others 2 d) (lt_run task))))"
    using assms(1,2,5) by (simp add: record_workflow_task_result_def andThen_def append_events_on_client_def)
  moreover have "(case stored_events of [] \<Rightarrow> 0 | _ \<Rightarrow> sequence_number (last stored_events)) = sequence_number (last stored_events)"
    using assms(4) by (cases stored_events) simp_all
  ultimately show ?thesis by (simp add: record_decision_def Let_def)
qed

lemma record_failure_sequence:
  assumes ok: "engine_ok d" and r: "find_run d rid = Some r" "r_status r = RUNNING"
    and fail: "record_failure now rid sid attempt e retry_at d = Inr (True, d')"
  shows "engine_ok d'" and "find_run d' rid = Some r" and "read_current_sequence d' rid = Suc (read_current_sequence d rid)"
    and "d_tasks d' = d_tasks d" and "d_task_results d' = d_task_results d"
proof -
  obtain ev new where ap: "append_at_current now rid [ev] (d\<lparr>d_attempts := d_attempts d @
      [\<lparr>at_run = rid, at_step = sid, at_attempt = attempt, at_error = e, at_retry_at = retry_at\<rparr>]\<rparr>) = Inr (new, d')"
    using fail by (auto simp: record_failure_def andThen_Inr_iff split: sum.splits if_splits)
  note i = append_events_Inr [OF ap [unfolded append_at_current_def]] and f = append_events_frame [OF ap [unfolded append_at_current_def]]
  show ok': "engine_ok d'" using record_failure_step [OF ok fail] r by blast
  show "find_run d' rid = Some r" using f(11) [of rid] r by (simp add: find_run_def)
  show "d_tasks d' = d_tasks d" "d_task_results d' = d_task_results d" using f(3,5) by simp_all
  have log: "log_ok d" "log_ok d'" using ok ok' by (simp_all add: engine_ok_def runs_ok_def)
  have "run_events d' rid = run_events d rid @ new" "snapshot_seq d' rid = snapshot_seq d rid"
    using i(4) [of rid] f(12) [of rid] by (simp_all add: run_events_def snapshot_seq_def find_snapshot_def)
  moreover have "length new = 1" using i(2) by simp
  ultimately show "read_current_sequence d' rid = Suc (read_current_sequence d rid)"
    using read_current_sequence_ok [OF log(1), of rid] read_current_sequence_ok [OF log(2), of rid] by simp
qed

lemma handler_superseded:
  assumes ok: "engine_ok d" and r: "find_run d (lt_run task) = Some r" "r_status r = RUNNING"
    and hist: "map stored (run_events d (lt_run task)) = RunStarted wt inp # rest" and code: "ho_workflows opt wt = Some code"
    and dec: "fst (sticky_decide (ho_string opt) (ho_enc opt) (ho_threshold opt) (tk_cache_get clk) (tk_cache_set clk)
        (lt_run task) wt (code inp) (task_env clk (lt_run task) (run_events d (lt_run task))) sd) = Inr ((dec, w), src)"
    and valid: "list_all event_valid (map command_to_event (de_commands dec))"
    and key: "find_task_result d (lt_run task) (show_nat (lt_id task)) = None"
    and fail: "record_failure now (lt_run task) sid attempt e retry_at d = Inr (True, d2)"
    and others: "others 0 d = d" "others 1 d = d" "others 2 d = d2"
  shows "\<exists>sd'. workflow_task_handler opt clk others task sd d =
     (HandlerDone, Some \<lparr>dr_run = lt_run task, dr_workflow_type = wt, dr_outcome = ''superseded'', dr_recorded = 0, dr_source = None\<rparr>, sd', d2)"
proof -
  note f = record_failure_sequence [OF ok r fail]
  have log: "log_ok d" using ok by (simp add: engine_ok_def runs_ok_def)
  have ne: "run_events d (lt_run task) \<noteq> []" using hist by auto
  have "sequence_number (last (run_events d (lt_run task))) = read_current_sequence d (lt_run task)"
    using log ne read_current_sequence_ok [OF log, of "lt_run task"] by (auto simp: log_ok_def intro: consecutive_last)
  then have late: "read_current_sequence d2 (lt_run task) \<noteq> sequence_number (last (run_events d (lt_run task)))" using f(3) by simp
  have rec: "record_decision opt clk others task (r_namespace r) wt (run_events d (lt_run task)) dec src d =
     (Inr \<lparr>dr_run = lt_run task, dr_workflow_type = wt, dr_outcome = ''superseded'', dr_recorded = 0, dr_source = None\<rparr>, True, d2)"
    using record_superseded [of others d task dec "run_events d (lt_run task)" opt clk "r_namespace r" wt src] f(2,5) r(2) key valid ne late
    by (simp add: others run_closed_def find_task_result_def)
  obtain sd1 where dec1: "sticky_decide (ho_string opt) (ho_enc opt) (ho_threshold opt) (tk_cache_get clk) (tk_cache_set clk)
        (lt_run task) wt (code inp) (task_env clk (lt_run task) (run_events d (lt_run task))) sd = (Inr ((dec, w), src), sd1)"
    using dec by (metis prod.collapse)
  have "handle_workflow_task opt clk others task sd d =
      (Inr (Some \<lparr>dr_run = lt_run task, dr_workflow_type = wt, dr_outcome = ''superseded'', dr_recorded = 0, dr_source = None\<rparr>),
       invalidate (lt_run task) sd1, d2)"
    using handle_decides [of others d task r wt inp rest opt code clk sd] ok r hist code
    by (simp add: others Let_def dec1 rec del: One_nat_def)
  then show ?thesis by (simp add: workflow_task_handler_def)
qed

end
