(* ===== verification/Worker.thy ===== *)
theory Worker
  imports TaskQueue "HOL-Library.AList"
begin

text \<open>
  The polling worker (\<open>packages/worker/src/worker.ts\<close>, \<open>backpressure.ts\<close>, \<open>shutdown.ts\<close>): it leases tasks, runs the
  handler of each, renews the leases and settles them, and drops what is left at its shutdown timeout.

  The worker is one JavaScript thread: what runs between two \<open>await\<close>s is one step here, and a call to the queue
  is a step of its own between the asking and the answer. The handlers, the timers and the callers
  choose the order of the steps.
\<close>

section \<open>Options\<close>

record nack_backoff =
  nb_initial :: int
  nb_max :: int

definition nack_delay_for :: "nat \<Rightarrow> nack_backoff \<Rightarrow> int" where
  "nack_delay_for attempts backoff =
     (let doublings = min (max (int attempts - 1) 0) 30 in min (nb_max backoff) (nb_initial backoff * 2 ^ nat doublings))"

text \<open>The numbers a caller may give (\<open>WorkerOptions\<close>), and the options after the defaults (\<open>ResolvedOptions\<close>).\<close>

record worker_numbers =
  wi_concurrency :: "jsnum option"
  wi_poll :: "jsnum option"
  wi_max_poll :: "jsnum option"
  wi_visibility :: "jsnum option"
  wi_heartbeat :: "jsnum option"
  wi_shutdown :: "jsnum option"
  wi_grace :: "jsnum option"
  wi_nack_delay :: "jsnum option"
  wi_backoff :: "(jsnum \<times> jsnum) option"
  wi_max_attempts :: "jsnum option"

record worker_config =
  wc_queue :: string
  wc_identity :: "(string \<times> string) option"
  wc_sticky :: bool
  wc_concurrency :: int
  wc_poll :: int
  wc_max_poll :: int
  wc_visibility :: int
  wc_heartbeat :: int
  wc_shutdown :: int
  wc_grace :: int
  wc_nack_delay :: int
  wc_backoff :: "nack_backoff option"
  wc_max_attempts :: int

definition is_integer_num :: "jsnum \<Rightarrow> bool" where
  "is_integer_num n \<longleftrightarrow> is_finite_num n \<and> of_int \<lfloor>num_value n\<rfloor> = num_value n"

definition require_positive_integer :: "string \<Rightarrow> jsnum \<Rightarrow> engine_error + int" where
  "require_positive_integer name v =
     (if \<not> is_integer_num v \<or> num_value v \<le> 0 then Inl (RangeError name) else Inr \<lfloor>num_value v\<rfloor>)"

definition require_non_negative_integer :: "string \<Rightarrow> jsnum \<Rightarrow> engine_error + int" where
  "require_non_negative_integer name v =
     (if \<not> is_integer_num v \<or> num_value v < 0 then Inl (RangeError name) else Inr \<lfloor>num_value v\<rfloor>)"

definition or_throw :: "('e + 'a) \<Rightarrow> ('a \<Rightarrow> 'e + 'b) \<Rightarrow> 'e + 'b" where
  "or_throw r f = (case r of Inl e \<Rightarrow> Inl e | Inr x \<Rightarrow> f x)"

definition resolve_options :: "string \<Rightarrow> (string \<times> string) option \<Rightarrow> bool option \<Rightarrow> worker_numbers \<Rightarrow> engine_error + worker_config" where
  "resolve_options q identity sticky wi =
     or_throw (require_positive_integer ''pollIntervalMs'' (optional (wi_poll wi) (Fin 1000))) (\<lambda>poll.
     or_throw (require_positive_integer ''visibilityTimeoutMs'' (optional (wi_visibility wi) (Fin 30000))) (\<lambda>visibility.
     or_throw (require_positive_integer ''heartbeatIntervalMs''
         (optional (wi_heartbeat wi) (Fin (of_int (max 1 (visibility div 3)))))) (\<lambda>heartbeat.
     if visibility \<le> heartbeat then Inl (RangeError ''heartbeatIntervalMs must be shorter than visibilityTimeoutMs'')
     else
     or_throw (require_positive_integer ''maxPollIntervalMs'' (optional (wi_max_poll wi) (Fin (of_int (poll * 10))))) (\<lambda>max_poll.
     if max_poll < poll then Inl (RangeError ''maxPollIntervalMs must not be shorter than pollIntervalMs'')
     else
     or_throw (require_positive_integer ''concurrency'' (optional (wi_concurrency wi) (Fin 1))) (\<lambda>concurrency.
     or_throw (require_positive_integer ''shutdownTimeoutMs'' (optional (wi_shutdown wi) (Fin 30000))) (\<lambda>shutdown.
     or_throw (require_non_negative_integer ''abortGraceMs'' (optional (wi_grace wi) (Fin 1000))) (\<lambda>grace.
     or_throw (require_non_negative_integer ''nackDelayMs'' (optional (wi_nack_delay wi) (Fin 0))) (\<lambda>nack_delay.
     or_throw (case wi_backoff wi of None \<Rightarrow> Inr None
         | Some (i, m) \<Rightarrow>
             or_throw (require_positive_integer ''nackBackoff.initialMs'' i) (\<lambda>i.
             or_throw (require_positive_integer ''nackBackoff.maxMs'' m) (\<lambda>m. Inr (Some \<lparr>nb_initial = i, nb_max = m\<rparr>)))) (\<lambda>backoff.
     or_throw (require_positive_integer ''maxHandlerAttempts'' (optional (wi_max_attempts wi) (Fin 10))) (\<lambda>max_attempts.
     Inr \<lparr>wc_queue = q, wc_identity = identity, wc_sticky = optional sticky False, wc_concurrency = concurrency, wc_poll = poll,
       wc_max_poll = max_poll, wc_visibility = visibility, wc_heartbeat = heartbeat, wc_shutdown = shutdown, wc_grace = grace,
       wc_nack_delay = nack_delay, wc_backoff = backoff, wc_max_attempts = max_attempts\<rparr>))))))))))"

section \<open>The worker\<close>

datatype worker_phase = WorkerIdle | WorkerRunning | WorkerStopping | WorkerStopped

datatype abort_reason = LeaseLostError | ShutdownTimeoutError

datatype task_failure = ParkTaskError string | OtherError string

text \<open>A call that settles a task, and how far the promise of a running task is.\<close>

datatype settle_call = AckCall | NackCall int | QuarantineCall string

datatype execution =
    Handling
  | Settling bool settle_call
  | Answering bool bool
  | Finished

text \<open>A heartbeat waits for its timer, asks the queue, or has the answer; \<open>None\<close> is a call that threw.\<close>

datatype heartbeat = NoHeartbeat | HeartbeatScheduled | HeartbeatAsking | HeartbeatAnswered "bool option"

record running_task =
  rt_task :: leased_task
  rt_aborted :: "abort_reason option"
  rt_heartbeat :: heartbeat
  rt_confirmed_at :: time
  rt_finished :: bool
  rt_dropped :: bool
  rt_done :: execution

datatype poll_state =
    PollReady
  | PollAsking int
  | PollAnswered "leased_task list"
  | PollWaiting bool
  | PollReleasing "leased_task list"
  | PollEnded

text \<open>\<open>shutDown\<close>: joining the loop, waiting for the running tasks, dropping the stragglers, done.\<close>

datatype shutdown_state =
    NotAsked
  | JoiningLoop
  | Draining "nat list"
  | Dropping "nat list" nat nat
  | StopResult nat nat

text \<open>
  \<open>ws_running\<close> holds every task the worker launched, each named by its place there; \<open>ws_in_flight\<close> is the map
  \<open>inFlight\<close> from task ids. \<open>ws_settled\<close> is what \<open>onTaskSettled\<close> was told.
\<close>

record worker =
  ws_phase :: worker_phase
  ws_poll :: poll_state
  ws_delay :: int
  ws_running :: "running_task list"
  ws_in_flight :: "(uuid \<times> nat) list"
  ws_shutdown :: shutdown_state
  ws_settled :: "(uuid \<times> bool \<times> rat) list"

definition create_worker :: "worker_config \<Rightarrow> worker" where
  "create_worker cfg =
     \<lparr>ws_phase = WorkerIdle, ws_poll = PollEnded, ws_delay = wc_poll cfg, ws_running = [], ws_in_flight = [],
      ws_shutdown = NotAsked, ws_settled = []\<rparr>"

definition active_count :: "worker \<Rightarrow> nat" where
  "active_count w = length (ws_in_flight w)"

definition start_worker :: "worker_config \<Rightarrow> worker \<Rightarrow> engine_error + worker" where
  "start_worker cfg w =
     (if ws_phase w \<noteq> WorkerIdle then Inl (UsageError ''worker was already started'')
      else Inr (w\<lparr>ws_phase := WorkerRunning, ws_poll := PollReady, ws_delay := wc_poll cfg\<rparr>))"

definition change_running :: "nat \<Rightarrow> (running_task \<Rightarrow> running_task) \<Rightarrow> worker \<Rightarrow> worker" where
  "change_running i f w = w\<lparr>ws_running := (ws_running w)[i := f (ws_running w ! i)]\<rparr>"

text \<open>\<open>Map.set\<close> and \<open>Map.delete\<close> of \<open>inFlight\<close>.\<close>

definition set_in_flight :: "uuid \<Rightarrow> nat \<Rightarrow> worker \<Rightarrow> worker" where
  "set_in_flight tid i w = w\<lparr>ws_in_flight := AList.update tid i (ws_in_flight w)\<rparr>"

definition delete_in_flight :: "uuid \<Rightarrow> worker \<Rightarrow> worker" where
  "delete_in_flight tid w = w\<lparr>ws_in_flight := AList.delete tid (ws_in_flight w)\<rparr>"

text \<open>\<open>wake?.()\<close>: a loop that waits goes on; after the wait of an empty poll the next one is longer.\<close>

definition wake :: "worker_config \<Rightarrow> worker \<Rightarrow> worker" where
  "wake cfg w =
     (case ws_poll w of
        PollWaiting timed \<Rightarrow>
          w\<lparr>ws_poll := PollReady, ws_delay := (if timed then min (ws_delay w * 2) (wc_max_poll cfg) else ws_delay w)\<rparr>
      | _ \<Rightarrow> w)"

section \<open>Running tasks\<close>

definition stop_heartbeat :: "running_task \<Rightarrow> running_task" where
  "stop_heartbeat r =
     r\<lparr>rt_finished := True, rt_heartbeat := (if rt_heartbeat r = HeartbeatScheduled then NoHeartbeat else rt_heartbeat r)\<rparr>"

definition launch :: "time \<Rightarrow> leased_task \<Rightarrow> worker \<Rightarrow> worker" where
  "launch clock task w =
     set_in_flight (lt_id task) (length (ws_running w))
       (w\<lparr>ws_running := ws_running w @ [\<lparr>rt_task = task, rt_aborted = None, rt_heartbeat = HeartbeatScheduled,
          rt_confirmed_at = clock, rt_finished = False, rt_dropped = False, rt_done = Handling\<rparr>]\<rparr>)"

text \<open>\<open>settleFailure\<close> and the choice of \<open>settle\<close>.\<close>

definition settle_failure :: "worker_config \<Rightarrow> leased_task \<Rightarrow> task_failure \<Rightarrow> settle_call" where
  "settle_failure cfg task e =
     (case e of
        ParkTaskError m \<Rightarrow> QuarantineCall m
      | OtherError m \<Rightarrow>
          if wc_max_attempts cfg \<le> int (lt_attempts task)
          then QuarantineCall (''handler failed '' @ show_nat (lt_attempts task) @ '' times: '' @ m)
          else NackCall (case wc_backoff cfg of None \<Rightarrow> wc_nack_delay cfg | Some b \<Rightarrow> nack_delay_for (lt_attempts task) b))"

definition settle_with :: "worker_config \<Rightarrow> leased_task \<Rightarrow> task_failure option \<Rightarrow> settle_call" where
  "settle_with cfg task failure = (case failure of None \<Rightarrow> AckCall | Some e \<Rightarrow> settle_failure cfg task e)"

text \<open>What \<open>execute\<close> does after the task is settled.\<close>

definition leave_flight :: "worker_config \<Rightarrow> nat \<Rightarrow> worker \<Rightarrow> worker" where
  "leave_flight cfg i w =
     wake cfg (delete_in_flight (lt_id (rt_task (ws_running w ! i))) (change_running i (\<lambda>r. r\<lparr>rt_done := Finished\<rparr>) w))"

text \<open>The handler settles: nothing more is done for a task that was dropped or aborted.\<close>

definition handler_ends :: "worker_config \<Rightarrow> nat \<Rightarrow> task_failure option \<Rightarrow> worker \<Rightarrow> worker" where
  "handler_ends cfg i failure w =
     (let running = ws_running w ! i; w1 = change_running i stop_heartbeat w in
      if rt_dropped running \<or> rt_aborted running \<noteq> None then leave_flight cfg i w1
      else change_running i (\<lambda>r. r\<lparr>rt_done := Settling (failure \<noteq> None) (settle_with cfg (rt_task running) failure)\<rparr>) w1)"

definition run_settle_call :: "time \<Rightarrow> leased_task \<Rightarrow> settle_call \<Rightarrow> (engine_error, db, bool) tx" where
  "run_settle_call now task c = (\<lambda>d.
     case c of
       AckCall \<Rightarrow> Inr (ack now (lt_id task) (lt_lease_token task) d)
     | NackCall delay \<Rightarrow> nack now (lt_id task) (lt_lease_token task) delay d
     | QuarantineCall m \<Rightarrow> Inr (quarantine now m (lt_id task) (lt_lease_token task) d))"

text \<open>
  A call to the queue: \<open>reached\<close> whether the statement was executed, \<open>answered\<close> whether its answer came back. An
  answer that did not come back, or an error, is a rejected promise.
\<close>

definition call_queue :: "bool \<Rightarrow> bool \<Rightarrow> (engine_error, db, 'a) tx \<Rightarrow> db \<Rightarrow> 'a option \<times> db" where
  "call_queue reached answered op d =
     (if reached then (case op d of Inl _ \<Rightarrow> (None, d) | Inr (x, d') \<Rightarrow> (if answered then Some x else None, d')) else (None, d))"

definition settle_calls :: "nat \<Rightarrow> time \<Rightarrow> bool \<Rightarrow> bool \<Rightarrow> bool \<Rightarrow> settle_call \<Rightarrow> worker \<times> db \<Rightarrow> worker \<times> db" where
  "settle_calls i now reached answered failed c = (\<lambda>(w, d).
     (case call_queue reached answered (run_settle_call now (rt_task (ws_running w ! i)) c) d of
        (res, d') \<Rightarrow> (change_running i (\<lambda>r. r\<lparr>rt_done := Answering failed (res \<noteq> None)\<rparr>) w, d')))"

definition settle_returns :: "worker_config \<Rightarrow> nat \<Rightarrow> time \<Rightarrow> bool \<Rightarrow> bool \<Rightarrow> worker \<Rightarrow> worker" where
  "settle_returns cfg i clock failed resolved w =
     (let task = rt_task (ws_running w ! i);
          w1 = (if resolved
                then w\<lparr>ws_settled := ws_settled w @ [(lt_id task, failed, of_int (clock - lt_visible_at task) / 1000)]\<rparr> else w)
      in leave_flight cfg i w1)"

section \<open>Heartbeats\<close>

definition beat_asks :: "nat \<Rightarrow> worker \<Rightarrow> worker" where
  "beat_asks i w = change_running i (\<lambda>r. r\<lparr>rt_heartbeat := HeartbeatAsking\<rparr>) w"

definition beat_calls :: "worker_config \<Rightarrow> nat \<Rightarrow> time \<Rightarrow> bool \<Rightarrow> bool \<Rightarrow> worker \<times> db \<Rightarrow> worker \<times> db" where
  "beat_calls cfg i now reached answered = (\<lambda>(w, d).
     let task = rt_task (ws_running w ! i) in
     (case call_queue reached answered (extend_lease now (lt_id task) (lt_lease_token task) (wc_visibility cfg)) d of
        (held, d') \<Rightarrow> (change_running i (\<lambda>r. r\<lparr>rt_heartbeat := HeartbeatAnswered held\<rparr>) w, d')))"

definition beat_returns :: "worker_config \<Rightarrow> time \<Rightarrow> bool option \<Rightarrow> running_task \<Rightarrow> running_task" where
  "beat_returns cfg clock answer r =
     (let lease_held = (case answer of Some b \<Rightarrow> b | None \<Rightarrow> clock - rt_confirmed_at r < wc_visibility cfg);
          r1 = r\<lparr>rt_heartbeat := NoHeartbeat, rt_confirmed_at := (if answer = Some True then clock else rt_confirmed_at r)\<rparr> in
      if rt_finished r1 then r1
      else if \<not> lease_held
      then r1\<lparr>rt_finished := True, rt_aborted := (case rt_aborted r1 of None \<Rightarrow> Some LeaseLostError | a \<Rightarrow> a)\<rparr>
      else r1\<lparr>rt_heartbeat := HeartbeatScheduled\<rparr>)"

section \<open>The poll loop\<close>

datatype budget_reply = NoBudget | BudgetThrew | Budget jsnum

text \<open>A budget that is not a number polls nothing, since \<open>NaN > 0\<close> is false.\<close>

definition resolve_budget :: "int \<Rightarrow> budget_reply \<Rightarrow> int" where
  "resolve_budget free reply =
     (case reply of
        NoBudget \<Rightarrow> free | BudgetThrew \<Rightarrow> free
      | Budget n \<Rightarrow>
          (case n of NaN \<Rightarrow> 0 | Infinite positive \<Rightarrow> (if positive then max 0 free else 0)
           | _ \<Rightarrow> max 0 (min free \<lfloor>num_value n\<rfloor>)))"

definition poll_options :: "worker_config \<Rightarrow> int \<Rightarrow> dequeue_options" where
  "poll_options cfg budget =
     \<lparr>dq_queue = wc_queue cfg, dq_visibility_timeout = wc_visibility cfg, dq_limit = Some budget,
      dq_worker = map_option fst (wc_identity cfg), dq_version = map_option snd (wc_identity cfg),
      dq_sticky_for = (if wc_sticky cfg then map_option fst (wc_identity cfg) else None)\<rparr>"

definition poll_begins :: "worker_config \<Rightarrow> budget_reply \<Rightarrow> worker \<Rightarrow> worker" where
  "poll_begins cfg reply w =
     (if ws_phase w \<noteq> WorkerRunning then w\<lparr>ws_poll := PollEnded\<rparr>
      else
        let free = wc_concurrency cfg - int (active_count w) in
        if free \<le> 0 then w\<lparr>ws_poll := PollWaiting False\<rparr>
        else let budget = resolve_budget free reply in
          w\<lparr>ws_poll := (if 0 < budget then PollAsking budget else PollAnswered [])\<rparr>)"

definition poll_calls :: "worker_config \<Rightarrow> nat \<Rightarrow> time \<Rightarrow> bool \<Rightarrow> bool \<Rightarrow> int \<Rightarrow> worker \<times> db \<Rightarrow> worker \<times> db" where
  "poll_calls cfg threshold now reached answered budget = (\<lambda>(w, d).
     (case call_queue reached answered (dequeue threshold now (poll_options cfg budget)) d of
        (tasks, d') \<Rightarrow> (w\<lparr>ws_poll := PollAnswered (optional tasks [])\<rparr>, d')))"

definition poll_returns :: "worker_config \<Rightarrow> time \<Rightarrow> leased_task list \<Rightarrow> worker \<Rightarrow> worker" where
  "poll_returns cfg clock tasks w =
     (if ws_phase w \<noteq> WorkerRunning then w\<lparr>ws_poll := PollReleasing tasks\<rparr>
      else if tasks \<noteq> [] then fold (launch clock) tasks (w\<lparr>ws_poll := PollReady, ws_delay := wc_poll cfg\<rparr>)
      else w\<lparr>ws_poll := PollWaiting True\<rparr>)"

text \<open>\<open>releaseUnstarted\<close>, one task at a time.\<close>

definition release_unstarted :: "time \<Rightarrow> bool \<Rightarrow> leased_task list \<Rightarrow> worker \<times> db \<Rightarrow> worker \<times> db" where
  "release_unstarted now reached tasks = (\<lambda>(w, d).
     case tasks of
       [] \<Rightarrow> (w\<lparr>ws_poll := PollEnded\<rparr>, d)
     | t # ts \<Rightarrow> (w\<lparr>ws_poll := PollReleasing ts\<rparr>, snd (call_queue reached True (nack now (lt_id t) (lt_lease_token t) 0) d)))"

section \<open>Shutdown\<close>

definition stop_asked :: "worker_config \<Rightarrow> worker \<Rightarrow> worker" where
  "stop_asked cfg w =
     (if ws_shutdown w \<noteq> NotAsked then w
      else wake cfg (w\<lparr>ws_phase := WorkerStopping, ws_shutdown := JoiningLoop\<rparr>))"

definition loop_joined :: "worker \<Rightarrow> worker" where
  "loop_joined w = w\<lparr>ws_shutdown := Draining (map snd (ws_in_flight w))\<rparr>"

definition stopped_with :: "nat \<Rightarrow> nat \<Rightarrow> worker \<Rightarrow> worker" where
  "stopped_with completed dropped w = w\<lparr>ws_phase := WorkerStopped, ws_shutdown := StopResult completed dropped\<rparr>"

definition all_settled :: "nat list \<Rightarrow> worker \<Rightarrow> worker" where
  "all_settled running w = stopped_with (length running) 0 w"

definition drop_begins :: "nat \<Rightarrow> worker \<Rightarrow> worker" where
  "drop_begins i w =
     change_running i (\<lambda>r. (stop_heartbeat r)\<lparr>rt_dropped := True,
       rt_aborted := (case rt_aborted r of None \<Rightarrow> Some ShutdownTimeoutError | a \<Rightarrow> a)\<rparr>) w"

definition deadline_elapsed :: "nat list \<Rightarrow> worker \<Rightarrow> worker" where
  "deadline_elapsed running w =
     (let stragglers = filter (\<lambda>i. map_of (ws_in_flight w) (lt_id (rt_task (ws_running w ! i))) \<noteq> None) running in
      if stragglers = [] then stopped_with (length running) 0 w
      else (fold drop_begins stragglers w)\<lparr>ws_shutdown := Dropping stragglers (length running - length stragglers) (length stragglers)\<rparr>)"

definition drop_ends :: "nat \<Rightarrow> time \<Rightarrow> bool \<Rightarrow> nat list \<Rightarrow> nat \<Rightarrow> nat \<Rightarrow> worker \<times> db \<Rightarrow> worker \<times> db" where
  "drop_ends i now reached pending completed dropped = (\<lambda>(w, d).
     let task = rt_task (ws_running w ! i);
         d' = snd (call_queue reached True (nack now (lt_id task) (lt_lease_token task) 0) d);
         w1 = delete_in_flight (lt_id task) w; left = remove1 i pending
     in (if left = [] then stopped_with completed dropped w1 else w1\<lparr>ws_shutdown := Dropping left completed dropped\<rparr>, d'))"

text \<open>The exit code of \<open>installShutdownHandlers\<close>, once the worker has stopped.\<close>

definition exit_code :: "worker \<Rightarrow> nat option" where
  "exit_code w = (case ws_shutdown w of StopResult _ dropped \<Rightarrow> Some (if dropped = 0 then 0 else 1) | _ \<Rightarrow> None)"

section \<open>The steps in any order\<close>

datatype worker_event =
    StartCalled
  | StopCalled
  | PollBegins budget_reply
  | PollCalls time bool bool
  | PollReturns time
  | PollTimer
  | Releases time bool
  | HandlerEnds nat "task_failure option"
  | SettleCalls nat time bool bool
  | SettleReturns nat time
  | BeatAsks nat
  | BeatCalls nat time bool bool
  | BeatReturns nat time
  | LoopJoined
  | AllSettled
  | DeadlineElapsed
  | DropEnds nat time bool
  | OthersCommit "db \<Rightarrow> db"

definition known :: "nat \<Rightarrow> worker \<Rightarrow> bool" where
  "known i w \<longleftrightarrow> i < length (ws_running w)"

text \<open>\<open>None\<close>: the event cannot happen in this state.\<close>

fun worker_step :: "worker_config \<Rightarrow> nat \<Rightarrow> worker_event \<Rightarrow> worker \<times> db \<Rightarrow> (worker \<times> db) option" where
  "worker_step cfg th StartCalled (w, d) = Some (case start_worker cfg w of Inl _ \<Rightarrow> w | Inr w' \<Rightarrow> w', d)"
| "worker_step cfg th StopCalled (w, d) = Some (stop_asked cfg w, d)"
| "worker_step cfg th (PollBegins reply) (w, d) = (if ws_poll w = PollReady then Some (poll_begins cfg reply w, d) else None)"
| "worker_step cfg th (PollCalls now reached answered) (w, d) =
     (case ws_poll w of PollAsking n \<Rightarrow> Some (poll_calls cfg th now reached answered n (w, d)) | _ \<Rightarrow> None)"
| "worker_step cfg th (PollReturns clock) (w, d) =
     (case ws_poll w of PollAnswered ts \<Rightarrow> Some (poll_returns cfg clock ts w, d) | _ \<Rightarrow> None)"
| "worker_step cfg th PollTimer (w, d) = (if ws_poll w = PollWaiting True then Some (wake cfg w, d) else None)"
| "worker_step cfg th (Releases now reached) (w, d) =
     (case ws_poll w of PollReleasing ts \<Rightarrow> Some (release_unstarted now reached ts (w, d)) | _ \<Rightarrow> None)"
| "worker_step cfg th (HandlerEnds i failure) (w, d) =
     (if known i w \<and> rt_done (ws_running w ! i) = Handling then Some (handler_ends cfg i failure w, d) else None)"
| "worker_step cfg th (SettleCalls i now reached answered) (w, d) =
     (if known i w then (case rt_done (ws_running w ! i) of
        Settling failed c \<Rightarrow> Some (settle_calls i now reached answered failed c (w, d)) | _ \<Rightarrow> None) else None)"
| "worker_step cfg th (SettleReturns i clock) (w, d) =
     (if known i w then (case rt_done (ws_running w ! i) of
        Answering failed resolved \<Rightarrow> Some (settle_returns cfg i clock failed resolved w, d) | _ \<Rightarrow> None) else None)"
| "worker_step cfg th (BeatAsks i) (w, d) =
     (if known i w \<and> rt_heartbeat (ws_running w ! i) = HeartbeatScheduled then Some (beat_asks i w, d) else None)"
| "worker_step cfg th (BeatCalls i now reached answered) (w, d) =
     (if known i w \<and> rt_heartbeat (ws_running w ! i) = HeartbeatAsking then Some (beat_calls cfg i now reached answered (w, d)) else None)"
| "worker_step cfg th (BeatReturns i clock) (w, d) =
     (if known i w then (case rt_heartbeat (ws_running w ! i) of
        HeartbeatAnswered a \<Rightarrow> Some (change_running i (beat_returns cfg clock a) w, d) | _ \<Rightarrow> None) else None)"
| "worker_step cfg th LoopJoined (w, d) =
     (if ws_shutdown w = JoiningLoop \<and> ws_poll w = PollEnded then Some (loop_joined w, d) else None)"
| "worker_step cfg th AllSettled (w, d) =
     (case ws_shutdown w of
        Draining running \<Rightarrow>
          if list_all (\<lambda>i. rt_done (ws_running w ! i) = Finished) running then Some (all_settled running w, d) else None
      | _ \<Rightarrow> None)"
| "worker_step cfg th DeadlineElapsed (w, d) =
     (case ws_shutdown w of Draining running \<Rightarrow> Some (deadline_elapsed running w, d) | _ \<Rightarrow> None)"
| "worker_step cfg th (DropEnds i now reached) (w, d) =
     (case ws_shutdown w of
        Dropping pending c n \<Rightarrow> if i \<in> set pending then Some (drop_ends i now reached pending c n (w, d)) else None
      | _ \<Rightarrow> None)"
| "worker_step cfg th (OthersCommit f) (w, d) = Some (w, f d)"

fun worker_runs :: "worker_config \<Rightarrow> nat \<Rightarrow> worker_event list \<Rightarrow> worker \<times> db \<Rightarrow> (worker \<times> db) option" where
  "worker_runs cfg th [] s = Some s"
| "worker_runs cfg th (e # es) s = (case worker_step cfg th e s of None \<Rightarrow> None | Some s' \<Rightarrow> worker_runs cfg th es s')"

section \<open>The budget from the depth of the queue\<close>

record depth_options =
  bp_low :: int
  bp_high :: int
  bp_min_batch :: "int option"

definition poll_budget_for_depth :: "int \<Rightarrow> int \<Rightarrow> depth_options \<Rightarrow> int" where
  "poll_budget_for_depth depth free opt =
     (let min_batch = optional (bp_min_batch opt) 1 in
      if depth \<le> 0 then 0
      else if bp_high opt \<le> depth then free
      else if depth \<le> bp_low opt then min free (min min_batch depth)
      else
        let span = bp_high opt - bp_low opt;
            share = of_int (depth - bp_low opt) / (of_int span :: rat);
            scaled = \<lceil>of_int min_batch + share * of_int (free - min_batch)\<rceil>
        in min free (min (max min_batch scaled) depth))"

definition create_depth_backpressure :: "depth_options \<Rightarrow> (int \<Rightarrow> int option) \<Rightarrow> engine_error + (int \<Rightarrow> budget_reply)" where
  "create_depth_backpressure opt read_depth =
     (if bp_low opt < 0 \<or> bp_high opt \<le> bp_low opt then Inl (RangeError ''highWatermark'')
      else Inr (\<lambda>free. case read_depth free of None \<Rightarrow> BudgetThrew
        | Some depth \<Rightarrow> Budget (Fin (of_int (poll_budget_for_depth depth free opt)))))"

section \<open>Who a worker is\<close>

definition create_worker_identity :: "string \<Rightarrow> string \<Rightarrow> nat \<Rightarrow> string \<Rightarrow> engine_error + string \<times> string" where
  "create_worker_identity version host pid suffix =
     (if version = [] then Inl (RangeError ''version must not be empty'')
      else Inr (host @ ''-'' @ show_nat pid @ ''-'' @ suffix, version))"

end
