(* ===== verification/WorkerProof.thy ===== *)
theory WorkerProof
  imports Worker
begin

text \<open>
  What holds of a worker in every order of its steps: it keeps within its concurrency, it loses sight of a task
  only when the queue delivered the task to it again, and it settles no task whose lease it found gone.
\<close>

section \<open>Steps on the parts\<close>

lemmas worker_ops =
  start_worker_def stop_asked_def poll_begins_def poll_calls_def poll_returns_def release_unstarted_def handler_ends_def
  settle_calls_def settle_returns_def beat_asks_def beat_calls_def loop_joined_def all_settled_def deadline_elapsed_def
  drop_ends_def stopped_with_def leave_flight_def delete_in_flight_def wake_def

lemma change_running_simps [simp]:
  "ws_phase (change_running i f w) = ws_phase w" "ws_poll (change_running i f w) = ws_poll w"
  "ws_in_flight (change_running i f w) = ws_in_flight w" "ws_shutdown (change_running i f w) = ws_shutdown w"
  "length (ws_running (change_running i f w)) = length (ws_running w)" "ws_delay (change_running i f w) = ws_delay w"
  "ws_settled (change_running i f w) = ws_settled w"
  by (simp_all add: change_running_def)

lemma change_running_nth [simp]:
  "i < length (ws_running w) \<Longrightarrow> ws_running (change_running i f w) ! k = (if k = i then f (ws_running w ! i) else ws_running w ! k)"
  by (auto simp: change_running_def nth_list_update)

lemma wake_simps [simp]:
  "ws_phase (wake cfg w) = ws_phase w" "ws_running (wake cfg w) = ws_running w" "ws_in_flight (wake cfg w) = ws_in_flight w"
  "ws_shutdown (wake cfg w) = ws_shutdown w" "ws_settled (wake cfg w) = ws_settled w"
  by (simp_all add: wake_def split: poll_state.split)

lemma wake_poll: "ws_poll (wake cfg w) = (case ws_poll w of PollWaiting _ \<Rightarrow> PollReady | p \<Rightarrow> p)"
  by (simp add: wake_def split: poll_state.split)

lemma launch_simps [simp]:
  "ws_phase (launch clock t w) = ws_phase w" "ws_poll (launch clock t w) = ws_poll w"
  "ws_shutdown (launch clock t w) = ws_shutdown w"
  "ws_in_flight (launch clock t w) = AList.update (lt_id t) (length (ws_running w)) (ws_in_flight w)"
  by (simp_all add: launch_def set_in_flight_def)

lemma fold_launch_simps [simp]:
  "ws_phase (fold (launch clock) ts w) = ws_phase w" "ws_poll (fold (launch clock) ts w) = ws_poll w"
  "ws_shutdown (fold (launch clock) ts w) = ws_shutdown w"
  by (induction ts arbitrary: w) simp_all

lemma drop_begins_simps [simp]:
  "ws_phase (drop_begins i w) = ws_phase w" "ws_poll (drop_begins i w) = ws_poll w" "ws_in_flight (drop_begins i w) = ws_in_flight w"
  "ws_shutdown (drop_begins i w) = ws_shutdown w" "length (ws_running (drop_begins i w)) = length (ws_running w)"
  by (simp_all add: drop_begins_def)

lemma fold_drop_simps [simp]:
  "ws_phase (fold drop_begins is w) = ws_phase w" "ws_poll (fold drop_begins is w) = ws_poll w"
  "ws_in_flight (fold drop_begins is w) = ws_in_flight w" "ws_shutdown (fold drop_begins is w) = ws_shutdown w"
  "length (ws_running (fold drop_begins is w)) = length (ws_running w)"
  by (induction "is" arbitrary: w) simp_all

text \<open>What holds of a new worker and is kept by every step holds whenever the worker is looked at.\<close>

locale worker_invariant =
  fixes cfg :: worker_config and holds :: "worker \<Rightarrow> bool"
  assumes at_start: "holds (create_worker cfg)"
    and kept: "holds w \<Longrightarrow> worker_step cfg th e (w, d) = Some (w', d') \<Longrightarrow> holds w'"
begin

lemma kept_by_runs:
  assumes "worker_runs cfg th es (w, d) = Some (w', d')" and "holds w"
  shows "holds w'"
  using assms
proof (induction es arbitrary: w d)
  case (Cons e es)
  then show ?case using kept by (fastforce split: option.splits)
qed simp

lemma reached: "worker_runs cfg th es (create_worker cfg, d) = Some (w, d') \<Longrightarrow> holds w"
  using kept_by_runs at_start by blast

end

section \<open>Within the concurrency\<close>

lemma length_delete_le: "length (AList.delete k xs) \<le> length xs"
  by (simp add: AList.delete_eq)

lemma update_member: "(x, y) \<in> set (AList.update k v xs) \<Longrightarrow> (x, y) = (k, v) \<or> (x, y) \<in> set xs"
  by (induction xs) (auto split: if_splits)

lemma length_update_le: "length (AList.update k v xs) \<le> Suc (length xs)"
  by (induction xs) auto

lemma take_tasks_length: "length (fst (take_tasks opt th now ts d)) \<le> length ts"
proof (induction ts arbitrary: d)
  case (Cons t ts)
  show ?case
    using Cons.IH [of "update_task (t_id t) (park_task now) d"]
      Cons.IH [of "update_task (t_id t) (lease_task opt now (d_next d)) (d\<lparr>d_next := Suc (d_next d)\<rparr>)"]
    by (auto simp: Let_def split: prod.splits)
qed simp

lemma dequeue_length:
  assumes "dequeue th now opt d = Inr (ts, d')" and "dq_limit opt = Some n"
  shows "length ts \<le> nat n"
proof -
  have "(ts, d') = take_tasks opt th now (next_tasks opt (nat n) now d) d"
    using assms by (auto simp: dequeue_def split: sum.splits)
  then have "length ts \<le> length (next_tasks opt (nat n) now d)" using take_tasks_length by (metis fst_conv)
  also have "\<dots> \<le> nat n" by (simp add: next_tasks_def)
  finally show ?thesis .
qed

lemma resolve_budget_le: "0 < free \<Longrightarrow> resolve_budget free reply \<le> free"
  by (auto simp: resolve_budget_def split: budget_reply.splits jsnum.splits)

definition asked_for :: "worker \<Rightarrow> int" where
  "asked_for w = (case ws_poll w of PollAsking n \<Rightarrow> n | PollAnswered ts \<Rightarrow> int (length ts) | _ \<Rightarrow> 0)"

definition within_concurrency :: "worker_config \<Rightarrow> worker \<Rightarrow> bool" where
  "within_concurrency cfg w \<longleftrightarrow> 0 \<le> asked_for w \<and> int (active_count w) + asked_for w \<le> wc_concurrency cfg"

lemma fold_launch_active: "active_count (fold (launch clock) ts w) \<le> active_count w + length ts"
proof (induction ts arbitrary: w)
  case (Cons t ts)
  then show ?case using Cons.IH [of "launch clock t w"] length_update_le [of "lt_id t" "length (ws_running w)" "ws_in_flight w"]
    by (simp add: active_count_def)
qed simp

lemma within_concurrency_mono:
  assumes "within_concurrency cfg w" and "length (ws_in_flight w') \<le> length (ws_in_flight w)" and "asked_for w' = asked_for w"
  shows "within_concurrency cfg w'"
  using assms by (simp add: within_concurrency_def active_count_def)

lemma wake_asked [simp]: "asked_for (wake cfg w) = asked_for w"
  by (simp add: asked_for_def wake_poll split: poll_state.split)

lemma leave_flight_within:
  "within_concurrency cfg w \<Longrightarrow> within_concurrency cfg (leave_flight cfg i w)"
  by (erule within_concurrency_mono) (simp_all add: leave_flight_def delete_in_flight_def length_delete_le asked_for_def wake_poll split: poll_state.split)

lemma change_running_within: "within_concurrency cfg w \<Longrightarrow> within_concurrency cfg (change_running i f w)"
  by (erule within_concurrency_mono) (simp_all add: asked_for_def)

lemma poll_begins_within:
  assumes "within_concurrency cfg w" and "ws_poll w = PollReady"
  shows "within_concurrency cfg (poll_begins cfg reply w)"
  using assms resolve_budget_le [of "wc_concurrency cfg - int (active_count w)" reply]
  by (auto simp: poll_begins_def within_concurrency_def asked_for_def active_count_def Let_def)

lemma poll_calls_within:
  assumes "within_concurrency cfg w" and "ws_poll w = PollAsking n"
    and "poll_calls cfg th now reached answered n (w, d) = (w', d')"
  shows "within_concurrency cfg w'"
proof -
  obtain tasks where t: "call_queue reached answered (dequeue th now (poll_options cfg n)) d = (tasks, d')"
    "w' = w\<lparr>ws_poll := PollAnswered (optional tasks [])\<rparr>"
    using assms(3) by (auto simp: poll_calls_def split: prod.splits)
  have "length (optional tasks []) \<le> nat n"
    using t(1) dequeue_length [of th now "poll_options cfg n" d _ _ n]
    by (auto simp: call_queue_def poll_options_def split: if_splits sum.splits prod.splits)
  then show ?thesis using assms(1,2) by (auto simp: within_concurrency_def asked_for_def active_count_def t(2))
qed

lemma poll_returns_within:
  assumes "within_concurrency cfg w" and "ws_poll w = PollAnswered ts"
  shows "within_concurrency cfg (poll_returns cfg clock ts w)"
  using assms fold_launch_active [of clock ts "w\<lparr>ws_poll := PollReady, ws_delay := wc_poll cfg\<rparr>"]
  by (auto simp: poll_returns_def within_concurrency_def asked_for_def active_count_def)

lemma worker_step_within:
  assumes "within_concurrency cfg w" and "worker_step cfg th e (w, d) = Some (w', d')"
  shows "within_concurrency cfg w'"
proof (cases e)
  case (PollBegins reply)
  then show ?thesis using assms poll_begins_within by (auto split: if_splits)
next
  case (PollCalls now reached answered)
  then show ?thesis using assms poll_calls_within by (auto split: poll_state.splits)
next
  case (PollReturns clock)
  then show ?thesis using assms poll_returns_within by (auto split: poll_state.splits)
next
  case (HandlerEnds i failure)
  then show ?thesis using assms by (auto simp: handler_ends_def Let_def intro: leave_flight_within change_running_within split: if_splits)
next
  case (SettleReturns i clock)
  have "within_concurrency cfg (w\<lparr>ws_settled := x\<rparr>)" for x
    using assms(1) by (simp add: within_concurrency_def asked_for_def active_count_def)
  with SettleReturns show ?thesis using assms
    by (auto simp: settle_returns_def Let_def intro!: leave_flight_within split: if_splits execution.splits)
next
  case (DropEnds i now reached)
  then show ?thesis using assms length_delete_le
    by (auto simp: drop_ends_def stopped_with_def Let_def delete_in_flight_def asked_for_def
        intro!: within_concurrency_mono [OF assms(1)] split: if_splits shutdown_state.splits)
qed (use assms in \<open>auto simp: start_worker_def stop_asked_def release_unstarted_def settle_calls_def beat_asks_def beat_calls_def
    loop_joined_def all_settled_def deadline_elapsed_def stopped_with_def within_concurrency_def asked_for_def active_count_def wake_poll Let_def
    split: if_splits poll_state.splits execution.splits heartbeat.splits shutdown_state.splits prod.splits list.splits\<close>)

interpretation seats: worker_invariant cfg "\<lambda>w. 0 \<le> wc_concurrency cfg \<longrightarrow> within_concurrency cfg w" for cfg
  by unfold_locales (auto simp: within_concurrency_def create_worker_def active_count_def asked_for_def
      dest: worker_step_within [unfolded within_concurrency_def active_count_def, rotated])

lemma worker_within_concurrency:
  assumes "worker_runs cfg th es (create_worker cfg, d) = Some (w, d')" and "0 \<le> wc_concurrency cfg"
  shows "int (active_count w) \<le> wc_concurrency cfg"
  using seats.reached [OF assms(1)] assms(2) by (simp add: within_concurrency_def)

section \<open>Who is seen and who is not\<close>

definition id_of :: "worker \<Rightarrow> nat \<Rightarrow> uuid" where
  "id_of w i = lt_id (rt_task (ws_running w ! i))"

text \<open>The task of place \<open>i\<close> is at another place too: the queue delivered it to the worker again.\<close>

definition delivered_twice :: "worker \<Rightarrow> nat \<Rightarrow> bool" where
  "delivered_twice w i \<longleftrightarrow> (\<exists>j < length (ws_running w). j \<noteq> i \<and> id_of w j = id_of w i)"

definition task_seen :: "worker \<Rightarrow> nat \<Rightarrow> bool" where
  "task_seen w i \<longleftrightarrow> rt_done (ws_running w ! i) = Finished \<or> map_of (ws_in_flight w) (id_of w i) = Some i \<or>
     rt_dropped (ws_running w ! i) \<or> delivered_twice w i"

definition flight_ok :: "worker \<Rightarrow> bool" where
  "flight_ok w \<longleftrightarrow>
     (\<forall>(tid, i) \<in> set (ws_in_flight w). i < length (ws_running w) \<and> id_of w i = tid \<and> rt_done (ws_running w ! i) \<noteq> Finished) \<and>
     (\<forall>i < length (ws_running w). task_seen w i)"

definition keeps_place :: "running_task \<Rightarrow> running_task \<Rightarrow> bool" where
  "keeps_place r r' \<longleftrightarrow> rt_task r' = rt_task r \<and> (rt_done r' = Finished \<longleftrightarrow> rt_done r = Finished) \<and> (rt_dropped r \<longrightarrow> rt_dropped r')"

lemma id_of_change [simp]:
  assumes "i < length (ws_running w)" and "rt_task (f (ws_running w ! i)) = rt_task (ws_running w ! i)"
  shows "id_of (change_running i f w) = id_of w"
  using assms by (auto simp: id_of_def)

lemma flight_ok_change:
  assumes "flight_ok w" and "i < length (ws_running w)" and "keeps_place (ws_running w ! i) (f (ws_running w ! i))"
  shows "flight_ok (change_running i f w)"
proof -
  note f = assms(3) [unfolded keeps_place_def]
  have ids: "id_of (change_running i f w) = id_of w" using assms(2) f by simp
  have "delivered_twice (change_running i f w) k = delivered_twice w k" for k by (simp add: delivered_twice_def ids)
  then have "task_seen w k \<Longrightarrow> task_seen (change_running i f w) k" for k using assms(2) f by (auto simp: task_seen_def ids)
  then show ?thesis using assms(1,2) f by (auto simp: flight_ok_def ids split: prod.splits)
qed

lemma keeps_place_simps [simp]:
  "keeps_place r (stop_heartbeat r)" "keeps_place r (beat_returns cfg clock a r)" "keeps_place r (r\<lparr>rt_heartbeat := h\<rparr>)"
  by (auto simp: keeps_place_def stop_heartbeat_def beat_returns_def Let_def)

lemma map_of_AList_delete: "map_of (AList.delete k xs) x = (if x = k then None else map_of xs x)"
  by (simp add: AList.delete_conv')

lemma flight_ok_finish:
  assumes ok: "flight_ok w" and i: "i < length (ws_running w)"
  shows "flight_ok (delete_in_flight (id_of w i) (change_running i (\<lambda>r. r\<lparr>rt_done := Finished\<rparr>) w))"
proof -
  define w' where "w' = delete_in_flight (id_of w i) (change_running i (\<lambda>r. r\<lparr>rt_done := Finished\<rparr>) w)"
  have ids: "id_of w' = id_of w" using i by (auto simp: id_of_def delete_in_flight_def w'_def)
  have len: "length (ws_running w') = length (ws_running w)" by (simp add: delete_in_flight_def w'_def)
  have nth: "ws_running w' ! k = (if k = i then (ws_running w ! i)\<lparr>rt_done := Finished\<rparr> else ws_running w ! k)" for k
    using i by (simp add: delete_in_flight_def w'_def)
  have fl: "ws_in_flight w' = AList.delete (id_of w i) (ws_in_flight w)" by (simp add: delete_in_flight_def w'_def)
  have "task_seen w' k" if k: "k < length (ws_running w)" for k
  proof (cases "k \<noteq> i \<and> id_of w k = id_of w i")
    case True
    then show ?thesis using i k by (auto simp: task_seen_def delivered_twice_def ids len)
  next
    case False
    have "task_seen w k" using ok k by (simp add: flight_ok_def)
    moreover have "delivered_twice w' k = delivered_twice w k" by (simp add: delivered_twice_def ids len)
    ultimately show ?thesis using False by (auto simp: task_seen_def ids nth fl map_of_AList_delete)
  qed
  moreover have "j < length (ws_running w') \<and> id_of w' j = tid \<and> rt_done (ws_running w' ! j) \<noteq> Finished"
    if "(tid, j) \<in> set (ws_in_flight w')" for tid j
  proof -
    have "(tid, j) \<in> set (ws_in_flight w)" "tid \<noteq> id_of w i" using that by (auto simp: AList.delete_eq fl)
    moreover from this have "j < length (ws_running w)" "id_of w j = tid" "rt_done (ws_running w ! j) \<noteq> Finished"
      using ok by (auto simp: flight_ok_def)
    ultimately show ?thesis by (auto simp: nth ids len)
  qed
  ultimately have "flight_ok w'" by (auto simp: flight_ok_def len)
  then show ?thesis by (simp add: w'_def)
qed

lemma flight_ok_same:
  assumes "flight_ok w" and "ws_running w' = ws_running w" and "ws_in_flight w' = ws_in_flight w"
  shows "flight_ok w'"
  using assms by (simp add: flight_ok_def task_seen_def delivered_twice_def id_of_def)

lemma flight_ok_leave:
  assumes "flight_ok w" and "i < length (ws_running w)"
  shows "flight_ok (leave_flight cfg i w)"
  using flight_ok_same [OF flight_ok_finish [OF assms], of "leave_flight cfg i w"]
  by (simp add: leave_flight_def id_of_def delete_in_flight_def)

lemma flight_ok_launch:
  assumes ok: "flight_ok w"
  shows "flight_ok (launch clock t w)"
proof -
  let ?w = "launch clock t w" and ?n = "length (ws_running w)"
  have run: "length (ws_running ?w) = Suc ?n" "\<And>k. k < ?n \<Longrightarrow> ws_running ?w ! k = ws_running w ! k"
    "rt_task (ws_running ?w ! ?n) = t" "rt_done (ws_running ?w ! ?n) = Handling"
    by (simp_all add: launch_def set_in_flight_def nth_append)
  have ids: "id_of ?w k = id_of w k" if "k < ?n" for k using that run by (simp add: id_of_def)
  have new: "id_of ?w ?n = lt_id t" using run by (simp add: id_of_def)
  have flight: "map_of (AList.update (lt_id t) ?n (ws_in_flight w)) x = (if x = lt_id t then Some ?n else map_of (ws_in_flight w) x)" for x
    by (simp add: AList.update_conv')
  have "task_seen ?w k" if k: "k < ?n" for k
  proof (cases "id_of w k = lt_id t")
    case True
    then show ?thesis using k ids new run(1) by (auto simp: task_seen_def delivered_twice_def intro!: exI [of _ ?n])
  next
    case False
    have "delivered_twice w k \<Longrightarrow> delivered_twice ?w k"
      using k ids run(1) unfolding delivered_twice_def by (metis less_SucI)
    then show ?thesis using ok k False by (auto simp: flight_ok_def task_seen_def ids run(2) flight)
  qed
  moreover have "task_seen ?w ?n" by (simp add: task_seen_def new flight)
  ultimately have seen: "\<forall>k < length (ws_running ?w). task_seen ?w k" by (auto simp: run(1) less_Suc_eq)
  have "i < Suc ?n \<and> id_of ?w i = tid \<and> rt_done (ws_running ?w ! i) \<noteq> Finished"
    if "(tid, i) \<in> set (AList.update (lt_id t) ?n (ws_in_flight w))" for tid i
  proof -
    have "(tid, i) = (lt_id t, ?n) \<or> (tid, i) \<in> set (ws_in_flight w)"
      using that by (rule update_member)
    then show ?thesis
    proof
      assume "(tid, i) = (lt_id t, ?n)"
      then show ?thesis using new run(4) by simp
    next
      assume "(tid, i) \<in> set (ws_in_flight w)"
      then have "i < ?n" "id_of w i = tid" "rt_done (ws_running w ! i) \<noteq> Finished" using ok by (auto simp: flight_ok_def)
      then show ?thesis using ids run(2) by simp
    qed
  qed
  with seen show ?thesis by (auto simp: flight_ok_def run(1))
qed

lemma flight_ok_delete:
  assumes ok: "flight_ok w" and i: "i < length (ws_running w)" "rt_dropped (ws_running w ! i)"
  shows "flight_ok (delete_in_flight (id_of w i) w)"
proof -
  define w' where "w' = delete_in_flight (id_of w i) w"
  have w': "id_of w' = id_of w" "ws_running w' = ws_running w" "ws_in_flight w' = AList.delete (id_of w i) (ws_in_flight w)"
    by (auto simp: w'_def id_of_def delete_in_flight_def)
  have "task_seen w' k" if k: "k < length (ws_running w)" for k
  proof (cases "k \<noteq> i \<and> id_of w k = id_of w i")
    case True
    then show ?thesis using i(1) k by (auto simp: task_seen_def delivered_twice_def w')
  next
    case False
    have "task_seen w k" using ok k by (simp add: flight_ok_def)
    moreover have "delivered_twice w' k = delivered_twice w k" by (simp add: delivered_twice_def w')
    ultimately show ?thesis using False i(2) by (auto simp: task_seen_def w' map_of_AList_delete)
  qed
  then have "flight_ok w'" using ok by (auto simp: flight_ok_def w' AList.delete_eq)
  then show ?thesis by (simp add: w'_def)
qed

lemma flight_ok_fold_launch: "flight_ok w \<Longrightarrow> flight_ok (fold (launch clock) ts w)"
  by (induction ts arbitrary: w) (simp_all add: flight_ok_launch)

lemma flight_ok_drop_begins: "flight_ok w \<Longrightarrow> i < length (ws_running w) \<Longrightarrow> flight_ok (drop_begins i w)"
  unfolding drop_begins_def by (rule flight_ok_change) (simp_all add: keeps_place_def stop_heartbeat_def)

lemma flight_ok_fold_drop: "flight_ok w \<Longrightarrow> \<forall>i \<in> set is. i < length (ws_running w) \<Longrightarrow> flight_ok (fold drop_begins is w)"
  by (induction "is" arbitrary: w) (simp_all add: flight_ok_drop_begins)

section \<open>Shutting down\<close>

definition none_dropped :: "worker \<Rightarrow> bool" where
  "none_dropped w \<longleftrightarrow> (\<forall>r \<in> set (ws_running w). \<not> rt_dropped r)"

definition shutdown_ok :: "worker \<Rightarrow> bool" where
  "shutdown_ok w \<longleftrightarrow>
     (ws_phase w = WorkerIdle \<or> ws_phase w = WorkerRunning \<longrightarrow> ws_shutdown w = NotAsked) \<and>
     (case ws_shutdown w of
        NotAsked \<Rightarrow> none_dropped w
      | JoiningLoop \<Rightarrow> none_dropped w
      | Draining running \<Rightarrow> none_dropped w \<and> ws_poll w = PollEnded \<and> snd ` set (ws_in_flight w) \<subseteq> set running \<and>
          (\<forall>i \<in> set running. i < length (ws_running w))
      | Dropping pending c n \<Rightarrow> 0 < n \<and> ws_poll w = PollEnded \<and> fst ` set (ws_in_flight w) \<subseteq> id_of w ` set pending \<and>
          (\<forall>i \<in> set pending. i < length (ws_running w) \<and> rt_dropped (ws_running w ! i))
      | StopResult c n \<Rightarrow> ws_poll w = PollEnded \<and> ws_in_flight w = [] \<and> (n = 0 \<longrightarrow> none_dropped w))"

lemma none_dropped_change:
  assumes "none_dropped w" and "\<And>r. rt_dropped (f r) = rt_dropped r"
  shows "none_dropped (change_running i f w)"
proof (cases "i < length (ws_running w)")
  case True
  then show ?thesis using assms by (auto simp: none_dropped_def change_running_def dest!: set_update_subset_insert [THEN subsetD])
next
  case False
  then show ?thesis using assms(1) by (simp add: change_running_def none_dropped_def list_update_beyond)
qed

lemma shutdown_ok_smaller:
  assumes ok: "shutdown_ok w" and same: "ws_phase w' = ws_phase w" "ws_shutdown w' = ws_shutdown w"
    and poll: "ws_poll w = PollEnded \<Longrightarrow> ws_poll w' = PollEnded"
    and flight: "set (ws_in_flight w') \<subseteq> set (ws_in_flight w)"
    and len: "length (ws_running w') = length (ws_running w)" and ids: "id_of w' = id_of w"
    and dropped: "\<And>i. i < length (ws_running w) \<Longrightarrow> rt_dropped (ws_running w' ! i) = rt_dropped (ws_running w ! i)"
  shows "shutdown_ok w'"
proof -
  have nd: "none_dropped w' = none_dropped w" using len dropped by (simp add: none_dropped_def all_set_conv_all_nth)
  have "ws_in_flight w = [] \<Longrightarrow> ws_in_flight w' = []" using flight by simp
  moreover have "fst ` set (ws_in_flight w) \<subseteq> S \<Longrightarrow> fst ` set (ws_in_flight w') \<subseteq> S"
    "snd ` set (ws_in_flight w) \<subseteq> T \<Longrightarrow> snd ` set (ws_in_flight w') \<subseteq> T" for S T
    using flight by blast+
  ultimately show ?thesis using ok poll dropped unfolding shutdown_ok_def same nd len ids
    by (cases "ws_shutdown w") simp_all
qed

lemma shutdown_ok_change:
  assumes "shutdown_ok w" and "i < length (ws_running w)" and "rt_task (f (ws_running w ! i)) = rt_task (ws_running w ! i)"
    and "rt_dropped (f (ws_running w ! i)) = rt_dropped (ws_running w ! i)"
  shows "shutdown_ok (change_running i f w)"
  using assms by (intro shutdown_ok_smaller [OF assms(1)]) auto

lemma shutdown_ok_leave:
  assumes "shutdown_ok w" and "i < length (ws_running w)"
  shows "shutdown_ok (leave_flight cfg i w)"
proof -
  have "set (AList.delete k xs) \<subseteq> set xs" for k :: uuid and xs :: "(uuid \<times> nat) list" by (auto simp: AList.delete_eq)
  then show ?thesis using assms(2)
    by (intro shutdown_ok_smaller [OF assms(1)])
      (auto simp: leave_flight_def delete_in_flight_def id_of_def wake_poll split: poll_state.splits)
qed

text \<open>The loop launches only while the worker runs.\<close>

lemma shutdown_ok_poll:
  assumes "shutdown_ok w" and "ws_phase w' = ws_phase w" "ws_shutdown w' = ws_shutdown w" and "ws_poll w \<noteq> PollEnded"
    and "none_dropped w \<Longrightarrow> none_dropped w'"
  shows "shutdown_ok w'"
  using assms by (auto simp: shutdown_ok_def split: shutdown_state.splits)

lemma none_dropped_launch: "none_dropped w \<Longrightarrow> none_dropped (fold (launch clock) ts w)"
proof (induction ts arbitrary: w)
  case (Cons t ts)
  have "none_dropped (launch clock t w)" using Cons.prems by (simp add: none_dropped_def launch_def set_in_flight_def)
  then show ?case using Cons.IH by simp
qed simp

definition worker_ok :: "worker \<Rightarrow> bool" where
  "worker_ok w \<longleftrightarrow> flight_ok w \<and> shutdown_ok w"

lemma worker_ok_change:
  assumes "worker_ok w" and "i < length (ws_running w)" and "keeps_place (ws_running w ! i) (f (ws_running w ! i))"
    and "rt_dropped (f (ws_running w ! i)) = rt_dropped (ws_running w ! i)"
  shows "worker_ok (change_running i f w)"
  using assms flight_ok_change shutdown_ok_change by (simp add: worker_ok_def keeps_place_def)

lemma worker_ok_leave: "worker_ok w \<Longrightarrow> i < length (ws_running w) \<Longrightarrow> worker_ok (leave_flight cfg i w)"
  by (simp add: worker_ok_def flight_ok_leave shutdown_ok_leave)

lemma worker_ok_poll:
  assumes "worker_ok w" and "ws_phase w' = ws_phase w" "ws_shutdown w' = ws_shutdown w" and "ws_poll w \<noteq> PollEnded"
    and "ws_running w' = ws_running w" "ws_in_flight w' = ws_in_flight w"
  shows "worker_ok w'"
  using assms flight_ok_same [of w w'] shutdown_ok_poll [of w w'] by (simp add: worker_ok_def none_dropped_def)

lemma worker_ok_settled:
  assumes "worker_ok w"
  shows "worker_ok (w\<lparr>ws_settled := x\<rparr>)"
proof -
  have "id_of (w\<lparr>ws_settled := x\<rparr>) = id_of w" by (auto simp: id_of_def)
  then show ?thesis using assms flight_ok_same [of w "w\<lparr>ws_settled := x\<rparr>"] shutdown_ok_smaller [of w "w\<lparr>ws_settled := x\<rparr>"]
    by (simp add: worker_ok_def)
qed

lemma worker_ok_stop_asked: "worker_ok w \<Longrightarrow> worker_ok (stop_asked cfg w)"
  using flight_ok_same [of w "stop_asked cfg w"]
  by (auto simp: worker_ok_def stop_asked_def shutdown_ok_def none_dropped_def split: if_splits)

lemma worker_ok_joined:
  assumes "worker_ok w" and "ws_shutdown w = JoiningLoop" and "ws_poll w = PollEnded"
  shows "worker_ok (loop_joined w)"
  using assms flight_ok_same [of w "loop_joined w"]
  by (auto simp: worker_ok_def loop_joined_def shutdown_ok_def none_dropped_def flight_ok_def)

lemma worker_ok_stopped:
  assumes "worker_ok w" and "ws_in_flight w = []" and "ws_poll w = PollEnded" and "n = 0 \<Longrightarrow> none_dropped w"
  shows "worker_ok (stopped_with c n w)"
  using assms flight_ok_same [of w "stopped_with c n w"]
  by (auto simp: worker_ok_def stopped_with_def shutdown_ok_def none_dropped_def)

lemma worker_ok_all_settled:
  assumes ok: "worker_ok w" and sh: "ws_shutdown w = Draining running"
    and all: "list_all (\<lambda>i. rt_done (ws_running w ! i) = Finished) running"
  shows "worker_ok (all_settled running w)"
proof -
  have "rt_done (ws_running w ! i) \<noteq> Finished \<and> i \<in> set running" if "(tid, i) \<in> set (ws_in_flight w)" for tid i
  proof
    show "rt_done (ws_running w ! i) \<noteq> Finished" using that ok by (auto simp: worker_ok_def flight_ok_def)
    have "snd ` set (ws_in_flight w) \<subseteq> set running" using ok sh by (simp add: worker_ok_def shutdown_ok_def)
    with that show "i \<in> set running" by force
  qed
  then have "(tid, i) \<notin> set (ws_in_flight w)" for tid i using all by (auto simp: list_all_iff)
  then have "ws_in_flight w = []" by (cases "ws_in_flight w") auto
  then show ?thesis unfolding all_settled_def using ok sh by (intro worker_ok_stopped) (auto simp: worker_ok_def shutdown_ok_def)
qed

lemma fold_drop_nth:
  assumes "\<forall>i \<in> set is. i < length (ws_running w)" and "k < length (ws_running w)"
  shows "rt_task (ws_running (fold drop_begins is w) ! k) = rt_task (ws_running w ! k)"
    and "k \<in> set is \<or> rt_dropped (ws_running w ! k) \<Longrightarrow> rt_dropped (ws_running (fold drop_begins is w) ! k)"
  using assms
proof (induction "is" arbitrary: w)
  case (Cons i "is")
  { case 1
    then show ?case using Cons.IH(1) [of "drop_begins i w"] by (simp add: drop_begins_def stop_heartbeat_def)
  next
    case 2
    then have "k \<in> set is \<or> rt_dropped (ws_running (drop_begins i w) ! k)" by (auto simp: drop_begins_def)
    then show ?case using Cons.IH(2) [of "drop_begins i w"] 2(2,3) by simp }
qed simp_all

lemma worker_ok_deadline:
  assumes ok: "worker_ok w" and sh: "ws_shutdown w = Draining running"
  shows "worker_ok (deadline_elapsed running w)"
proof -
  define strag where "strag = filter (\<lambda>i. map_of (ws_in_flight w) (id_of w i) \<noteq> None) running"
  have running: "\<forall>i \<in> set running. i < length (ws_running w)" and ended: "ws_poll w = PollEnded" and none: "none_dropped w"
    and fl: "snd ` set (ws_in_flight w) \<subseteq> set running" and phase: "ws_phase w \<noteq> WorkerIdle" "ws_phase w \<noteq> WorkerRunning"
    using ok sh by (auto simp: worker_ok_def shutdown_ok_def)
  have keys: "fst ` set (ws_in_flight w) \<subseteq> id_of w ` set strag"
  proof
    fix x assume "x \<in> fst ` set (ws_in_flight w)"
    then obtain i where i: "(x, i) \<in> set (ws_in_flight w)" by auto
    then have "id_of w i = x" "i \<in> set running" using ok fl by (auto simp: worker_ok_def flight_ok_def)
    moreover have "map_of (ws_in_flight w) x \<noteq> None" using i by (simp add: map_of_eq_None_iff) (metis fst_conv image_eqI)
    ultimately show "x \<in> id_of w ` set strag" by (auto simp: strag_def)
  qed
  have drop: "deadline_elapsed running w = (if strag = [] then stopped_with (length running) 0 w
      else (fold drop_begins strag w)\<lparr>ws_shutdown := Dropping strag (length running - length strag) (length strag)\<rparr>)"
    by (simp add: deadline_elapsed_def strag_def id_of_def Let_def)
  show ?thesis
  proof (cases "strag = []")
    case True
    with keys have "ws_in_flight w = []" by simp
    then show ?thesis unfolding drop using True ended none worker_ok_stopped [OF ok] by simp
  next
    case False
    let ?w = "fold drop_begins strag w"
    have in_range: "\<forall>i \<in> set strag. i < length (ws_running w)" using running by (simp add: strag_def)
    have "flight_ok ?w" using ok in_range flight_ok_fold_drop by (simp add: worker_ok_def)
    moreover have "id_of ?w ` set strag = id_of w ` set strag"
      using fold_drop_nth(1) [OF in_range] in_range by (auto simp: id_of_def image_def)
    ultimately show ?thesis unfolding drop worker_ok_def using False keys in_range ended phase fold_drop_nth(2) [OF in_range]
        flight_ok_same [of ?w "?w\<lparr>ws_shutdown := Dropping strag (length running - length strag) (length strag)\<rparr>"]
      by (simp add: shutdown_ok_def id_of_def)
  qed
qed

lemma worker_ok_drop_ends:
  assumes ok: "worker_ok w" and sh: "ws_shutdown w = Dropping pending c n" and i: "i \<in> set pending"
    and run: "drop_ends i now reached pending c n (w, d) = (w', d')"
  shows "worker_ok w'"
proof -
  define w1 where "w1 = delete_in_flight (id_of w i) w"
  have s: "0 < n" "ws_poll w = PollEnded" "fst ` set (ws_in_flight w) \<subseteq> id_of w ` set pending" "ws_phase w \<noteq> WorkerIdle"
    "ws_phase w \<noteq> WorkerRunning" "\<forall>i \<in> set pending. i < length (ws_running w) \<and> rt_dropped (ws_running w ! i)"
    using ok sh by (auto simp: worker_ok_def shutdown_ok_def)
  have fl: "flight_ok w1" unfolding w1_def by (rule flight_ok_delete) (use ok s(6) i in \<open>simp_all add: worker_ok_def\<close>)
  have w1: "ws_running w1 = ws_running w" "ws_poll w1 = ws_poll w" "ws_phase w1 = ws_phase w" "id_of w1 = id_of w"
    by (auto simp: w1_def delete_in_flight_def id_of_def)
  have keys: "fst ` set (ws_in_flight w1) \<subseteq> id_of w ` set (remove1 i pending)"
  proof
    fix x assume "x \<in> fst ` set (ws_in_flight w1)"
    then have x: "x \<in> fst ` set (ws_in_flight w)" "x \<noteq> id_of w i" by (auto simp: w1_def delete_in_flight_def AList.delete_eq)
    then obtain k where "k \<in> set pending" "x = id_of w k" using s(3) by auto
    with x(2) show "x \<in> id_of w ` set (remove1 i pending)" by (metis image_eqI in_set_remove1)
  qed
  show ?thesis
  proof (cases "remove1 i pending = []")
    case True
    with keys have "ws_in_flight w1 = []" by simp
    moreover have "w' = stopped_with c n w1" using run True by (simp add: drop_ends_def Let_def w1_def id_of_def)
    ultimately show ?thesis using fl s w1 flight_ok_same [of w1 "stopped_with c n w1"]
      by (simp add: worker_ok_def shutdown_ok_def stopped_with_def)
  next
    case False
    then have w': "w' = w1\<lparr>ws_shutdown := Dropping (remove1 i pending) c n\<rparr>" using run by (auto simp: drop_ends_def Let_def w1_def id_of_def)
    have "set (remove1 i pending) \<subseteq> set pending" by (rule set_remove1_subset)
    then have "\<forall>k \<in> set (remove1 i pending). k < length (ws_running w) \<and> rt_dropped (ws_running w ! k)" using s(6) by blast
    then show ?thesis using fl keys s(1,2,4,5) w1 flight_ok_same [of w1 w']
      by (simp add: worker_ok_def shutdown_ok_def w' id_of_def)
  qed
qed

lemma worker_step_ok:
  assumes ok: "worker_ok w" and st: "worker_step cfg th e (w, d) = Some (w', d')"
  shows "worker_ok w'"
proof (cases e)
  case StartCalled
  then show ?thesis using assms flight_ok_same [of w w']
    by (auto simp: start_worker_def worker_ok_def shutdown_ok_def none_dropped_def split: if_splits)
next
  case StopCalled
  then show ?thesis using assms worker_ok_stop_asked by auto
next
  case (PollBegins reply)
  then show ?thesis using st by (intro worker_ok_poll [OF ok]) (auto simp: poll_begins_def Let_def split: if_splits)
next
  case (PollCalls now reached answered)
  then show ?thesis using st by (intro worker_ok_poll [OF ok]) (auto simp: poll_calls_def split: poll_state.splits prod.splits)
next
  case (PollReturns clock)
  then obtain ts where ts: "ws_poll w = PollAnswered ts" "w' = poll_returns cfg clock ts w" using st by (auto split: poll_state.splits)
  let ?w = "w\<lparr>ws_poll := PollReady, ws_delay := wc_poll cfg\<rparr>"
  have ready: "worker_ok ?w" using ts(1) by (intro worker_ok_poll [OF ok]) simp_all
  then have "worker_ok (fold (launch clock) ts ?w)"
    using shutdown_ok_poll [of ?w "fold (launch clock) ts ?w"] none_dropped_launch
    by (simp add: worker_ok_def flight_ok_fold_launch)
  moreover have "worker_ok (w\<lparr>ws_poll := p\<rparr>)" for p using ts(1) by (intro worker_ok_poll [OF ok]) simp_all
  ultimately show ?thesis by (simp add: ts(2) poll_returns_def)
next
  case PollTimer
  then show ?thesis using st by (intro worker_ok_poll [OF ok]) (auto split: if_splits)
next
  case (Releases now reached)
  then show ?thesis using st by (intro worker_ok_poll [OF ok]) (auto simp: release_unstarted_def split: poll_state.splits list.splits)
next
  case (HandlerEnds i failure)
  then have i: "i < length (ws_running w)" "rt_done (ws_running w ! i) = Handling" and w': "w' = handler_ends cfg i failure w"
    using st by (auto simp: known_def split: if_splits)
  let ?w = "change_running i stop_heartbeat w"
  have stop: "worker_ok ?w" by (rule worker_ok_change [OF ok i(1)]) (simp_all add: stop_heartbeat_def keeps_place_def)
  have "worker_ok (change_running i (\<lambda>r. r\<lparr>rt_done := Settling f c\<rparr>) ?w)" for f c
    using i by (intro worker_ok_change [OF stop]) (simp_all add: keeps_place_def stop_heartbeat_def)
  then show ?thesis using worker_ok_leave [OF stop, of i] i(1) by (simp add: w' handler_ends_def Let_def)
next
  case (SettleCalls i now reached answered)
  then obtain f c b where i: "i < length (ws_running w)" "rt_done (ws_running w ! i) = Settling f c"
    and w': "w' = change_running i (\<lambda>r. r\<lparr>rt_done := Answering f b\<rparr>) w"
    using st by (auto simp: known_def settle_calls_def split: if_splits execution.splits prod.splits)
  show ?thesis unfolding w' using i by (intro worker_ok_change [OF ok]) (simp_all add: keeps_place_def)
next
  case (SettleReturns i clock)
  then show ?thesis using st ok
    by (auto simp: known_def settle_returns_def Let_def intro!: worker_ok_leave worker_ok_settled split: if_splits execution.splits)
next
  case (BeatAsks i)
  then show ?thesis using st ok by (auto simp: known_def beat_asks_def intro!: worker_ok_change split: if_splits)
next
  case (BeatCalls i now reached answered)
  then show ?thesis using st ok by (auto simp: known_def beat_calls_def Let_def intro!: worker_ok_change split: if_splits prod.splits)
next
  case (BeatReturns i clock)
  then show ?thesis using st ok
    by (auto simp: known_def beat_returns_def keeps_place_def Let_def intro!: worker_ok_change split: if_splits heartbeat.splits)
next
  case LoopJoined
  then show ?thesis using assms worker_ok_joined by (auto split: if_splits)
next
  case AllSettled
  then show ?thesis using assms worker_ok_all_settled by (auto split: shutdown_state.splits if_splits)
next
  case DeadlineElapsed
  then show ?thesis using assms worker_ok_deadline by (auto split: shutdown_state.splits)
next
  case (DropEnds i now reached)
  then show ?thesis using st worker_ok_drop_ends [OF ok] by (auto split: shutdown_state.splits if_splits)
next
  case (OthersCommit f)
  then show ?thesis using assms by simp
qed

interpretation flights: worker_invariant cfg worker_ok for cfg
proof unfold_locales
  show "worker_ok (create_worker cfg)"
    by (simp add: worker_ok_def flight_ok_def shutdown_ok_def create_worker_def none_dropped_def)
qed (rule worker_step_ok)

lemma worker_stops:
  assumes "worker_runs cfg th es (create_worker cfg, d) = Some (w, d')" and "ws_shutdown w = StopResult c n"
  shows "active_count w = 0" and "n = 0 \<Longrightarrow> none_dropped w"
    and "\<forall>i < length (ws_running w). rt_done (ws_running w ! i) = Finished \<or> rt_dropped (ws_running w ! i) \<or> delivered_twice w i"
proof -
  have ok: "worker_ok w" by (rule flights.reached [OF assms(1)])
  then show "active_count w = 0" and "n = 0 \<Longrightarrow> none_dropped w"
    using assms(2) by (auto simp: worker_ok_def shutdown_ok_def active_count_def)
  then show "\<forall>i < length (ws_running w). rt_done (ws_running w ! i) = Finished \<or> rt_dropped (ws_running w ! i) \<or> delivered_twice w i"
    using ok by (auto simp: worker_ok_def flight_ok_def task_seen_def active_count_def)
qed

section \<open>A lost lease\<close>

text \<open>A task is settled by its own handler while its lease was not found gone, and its heartbeat is over then.\<close>

definition settles_own_lease :: "running_task \<Rightarrow> bool" where
  "settles_own_lease r \<longleftrightarrow>
     (case rt_done r of Handling \<Rightarrow> True | Finished \<Rightarrow> True | _ \<Rightarrow> rt_finished r \<and> rt_aborted r \<noteq> Some LeaseLostError) \<and>
     (rt_aborted r \<noteq> None \<longrightarrow> rt_finished r)"

definition all_settle_own :: "worker \<Rightarrow> bool" where
  "all_settle_own w \<longleftrightarrow> (\<forall>r \<in> set (ws_running w). settles_own_lease r)"

lemma all_settle_own_change:
  assumes "all_settle_own w" and "i < length (ws_running w) \<Longrightarrow> settles_own_lease (ws_running w ! i) \<Longrightarrow> settles_own_lease (f (ws_running w ! i))"
  shows "all_settle_own (change_running i f w)"
proof (cases "i < length (ws_running w)")
  case True
  then show ?thesis using assms
    by (auto simp: all_settle_own_def change_running_def dest!: set_update_subset_insert [THEN subsetD])
next
  case False
  then show ?thesis using assms(1) by (simp add: all_settle_own_def change_running_def list_update_beyond)
qed

lemma all_settle_own_settled: "all_settle_own w \<Longrightarrow> all_settle_own (w\<lparr>ws_settled := x\<rparr>)"
  by (simp add: all_settle_own_def)

lemma all_settle_own_same: "all_settle_own w \<Longrightarrow> ws_running w' = ws_running w \<Longrightarrow> all_settle_own w'"
  by (simp add: all_settle_own_def)

lemma settles_own_lease_ops:
  assumes "settles_own_lease r"
  shows "settles_own_lease (stop_heartbeat r)" "settles_own_lease (beat_returns cfg clock a r)"
    "settles_own_lease (r\<lparr>rt_heartbeat := h\<rparr>)" "settles_own_lease (r\<lparr>rt_done := Finished\<rparr>)"
    "settles_own_lease ((stop_heartbeat r)\<lparr>rt_dropped := True,
       rt_aborted := (case rt_aborted r of None \<Rightarrow> Some ShutdownTimeoutError | a \<Rightarrow> a)\<rparr>)"
  using assms
  by (auto simp: settles_own_lease_def stop_heartbeat_def beat_returns_def Let_def split: execution.splits option.splits if_splits)

lemma all_settle_own_leave: "all_settle_own w \<Longrightarrow> all_settle_own (leave_flight cfg i w)"
  using all_settle_own_change [of w i "\<lambda>r. r\<lparr>rt_done := Finished\<rparr>"] settles_own_lease_ops(4)
  by (auto simp: leave_flight_def delete_in_flight_def intro!: all_settle_own_same [of "change_running i (\<lambda>r. r\<lparr>rt_done := Finished\<rparr>) w"])

lemma all_settle_own_launch: "all_settle_own w \<Longrightarrow> all_settle_own (fold (launch clock) ts w)"
proof (induction ts arbitrary: w)
  case (Cons t ts)
  have "all_settle_own (launch clock t w)"
    using Cons.prems by (auto simp: all_settle_own_def launch_def set_in_flight_def settles_own_lease_def)
  then show ?case using Cons.IH by simp
qed simp

lemma all_settle_own_drop: "all_settle_own w \<Longrightarrow> all_settle_own (fold drop_begins is w)"
proof (induction "is" arbitrary: w)
  case (Cons i "is")
  have "all_settle_own (drop_begins i w)" unfolding drop_begins_def
    using Cons.prems settles_own_lease_ops(5) by (intro all_settle_own_change) simp_all
  then show ?case using Cons.IH by simp
qed simp

lemma worker_step_settles_own:
  assumes ok: "all_settle_own w" and st: "worker_step cfg th e (w, d) = Some (w', d')"
  shows "all_settle_own w'"
proof (cases e)
  case (PollReturns clock)
  then show ?thesis using st ok all_settle_own_launch [of "w\<lparr>ws_poll := PollReady, ws_delay := wc_poll cfg\<rparr>"]
    by (auto simp: poll_returns_def all_settle_own_def split: poll_state.splits if_splits)
next
  case (HandlerEnds i failure)
  let ?w = "change_running i stop_heartbeat w"
  have stop: "all_settle_own ?w" using settles_own_lease_ops(1) by (intro all_settle_own_change [OF ok])
  have i: "i < length (ws_running w)" and w': "w' = handler_ends cfg i failure w"
    using HandlerEnds st by (auto simp: known_def split: if_splits)
  show ?thesis
  proof (cases "rt_dropped (ws_running w ! i) \<or> rt_aborted (ws_running w ! i) \<noteq> None")
    case True
    then show ?thesis using all_settle_own_leave [OF stop] by (simp add: w' handler_ends_def Let_def)
  next
    case False
    then have "all_settle_own (change_running i (\<lambda>r. r\<lparr>rt_done := Settling f c\<rparr>) ?w)" for f c
      using i by (intro all_settle_own_change [OF stop]) (simp add: settles_own_lease_def stop_heartbeat_def)
    then show ?thesis using False by (simp add: w' handler_ends_def Let_def)
  qed
next
  case (SettleCalls i now reached answered)
  then show ?thesis using st ok
    by (auto simp: known_def settle_calls_def settles_own_lease_def split: if_splits execution.splits prod.splits
        intro!: all_settle_own_change)
next
  case (SettleReturns i clock)
  then show ?thesis using st ok
    by (auto simp: settle_returns_def Let_def intro!: all_settle_own_leave all_settle_own_settled split: if_splits execution.splits)
next
  case (BeatAsks i)
  then show ?thesis using st ok settles_own_lease_ops(3) by (auto simp: beat_asks_def intro!: all_settle_own_change split: if_splits)
next
  case (BeatCalls i now reached answered)
  then show ?thesis using st ok settles_own_lease_ops(3)
    by (auto simp: beat_calls_def Let_def intro!: all_settle_own_change split: if_splits prod.splits)
next
  case (BeatReturns i clock)
  then show ?thesis using st ok settles_own_lease_ops(2)
    by (auto intro!: all_settle_own_change split: if_splits heartbeat.splits)
next
  case DeadlineElapsed
  then show ?thesis using st ok all_settle_own_drop [OF ok]
    by (auto simp: deadline_elapsed_def stopped_with_def Let_def all_settle_own_def split: shutdown_state.splits if_splits)
qed (use assms in \<open>auto simp: start_worker_def stop_asked_def poll_begins_def poll_calls_def release_unstarted_def loop_joined_def
    all_settled_def drop_ends_def delete_in_flight_def stopped_with_def all_settle_own_def Let_def
    split: if_splits poll_state.splits shutdown_state.splits prod.splits list.splits\<close>)

interpretation settling: worker_invariant cfg all_settle_own for cfg
proof unfold_locales
  show "all_settle_own (create_worker cfg)" by (simp add: all_settle_own_def create_worker_def)
qed (rule worker_step_settles_own)

lemma worker_settles_own:
  assumes "worker_runs cfg th es (create_worker cfg, d) = Some (w, d')" and "i < length (ws_running w)"
    and "rt_aborted (ws_running w ! i) = Some LeaseLostError"
  shows "worker_step cfg th (SettleCalls i now reached answered) (w, d') = None"
proof -
  have "all_settle_own w" by (rule settling.reached [OF assms(1)])
  then have "settles_own_lease (ws_running w ! i)" using assms(2) by (simp add: all_settle_own_def)
  then show ?thesis using assms(2,3) by (auto simp: settles_own_lease_def known_def split: execution.splits)
qed

section \<open>What a settled handler does to its task\<close>

lemma nack_delay_for_bounds:
  assumes "0 < nb_initial b" and "0 < nb_max b"
  shows "0 < nack_delay_for n b" and "nack_delay_for n b \<le> nb_max b" and "nack_delay_for n b \<le> nack_delay_for (Suc n) b"
    and "n \<le> 1 \<Longrightarrow> nb_initial b \<le> nb_max b \<Longrightarrow> nack_delay_for n b = nb_initial b"
proof -
  show "0 < nack_delay_for n b" "nack_delay_for n b \<le> nb_max b" using assms by (simp_all add: nack_delay_for_def Let_def)
  have "nat (min (max (int n - 1) 0) 30) \<le> nat (min (max (int (Suc n) - 1) 0) 30)" by linarith
  then have "(2::int) ^ nat (min (max (int n - 1) 0) 30) \<le> 2 ^ nat (min (max (int (Suc n) - 1) 0) 30)"
    by (rule power_increasing) simp
  then have "nb_initial b * 2 ^ nat (min (max (int n - 1) 0) 30) \<le> nb_initial b * 2 ^ nat (min (max (int (Suc n) - 1) 0) 30)"
    using assms(1) by (simp add: mult_left_mono)
  then show "nack_delay_for n b \<le> nack_delay_for (Suc n) b" unfolding nack_delay_for_def Let_def by (rule min.mono [OF order_refl])
  show "nack_delay_for n b = nb_initial b" if "n \<le> 1" "nb_initial b \<le> nb_max b" using that by (simp add: nack_delay_for_def)
qed

definition settled_as :: "settle_call \<Rightarrow> time \<Rightarrow> task_row \<Rightarrow> bool" where
  "settled_as c now t \<longleftrightarrow>
     (case c of
        AckCall \<Rightarrow> t_state t = TCOMPLETED
      | NackCall delay \<Rightarrow> t_state t = TPENDING \<and> t_visible_at t = now + delay
      | QuarantineCall m \<Rightarrow> t_state t = TQUARANTINED \<and> t_quarantine_reason t = Some m)"

lemma run_settle_call_spec:
  assumes ok: "queue_ok th d" and held: "lease_holder d (lt_id task) = Some (lt_lease_token task)"
    and delay: "\<And>delay. c = NackCall delay \<Longrightarrow> 0 \<le> delay"
  shows "\<exists>d' t. run_settle_call now task c d = Inr (True, d') \<and> find_task d' (lt_id task) = Some t \<and> settled_as c now t"
proof -
  obtain t where t: "find_task d (lt_id task) = Some t" using held by (auto simp: lease_holder_def split: option.splits)
  show ?thesis
    using t held delay
    by (cases c) (auto simp: run_settle_call_def ack_def nack_def nack_row_def quarantine_def update_leased_eq [OF ok]
        assert_non_negative_integer_def find_task_update_task settled_as_def)
qed

lemma or_throw_Inr: "or_throw r f = Inr y \<longleftrightarrow> (\<exists>x. r = Inr x \<and> f x = Inr y)"
  by (cases r) (simp_all add: or_throw_def)

lemma require_Inr:
  "require_positive_integer n v = Inr x \<Longrightarrow> 0 < x" "require_non_negative_integer n v = Inr x \<Longrightarrow> 0 \<le> x"
proof -
  have "0 < q \<Longrightarrow> of_int \<lfloor>q\<rfloor> = q \<Longrightarrow> 0 < \<lfloor>q\<rfloor>" for q :: rat by (metis of_int_0_less_iff)
  then show "require_positive_integer n v = Inr x \<Longrightarrow> 0 < x"
    by (auto simp: require_positive_integer_def is_integer_num_def not_le split: if_splits)
  show "require_non_negative_integer n v = Inr x \<Longrightarrow> 0 \<le> x"
    by (auto simp: require_non_negative_integer_def not_less split: if_splits)
qed

lemma if_Inl_Inr: "(if c then Inl e else r) = Inr y \<longleftrightarrow> \<not> c \<and> r = Inr y"
  by simp

lemma resolve_options_Inr:
  assumes "resolve_options q identity sticky wi = Inr cfg"
  shows "0 < wc_concurrency cfg" "0 < wc_poll cfg" "wc_poll cfg \<le> wc_max_poll cfg" "0 < wc_heartbeat cfg" "wc_heartbeat cfg < wc_visibility cfg"
    "0 \<le> wc_nack_delay cfg" "0 < wc_max_attempts cfg" "wc_backoff cfg = Some b \<Longrightarrow> 0 < nb_initial b \<and> 0 < nb_max b"
proof -
  obtain poll visibility heartbeat max_poll concurrency shutdown grace nack_delay backoff max_attempts where
    cfg: "cfg = \<lparr>wc_queue = q, wc_identity = identity, wc_sticky = optional sticky False, wc_concurrency = concurrency, wc_poll = poll,
       wc_max_poll = max_poll, wc_visibility = visibility, wc_heartbeat = heartbeat, wc_shutdown = shutdown, wc_grace = grace,
       wc_nack_delay = nack_delay, wc_backoff = backoff, wc_max_attempts = max_attempts\<rparr>"
    and i: "0 < poll" "0 < heartbeat" "\<not> visibility \<le> heartbeat" "\<not> max_poll < poll" "0 < concurrency" "0 \<le> nack_delay" "0 < max_attempts"
    and backoff: "(case wi_backoff wi of None \<Rightarrow> Inr None
         | Some (i, m) \<Rightarrow>
             or_throw (require_positive_integer ''nackBackoff.initialMs'' i) (\<lambda>i.
             or_throw (require_positive_integer ''nackBackoff.maxMs'' m) (\<lambda>m. Inr (Some \<lparr>nb_initial = i, nb_max = m\<rparr>)))) =
       (Inr backoff :: engine_error + nack_backoff option)"
    using assms unfolding resolve_options_def or_throw_Inr if_Inl_Inr
    by (elim exE conjE) (rule that, erule sum.inject(2) [THEN iffD1, symmetric], (erule require_Inr | assumption)+)
  from i show "0 < wc_concurrency cfg" "0 < wc_poll cfg" "wc_poll cfg \<le> wc_max_poll cfg" "0 < wc_heartbeat cfg"
    "wc_heartbeat cfg < wc_visibility cfg" "0 \<le> wc_nack_delay cfg" "0 < wc_max_attempts cfg" by (simp_all add: cfg)
  show "0 < nb_initial b \<and> 0 < nb_max b" if "wc_backoff cfg = Some b"
    using backoff that by (auto simp: cfg or_throw_Inr require_Inr split: option.splits prod.splits)
qed

lemma settle_with_spec:
  assumes ok: "queue_ok th d" and held: "lease_holder d (lt_id task) = Some (lt_lease_token task)"
    and cfg: "resolve_options q identity sticky wi = Inr cfg"
  shows "\<exists>d' t. run_settle_call now task (settle_with cfg task failure) d = Inr (True, d') \<and> find_task d' (lt_id task) = Some t \<and>
     (case failure of
        None \<Rightarrow> t_state t = TCOMPLETED
      | Some (ParkTaskError m) \<Rightarrow> t_state t = TQUARANTINED \<and> t_quarantine_reason t = Some m
      | Some (OtherError m) \<Rightarrow>
          if wc_max_attempts cfg \<le> int (lt_attempts task) then t_state t = TQUARANTINED
          else t_state t = TPENDING \<and> now \<le> t_visible_at t \<and>
            (\<forall>b. wc_backoff cfg = Some b \<longrightarrow> t_visible_at t \<le> now + nb_max b))"
proof -
  have cfg_ok: "0 \<le> wc_nack_delay cfg" "wc_backoff cfg = Some b \<Longrightarrow> 0 < nb_initial b \<and> 0 < nb_max b" for b
    using resolve_options_Inr [OF cfg] by blast+
  have delay: "0 \<le> delay" if "settle_with cfg task failure = NackCall delay" for delay
    using that cfg_ok
    by (auto simp: settle_with_def settle_failure_def less_imp_le nack_delay_for_bounds(1) split: option.splits task_failure.splits if_splits)
  from run_settle_call_spec [OF ok held delay, of "settle_with cfg task failure" now] obtain d' t where
    "run_settle_call now task (settle_with cfg task failure) d = Inr (True, d')" "find_task d' (lt_id task) = Some t"
    "settled_as (settle_with cfg task failure) now t" by blast
  moreover have "now \<le> now + wc_nack_delay cfg" "\<And>b. wc_backoff cfg = Some b \<Longrightarrow> now \<le> now + nack_delay_for n b"
    "\<And>b. wc_backoff cfg = Some b \<Longrightarrow> now + nack_delay_for n b \<le> now + nb_max b" for n
    using cfg_ok nack_delay_for_bounds(1,2) [of _ n] by (auto intro: less_imp_le)
  ultimately show ?thesis
    by (cases failure; cases "wc_backoff cfg")
      (auto simp: settle_with_def settle_failure_def settled_as_def split: task_failure.splits if_splits)
qed

section \<open>The latency a worker reports\<close>

lemma take_tasks_visible:
  "t \<in> set (fst (take_tasks opt th now ts d)) \<Longrightarrow> lt_visible_at t = now + dq_visibility_timeout opt"
proof (induction ts arbitrary: d)
  case (Cons u ts)
  then show ?case by (auto simp: Let_def to_leased_task_def lease_task_def split: if_splits prod.splits) (metis fst_conv)+
qed simp

lemma dequeue_visible:
  assumes "dequeue th now opt d = Inr (ts, d')" and "t \<in> set ts"
  shows "lt_visible_at t = now + dq_visibility_timeout opt"
proof -
  have "ts = fst (take_tasks opt th now (next_tasks opt (nat (optional (dq_limit opt) 1)) now d) d)"
    using assms(1) by (auto simp: dequeue_def Let_def split: sum.splits prod.splits)
  then show ?thesis using assms(2) take_tasks_visible by blast
qed

lemma settle_returns_latency:
  assumes "dequeue th now (poll_options cfg n) d = Inr (ts, d')" and "rt_task (ws_running w ! i) \<in> set ts"
  shows "ws_settled (settle_returns cfg i clock failed True w) =
     ws_settled w @ [(lt_id (rt_task (ws_running w ! i)), failed, of_int (clock - now - wc_visibility cfg) / 1000)]"
  using dequeue_visible [OF assms] by (simp add: settle_returns_def leave_flight_def delete_in_flight_def Let_def poll_options_def algebra_simps)

end
