(* ===== verification/WorkerExamples.thy ===== *)
theory WorkerExamples
  imports OperationsExamples TaskHandlerProof WorkerProof
begin

text \<open>
  Concrete workers: one whose handler keeps the session of an order, one with two slots to which the
  queue delivers a task again while its handler still runs, and a step that used all its attempts.
\<close>

section \<open>A worker with two slots\<close>

definition no_numbers :: worker_numbers where
  "no_numbers =
     \<lparr>wi_concurrency = None, wi_poll = None, wi_max_poll = None, wi_visibility = None, wi_heartbeat = None, wi_shutdown = None,
      wi_grace = None, wi_nack_delay = None, wi_backoff = None, wi_max_attempts = None\<rparr>"

definition two_slots :: worker_config where
  "two_slots =
     (case resolve_options ''main'' (Some (''w1'', ''v1'')) None (no_numbers\<lparr>wi_concurrency := Some (Fin 2)\<rparr>) of
        Inr cfg \<Rightarrow> cfg
      | Inl _ \<Rightarrow> \<lparr>wc_queue = [], wc_identity = None, wc_sticky = False, wc_concurrency = 0, wc_poll = 0, wc_max_poll = 0,
          wc_visibility = 0, wc_heartbeat = 0, wc_shutdown = 0, wc_grace = 0, wc_nack_delay = 0, wc_backoff = None,
          wc_max_attempts = 0\<rparr>)"

lemma two_slots_resolved:
  "resolve_options ''main'' (Some (''w1'', ''v1'')) None (no_numbers\<lparr>wi_concurrency := Some (Fin 2)\<rparr>) = Inr two_slots"
  "wc_concurrency two_slots = 2"
  by code_simp+

text \<open>
  The heartbeat timer of the order's task fires too late, after its 30 seconds; the task comes a second
  time, and then the task of another order.
\<close>

definition another_order :: "db \<Rightarrow> db" where
  "another_order d = (case start_run None 41000 41000 ''main'' 7 second_input d of Inr (_, d') \<Rightarrow> d' | Inl _ \<Rightarrow> d)"

definition late_heartbeat :: "worker_event list" where
  "late_heartbeat =
     [StartCalled, PollBegins NoBudget, PollCalls 3000 True True, PollReturns 3000,
      PollBegins NoBudget, PollCalls 40000 True True, PollReturns 40000, OthersCommit another_order,
      PollBegins NoBudget, PollCalls 42000 True True, PollReturns 42000]"

definition then_stopped :: "worker_event list" where
  "then_stopped =
     [HandlerEnds 0 None, SettleCalls 0 43000 True True, SettleReturns 0 43000,
      StopCalled, PollBegins NoBudget, LoopJoined, HandlerEnds 2 None, SettleCalls 2 44000 True True, SettleReturns 2 44000, AllSettled]"

lemma late_heartbeat_run:
  "case worker_runs two_slots 3 late_heartbeat (create_worker two_slots, order_db) of
     None \<Rightarrow> False | Some (w, _) \<Rightarrow> map rt_done (ws_running w) = [Handling, Handling, Handling] \<and> active_count w = 2"
  by code_simp


lemma then_stopped_run:
  "case worker_runs two_slots 3 (late_heartbeat @ then_stopped) (create_worker two_slots, order_db) of
     None \<Rightarrow> False
   | Some (w, _) \<Rightarrow> map rt_done (ws_running w) = [Finished, Handling, Finished] \<and> map rt_aborted (ws_running w) = [None, None, None] \<and>
       ws_shutdown w = StopResult 1 0 \<and> active_count w = 0"
  by code_simp

text \<open>The worker in the middle of a task it got at 3000, whose handler ends at 4000.\<close>

definition settling_worker :: worker where
  "settling_worker =
     (case worker_runs two_slots 3 [StartCalled, PollBegins NoBudget, PollCalls 3000 True True, PollReturns 3000,
         HandlerEnds 0 None, SettleCalls 0 4000 True True] (create_worker two_slots, order_db) of
        Some (w, _) \<Rightarrow> w
      | None \<Rightarrow> create_worker two_slots)"

definition first_delivery :: leased_task where
  "first_delivery = rt_task (ws_running settling_worker ! 0)"

lemma first_delivered:
  "case dequeue 3 3000 (poll_options two_slots 2) order_db of Inl _ \<Rightarrow> False | Inr (ts, _) \<Rightarrow> ts = [first_delivery]"
  "wc_visibility two_slots = 30000" "rt_done (ws_running settling_worker ! 0) = Answering False True"
  by code_simp+

lemma map_three: "map f xs = [a, b, c] \<Longrightarrow> length xs = 3 \<and> f (xs ! 1) = b"
  by (auto simp: map_eq_Cons_conv)

section \<open>A step without attempts left\<close>

definition spent_env :: process_env where
  "spent_env =
     refusing_env\<lparr>pe_lookup := (\<lambda>_. Some \<lparr>sd_timeout = None, sd_retry = Some (DEFAULT_RETRY_POLICY\<lparr>rp_max_attempts := 1\<rparr>)\<rparr>),
       pe_run := (\<lambda>st inp. Some (100, Inl (new_error PlainErrorClass ''Error'' ''down'')))\<rparr>"

definition spent_db :: db where
  "spent_db = snd (process_step_task spent_env alone charge_task charging_db)"

lemma charge_spent:
  "\<exists>n lid. process_step_task spent_env alone charge_task charging_db = (Some (Inr (DeadLettered n lid)), spent_db)"
proof -
  have "case fst (process_step_task spent_env alone charge_task charging_db) of Some (Inr (DeadLettered _ _)) \<Rightarrow> True | _ \<Rightarrow> False"
    by code_simp
  then show ?thesis unfolding spent_db_def by (cases "process_step_task spent_env alone charge_task charging_db")
    (auto split: option.splits sum.splits step_task_outcome.splits)
qed

lemma charge_is_no_workflow_task:
  "list_all (\<lambda>t. t_id t \<noteq> lt_id charge_task) (workflow_tasks charging_db (lt_run charge_task))"
  by code_simp

section \<open>A worker that keeps the session of an order\<close>

definition pay_options :: handler_options where
  "pay_options =
     \<lparr>ho_queue = ''main'', ho_workflows = (\<lambda>wt. if wt = ''order'' then Some (\<lambda>_. pay_code) else None), ho_router = Some (''w1'', 60000),
      ho_string = no_text, ho_enc = no_text, ho_threshold = None\<rparr>"

definition pay_clock :: "time \<Rightarrow> task_clock" where
  "pay_clock t = \<lparr>tk_cache_get = t, tk_cache_set = t, tk_record = t, tk_now = t, tk_env = (\<lambda>_. pay_env t [])\<rparr>"

definition pay_handled :: "handler_result \<times> decision_report option \<times> sticky_decider \<times> db" where
  "pay_handled = workflow_task_handler pay_options (pay_clock 3000) alone order_lease (create_sticky_decider pay_cache) order_db"

definition pay_session :: sticky_decider where
  "pay_session = fst (snd (snd pay_handled))"

definition pay_suspended_db :: db where
  "pay_suspended_db = snd (snd (snd pay_handled))"

definition pay_paid_db :: db where
  "pay_paid_db = (case record_step_result 4000 0 ''step-1'' ''attempt-1'' (OutcomeCompleted VNull) pay_suspended_db of
     Inr (_, d) \<Rightarrow> d | Inl _ \<Rightarrow> pay_suspended_db)"

definition second_lease :: leased_task where
  "second_lease = order_lease\<lparr>lt_id := 50\<rparr>"

definition order_event :: event where
  "order_event = RunStarted ''order'' (VObj [(''item'', VStr ''book'')])"

lemma pay_second_task:
  "fst (workflow_task_handler pay_options (pay_clock 5000) alone second_lease pay_session pay_paid_db) = HandlerDone"
  "map_option dr_source (fst (snd (workflow_task_handler pay_options (pay_clock 5000) alone second_lease pay_session pay_paid_db))) = Some (Some FromCache)"
  "map_option dr_source (fst (snd (workflow_task_handler pay_options (pay_clock 5000) alone second_lease (create_sticky_decider pay_cache) pay_paid_db))) = Some (Some FromReplay)"
  "map stored (run_events order_db 0) = [order_event]" "run_closed pay_paid_db 0 = False"
  "map stored (run_events pay_paid_db 0) = [order_event, TimeRecorded 1000, StepScheduled ''step-1'' ''charge'' VNull, StepCompleted ''step-1'' VNull]"
  "lt_run order_lease = 0" "lt_run second_lease = 0" "ca_entries pay_cache = []"
  by code_simp+

lemma pay_paid: "\<exists>x. record_step_result 4000 0 ''step-1'' ''attempt-1'' (OutcomeCompleted VNull) pay_suspended_db = Inr (x, pay_paid_db)"
proof -
  have "case record_step_result 4000 0 ''step-1'' ''attempt-1'' (OutcomeCompleted VNull) pay_suspended_db of Inr _ \<Rightarrow> True | Inl _ \<Rightarrow> False"
    by code_simp
  then show ?thesis by (auto simp: pay_paid_db_def split: sum.splits)
qed

lemma order_log_in_order:
  "log_in_order [order_event]"
  "log_in_order [order_event, TimeRecorded 1000, StepScheduled ''step-1'' ''charge'' VNull, StepCompleted ''step-1'' VNull]" (is "log_in_order ?es")
proof -
  show "log_in_order [order_event]"
    by (simp add: log_in_order_def settled_once_def no_orphans_def order_event_def finishes_def outcome_has_command_def)
  have "length (filter (finishes sid) ?es) \<le> 1" for sid by (simp add: order_event_def finishes_def)
  moreover have "no_orphans ?es"
    by (simp add: no_orphans_def order_event_def outcome_has_command_def recorded_shapes_def shape_ids_def List.map_filter_def is_step_def)
  ultimately show "log_in_order ?es" by (simp add: log_in_order_def settled_once_def)
qed

definition pay_envs :: "uuid \<Rightarrow> replay_env" where
  "pay_envs rid = pay_env 0 []"

lemma alone_moves: "others_move alone"
  by (simp add: others_move_def alone_def moves_refl)

lemma pay_draws: "same_draws (pay_envs rid) (tk_env (pay_clock t) rid)"
  by (simp add: same_draws_def pay_envs_def pay_clock_def pay_env_def)

lemma pay_first_reaches:
  "worker_reaches pay_options pay_envs (create_sticky_decider pay_cache, order_db) (pay_session, pay_suspended_db)"
proof -
  have "workflow_task_handler pay_options (pay_clock 3000) alone order_lease (create_sticky_decider pay_cache) order_db =
      (fst pay_handled, fst (snd pay_handled), pay_session, pay_suspended_db)"
    by (simp add: pay_session_def pay_suspended_db_def pay_handled_def [symmetric])
  then show ?thesis
    by (intro worker_reaches.task_handled [where others = alone and task = order_lease and clk = "pay_clock 3000",
          OF worker_reaches.worker_starts] alone_moves pay_draws)
      (simp add: alone_def pay_second_task order_log_in_order)
qed

lemma pay_suspended_ok: "engine_ok pay_suspended_db"
  using worker_reaches_fits [OF pay_first_reaches] by (simp add: worker_fits_def sessions_def create_sticky_decider_def pay_second_task)

lemma pay_worker_reaches:
  "worker_reaches pay_options pay_envs (create_sticky_decider pay_cache, order_db) (pay_session, pay_paid_db)"
proof -
  from pay_suspended_ok have "moves pay_suspended_db pay_paid_db" using pay_paid record_step_step moves_extends by blast
  with pay_first_reaches show ?thesis by (rule worker_reaches.others_commit)
qed

text \<open>While the worker decides on a second task of the order, an attempt of its charge fails.\<close>

definition charge_failed_db :: db where
  "charge_failed_db = (case record_failure 4500 0 ''step-1'' 1 (SerializedError ''Error'' ''down'' None VUndef None) (Some 6000) pay_suspended_db of
     Inr (_, d) \<Rightarrow> d | Inl _ \<Rightarrow> pay_suspended_db)"

definition charge_fails_meanwhile :: "nat \<Rightarrow> db \<Rightarrow> db" where
  "charge_fails_meanwhile k d = (if k = 2 then charge_failed_db else d)"

lemma charge_failed:
  "record_failure 4500 0 ''step-1'' 1 (SerializedError ''Error'' ''down'' None VUndef None) (Some 6000) pay_suspended_db = Inr (True, charge_failed_db)"
proof -
  have "case record_failure 4500 0 ''step-1'' 1 (SerializedError ''Error'' ''down'' None VUndef None) (Some 6000) pay_suspended_db of
      Inr (True, _) \<Rightarrow> True | _ \<Rightarrow> False"
    by code_simp
  then show ?thesis by (auto simp: charge_failed_db_def split: sum.splits bool.splits)
qed

lemma pay_undecided:
  "fst (sticky_decide no_text no_text None 5000 5000 0 ''order'' pay_code (task_env (pay_clock 5000) 0 (run_events pay_suspended_db 0)) pay_session) =
     Inr ((\<lparr>de_outcome = Suspended, de_commands = []\<rparr>, None), FromCache)"
  "map stored (run_events pay_suspended_db 0) = [order_event, TimeRecorded 1000, StepScheduled ''step-1'' ''charge'' VNull]"
  "find_task_result pay_suspended_db 0 (show_nat 50) = None" "run_closed pay_suspended_db 0 = False"
  "find_run pay_suspended_db 0 \<noteq> None"
  by code_simp+

end
