(* ===== verification/RunService.thy ===== *)
theory RunService
  imports Engine Cron
begin

text \<open>
  The operations behind the endpoints (\<open>packages/api/src/run-service.ts\<close>): every one takes the caller's namespace
  first and reports a run of another namespace like a run that does not exist; lists are read in pages.

  A run or dead letter id comes as text: \<open>uid\<close> is the id that text names, \<open>None\<close> where it is no uuid. The text of a
  cursor over runs is the base64url of a timestamp and an id; reading and writing it are arguments.
\<close>

section \<open>Results\<close>

datatype service_error =
    RunNotFound string
  | InvalidCursorError
  | DeadLetterNotFoundError string
  | StartRefused start_error
  | Interaction interaction_error
  | ServiceFailed engine_error
  | NamespaceMissing uuid

record run_summary =
  rs_run :: uuid
  rs_workflow_type :: string
  rs_status :: run_state
  rs_started_at :: time
  rs_closed_at :: "time option"

record run_description = run_summary +
  rd_input :: jsv
  rd_result :: jsv
  rd_error :: "recorded_error option"
  rd_last_seq :: nat
  rd_key :: "string option"

record dead_letter_summary =
  ds_id :: uuid
  ds_run :: uuid
  ds_step :: string
  ds_attempts :: nat
  ds_error :: "string \<times> string"
  ds_reason :: string
  ds_created_at :: time

record list_runs_input =
  li_status :: "run_state option"
  li_workflow_type :: "string option"
  li_started_after :: "time option"
  li_started_before :: "time option"
  li_limit :: nat
  li_cursor :: "string option"

text \<open>\<open>PageInput\<close>, and a page with its \<open>nextCursor\<close>.\<close>

record page_input =
  pi_limit :: "int option"
  pi_cursor :: "string option"

type_synonym 'r page = "'r list \<times> string option"

definition DEFAULT_PAGE_LIMIT :: int where
  "DEFAULT_PAGE_LIMIT = 500"

definition MAX_PAGE_LIMIT :: int where
  "MAX_PAGE_LIMIT = 1000"

definition to_summary :: "run_row \<Rightarrow> run_summary" where
  "to_summary r =
     \<lparr>rs_run = r_id r, rs_workflow_type = r_workflow_type r, rs_status = r_status r, rs_started_at = r_started_at r,
      rs_closed_at = r_closed_at r\<rparr>"

definition to_description :: "run_row \<Rightarrow> run_description" where
  "to_description r =
     run_summary.extend (to_summary r)
       (run_description.fields (r_input r) (r_result r) (r_error r) (r_last_seq r) (r_idempotency_key r))"

definition page_size :: "page_input \<Rightarrow> int" where
  "page_size p = min (max (optional (pi_limit p) DEFAULT_PAGE_LIMIT) 1) MAX_PAGE_LIMIT"

definition parse_sequence_cursor :: "string option \<Rightarrow> service_error + nat" where
  "parse_sequence_cursor cursor =
     (case cursor of
        None \<Rightarrow> Inr 0
      | Some s \<Rightarrow> if all_digits s \<and> length s \<le> 15 then Inr (read_digits s) else Inl InvalidCursorError)"

definition parse_id_cursor :: "(string \<Rightarrow> uuid option) \<Rightarrow> string option \<Rightarrow> service_error + uuid option" where
  "parse_id_cursor uid cursor =
     (case cursor of
        None \<Rightarrow> Inr None
      | Some s \<Rightarrow> (case uid s of None \<Rightarrow> Inl InvalidCursorError | Some x \<Rightarrow> Inr (Some x)))"

section \<open>Who owns a run\<close>

definition read_run :: "(string \<Rightarrow> uuid option) \<Rightarrow> uuid \<Rightarrow> string \<Rightarrow> db \<Rightarrow> service_error + run_row" where
  "read_run uid ns rid d =
     (case uid rid of
        None \<Rightarrow> Inl (RunNotFound rid)
      | Some x \<Rightarrow> (case find (\<lambda>r. r_id r = x \<and> r_namespace r = ns) (d_runs d) of
                     None \<Rightarrow> Inl (RunNotFound rid)
                   | Some r \<Rightarrow> Inr r))"

definition assert_owned :: "(string \<Rightarrow> uuid option) \<Rightarrow> uuid \<Rightarrow> string \<Rightarrow> db \<Rightarrow> service_error + uuid" where
  "assert_owned uid ns rid d =
     (case uid rid of
        None \<Rightarrow> Inl (RunNotFound rid)
      | Some x \<Rightarrow> if length (filter (\<lambda>r. r_id r = x \<and> r_namespace r = ns) (d_runs d)) \<noteq> 1 then Inl (RunNotFound rid) else Inr x)"

section \<open>Reading\<close>

definition describe_run :: "(string \<Rightarrow> uuid option) \<Rightarrow> uuid \<Rightarrow> string \<Rightarrow> db \<Rightarrow> service_error + run_description" where
  "describe_run uid ns rid d = map_sum id to_description (read_run uid ns rid d)"

text \<open>Rows newest first: \<open>order by started_at desc, id desc\<close>.\<close>

definition newest_first :: "run_row list \<Rightarrow> run_row list" where
  "newest_first rs = rev (sort_key (\<lambda>r. (r_started_at r, r_id r)) rs)"

definition run_listed :: "uuid \<Rightarrow> list_runs_input \<Rightarrow> run_row \<Rightarrow> bool" where
  "run_listed ns li r \<longleftrightarrow>
     r_namespace r = ns \<and>
     (case li_status li of None \<Rightarrow> True | Some s \<Rightarrow> r_status r = s) \<and>
     (case li_workflow_type li of None \<Rightarrow> True | Some wt \<Rightarrow> r_workflow_type r = wt) \<and>
     (case li_started_after li of None \<Rightarrow> True | Some t \<Rightarrow> t \<le> r_started_at r) \<and>
     (case li_started_before li of None \<Rightarrow> True | Some t \<Rightarrow> r_started_at r < t)"

definition list_runs ::
    "(string \<Rightarrow> (time \<times> uuid) option) \<Rightarrow> (time \<times> uuid \<Rightarrow> string) \<Rightarrow> uuid \<Rightarrow> list_runs_input \<Rightarrow> db \<Rightarrow> service_error + run_summary page" where
  "list_runs decode_cursor encode_cursor ns li d =
     (let query = (\<lambda>before.
            let rows = take (li_limit li + 1) (newest_first (filter (\<lambda>r. run_listed ns li r \<and> before (r_started_at r, r_id r)) (d_runs d)));
                shown = take (li_limit li) rows
            in (map to_summary shown,
                if li_limit li < length rows \<and> shown \<noteq> []
                then Some (encode_cursor (r_started_at (last shown), r_id (last shown))) else None)) in
      case li_cursor li of
        None \<Rightarrow> Inr (query (\<lambda>_. True))
      | Some c \<Rightarrow> (case decode_cursor c of None \<Rightarrow> Inl InvalidCursorError | Some k \<Rightarrow> Inr (query (\<lambda>x. x < k))))"

definition get_history :: "(string \<Rightarrow> uuid option) \<Rightarrow> uuid \<Rightarrow> string \<Rightarrow> page_input \<Rightarrow> db \<Rightarrow> service_error + stored_event page" where
  "get_history uid ns rid p d =
     (case assert_owned uid ns rid d of
        Inl e \<Rightarrow> Inl e
      | Inr x \<Rightarrow>
          (case parse_sequence_cursor (pi_cursor p) of
             Inl e \<Rightarrow> Inl e
           | Inr after \<Rightarrow>
               (let limit = nat (page_size p); events = store_read d x after (Some (limit + 1)); shown = take limit events
                in Inr (shown, if limit < length events \<and> shown \<noteq> [] then Some (show_nat (sequence_number (last shown))) else None))))"

text \<open>The row is read before the events; \<open>others\<close> is what the rest of the system commits in between.\<close>

definition read_history_since ::
    "(string \<Rightarrow> uuid option) \<Rightarrow> (db \<Rightarrow> db) \<Rightarrow> uuid \<Rightarrow> string \<Rightarrow> nat \<Rightarrow> db \<Rightarrow> service_error + stored_event list \<times> run_state \<times> bool" where
  "read_history_since uid others ns rid after d =
     (case read_run uid ns rid d of
        Inl e \<Rightarrow> Inl e
      | Inr r \<Rightarrow> Inr (store_read (others d) (r_id r) after None, r_status r, r_status r \<noteq> RUNNING))"

text \<open>The table \<open>namespaces\<close> as a map to names.\<close>

definition describe_namespace :: "(uuid \<Rightarrow> string option) \<Rightarrow> uuid \<Rightarrow> service_error + uuid \<times> string" where
  "describe_namespace names ns = (case names ns of None \<Rightarrow> Inl (NamespaceMissing ns) | Some name \<Rightarrow> Inr (ns, name))"

definition to_letter_summary :: "dead_letter_row \<Rightarrow> dead_letter_summary" where
  "to_letter_summary l =
     \<lparr>ds_id = dl_id l, ds_run = dl_run l, ds_step = dl_step l, ds_attempts = dl_attempts l,
      ds_error = (se_name (dl_error l), se_message (dl_error l)), ds_reason = dl_reason l, ds_created_at = dl_created_at l\<rparr>"

definition list_letters_page ::
    "(string \<Rightarrow> uuid option) \<Rightarrow> (uuid \<Rightarrow> string) \<Rightarrow> uuid \<Rightarrow> page_input \<Rightarrow> db \<Rightarrow> service_error + dead_letter_summary page" where
  "list_letters_page uid show_uuid ns p d =
     (case parse_id_cursor uid (pi_cursor p) of
        Inl e \<Rightarrow> Inl e
      | Inr after \<Rightarrow>
          (let limit = nat (page_size p);
               letters = list_dead_letters \<lparr>lo_run = None, lo_include_requeued = False, lo_namespace = Some ns, lo_after = after,
                 lo_limit = Some (limit + 1)\<rparr> d;
               shown = take limit letters
           in Inr (map to_letter_summary shown, if limit < length letters \<and> shown \<noteq> [] then Some (show_uuid (dl_id (last shown))) else None)))"

section \<open>Acting\<close>

definition requeue_dead_letter :: "(string \<Rightarrow> uuid option) \<Rightarrow> time \<Rightarrow> time \<Rightarrow> uuid \<Rightarrow> string \<Rightarrow> (service_error, db, uuid) tx" where
  "requeue_dead_letter uid now clock ns lid = (\<lambda>d.
     case uid lid of
       None \<Rightarrow> Inl (DeadLetterNotFoundError lid)
     | Some x \<Rightarrow>
         (case get_dead_letter d x of
            None \<Rightarrow> Inl (DeadLetterNotFoundError lid)
          | Some l \<Rightarrow>
              if dl_namespace l \<noteq> ns \<or> dl_requeued_at l \<noteq> None then Inl (DeadLetterNotFoundError lid)
              else (case requeue now clock x d of
                      (None, _) \<Rightarrow> Inl (DeadLetterNotFoundError lid)
                    | (Some tid, d') \<Rightarrow> Inr (tid, d'))))"

definition owned_then ::
    "(string \<Rightarrow> uuid option) \<Rightarrow> uuid \<Rightarrow> string \<Rightarrow> ('e \<Rightarrow> service_error) \<Rightarrow> (uuid \<Rightarrow> ('e, db, 'a) tx) \<Rightarrow> (service_error, db, 'a) tx" where
  "owned_then uid ns rid err op = (\<lambda>d.
     case assert_owned uid ns rid d of
       Inl e \<Rightarrow> Inl e
     | Inr x \<Rightarrow> map_sum err id (op x d))"

definition service_signal_run :: "(string \<Rightarrow> uuid option) \<Rightarrow> time \<Rightarrow> uuid \<Rightarrow> string \<Rightarrow> string \<Rightarrow> jsv \<Rightarrow> (service_error, db, nat) tx" where
  "service_signal_run uid now ns rid name payload = owned_then uid ns rid Interaction (\<lambda>x. signal_run now x name payload)"

definition service_cancel_run :: "(string \<Rightarrow> uuid option) \<Rightarrow> time \<Rightarrow> uuid \<Rightarrow> string \<Rightarrow> string option \<Rightarrow> (service_error, db, bool \<times> nat) tx" where
  "service_cancel_run uid now ns rid reason = owned_then uid ns rid ServiceFailed (\<lambda>x. cancel_run now x reason)"

definition service_terminate_run :: "(string \<Rightarrow> uuid option) \<Rightarrow> time \<Rightarrow> uuid \<Rightarrow> string \<Rightarrow> string option \<Rightarrow> (service_error, db, nat) tx" where
  "service_terminate_run uid now ns rid reason = owned_then uid ns rid ServiceFailed (\<lambda>x. terminate_run now x reason)"

definition service_start_run ::
    "(string \<Rightarrow> bool) option \<Rightarrow> time \<Rightarrow> time \<Rightarrow> string \<Rightarrow> uuid \<Rightarrow> start_run_input \<Rightarrow> (service_error, db, bool \<times> run_description) tx" where
  "service_start_run registered clock now q ns si = (\<lambda>d.
     case start_run registered clock now q ns si d of
       Inl e \<Rightarrow> Inl (StartRefused e)
     | Inr ((created, x), d') \<Rightarrow>
         (case find (\<lambda>r. r_id r = x \<and> r_namespace r = ns) (d_runs d') of
            None \<Rightarrow> Inl (RunNotFound [])
          | Some r \<Rightarrow> Inr ((created, to_description r), d')))"

end
