(* ===== verification/RunServiceProof.thy ===== *)
theory RunServiceProof
  imports RunService
begin

text \<open>
  Following the cursors of a list to its end shows every row once, in the order of the list; and a caller
  learns nothing of a run of another namespace and changes nothing of it.
\<close>

section \<open>Pages\<close>

text \<open>A client that follows \<open>nextCursor\<close> until there is none, through at most \<open>n\<close> pages.\<close>

fun follow_pages :: "nat \<Rightarrow> ('c option \<Rightarrow> 'r list \<times> 'c option) \<Rightarrow> 'c option \<Rightarrow> 'r list" where
  "follow_pages 0 page c = []"
| "follow_pages (Suc n) page c =
     (case page c of (rs, None) \<Rightarrow> rs | (rs, Some c') \<Rightarrow> rs @ follow_pages n page (Some c'))"

lemma follow_pages_map: "follow_pages n (\<lambda>c. apfst (map f) (page c)) c = map f (follow_pages n page c)"
  by (induction n page c rule: follow_pages.induct) (auto simp: apfst_def split: prod.split option.split)

definition cut_page :: "nat \<Rightarrow> ('r \<Rightarrow> 'c) \<Rightarrow> 'r list \<Rightarrow> 'r list \<times> 'c option" where
  "cut_page limit enc rs = (take limit rs, if limit < length rs then Some (enc (last (take limit rs))) else None)"

text \<open>
  What a list that is read in pages has to keep: its rows are in a strict order, the first page is a prefix of them,
  and the page after a row is a prefix of the rows beyond it.
\<close>

locale cursor_pages =
  fixes sound :: bool and rows :: "'r list" and beyond :: "'r \<Rightarrow> 'r \<Rightarrow> bool" and enc :: "'r \<Rightarrow> 'c"
    and page :: "'c option \<Rightarrow> 'r list \<times> 'c option" and limit :: nat
  assumes limit: "sound \<Longrightarrow> 0 < limit"
    and ordered: "sound \<Longrightarrow> sorted_wrt beyond rows"
    and asym: "sound \<Longrightarrow> beyond a b \<Longrightarrow> \<not> beyond b a"
    and first_page: "sound \<Longrightarrow> page None = cut_page limit enc rows"
    and next_page: "sound \<Longrightarrow> r \<in> set rows \<Longrightarrow> page (Some (enc r)) = cut_page limit enc (filter (beyond r) rows)"
begin

lemma beyond_drop:
  assumes sound and "k < length rows"
  shows "filter (beyond (rows ! k)) rows = drop (Suc k) rows"
proof -
  have split: "rows = take (Suc k) rows @ drop (Suc k) rows" by simp
  have "\<not> beyond (rows ! k) r" if r: "r \<in> set (take (Suc k) rows)" for r
  proof -
    obtain i where i: "i < Suc k" "i < length rows" "r = rows ! i" using r by (auto simp: in_set_conv_nth)
    show ?thesis
    proof (cases "i = k")
      case True
      then show ?thesis using asym [OF assms(1), of r r] i(3) by auto
    next
      case False
      then have "beyond r (rows ! k)" using sorted_wrt_nth_less [OF ordered [OF assms(1)]] i assms(2) by simp
      then show ?thesis using asym [OF assms(1)] by blast
    qed
  qed
  then have none: "filter (beyond (rows ! k)) (take (Suc k) rows) = []" by (simp add: filter_empty_conv)
  have "beyond (rows ! k) r" if r: "r \<in> set (drop (Suc k) rows)" for r
  proof -
    obtain j where "j < length rows - Suc k" "r = rows ! (Suc k + j)" using r by (auto simp: in_set_conv_nth)
    then show ?thesis using sorted_wrt_nth_less [OF ordered [OF assms(1)], of k "Suc k + j"] by simp
  qed
  then have all: "filter (beyond (rows ! k)) (drop (Suc k) rows) = drop (Suc k) rows" by simp
  show ?thesis by (subst split) (simp only: filter_append none all append_Nil)
qed

lemma follow_from:
  assumes sound and "k < length rows" and "length rows - Suc k < n"
  shows "follow_pages n page (Some (enc (rows ! k))) = drop (Suc k) rows"
  using assms(2,3)
proof (induction n arbitrary: k)
  case (Suc n)
  have p: "page (Some (enc (rows ! k))) = cut_page limit enc (drop (Suc k) rows)"
    using next_page [OF assms(1)] beyond_drop [OF assms(1)] Suc.prems(1) by simp
  show ?case
  proof (cases "limit < length rows - Suc k")
    case True
    note pos = limit [OF assms(1)]
    have "last (take limit (drop (Suc k) rows)) = rows ! (k + limit)"
      using True pos by (simp add: last_conv_nth)
    moreover have "follow_pages n page (Some (enc (rows ! (k + limit)))) = drop (Suc (k + limit)) rows"
      using Suc.IH [of "k + limit"] Suc.prems True pos by simp
    moreover have "take limit (drop (Suc k) rows) @ drop (Suc (k + limit)) rows = drop (Suc k) rows"
      using append_take_drop_id [of limit "drop (Suc k) rows"] by (simp add: add.commute)
    ultimately show ?thesis using True by (simp add: p cut_page_def)
  next
    case False
    then show ?thesis by (simp add: p cut_page_def)
  qed
qed simp

lemma follow_all:
  assumes sound and "length rows < n"
  shows "follow_pages n page None = rows"
proof (cases n)
  case (Suc m)
  show ?thesis
  proof (cases "limit < length rows")
    case True
    note pos = limit [OF assms(1)]
    have "last (take limit rows) = rows ! (limit - 1)" using True pos by (subst last_conv_nth) auto
    moreover have "follow_pages m page (Some (enc (rows ! (limit - 1)))) = drop limit rows"
      using follow_from [OF assms(1), of "limit - 1" m] True pos assms(2) Suc by simp
    ultimately show ?thesis using True by (simp add: Suc first_page [OF assms(1)] cut_page_def)
  next
    case False
    then show ?thesis by (simp add: Suc first_page [OF assms(1)] cut_page_def)
  qed
qed (use assms in simp)

end

lemma cut_page_one_more:
  assumes "0 < limit"
  shows "(take limit (take (limit + 1) rs), if limit < length (take (limit + 1) rs) \<and> take limit (take (limit + 1) rs) \<noteq> []
      then Some (enc (last (take limit (take (limit + 1) rs)))) else None) = cut_page limit enc rs"
  using assms by (auto simp: cut_page_def min_def)

section \<open>The runs of a namespace\<close>

definition run_position :: "run_row \<Rightarrow> time \<times> uuid" where
  "run_position r = (r_started_at r, r_id r)"

definition listed_rows :: "uuid \<Rightarrow> list_runs_input \<Rightarrow> db \<Rightarrow> run_row list" where
  "listed_rows ns li d = newest_first (filter (run_listed ns li) (d_runs d))"

definition runs_page ::
    "(string \<Rightarrow> (time \<times> uuid) option) \<Rightarrow> (time \<times> uuid \<Rightarrow> string) \<Rightarrow> uuid \<Rightarrow> list_runs_input \<Rightarrow> db \<Rightarrow> string option \<Rightarrow> run_row page" where
  "runs_page dec enc ns li d c =
     (case c of
        None \<Rightarrow> cut_page (li_limit li) (enc \<circ> run_position) (listed_rows ns li d)
      | Some s \<Rightarrow> cut_page (li_limit li) (enc \<circ> run_position) (filter (\<lambda>r. case dec s of None \<Rightarrow> False | Some k \<Rightarrow> run_position r < k) (listed_rows ns li d)))"

lemma newest_first_filter: "newest_first (filter P rs) = filter P (newest_first rs)"
  by (simp add: newest_first_def filter_sort flip: rev_filter)

lemma newest_first_ordered:
  assumes "distinct (map r_id rs)"
  shows "sorted_wrt (\<lambda>a b. run_position b < run_position a) (newest_first rs)"
proof -
  let ?s = "sort_key run_position rs"
  have "distinct (map run_position rs)" using assms by (auto simp: distinct_map run_position_def inj_on_def)
  moreover have "mset (map run_position ?s) = mset (map run_position rs)" by simp
  ultimately have "distinct (map run_position ?s)" by (metis mset_eq_imp_distinct_iff)
  then have "sorted_wrt (<) (map run_position ?s)" by (simp add: strict_sorted_iff)
  then have "sorted_wrt (\<lambda>a b. run_position a < run_position b) ?s" by (simp add: sorted_wrt_map)
  moreover have "newest_first rs = rev ?s" by (simp add: newest_first_def run_position_def [abs_def])
  ultimately show ?thesis by (simp add: sorted_wrt_rev)
qed

lemma list_runs_page:
  assumes "0 < li_limit li" and "\<And>s. li_cursor li = Some s \<Longrightarrow> dec s \<noteq> None"
  shows "list_runs dec enc ns li d = Inr (apfst (map to_summary) (runs_page dec enc ns li d (li_cursor li)))"
proof -
  have rows: "newest_first (filter (\<lambda>r. run_listed ns li r \<and> before (r_started_at r, r_id r)) (d_runs d)) =
      filter (\<lambda>r. before (run_position r)) (listed_rows ns li d)" for before
    by (simp add: listed_rows_def newest_first_filter run_position_def conj_commute flip: filter_filter)
  note cut = cut_page_one_more [OF assms(1), of _ "enc \<circ> run_position"]
  show ?thesis
  proof (cases "li_cursor li")
    case None
    have all: "filter (\<lambda>r. True) (listed_rows ns li d) = listed_rows ns li d" by simp
    show ?thesis using cut [of "listed_rows ns li d"] unfolding list_runs_def Let_def rows None runs_page_def
      by (auto simp: apfst_def map_prod_def run_position_def cut_page_def split: if_splits)
  next
    case (Some s)
    then obtain k where k: "dec s = Some k" using assms(2) by auto
    show ?thesis using cut [of "filter (\<lambda>r. run_position r < k) (listed_rows ns li d)"]
      unfolding list_runs_def Let_def rows Some runs_page_def
      by (auto simp: apfst_def map_prod_def run_position_def cut_page_def k split: if_splits)
  qed
qed

interpretation run_pages: cursor_pages
  "0 < li_limit li \<and> distinct (map r_id (d_runs d)) \<and> (\<forall>k. dec (enc k) = Some k)" "listed_rows ns li d"
  "\<lambda>a b. run_position b < run_position a" "enc \<circ> run_position" "runs_page dec enc ns li d" "li_limit li"
  for li d dec enc ns
proof unfold_locales
  assume s: "0 < li_limit li \<and> distinct (map r_id (d_runs d)) \<and> (\<forall>k. dec (enc k) = Some k)"
  then show "0 < li_limit li" by simp
  show "sorted_wrt (\<lambda>a b. run_position b < run_position a) (listed_rows ns li d)"
    unfolding listed_rows_def by (rule newest_first_ordered) (use s in \<open>simp add: distinct_map_filter\<close>)
  show "runs_page dec enc ns li d None = cut_page (li_limit li) (enc \<circ> run_position) (listed_rows ns li d)" by (simp add: runs_page_def)
  show "runs_page dec enc ns li d (Some ((enc \<circ> run_position) r)) =
      cut_page (li_limit li) (enc \<circ> run_position) (filter (\<lambda>b. run_position b < run_position r) (listed_rows ns li d))" for r
  proof -
    have "dec (enc (run_position r)) = Some (run_position r)" using s by blast
    then show ?thesis by (simp add: runs_page_def)
  qed
qed auto

text \<open>What a client sees that follows the cursors of \<open>listRuns\<close>; a page that throws ends it.\<close>

definition answered_page :: "(string option \<Rightarrow> 'e + 'r page) \<Rightarrow> string option \<Rightarrow> 'r page" where
  "answered_page op c = (case op c of Inl _ \<Rightarrow> ([], None) | Inr p \<Rightarrow> p)"

lemma follow_runs:
  assumes "0 < li_limit li" and "distinct (map r_id (d_runs d))" and "\<And>k. dec (enc k) = Some k" and "length (listed_rows ns li d) < n"
  shows "follow_pages n (answered_page (\<lambda>c. list_runs dec enc ns (li\<lparr>li_cursor := c\<rparr>) d)) None = map to_summary (listed_rows ns li d)"
proof -
  have same: "run_listed ns (li\<lparr>li_cursor := c\<rparr>) = run_listed ns li" for c by (auto simp: run_listed_def)
  have "answered_page (\<lambda>c. list_runs dec enc ns (li\<lparr>li_cursor := c\<rparr>) d) c = apfst (map to_summary) (runs_page dec enc ns li d c)" for c
  proof (cases "\<exists>s. c = Some s \<and> dec s = None")
    case True
    then show ?thesis by (auto simp: answered_page_def list_runs_def runs_page_def cut_page_def Let_def)
  next
    case False
    then have "list_runs dec enc ns (li\<lparr>li_cursor := c\<rparr>) d = Inr (apfst (map to_summary) (runs_page dec enc ns (li\<lparr>li_cursor := c\<rparr>) d c))"
      using list_runs_page [of "li\<lparr>li_cursor := c\<rparr>" dec enc ns d] assms(1) by auto
    moreover have "runs_page dec enc ns (li\<lparr>li_cursor := c\<rparr>) d c = runs_page dec enc ns li d c"
      by (cases c) (simp_all add: runs_page_def listed_rows_def same)
    ultimately show ?thesis by (simp add: answered_page_def)
  qed
  then have "follow_pages n (answered_page (\<lambda>c. list_runs dec enc ns (li\<lparr>li_cursor := c\<rparr>) d)) None =
      follow_pages n (\<lambda>c. apfst (map to_summary) (runs_page dec enc ns li d c)) None" by presburger
  also have "\<dots> = map to_summary (follow_pages n (runs_page dec enc ns li d) None)" by (rule follow_pages_map)
  also have "follow_pages n (runs_page dec enc ns li d) None = listed_rows ns li d"
    by (rule run_pages.follow_all) (use assms in auto)
  finally show ?thesis .
qed

lemma follow_runs_once:
  assumes "0 < li_limit li" and "distinct (map r_id (d_runs d))" and "\<And>k. dec (enc k) = Some k" and "length (d_runs d) < n"
  shows "\<exists>rows. follow_pages n (answered_page (\<lambda>c. list_runs dec enc ns (li\<lparr>li_cursor := c\<rparr>) d)) None = map to_summary rows \<and>
     mset rows = mset (filter (run_listed ns li) (d_runs d)) \<and> sorted_wrt (\<lambda>a b. run_position b < run_position a) rows"
proof (intro exI conjI)
  have "length (listed_rows ns li d) \<le> length (d_runs d)" by (simp add: listed_rows_def newest_first_def)
  then show "follow_pages n (answered_page (\<lambda>c. list_runs dec enc ns (li\<lparr>li_cursor := c\<rparr>) d)) None = map to_summary (listed_rows ns li d)"
    using follow_runs [of li d dec enc ns n] assms by simp
  show "mset (listed_rows ns li d) = mset (filter (run_listed ns li) (d_runs d))" by (simp add: listed_rows_def newest_first_def)
  show "sorted_wrt (\<lambda>a b. run_position b < run_position a) (listed_rows ns li d)"
    unfolding listed_rows_def by (rule newest_first_ordered) (use assms(2) in \<open>simp add: distinct_map_filter\<close>)
qed

section \<open>The history of a run\<close>

lemma show_nat_digits: "list_all is_digit (show_nat n)"
proof (induction n rule: show_nat.induct)
  case (1 n)
  have digit: "k < 10 \<Longrightarrow> is_digit (char_of (48 + k))" for k :: nat by (simp add: is_digit_def)
  show ?case
  proof (cases "n < 10")
    case True
    then show ?thesis using digit by (subst show_nat.simps) simp
  next
    case False
    then show ?thesis using 1 digit [of "n mod 10"] by (subst show_nat.simps) simp
  qed
qed

lemma show_nat_length: "n < 10 ^ Suc k \<Longrightarrow> length (show_nat n) \<le> Suc k"
proof (induction k arbitrary: n)
  case 0
  then show ?case by (subst show_nat.simps) simp
next
  case (Suc k)
  have "n div 10 < 10 ^ Suc k" using Suc.prems by (simp add: less_mult_imp_div_less)
  from Suc.IH [OF this] show ?case by (subst show_nat.simps) simp
qed

lemma parse_sequence_cursor_show:
  assumes "n < 10 ^ 15"
  shows "parse_sequence_cursor (Some (show_nat n)) = Inr n"
proof -
  have "length (show_nat n) \<le> 15" using show_nat_length [of n 14] assms by simp
  then show ?thesis by (simp add: parse_sequence_cursor_def all_digits_def show_nat_digits read_show_nat)
qed

definition history_page :: "uuid \<Rightarrow> nat \<Rightarrow> db \<Rightarrow> string option \<Rightarrow> stored_event page" where
  "history_page x limit d c =
     (case parse_sequence_cursor c of
        Inl _ \<Rightarrow> ([], None)
      | Inr after \<Rightarrow> cut_page limit (\<lambda>se. show_nat (sequence_number se)) (filter (\<lambda>se. after < sequence_number se) (run_events d x)))"

lemma run_events_sorted:
  assumes "log_ok d"
  shows "sorted_wrt (\<lambda>a b. sequence_number a < sequence_number b) (run_events d x)"
proof -
  have "consecutive_from n ses \<Longrightarrow> sorted_wrt (\<lambda>a b. sequence_number a < sequence_number b) ses" for n ses
  proof (induction ses arbitrary: n)
    case (Cons se ses)
    then show ?case using consecutive_from_bounds [of "Suc n" ses] by fastforce
  qed simp
  then show ?thesis using assms by (auto simp: log_ok_def)
qed

lemma read_after:
  assumes "log_ok d"
  shows "read_events_on_client d x after = filter (\<lambda>se. after < sequence_number se) (run_events d x)"
proof -
  have "sorted_wrt (\<lambda>a b. sequence_number a \<le> sequence_number b) (run_events d x)"
    by (rule sorted_wrt_mono_rel [OF _ run_events_sorted [OF assms]]) simp
  then have "sorted (map sequence_number (run_events d x))" by (simp add: sorted_wrt_map)
  then show ?thesis unfolding read_events_on_client_def by (intro sort_key_id_if_sorted sorted_filter)
qed

interpretation history_pages: cursor_pages
  "0 < limit \<and> log_ok d \<and> (\<forall>se \<in> set (run_events d x). 0 < sequence_number se \<and> sequence_number se < 10 ^ 15)" "run_events d x"
  "\<lambda>a b. sequence_number a < sequence_number b" "\<lambda>se. show_nat (sequence_number se)" "history_page x limit d" limit
  for limit d x
proof unfold_locales
  assume s: "0 < limit \<and> log_ok d \<and> (\<forall>se \<in> set (run_events d x). 0 < sequence_number se \<and> sequence_number se < 10 ^ 15)"
  then show "0 < limit" by simp
  show "sorted_wrt (\<lambda>a b. sequence_number a < sequence_number b) (run_events d x)" using s run_events_sorted by blast
  have "filter (\<lambda>se. 0 < sequence_number se) (run_events d x) = run_events d x" using s by (simp add: filter_id_conv)
  then show "history_page x limit d None = cut_page limit (\<lambda>se. show_nat (sequence_number se)) (run_events d x)"
    by (simp add: history_page_def parse_sequence_cursor_def)
  show "history_page x limit d (Some ((\<lambda>se. show_nat (sequence_number se)) r)) =
      cut_page limit (\<lambda>se. show_nat (sequence_number se)) (filter (\<lambda>b. sequence_number r < sequence_number b) (run_events d x))"
    if "r \<in> set (run_events d x)" for r
    using s that by (simp add: history_page_def parse_sequence_cursor_show)
qed auto

lemma follow_history:
  assumes own: "assert_owned uid ns rid d = Inr x" and log: "log_ok d"
    and small: "\<And>se. se \<in> set (run_events d x) \<Longrightarrow> sequence_number se < 10 ^ 15" and n: "length (run_events d x) < n"
  shows "follow_pages n (answered_page (\<lambda>c. get_history uid ns rid (p\<lparr>pi_cursor := c\<rparr>) d)) None = run_events d x"
proof -
  let ?l = "nat (page_size p)"
  have pos: "0 < ?l" by (simp add: page_size_def MAX_PAGE_LIMIT_def)
  have size: "page_size (p\<lparr>pi_cursor := c\<rparr>) = page_size p" "pi_cursor (p\<lparr>pi_cursor := c\<rparr>) = c" for c by (simp_all add: page_size_def)
  note cut = cut_page_one_more [OF pos, of _ "\<lambda>se. show_nat (sequence_number se)"]
  have "answered_page (\<lambda>c. get_history uid ns rid (p\<lparr>pi_cursor := c\<rparr>) d) c = history_page x ?l d c" for c
    by (cases "parse_sequence_cursor c")
      (simp_all only: answered_page_def get_history_def own size history_page_def store_read_def read_after [OF log] Let_def cut
        sum.case option.case)
  moreover have "0 < sequence_number se" if "se \<in> set (run_events d x)" for se
    using log that consecutive_from_bounds by (fastforce simp: log_ok_def)
  then have "follow_pages n (history_page x ?l d) None = run_events d x"
    by (intro history_pages.follow_all) (use pos log small n in auto)
  ultimately show ?thesis by presburger
qed

section \<open>The dead letters of a namespace\<close>

definition letter_position :: "dead_letter_row \<Rightarrow> time \<times> uuid" where
  "letter_position l = (dl_created_at l, dl_id l)"

definition waiting_letters :: "uuid \<Rightarrow> db \<Rightarrow> dead_letter_row list" where
  "waiting_letters ns d = sort_key letter_position (filter (\<lambda>l. dl_requeued_at l = None \<and> dl_namespace l = ns) (d_dead_letters d))"

definition letters_page :: "(string \<Rightarrow> uuid option) \<Rightarrow> (uuid \<Rightarrow> string) \<Rightarrow> uuid \<Rightarrow> nat \<Rightarrow> db \<Rightarrow> string option \<Rightarrow> dead_letter_row page" where
  "letters_page uid shw ns limit d c =
     (case parse_id_cursor uid c of
        Inl _ \<Rightarrow> ([], None)
      | Inr after \<Rightarrow> cut_page limit (\<lambda>l. shw (dl_id l))
          (filter (\<lambda>l. case after of None \<Rightarrow> True | Some a \<Rightarrow> (case get_dead_letter d a of None \<Rightarrow> False | Some b \<Rightarrow> letter_position b < letter_position l))
             (waiting_letters ns d)))"

lemma find_distinct: "distinct (map f xs) \<Longrightarrow> x \<in> set xs \<Longrightarrow> find (\<lambda>y. f y = f x) xs = Some x"
  by (induction xs) auto

interpretation letter_pages: cursor_pages
  "0 < limit \<and> distinct (map dl_id (d_dead_letters d)) \<and> (\<forall>x. uid (shw x) = Some x)" "waiting_letters ns d"
  "\<lambda>a b. letter_position a < letter_position b" "\<lambda>l. shw (dl_id l)" "letters_page uid shw ns limit d" limit
  for limit d uid shw ns
proof unfold_locales
  assume s: "0 < limit \<and> distinct (map dl_id (d_dead_letters d)) \<and> (\<forall>x. uid (shw x) = Some x)"
  then show "0 < limit" by simp
  let ?f = "filter (\<lambda>l. dl_requeued_at l = None \<and> dl_namespace l = ns) (d_dead_letters d)"
  have "distinct (map dl_id ?f)" using s by (simp add: distinct_map_filter)
  then have "distinct (map letter_position ?f)" by (auto simp: distinct_map letter_position_def inj_on_def)
  moreover have "mset (map letter_position (waiting_letters ns d)) = mset (map letter_position ?f)" by (simp add: waiting_letters_def)
  ultimately have "distinct (map letter_position (waiting_letters ns d))" by (metis mset_eq_imp_distinct_iff)
  moreover have "sorted (map letter_position (waiting_letters ns d))" unfolding waiting_letters_def by (rule sorted_sort_key)
  ultimately have "sorted_wrt (<) (map letter_position (waiting_letters ns d))" unfolding strict_sorted_iff by blast
  then show "sorted_wrt (\<lambda>a b. letter_position a < letter_position b) (waiting_letters ns d)" by (simp add: sorted_wrt_map)
  show "letters_page uid shw ns limit d None = cut_page limit (\<lambda>l. shw (dl_id l)) (waiting_letters ns d)"
    by (simp add: letters_page_def parse_id_cursor_def)
  show "letters_page uid shw ns limit d (Some ((\<lambda>l. shw (dl_id l)) r)) =
      cut_page limit (\<lambda>l. shw (dl_id l)) (filter (\<lambda>b. letter_position r < letter_position b) (waiting_letters ns d))"
    if r: "r \<in> set (waiting_letters ns d)" for r
  proof -
    have "get_dead_letter d (dl_id r) = Some r"
      unfolding get_dead_letter_def by (rule find_distinct) (use s r in \<open>simp_all add: waiting_letters_def\<close>)
    then show ?thesis using s by (simp add: letters_page_def parse_id_cursor_def)
  qed
qed auto

lemma follow_letters:
  assumes "distinct (map dl_id (d_dead_letters d))" and "\<And>x. uid (shw x) = Some x" and "length (waiting_letters ns d) < n"
  shows "follow_pages n (answered_page (\<lambda>c. list_letters_page uid shw ns (p\<lparr>pi_cursor := c\<rparr>) d)) None = map to_letter_summary (waiting_letters ns d)"
proof -
  let ?l = "nat (page_size p)"
  have pos: "0 < ?l" by (simp add: page_size_def MAX_PAGE_LIMIT_def)
  have size: "page_size (p\<lparr>pi_cursor := c\<rparr>) = page_size p" "pi_cursor (p\<lparr>pi_cursor := c\<rparr>) = c" for c by (simp_all add: page_size_def)
  have rows: "list_dead_letters \<lparr>lo_run = None, lo_include_requeued = False, lo_namespace = Some ns, lo_after = after, lo_limit = Some k\<rparr> d =
      take k (filter (\<lambda>l. case after of None \<Rightarrow> True | Some a \<Rightarrow> (case get_dead_letter d a of None \<Rightarrow> False | Some b \<Rightarrow> letter_position b < letter_position l))
        (waiting_letters ns d))" for after k
    unfolding list_dead_letters_def waiting_letters_def Let_def filter_sort filter_filter letter_position_def [abs_def]
    by (simp add: conj_ac)
  note cut = cut_page_one_more [OF pos, of _ "\<lambda>l. shw (dl_id l)"]
  have "answered_page (\<lambda>c. list_letters_page uid shw ns (p\<lparr>pi_cursor := c\<rparr>) d) c = apfst (map to_letter_summary) (letters_page uid shw ns ?l d c)" for c
  proof (cases "parse_id_cursor uid c")
    case (Inl e)
    then show ?thesis by (simp add: answered_page_def list_letters_page_def letters_page_def)
  next
    case (Inr after)
    have "list_letters_page uid shw ns (p\<lparr>pi_cursor := c\<rparr>) d = Inr (apfst (map to_letter_summary) (letters_page uid shw ns ?l d c))"
      by (simp only: list_letters_page_def letters_page_def Inr size rows Let_def sum.case cut [symmetric] apfst_conv)
    then show ?thesis by (simp add: answered_page_def)
  qed
  then have "follow_pages n (answered_page (\<lambda>c. list_letters_page uid shw ns (p\<lparr>pi_cursor := c\<rparr>) d)) None =
      follow_pages n (\<lambda>c. apfst (map to_letter_summary) (letters_page uid shw ns ?l d c)) None" by presburger
  also have "\<dots> = map to_letter_summary (follow_pages n (letters_page uid shw ns ?l d) None)" by (rule follow_pages_map)
  also have "follow_pages n (letters_page uid shw ns ?l d) None = waiting_letters ns d"
    by (rule letter_pages.follow_all) (use assms pos in auto)
  finally show ?thesis .
qed

section \<open>What a namespace can see\<close>

text \<open>Two databases that hold the same of a namespace: its runs with their histories, and its dead letters.\<close>

definition same_namespace :: "uuid \<Rightarrow> db \<Rightarrow> db \<Rightarrow> bool" where
  "same_namespace ns d d' \<longleftrightarrow>
     filter (\<lambda>r. r_namespace r = ns) (d_runs d') = filter (\<lambda>r. r_namespace r = ns) (d_runs d) \<and>
     list_all (\<lambda>r. run_events d' (r_id r) = run_events d (r_id r)) (filter (\<lambda>r. r_namespace r = ns) (d_runs d)) \<and>
     filter (\<lambda>l. dl_namespace l = ns) (d_dead_letters d') = filter (\<lambda>l. dl_namespace l = ns) (d_dead_letters d)"

lemma find_conj_filter: "find (\<lambda>x. P x \<and> Q x) xs = find P (filter Q xs)"
  by (induction xs) auto

lemma read_run_same:
  assumes "same_namespace ns d d'"
  shows "read_run uid ns rid d' = read_run uid ns rid d"
  unfolding read_run_def find_conj_filter using assms [unfolded same_namespace_def] by (cases "uid rid") simp_all

lemma describe_run_same: "same_namespace ns d d' \<Longrightarrow> describe_run uid ns rid d' = describe_run uid ns rid d"
  by (simp add: describe_run_def read_run_same)

lemma assert_owned_same:
  assumes "same_namespace ns d d'"
  shows "assert_owned uid ns rid d' = assert_owned uid ns rid d"
proof -
  have split: "filter (\<lambda>r. r_id r = x \<and> r_namespace r = ns) rs = filter (\<lambda>r. r_id r = x) (filter (\<lambda>r. r_namespace r = ns) rs)" for x rs
    by (simp add: conj_commute)
  have "filter (\<lambda>r. r_namespace r = ns) (d_runs d') = filter (\<lambda>r. r_namespace r = ns) (d_runs d)"
    using assms by (simp add: same_namespace_def)
  then show ?thesis unfolding assert_owned_def split by (rule arg_cong)
qed

lemma store_read_same:
  assumes "same_namespace ns d d'" and "r \<in> set (d_runs d)" and "r_namespace r = ns"
  shows "store_read d' (r_id r) after limit = store_read d (r_id r) after limit"
proof -
  have "run_events d' (r_id r) = run_events d (r_id r)" using assms by (simp add: same_namespace_def list_all_iff)
  then show ?thesis unfolding store_read_def read_events_on_client_def by presburger
qed

lemma assert_owned_Inr:
  assumes "assert_owned uid ns rid d = Inr x"
  shows "\<exists>r \<in> set (d_runs d). r_id r = x \<and> r_namespace r = ns"
proof -
  have "length (filter (\<lambda>r. r_id r = x \<and> r_namespace r = ns) (d_runs d)) = 1"
    using assms by (auto simp: assert_owned_def split: option.splits if_splits)
  then have "filter (\<lambda>r. r_id r = x \<and> r_namespace r = ns) (d_runs d) \<noteq> []" by auto
  then show ?thesis by (auto simp: filter_empty_conv)
qed

lemma read_run_Inr: "read_run uid ns rid d = Inr r \<Longrightarrow> r \<in> set (d_runs d) \<and> r_namespace r = ns"
  by (auto simp: read_run_def find_Some_iff split: option.splits)

lemma get_history_same:
  assumes "same_namespace ns d d'"
  shows "get_history uid ns rid p d' = get_history uid ns rid p d"
proof (cases "assert_owned uid ns rid d")
  case (Inr x)
  then obtain r where "r \<in> set (d_runs d)" "r_id r = x" "r_namespace r = ns" using assert_owned_Inr by blast
  then have "store_read d' x after limit = store_read d x after limit" for after limit using store_read_same [OF assms] by blast
  then show ?thesis unfolding get_history_def assert_owned_same [OF assms] Inr sum.case by (simp only:)
qed (simp add: get_history_def assert_owned_same [OF assms])

lemma read_history_since_same:
  assumes "same_namespace ns d d'"
  shows "read_history_since uid (\<lambda>x. x) ns rid after d' = read_history_since uid (\<lambda>x. x) ns rid after d"
proof (cases "read_run uid ns rid d")
  case (Inr r)
  then show ?thesis using read_run_Inr [OF Inr] store_read_same [OF assms] by (simp add: read_history_since_def read_run_same [OF assms])
qed (simp add: read_history_since_def read_run_same [OF assms])

lemma list_runs_same:
  assumes "same_namespace ns d d'"
  shows "list_runs dec enc ns li d' = list_runs dec enc ns li d"
proof -
  have split: "filter (\<lambda>r. run_listed ns li r \<and> P r) rs = filter (\<lambda>r. run_listed ns li r \<and> P r) (filter (\<lambda>r. r_namespace r = ns) rs)" for P rs
    unfolding filter_filter by (rule filter_cong) (auto simp: run_listed_def)
  have eq: "filter (\<lambda>r. run_listed ns li r \<and> P r) (d_runs d') = filter (\<lambda>r. run_listed ns li r \<and> P r) (d_runs d)" for P
    using assms split [of P "d_runs d'"] split [of P "d_runs d"] by (simp add: same_namespace_def)
  show ?thesis unfolding list_runs_def eq by (rule refl)
qed

lemma list_letters_page_same:
  assumes "same_namespace ns d d'" and "pi_cursor p = None"
  shows "list_letters_page uid shw ns p d' = list_letters_page uid shw ns p d"
proof -
  have "filter (\<lambda>l. dl_requeued_at l = None \<and> dl_namespace l = ns) (d_dead_letters d') = filter (\<lambda>l. dl_requeued_at l = None \<and> dl_namespace l = ns) (d_dead_letters d)"
    using assms(1) unfolding same_namespace_def by (metis (no_types, lifting) filter_filter filter_cong)
  then show ?thesis using assms(2) by (simp add: list_letters_page_def parse_id_cursor_def list_dead_letters_def)
qed

end
