(* ===== verification/RunServiceExamples.thy ===== *)
theory RunServiceExamples
  imports WorkerExamples RunServiceProof
begin

text \<open>
  The cursors over runs as text, the runs of an order and its children read one by one, and a database another
  namespace shares.
\<close>

section \<open>Cursors\<close>

definition write_cursor :: "time \<times> uuid \<Rightarrow> string" where
  "write_cursor k = (if fst k < 0 then ''-'' else ''+'') @ show_nat (nat \<bar>fst k\<bar>) @ ''|'' @ show_nat (snd k)"

definition read_cursor :: "string \<Rightarrow> (time \<times> uuid) option" where
  "read_cursor s =
     (case s of
        [] \<Rightarrow> None
      | c # s' \<Rightarrow>
          let t = takeWhile is_digit s'; x = tl (dropWhile is_digit s') in
          if (c = CHR ''-'' \<or> c = CHR ''+'') \<and> all_digits t \<and> all_digits x
          then Some (if c = CHR ''-'' then - int (read_digits t) else int (read_digits t), read_digits x)
          else None)"

lemma show_nat_not_empty: "show_nat n \<noteq> []"
  by (subst show_nat.simps) simp

lemma read_write_cursor: "read_cursor (write_cursor k) = Some k"
proof -
  have digits: "\<forall>c \<in> set (show_nat n). is_digit c" for n using show_nat_digits [of n] by (simp add: list_all_iff)
  have bar: "\<not> is_digit CHR ''|''" by code_simp
  have "takeWhile is_digit (show_nat a @ ''|'' @ show_nat b) = show_nat a" for a b
    using digits [of a] bar by (simp add: takeWhile_append2)
  moreover have "dropWhile is_digit (show_nat a @ ''|'' @ show_nat b) = ''|'' @ show_nat b" for a b
    using digits [of a] bar by (simp add: dropWhile_append2)
  moreover have "all_digits (show_nat n)" for n using digits [of n] show_nat_not_empty [of n] by (auto simp: all_digits_def list_all_iff)
  ultimately show ?thesis by (cases k) (auto simp: read_cursor_def write_cursor_def read_show_nat)
qed

section \<open>The family of an order\<close>

definition any_run :: "nat \<Rightarrow> list_runs_input" where
  "any_run n =
     \<lparr>li_status = None, li_workflow_type = None, li_started_after = None, li_started_before = None, li_limit = n, li_cursor = None\<rparr>"

definition first_page :: page_input where
  "first_page = \<lparr>pi_limit = None, pi_cursor = None\<rparr>"

lemma family_runs:
  "distinct (map r_id (d_runs family_db))"
  "map rs_run (map to_summary (listed_rows 7 (any_run 1) family_db)) = [7, 5, 0]"
  by code_simp+

section \<open>Two namespaces\<close>

text \<open>The order of namespace 7, with and without one of namespace 8.\<close>

definition shared_db :: db where
  "shared_db = (case start_run None 5000 5000 ''main'' 8 order_input order_db of Inr (_, d) \<Rightarrow> d | Inl _ \<Rightarrow> order_db)"

lemma shared_db_same: "same_namespace 7 order_db shared_db"
  by code_simp

lemma shared_db_runs: "map r_namespace (d_runs shared_db) = [7, 8]" "r_id (d_runs shared_db ! 1) \<noteq> 0"
  by code_simp+

end
