(* ===== verification/Consequences.thy ===== *)
theory Consequences
  imports ScheduleExamples RunServiceExamples
begin

text \<open>
  Further statements on the same definitions, each with the concrete input it is applied at: what the recorder,
  the matcher, the queue, the dead letters, the clock and the timeouts promise one by one.
\<close>

text \<open>
  A command that is not the recorded one at its place, in a run that is not being cancelled,
  raises \<open>NonDeterminismError\<close>; the recorded one is met again; past the recording it is new.
\<close>

theorem issue_matches_recording:
  "fst (matcher_issue shape False m) =
     (if m_issued m < length (m_recorded m)
      then if same_command (m_recorded m ! m_issued m) shape then Inr True
           else Inl (non_determinism_error (shape_id shape))
      else Inr False)"
  by (simp add: matcher_issue_live nth_opt_def split: option.splits)

text \<open>
  Whatever decisions are delivered for a task key, at most one of them is recorded.
\<close>

theorem decision_recorded_at_most_once:
  "length (filter (\<lambda>x. x = (k, True)) (deliver record_task ds d)) \<le> 1"
  by (rule task_results.at_most_once)

text \<open>
  A parent starts at most one run per child id, however often the recording of the child is
  delivered.
\<close>

theorem child_created_at_most_once:
  "length (filter (\<lambda>x. x = (k, True)) (deliver record_child ds d)) \<le> 1"
  by (rule children.at_most_once)

text \<open>
  The first outcome of a step of an open run is recorded: the result row and the event are
  written together, and the run's row is not touched.
\<close>

theorem step_outcome_recorded:
  assumes "engine_ok d" and "find_run d rid = Some r" and "r_status r = RUNNING"
    and "find_step_result d rid sid = None" and "to_step_event sid out = Inr ev"
  shows "\<exists>d' se. record_step_result now rid sid key out d = Inr ((True, out), d') \<and> engine_ok d' \<and> extends d d' \<and>
     run_events d' rid = run_events d rid @ [se] \<and> stored se = ev \<and>
     find_run d' rid = Some r \<and> find_step_result d' rid sid = Some (step_result_row_of rid sid key out)"
  by (rule record_step_ok [OF assms])

theorem step_outcome_recorded_witness:
  "\<exists>d'. record_step_result 3000 0 ''step-1'' ''a1'' (OutcomeCompleted (VStr ''ok'')) family_db =
     Inr ((True, OutcomeCompleted (VStr ''ok'')), d') \<and> engine_ok d'"
proof -
  have "find_step_result family_db 0 ''step-1'' = None" by code_simp
  moreover have "to_step_event ''step-1'' (OutcomeCompleted (VStr ''ok'')) = Inr (StepCompleted ''step-1'' (VStr ''ok''))"
    by (simp add: to_step_event_def parse_event_def)
  ultimately show ?thesis
    using step_outcome_recorded [OF family_db_ok family_row_found, of "''step-1''" _ _ 3000 "''a1''"] by blast
qed

text \<open>
  The outcome of a step of a closed run is discarded: nothing is written.
\<close>

theorem closed_run_discards_step:
  assumes "find_run d rid = Some r" and "r_status r \<noteq> RUNNING" and "sid \<noteq> []"
  shows "record_step_result now rid sid key out d = Inr ((False, out), d)"
proof -
  obtain ev where "to_step_event sid out = Inr ev" using to_step_event_ok [OF assms(3)] by blast
  then show ?thesis using assms by (simp add: record_step_result_def run_closed_def)
qed

theorem closed_run_discards_step_witness:
  "record_step_result 9000 0 ''step-1'' ''a1'' (OutcomeCompleted VNull) terminated_db =
     Inr ((False, OutcomeCompleted VNull), terminated_db)"
proof -
  obtain r' where "find_run terminated_db 0 = Some r'" "r_status r' = TERMINATED"
    using terminated_row by blast
  then show ?thesis using closed_run_discards_step [of terminated_db 0 r'] by simp
qed
text \<open>
  A timeout that fires on an open run closes it as TIMED_OUT and withdraws its waiting tasks;
  the closing event says which of the two timeouts it was.
\<close>

theorem timeout_closes_run:
  assumes "engine_ok d" and "find_run d rid = Some r" and "r_status r = RUNNING"
  shows "\<exists>se d' r'. time_out_run_on_client now rid tid d = Inr (True, d') \<and>
     engine_ok d' \<and> extends d d' \<and> find_run d' rid = Some r' \<and> r_status r' = TIMED_OUT \<and>
     waiting_tasks d' rid = {} \<and> run_events d' rid = run_events d rid @ [se] \<and>
     stored se = RunTimedOut (Some (if tid = EXECUTION_TIMEOUT_TIMER_ID then ExecutionTimeout else RunTimeout))"
  by (rule time_out_run_ok [OF assms])

theorem timeout_closes_run_witness:
  "\<exists>d'. time_out_run_on_client 61000 0 RUN_TIMEOUT_TIMER_ID order_db = Inr (True, d') \<and> waiting_tasks d' 0 = {}"
  using timeout_closes_run [OF order_db_ok order_row_found, of 61000 RUN_TIMEOUT_TIMER_ID] by blast

text \<open>
  Of two appenders that read the same sequence number one is refused: after an append of at
  least one event, no append at the number it was made at goes through.
\<close>

theorem second_appender_refused:
  assumes "log_ok d" and "append_events_on_client now rid n es d = Inr (new, d')" and "es \<noteq> []"
  shows "append_events_on_client now' rid n fs d' \<noteq> Inr (new', d'')"
  by (rule run_log.second_append_refused [OF assms])

theorem second_appender_refused_witness:
  "\<exists>new d'. append_events_on_client 2000 0 1 [CancelRequested None] order_db = Inr (new, d') \<and>
     append_events_on_client 2000 0 1 [TimeRecorded 5] d' \<noteq> Inr ([], d')"
proof -
  have log: "log_ok order_db" using order_db_ok by (simp add: engine_ok_def runs_ok_def del: order_db_ok)
  from append_events_ok [OF log, of 0 1 2000 "[CancelRequested None]"] obtain new d' where a: "append_events_on_client 2000 0 1 [CancelRequested None] order_db = Inr (new, d')" by auto
  from second_appender_refused [OF log a] a show ?thesis by blast
qed

text \<open>
  A poisoned task, one whose lease was lost as often as the threshold allows, is parked instead
  of being delivered, and a parked or completed task is never delivered nor changed by a dequeue.
\<close>

theorem poisoned_task_is_parked:
  assumes "queue_ok th d" and "dequeue th now opt d = Inr (out, d')" and "find_task d tid = Some t"
    and "t_state t = TQUARANTINED \<or> t_state t = TCOMPLETED \<or>
         (poisoned th t \<and> t \<in> set (next_tasks opt (nat (optional (dq_limit opt) 1)) now d))"
  shows "tid \<notin> lt_id ` set out \<and> (\<exists>t'. find_task d' tid = Some t' \<and>
     t' = (if t_state t = TQUARANTINED \<or> t_state t = TCOMPLETED then t else park_task now t))"
proof (cases "t_state t = TQUARANTINED \<or> t_state t = TCOMPLETED")
  case True
  with quarantined_not_delivered [OF assms(1,2,3)] show ?thesis by simp
next
  case False
  with assms(4) have p: "poisoned th t" and c: "t \<in> set (next_tasks opt (nat (optional (dq_limit opt) 1)) now d)"
    by auto
  have id: "t_id t = tid" using find_task_Some [OF assms(3)] by simp
  have "find_task d' tid = Some (park_task now t)"
    using dequeue_spec(5) [OF assms(1,2) c] p id by (simp add: delivered_def)
  moreover have "tid \<notin> lt_id ` set out"
  proof
    assume "tid \<in> lt_id ` set out"
    then have "tid \<in> set (map t_id (filter (\<lambda>t. \<not> poisoned th t)
        (next_tasks opt (nat (optional (dq_limit opt) 1)) now d)))"
      using dequeue_spec(3) [OF assms(1,2)] by (metis list.set_map)
    then obtain u where u: "u \<in> set (next_tasks opt (nat (optional (dq_limit opt) 1)) now d)" "t_id u = tid" "\<not> poisoned th u"
      by auto
    then have "find_task d tid = Some u" using next_tasks_facts(2) [OF assms(1) u(1)] find_task_in [OF assms(1)] by blast
    with assms(3) u(3) p show False by simp
  qed
  ultimately show ?thesis using False by simp
qed

theorem poisoned_task_is_parked_witness:
  "find_task parked_db 2 = Some (park_task 40000 order_task_row)"
  using poisoned_task_is_parked [OF leased_queue_once order_parked order_task_row_facts(1)] order_task_row_facts(2-4)
  by simp

text \<open>
  The scheduler's clock serves times in order, each no earlier than the reading it was served for, however the
  wall clock is stepped.
\<close>

theorem scheduler_clock_never_goes_back:
  "sorted (fst (clock_reads rs c)) \<and> list_all2 (\<le>) rs (fst (clock_reads rs c))"
proof -
  obtain ts c' where "clock_reads rs c = (ts, c')" by fastforce
  with clock_reads_sorted [OF this] clock_reads_ahead [OF this] show ?thesis by simp
qed

text \<open>
  A step has at most one open dead letter, and inserting it again gives the id of the open one back.
\<close>

theorem one_open_letter_per_step:
  assumes "distinct (open_letters d)" and "insert_dead_letter now i d = Inr (lid, d')"
  shows "distinct (open_letters d') \<and> insert_dead_letter now' (i\<lparr>di_attempts := n\<rparr>) d' =
     Inr (dl_id (the (find (is_open_letter (di_run i) (di_step i)) (d_dead_letters d'))), d')"
proof -
  obtain l where "l \<in> set (d_dead_letters d')" "is_open_letter (di_run i) (di_step i) l"
    using insert_dead_letter_Inr(1) [OF assms(2)] by blast
  then have "find (is_open_letter (di_run i) (di_step i)) (d_dead_letters d') \<noteq> None"
    by (auto simp: find_None_iff)
  then show ?thesis using insert_dead_letter_Inr(2) [OF assms(2,1)] by (auto simp: insert_dead_letter_def)
qed

theorem one_open_letter_per_step_witness:
  "distinct (open_letters parked_charge_db)"
proof -
  have "distinct (open_letters family_db)" by code_simp
  from one_open_letter_per_step [OF this charge_parked] show ?thesis by blast
qed

text \<open>
  A dead letter is requeued once: the second request finds nothing and writes nothing. The first puts one step
  task on the queue the step came from, with the attempts used so far as its offset.
\<close>

theorem letter_requeued_once:
  assumes "requeue now clock lid d = (Some tid, d')"
  shows "requeue now' clock' lid d' = (None, d') \<and>
     (\<exists>l \<in> set (d_dead_letters d). dl_id l = lid \<and>
        d_tasks d' = d_tasks d @ [new_task tid (dl_namespace l) (dl_run l) (dl_queue l) STEP_TASK
          (with_attempt_offset (dl_payload l) (dl_attempts l)) clock now])"
  using requeue_once [OF assms] requeue_task [OF assms] by blast

theorem letter_requeued_once_witness:
  "\<exists>tid d'. requeue 5000 5000 charge_letter_id parked_charge_db = (Some tid, d') \<and>
     requeue 6000 6000 charge_letter_id d' = (None, d')"
proof -
  have "requeue 5000 5000 charge_letter_id parked_charge_db =
      (Some (d_next parked_charge_db), snd (requeue 5000 5000 charge_letter_id parked_charge_db))" by code_simp
  from letter_requeued_once [OF this] this show ?thesis by blast
qed

text \<open>
  However often and with whatever contents the outcome of a step is delivered, it is recorded
  at most once.
\<close>

theorem step_recorded_at_most_once:
  "length (filter (\<lambda>x. x = (k, True)) (deliver record_step ds d)) \<le> 1"
  by (rule step_results.at_most_once)

text \<open>
  Cancelling is idempotent: the second request of an open run writes nothing and answers with
  the sequence number of the first.
\<close>

theorem cancel_is_idempotent:
  assumes "engine_ok d" and "cancel_run now rid reason d = Inr ((a, n), d')"
  shows "cancel_run now' rid reason' d' = Inr ((False, n), d')"
  by (rule cancel_run_again [OF assms])

theorem cancel_is_idempotent_witness:
  "\<exists>n d'. cancel_run 4000 0 None order_db = Inr ((True, n), d') \<and> cancel_run 4500 0 (Some ''again'') d' = Inr ((False, n), d')"
proof -
  have "cancel_run 4000 0 None order_db = Inr ((True, 2), snd (projr (cancel_run 4000 0 None order_db)))" by code_simp
  then obtain n d' where c: "cancel_run 4000 0 None order_db = Inr ((True, n), d')" by blast
  from cancel_is_idempotent [OF order_db_ok c] c show ?thesis by blast
qed

text \<open>
  A gapless history folds without an error exactly when nothing follows a closing event: a run
  closes once and its closing event is the last.
\<close>

theorem history_closes_once:
  assumes "consecutive_from 0 ses"
  shows "(\<exists>q. fold_run_events ses create_initial_projection = Inr q) \<longleftrightarrow>
           (\<forall>se \<in> set (butlast ses). \<not> is_closing_event (stored se))"
  by (rule fold_run_events_state) (use assms in \<open>simp_all add: create_initial_projection_def\<close>)

theorem history_closes_once_witness:
  "\<nexists>q. fold_run_events (number_events 0 0 [RunStarted ''a'' VNull, RunCompleted VNull, TimeRecorded 1])
        create_initial_projection = Inr q"
  using history_closes_once [OF number_events_consecutive [of 0 0 "[RunStarted ''a'' VNull, RunCompleted VNull, TimeRecorded 1]"]]
  by simp

text \<open>
  After an outage a schedule with the policy \<open>latest_only\<close> is started for the latest instant it
  missed: one its expression names, not before the first it missed, with none between it and now.
\<close>

theorem outage_starts_latest_instant:
  assumes "fixed_zone zones (cs_time_zone c) off" and "sc_catch_up row = LatestOnly"
    and "sc_next_fire_at row = Some missed" and "scheduled_instant off c missed" and "missed \<le> now"
    and "catch_up_instant zones row c now = Inr t"
  shows "missed \<le> t \<and> t \<le> now \<and> scheduled_instant off c t \<and> (\<forall>u. t < u \<longrightarrow> u \<le> now \<longrightarrow> \<not> scheduled_instant off c u)"
  using latest_instant_until_latest [OF assms(1,4,5)] assms(2,3,6) by (simp add: catch_up_instant_def)

theorem outage_starts_latest_instant_witness:
  "\<not> scheduled_instant 0 mondays 1774000000000 \<and>
   catch_up_instant utc_only (minutely_row\<lparr>sc_catch_up := LatestOnly, sc_next_fire_at := Some 1773014400000\<rparr>) mondays 1774000000000
     = Inr 1773619200000"
proof -
  let ?row = "minutely_row\<lparr>sc_catch_up := LatestOnly, sc_next_fire_at := Some 1773014400000\<rparr>"
  have t: "catch_up_instant utc_only ?row mondays 1774000000000 = Inr 1773619200000" by code_simp
  have "scheduled_instant 0 mondays 1773014400000" by code_simp
  from outage_starts_latest_instant [OF utc_is_fixed _ _ this _ t] t show ?thesis by simp
qed

text \<open>
  A backfill can be repeated: the second one handles nothing and changes nothing.
\<close>

theorem backfill_repeats_nothing:
  assumes "schedules_ok s" and "backfill limit zones now trace sid from to s = (Inr ts, s')"
  shows "schedules_ok s' \<and> backfill limit zones now' trace' sid from to s' = (Inr [], s')"
  by (rule backfill_twice [OF assms])

theorem backfill_repeats_nothing_witness:
  "backfill 10 utc_only 9 None 0 60000 120000 minutely_backfilled = (Inr [], minutely_backfilled)"
proof -
  have "backfill 10 utc_only 1 None 0 60000 120000 minutely =
      (Inr (projl_report (backfill 10 utc_only 1 None 0 60000 120000 minutely)), minutely_backfilled)" by code_simp
  from backfill_repeats_nothing [OF minutely_ok this] show ?thesis by blast
qed

text \<open>
  \<open>catchUp\<close> counts the triggers of a tick and not the schedules it handled: when a due instant
  was already handled by a backfill it stops, although the schedule is still due.
\<close>

theorem schedule_catch_up_stops_early:
  "\<exists>s'. schedule_catch_up [180000, 180000, 180000] 1 utc_only ''main'' 5 None [] minutely_backfilled = (Some (Inr []), s') \<and>
     still_due ''main'' 180000 s'"
proof -
  let ?r = "schedule_catch_up [180000, 180000, 180000] 1 utc_only ''main'' 5 None [] minutely_backfilled"
  have "fst ?r = Some (Inr [])" by code_simp
  moreover have "still_due ''main'' 180000 (snd ?r)" by code_simp
  ultimately show ?thesis by (metis prod.collapse)
qed
text \<open>
  Replay compares inputs by what they say, not by how they were written: an object with its
  fields in another order has the same encoding, and so has the value the log gives back.
\<close>

theorem encoding_ignores_field_order:
  assumes "mset kvs = mset kvs'" and "distinct (map fst kvs)" and "json_stored (VObj kvs') = Some j"
  shows "same_encoding (VObj kvs) (VObj kvs') \<and> same_encoding (VObj kvs) j"
proof -
  have "canonical_encoding (VObj kvs) = canonical_encoding (VObj kvs')"
    by (rule canonical_encoding_field_order [OF assms(1,2)])
  then show ?thesis using canonical_encoding_stored [OF assms(3)] by (simp add: same_encoding_def)
qed

theorem encoding_ignores_field_order_witness:
  "same_encoding (VObj [(''b'', VNull), (''a'', VBool True)]) (VObj [(''a'', VBool True), (''b'', VNull)])"
  using encoding_ignores_field_order
    [of "[(''b'', VNull), (''a'', VBool True)]" "[(''a'', VBool True), (''b'', VNull)]"
        "VObj [(''a'', VBool True), (''b'', VNull)]"] by simp

text \<open>
  A sleep that ends outside the range of dates is counted and not recorded. A workflow that
  catches its error and goes on is suspended with one command, and the next replay over the
  recorded command raises \<open>NonDeterminismError\<close>: the run can never be decided again.
\<close>

theorem sleep_out_of_range_breaks_replay:
  "decide no_text no_text shop_env (far_sleep_handler (Fin 9000000000000000)) =
     Inr \<lparr>de_outcome = Suspended, de_commands = [ScheduleStep ''step-1'' ''a'' VNull]\<rparr> \<and>
   (\<exists>e. decide no_text no_text (next_env shop_env [ScheduleStep ''step-1'' ''a'' VNull] 3000 None)
          (far_sleep_handler (Fin 9000000000000000)) = Inl e \<and> thrown_class e = NonDeterminismErrorClass)"
proof
  show "decide no_text no_text shop_env (far_sleep_handler (Fin 9000000000000000)) =
     Inr \<lparr>de_outcome = Suspended, de_commands = [ScheduleStep ''step-1'' ''a'' VNull]\<rparr>" by code_simp
  have "decide no_text no_text (next_env shop_env [ScheduleStep ''step-1'' ''a'' VNull] 3000 None)
      (far_sleep_handler (Fin 9000000000000000)) = Inl (non_determinism_error ''timer-1'')" by code_simp
  then show "\<exists>e. decide no_text no_text (next_env shop_env [ScheduleStep ''step-1'' ''a'' VNull] 3000 None)
      (far_sleep_handler (Fin 9000000000000000)) = Inl e \<and> thrown_class e = NonDeterminismErrorClass"
    by (simp add: non_determinism_error_def)
qed
text \<open>
  A signal to an open run is kept in its history whether the run waits for it or not, and a
  workflow task makes the run react to it.
\<close>

theorem signal_is_kept:
  assumes "engine_ok d" and "find_run d rid = Some r" and "r_status r = RUNNING"
  shows "\<exists>se d' t. signal_run now rid name payload d = Inr (sequence_number se, d') \<and> engine_ok d' \<and> extends d d' \<and>
     run_events d' rid = run_events d rid @ [se] \<and>
     stored se = SignalReceived name (if payload = VUndef then VNull else payload) \<and>
     find_run d' rid = Some r \<and> t \<in> waiting_tasks d' rid \<and> t_type t = WORKFLOW_TASK \<and> t_visible_at t = now"
  by (rule signal_run_ok [OF assms])

theorem signal_is_kept_witness:
  "\<exists>n d'. signal_run 2500 0 ''paid'' VUndef family_db = Inr (n, d') \<and> engine_ok d'"
  using signal_is_kept [OF family_db_ok family_row_found, of 2500 "''paid''" VUndef] by blast

text \<open>
  A new instant of a schedule is started, buffered or skipped as the schedule's policy says: started when
  overlap is allowed or no run of it is open, with a run in order and a workflow task for it; else the engine's
  tables are left alone. The decision is on record either way.
\<close>

theorem trigger_follows_overlap_policy:
  assumes "schedules_ok s" and "sc \<in> set (ss_schedules s)" and "\<not> trigger_known s (sc_id sc) instant"
  shows "\<exists>t s'. handle_trigger now trace sc instant s = Inr (Some t, s') \<and> schedules_ok s' \<and>
     st_schedule t = sc_id sc \<and> st_scheduled_for t = instant \<and>
     ss_triggers s' ! length (ss_triggers s) =
       \<lparr>tg_schedule = sc_id sc, tg_scheduled_for = instant, tg_outcome = st_outcome t, tg_run = st_run_id t\<rparr> \<and>
     length (ss_triggers s') = Suc (length (ss_triggers s)) \<and>
     (if sc_overlap sc = OverlapAllowAll \<or> open_runs s (sc_id sc) = [] then
        st_outcome t = STARTED \<and> st_run_id t = Some (d_next (ss_db s)) \<and>
        (\<exists>r. r_schedule r = Some (sc_id sc) \<and> r_id r = d_next (ss_db s) \<and> r_workflow_type r = sc_workflow_type sc \<and>
           d_runs (ss_db s') = d_runs (ss_db s) @ [r] \<and>
           opened (ss_db s) r (sc_input sc) (scheduled_payload sc (iso_string instant)) now (ss_db s'))
      else ss_db s' = ss_db s \<and> st_run_id t = None \<and>
        st_outcome t = (if sc_overlap sc = OverlapBufferOne then BUFFERED else SKIPPED))"
  by (rule handle_trigger_outcome [OF assms])

theorem trigger_follows_overlap_policy_witness:
  "\<exists>t s'. handle_trigger 5 None minutely_row 180000 minutely_backfilled = Inr (Some t, s') \<and> st_scheduled_for t = 180000"
proof -
  have "minutely_row \<in> set (ss_schedules minutely_backfilled)" by code_simp
  moreover have "\<not> trigger_known minutely_backfilled (sc_id minutely_row) 180000" by code_simp
  ultimately show ?thesis using trigger_follows_overlap_policy [OF minutely_backfilled_ok, of minutely_row 180000 5 None] by blast
qed

text \<open>
  Over any time the token bucket lets through at most what it held and what it was refilled with, whatever
  order the instants of the calls have.
\<close>

theorem rate_limit_bound:
  assumes "take_tokens key c ts buckets = Inr (xs, buckets')" and "assert_config c = Inr u" and "buckets key = Some b"
    and "0 \<le> bk_tokens b" and "bk_updated b \<le> until" and "\<forall>t \<in> set ts. t \<le> until"
  shows "of_nat (length (filter rd_allowed xs)) \<le> bk_tokens b + of_int (until - bk_updated b) * num_value (tc_rate c) / 1000"
  using take_tokens_allowance [OF assms(1,3,6,5,4)] assert_config_Inr [OF assms(2)] by (simp add: allowance_def)

theorem rate_limit_bound_witness:
  "length (filter rd_allowed (fst (projr (take_tokens ''ns'' \<lparr>tc_rate = Fin 2, tc_burst = Fin 3\<rparr> [100, 100, 100, 50, 1100, 1100, 1100]
      [''ns'' \<mapsto> \<lparr>bk_tokens = 3, bk_updated = 100\<rparr>])))) \<le> 5"
proof -
  let ?c = "\<lparr>tc_rate = Fin 2, tc_burst = Fin 3\<rparr>" and ?ts = "[100, 100, 100, 50, 1100, 1100, 1100] :: time list"
  let ?lm = "[''ns'' \<mapsto> \<lparr>bk_tokens = 3, bk_updated = 100\<rparr>]"
  have "\<not> isl (take_tokens ''ns'' ?c ?ts ?lm)" by (simp add: take_token_def refill_def assert_config_def Let_def num_value_def is_finite_num_def)
  then obtain xs lm' where run: "take_tokens ''ns'' ?c ?ts ?lm = Inr (xs, lm')"
    by (cases "take_tokens ''ns'' ?c ?ts ?lm") auto
  have conf: "assert_config ?c = Inr ()" by (simp add: assert_config_def num_value_def is_finite_num_def)
  have "of_nat (length (filter rd_allowed xs)) \<le> (5 :: rat)"
    using rate_limit_bound [OF run conf, of "\<lparr>bk_tokens = 3, bk_updated = 100\<rparr>" 1100] by (simp add: num_value_def)
  then show ?thesis using run by simp
qed

text \<open>
  A worker that keeps sessions decides what a full replay would. From any logs and an empty cache, through any
  growth of the logs, decisions recorded or not, evictions, expiries and flushes, every decision is
  the one the decision loop makes on the whole history of the run, errors included.
\<close>

theorem sticky_decisions_are_replays:
  assumes "(sticky_step st)\<^sup>*\<^sup>* (fresh_world logs c) w" and "\<forall>rid. log_in_order (logs rid)"
    and "decides_for st rid w env"
  shows "map_sum id fst (fst (decide_in st t0 t1 rid env (wo_decider w))) =
     run_decision_loop (wk_string st) (wk_enc st) (wk_threshold st) env (replayed (wk_code st rid) [])"
  by (rule decisions_are_replays [OF assms])

theorem sticky_decisions_are_replays_witness:
  "fst (decide_in pay_setting 900 900 1 (pay_env 900 (pay_settled 500)) (wo_decider pay_charged)) =
     Inr ((\<lparr>de_outcome = Completed (VNum (Fin 500)), de_commands = [CompleteRun (VNum (Fin 500))]\<rparr>, None), FromCache) \<and>
   run_decision_loop no_text no_text None (pay_env 900 (pay_settled 500)) (replayed pay_code []) =
     Inr (\<lparr>de_outcome = Completed (VNum (Fin 500)), de_commands = [CompleteRun (VNum (Fin 500))]\<rparr>, None)"
proof -
  have "decides_for pay_setting 1 pay_charged (pay_env 900 (pay_settled 500))"
    by (simp add: decides_for_def pay_setting_def pay_env_def same_draws_def pay_charged_def pay_decided_def pay_settled_def)
  from sticky_decisions_are_replays [OF pay_reachable [unfolded pay_world_def] _ this, of 900 900] pay_log_in_order(1) pay_second_decision
  show ?thesis by (simp add: pay_setting_def)
qed

text \<open>
  A session alone cannot tell whether the times it decided with are the ones that were recorded: when another
  worker's decision with the same step was recorded instead, the session completes the run with the time
  it had read itself, and a replay of the same history with the recorded one.
\<close>

theorem session_trusts_own_time:
  "fst (advance no_text no_text None (pay_env t2 (pay_settled t')) (pay_settled t')
      (snd (advance no_text no_text None (pay_env t pay_started) pay_started (create_live_session pay_code)))) =
     Inr (LiveDecided \<lparr>de_outcome = Completed (VNum (Fin (of_int t))), de_commands = [CompleteRun (VNum (Fin (of_int t)))]\<rparr> None) \<and>
   run_decision_loop no_text no_text None (pay_env t2 (pay_settled t')) (replayed pay_code []) =
     Inr (\<lparr>de_outcome = Completed (VNum (Fin (of_int t'))), de_commands = [CompleteRun (VNum (Fin (of_int t')))]\<rparr>, None)"
  using pay_session_result pay_replay_result by simp

text \<open>
  A handler that ends while its lease is held settles its task: it is completed when the handler returned, in
  quarantine when the handler parked it or failed too often, and else waits again, no longer than the backoff allows.
\<close>

theorem handler_outcome_settles_task:
  assumes "queue_ok th d" and "lease_holder d (lt_id task) = Some (lt_lease_token task)"
    and "resolve_options q identity sticky wi = Inr cfg"
  shows "\<exists>d' t. run_settle_call now task (settle_with cfg task failure) d = Inr (True, d') \<and> find_task d' (lt_id task) = Some t \<and>
     (case failure of
        None \<Rightarrow> t_state t = TCOMPLETED
      | Some (ParkTaskError m) \<Rightarrow> t_state t = TQUARANTINED \<and> t_quarantine_reason t = Some m
      | Some (OtherError m) \<Rightarrow>
          if wc_max_attempts cfg \<le> int (lt_attempts task) then t_state t = TQUARANTINED
          else t_state t = TPENDING \<and> now \<le> t_visible_at t \<and>
            (\<forall>b. wc_backoff cfg = Some b \<longrightarrow> t_visible_at t \<le> now + nb_max b))"
  by (rule settle_with_spec [OF assms])

theorem handler_outcome_settles_task_witness:
  "\<exists>d' t. run_settle_call 5000 order_lease (settle_with two_slots order_lease (Some (ParkTaskError ''unknown workflow''))) leased_db = Inr (True, d') \<and>
     find_task d' (lt_id order_lease) = Some t \<and> t_state t = TQUARANTINED \<and> t_quarantine_reason t = Some ''unknown workflow''"
proof -
  have "lease_holder leased_db (lt_id order_lease) = Some (lt_lease_token order_lease)" by code_simp
  from handler_outcome_settles_task [OF leased_queue_ok this two_slots_resolved(1), of 5000 "Some (ParkTaskError ''unknown workflow'')"]
  show ?thesis by simp
qed

text \<open>
  On tables in order the checker's comparison of rows and logs reports nothing exactly when the history of
  every run in its scope folds, and compacting a run does not change what it reports.
\<close>

theorem projection_check_is_exact:
  assumes "runs_ok d"
  shows "(fst (inconsistent_projections ids d) = [] \<longleftrightarrow>
      (\<forall>r \<in> set (d_runs d). in_scope ids (r_id r) \<longrightarrow>
         (\<exists>q. fold_run_events (run_events d (r_id r)) (projection_start d (r_id r)) = Inr q))) \<and>
     (\<forall>tail rid res d'. compact_run tail rid d = Inr (res, d') \<longrightarrow>
        (fst (inconsistent_projections ids d') = [] \<longleftrightarrow> fst (inconsistent_projections ids d) = []))"
  using projections_silent [OF assms] compaction_keeps_verdict [OF assms] by blast

theorem projection_check_is_exact_witness:
  "fst (inconsistent_projections None family_db) = []"
proof -
  have ok: "runs_ok family_db" using family_db_ok by (simp add: engine_ok_def del: family_db_ok)
  have "list_all (\<lambda>r. \<not> isl (fold_run_events (run_events family_db (r_id r)) (projection_start family_db (r_id r)))) (d_runs family_db)"
    by code_simp
  then have "\<forall>r \<in> set (d_runs family_db). \<exists>q. fold_run_events (run_events family_db (r_id r)) (projection_start family_db (r_id r)) = Inr q"
    by (metis list_all_iff sum.collapse(2))
  with projection_check_is_exact [OF ok, of None] show ?thesis by blast
qed

text \<open>
  A tick always ends and never throws, even with expressions and zones that can no longer be
  evaluated, and keeps the tables in order.
\<close>

theorem schedule_tick_ends:
  assumes "schedules_ok s"
  shows "\<exists>ts s'. schedule_tick batch zones q now trace reading s = (Some (Inr ts), s') \<and> schedules_ok s'"
  by (rule schedule_tick_ok [OF assms])

theorem schedule_tick_ends_witness:
  "\<exists>ts s'. schedule_tick 2 (\<lambda>_. None) ''main'' 5 None 180000 minutely_backfilled = (Some (Inr ts), s') \<and> schedules_ok s'"
  by (rule schedule_tick_ends [OF minutely_backfilled_ok])

text \<open>
  Reclaiming takes every lease that ran out away from its holder: no token settles the task any more until a
  worker leases it again, the task waits to be delivered or is in quarantine once it lost its lease too
  often, and a lease that has time left is not touched.
\<close>

theorem reclaimed_lease_is_lost:
  assumes "queue_ok th d" and "reclaim_orphaned_leases th now m d = (out, m', d')" and "find_task d tid = Some t"
  shows "queue_ok th d' \<and>
     (if t_state t = TLEASED \<and> t_visible_at t \<le> now
      then (\<forall>token later. ack later tid token d' = (False, d')) \<and>
        (\<exists>t'. find_task d' tid = Some t' \<and> t_visible_at t' = now \<and>
           t_state t' = (if th \<le> t_reclaim_count t + 1 then TQUARANTINED else TPENDING))
      else find_task d' tid = Some t)"
proof -
  have ok': "queue_ok th d'" by (rule reclaim_ok [OF assms(1,2)])
  have t': "find_task d' tid = Some (if expired_lease now t then reclaim_task th now t else t)"
    using find_task_reclaimed [OF assms(2)] assms(3) by simp
  show ?thesis
  proof (cases "expired_lease now t")
    case True
    then have "lease_holder d' tid = None" using t' by (simp add: lease_holder_def)
    then have "ack later tid token d' = (False, d')" for token later
      unfolding ack_def update_leased_eq [OF ok'] by simp
    with True ok' t' show ?thesis by (simp add: expired_lease_def reclaim_task_def Let_def)
  next
    case False
    with ok' t' show ?thesis by (auto simp: expired_lease_def)
  qed
qed

theorem reclaimed_lease_is_lost_witness:
  "fst (ack 41000 2 3 leased_db) \<and>
   \<not> fst (ack 41000 2 3 (snd (snd (reclaim_orphaned_leases 3 40000 create_recovery_metrics leased_db))))"
proof -
  obtain out m' d' where r: "reclaim_orphaned_leases 3 40000 create_recovery_metrics leased_db = (out, m', d')" by (rule prod_cases3)
  have "fst (ack 41000 2 3 leased_db)" by code_simp
  with reclaimed_lease_is_lost [OF leased_queue_ok r order_leased_row_facts(1)] order_leased_row_facts(2) r
  show ?thesis by (simp add: expired_lease_def)
qed


section \<open>Pages\<close>

text \<open>
  The history of a run is shown whole by the pages of \<open>getHistory\<close>, whatever the page size, as long as no sequence
  number has more than the fifteen digits a cursor may have.
\<close>

theorem pages_show_whole_history:
  assumes "assert_owned uid ns rid d = Inr x" and "log_ok d" and "\<And>se. se \<in> set (run_events d x) \<Longrightarrow> sequence_number se < 10 ^ 15"
    and "length (run_events d x) < n"
  shows "follow_pages n (answered_page (\<lambda>c. get_history uid ns rid (p\<lparr>pi_cursor := c\<rparr>) d)) None = run_events d x"
  by (rule follow_history [OF assms])

theorem pages_show_whole_history_witness:
  "follow_pages 9 (answered_page (\<lambda>c. get_history (\<lambda>_. Some 0) 7 ''order'' (\<lparr>pi_limit = Some 2, pi_cursor = None\<rparr>\<lparr>pi_cursor := c\<rparr>) family_db)) None =
     run_events family_db 0"
proof (rule pages_show_whole_history)
  show "assert_owned (\<lambda>_. Some 0) 7 ''order'' family_db = Inr 0" by code_simp
  show "log_ok family_db" using family_db_ok by (simp add: engine_ok_def runs_ok_def del: family_db_ok)
  have "list_all (\<lambda>se. sequence_number se < 9) (run_events family_db 0)" by code_simp
  then show "\<And>se. se \<in> set (run_events family_db 0) \<Longrightarrow> sequence_number se < 10 ^ 15" by (fastforce simp: list_all_iff)
  show "length (run_events family_db 0) < 9" by code_simp
qed

text \<open>The dead letters of a namespace that wait for an operator are shown once each, oldest first.\<close>

theorem pages_show_every_letter_once:
  assumes "distinct (map dl_id (d_dead_letters d))" and "\<And>x. uid (shw x) = Some x" and "length (waiting_letters ns d) < n"
  shows "follow_pages n (answered_page (\<lambda>c. list_letters_page uid shw ns (p\<lparr>pi_cursor := c\<rparr>) d)) None = map to_letter_summary (waiting_letters ns d)"
  by (rule follow_letters [OF assms])

theorem pages_show_every_letter_once_witness:
  "map ds_id (follow_pages 2 (answered_page (\<lambda>c. list_letters_page (\<lambda>s. Some (read_digits s)) show_nat 7 (first_page\<lparr>pi_cursor := c\<rparr>) parked_charge_db)) None) =
     [charge_letter_id]"
proof -
  have facts: "distinct (map dl_id (d_dead_letters parked_charge_db))" "length (waiting_letters 7 parked_charge_db) < 2"
    "map ds_id (map to_letter_summary (waiting_letters 7 parked_charge_db)) = [charge_letter_id]" by code_simp+
  show ?thesis
    by (subst pages_show_every_letter_once [OF facts(1) _ facts(2)]) (simp_all only: read_show_nat facts(3))
qed

end
