(* ===== verification/Spec2Isabelle.thy ===== *)
theory Spec2Isabelle
  imports Consequences
begin

text \<open>
  A durable execution engine: workflows are functions whose every effect is an event in a log
  kept in PostgreSQL, so that a run survives the process that executes it. This development models the
  engine's core, \<open>packages/core/src\<close>, with the parts of \<open>packages/api/src\<close> that start, list and control runs and limit requests
  and the worker process of \<open>packages/worker/src\<close>.

  How the parts interact. A client starts a run (\<open>Runs\<close>): a row, its first event and a workflow
  task. A worker (\<open>Worker\<close>) leases the task (\<open>TaskQueue\<close>), its handler (\<open>TaskHandler\<close>) reads the history (\<open>EventStore\<close>), replays the
  workflow over it (\<open>Matcher\<close>, \<open>Workflow\<close>, \<open>Decision\<close>) and hands the decision's events to the recorder
  (\<open>Recorder\<close>), which appends them and does what they ask for in one transaction: step tasks,
  timers, child runs, the next run of a chain, the closing of the run. Closing (\<open>CloseRun\<close>) folds
  the history into the run's row (\<open>RunState\<close>), withdraws its tasks, tells the parent and applies
  the close policy to the children. Step outcomes, cancellations, terminations and timeouts are
  further events of the same log.

  The theories, in the order of the imports:
  \<^item> \<open>Prelude\<close>: names of the basic types, transactions (functions from a state to an error or a
    value and the next state), facts on lists and options.
  \<^item> \<open>JsValue\<close>, \<open>Errors\<close>, \<open>Events\<close>, \<open>RunState\<close>: values as the log stores them, thrown and recorded
    errors, events and commands, the state machine and its fold (\<open>workflow/canonical.ts\<close>,
    \<open>event-store/codec.ts\<close>, \<open>workflow/error-serialization.ts\<close>, \<open>event-store/events.ts\<close>,
    \<open>workflow/commands.ts\<close>, \<open>run/state-machine.ts\<close>, \<open>run/projection.ts\<close>).
  \<^item> \<open>Database\<close>: one record per table row, one list per table; the state of every transaction.
  \<^item> \<open>EventStore\<close>, \<open>Growth\<close>: the log (locale \<open>event_log\<close>, interpreted as \<open>run_log\<close>), the stored
    projection, the invariant \<open>engine_ok\<close> and the relation \<open>extends\<close> (histories grow, closed runs
    are frozen) that every transaction keeps.
  \<^item> \<open>TaskQueue\<close>: the leases (locale \<open>lease_settlement\<close>, interpreted for ack, nack and quarantine).
  \<^item> \<open>CloseRun\<close>, \<open>Runs\<close>, \<open>Recorder\<close>: closing with its cascade, the creation of runs, recording
    (locale \<open>recorded_once\<close>, interpreted for steps, decisions, children and, in \<open>Schedules\<close>, triggers).
  \<^item> \<open>Matcher\<close>, \<open>Workflow\<close>, \<open>Decision\<close>, \<open>Replay\<close>: the workflow as the tree of its context calls,
    the calls, the replay, the decision (locale \<open>call_relation\<close>, interpreted twice), and the
    simulation of one replay by the next.
  \<^item> \<open>Control\<close>: the control operations (cancel, terminate, time out) as whole transactions.
  \<^item> \<open>Timers\<close>, \<open>Signals\<close>: the timer scheduler and its clock, signals, queries and the waiting marker.
  \<^item> \<open>Retry\<close>, \<open>StepTasks\<close>: the retry policy, failed attempts, dead letters, timeouts, and one delivery
    of a step task with everything others commit between its transactions.
  \<^item> \<open>Cron\<close>, \<open>Schedules\<close>: cron expressions with the calendar, and the schedule manager on the engine's
    tables and two of its own, as a step relation of its own (\<open>schedule_step\<close>).
  \<^item> \<open>Engine\<close>: the transactions as one step relation, and the composition of decision and recorder.
    A failed attempt is a step of it only while its run is open, because the code does not check that
    (see the section on where the log can break); \<open>nack\<close> and \<open>requeue\<close> are no steps of it, because they
    may put a task of a closed run back.
  \<^item> \<open>LogMachine\<close>: what the engine promises of a run as a machine of its own (\<open>abs_run_step\<close>: a log that
    grows, closes once and rests), and the refinement: every engine transaction is a step of it.
  \<^item> \<open>Compaction\<close>, \<open>Janitor\<close>, \<open>Quotas\<close>, \<open>Checker\<close>: folding closed histories into snapshots, recovery
    after crashes, the limits of a namespace, and the invariant checker, each with what it promises of the
    engine's tables.
  \<^item> \<open>Live\<close>, \<open>LiveProof\<close>, \<open>Sticky\<close>, \<open>StickyDecider\<close>: sessions that are fed the events of a run as they
    come, the proof that a session stands where the replay of its history stands (\<open>session_of\<close>,
    \<open>advance_replays\<close>), the cache and the claims, and a worker's decider as a step relation
    (\<open>sticky_step\<close>) whose invariant makes every decision that of a replay.
  \<^item> \<open>TaskHandler\<close>, \<open>TaskHandlerProof\<close>: what a worker does with a workflow task or a step task
    (\<open>engine/task-handler.ts\<close>), with whatever others commit between its statements (\<open>others k\<close>); the proof that
    every session a worker keeps fits the tables (\<open>worker_reaches\<close>, \<open>worker_fits\<close>), so that the cache does not
    show, and what happens to a run whose step was dead-lettered or whose decision came too late.
  \<^item> \<open>Worker\<close>, \<open>WorkerProof\<close>: the poll loop, the running tasks with their heartbeats, settling and shutdown
    (\<open>worker.ts\<close>, \<open>backpressure.ts\<close>, \<open>shutdown.ts\<close>) as the steps of one thread, in any order (\<open>worker_step\<close>,
    \<open>worker_runs\<close>), with a call to the queue as a step of its own; the locale \<open>worker_invariant\<close>, interpreted for
    the concurrency, the tasks in hand and the lost leases.
  \<^item> \<open>RunService\<close>, \<open>RunServiceProof\<close>: the operations behind the endpoints (\<open>run-service.ts\<close>), and the proof that
    following the cursors of a list shows every row once (locale \<open>cursor_pages\<close>, interpreted for runs, histories
    and dead letters) and that a caller reads nothing of another namespace.
  \<^item> \<open>Examples\<close>, \<open>ScheduleExamples\<close>, \<open>OperationsExamples\<close>, \<open>WorkerExamples\<close>, \<open>RunServiceExamples\<close>: the concrete databases, workflows, schedules
    sessions and workers the theorems are applied at; \<open>Consequences\<close>: further statements on single operations, with their examples.

  Bounds and fuel. \<open>close_run\<close> recurses through the tree of terminated children; its fuel is the
  number of open runs plus two, and \<open>close_run_ok\<close> shows that it is enough, because every nested
  call closes a run that was open. \<open>catch_up\<close> has one tick more than there are pending timers, which
  \<open>catch_up_loop_ok\<close> shows to be enough, because every full tick leaves fewer of them. All other
  loops are structural.

  Modelled as parameters: the text \<open>JSON.stringify\<close> gives, gzip, the draws of the random source,
  the clocks, the offsets of time zones. A transaction is atomic: the code holds a lock on the run's row for its duration.

  The \<open>sticky\<close> theorems speak of workflows whose code a session can resume or must hand to a replay
  (\<open>live_handler\<close>): promises are held in the order the calls made them and awaited one at a time. Logs are in
  order (\<open>log_in_order\<close>): a step has one outcome at most and no outcome comes without its command.

  Not modelled: tracing, logging and metrics; the connection pool and the migrations; the guard that
  replaces \<open>Date.now\<close>, \<open>Math.random\<close> and \<open>setTimeout\<close> while a workflow runs (it changes globals of
  the runtime); the in-memory runner; the JSON text of a snapshot; workflow code that interleaves awaits of its own outside \<open>ctx.all\<close>; HTTP routing; the wiring of the worker process and the timers
  that call the timer scheduler, the schedule manager, the janitor and the compactor; the command line, the user interface, the chaos harness and the benchmarks.
\<close>

section \<open>The whole engine\<close>

text \<open>
  C1: Whatever transactions commit, in whatever order, the engine's invariant holds: histories are
  gapless, every run row is a stop of the fold over its history, an open run has no closing event,
  unused ids name nothing; and every history only grows.
\<close>

theorem transactions_keep_invariant:
  assumes "engine_step\<^sup>*\<^sup>* d d'" and "engine_ok d"
  shows "engine_ok d' \<and> extends d d'"
  by (rule engine_steps_ok [OF assms])

theorem transactions_keep_invariant_witness:
  "engine_step\<^sup>*\<^sup>* empty_db family_db \<and> engine_ok family_db \<and> extends empty_db family_db"
proof -
  have "engine_step empty_db order_db" by (rule engine_step.started [OF order_started])
  moreover have "engine_step order_db family_db"
    by (rule engine_step.decided [OF order_commands_shape family_recorded])
  ultimately have "engine_step\<^sup>*\<^sup>* empty_db family_db" by simp
  with transactions_keep_invariant [OF this engine_ok_empty] show ?thesis by simp
qed



section \<open>Replay\<close>

text \<open>
  C3: Replay repeats no decision. When the commands of a suspended decision are on the history, the
  next replay of the handler meets every one of them, at a later clock and for another trigger, and
  decides nothing new: no step is scheduled twice, no timer or child started twice.
\<close>

theorem replay_repeats_no_decision:
  assumes "\<not> cancel_requested env" and "no_orphans (e_history env)" and "well_behaved h (e_clock env)"
    and "decide js enc env h = Inr \<lparr>de_outcome = Suspended, de_commands = cs\<rparr>"
  shows "decide js enc (next_env env cs clk trg) h = Inr \<lparr>de_outcome = Suspended, de_commands = []\<rparr>"
  by (rule next_decision [OF assms])

theorem replay_repeats_no_decision_witness:
  "decide no_text no_text
     (next_env shop_env [ScheduleStep ''step-1'' ''charge'' (VNum (Fin 42)), StartTimer ''timer-1'' 9000 (Fin 7000)] 9999 None)
     shop_handler = Inr \<lparr>de_outcome = Suspended, de_commands = []\<rparr>"
  by (rule replay_repeats_no_decision [OF shop_env_facts shop_well_behaved shop_decision])

text \<open>
  C4: The ids on a run's history and in its next decision count up together: the steps are
  \<open>step-1\<close>, \<open>step-2\<close> and so on without a gap or a repetition, and so are the timers and the
  children, of which there are never more than the limit allows.
\<close>

theorem decision_ids_count_up:
  assumes "\<not> cancel_requested env" and "no_orphans (e_history env)" and "well_behaved h (e_clock env)"
    and "decide js enc env h = Inr d" and "\<forall>inp. de_outcome d \<noteq> ContinuedAsNew inp"
  shows "\<exists>n m k. shape_ids is_step (recorded_shapes (e_history env @ map command_to_event (de_commands d))) = map step_id [1..<Suc n] \<and>
     shape_ids is_timer (recorded_shapes (e_history env @ map command_to_event (de_commands d))) = map timer_id [1..<Suc m] \<and>
     shape_ids is_child (recorded_shapes (e_history env @ map command_to_event (de_commands d))) = map child_id [1..<Suc k] \<and>
     k \<le> e_max_children env"
  by (rule decision_ids [OF assms])

theorem decision_ids_count_up_witness:
  "\<exists>n. [''step-1''] = map step_id [1..<Suc n]"
proof -
  have "\<forall>inp. de_outcome \<lparr>de_outcome = Suspended,
      de_commands = [ScheduleStep ''step-1'' ''charge'' (VNum (Fin 42)), StartTimer ''timer-1'' 9000 (Fin 7000)]\<rparr> \<noteq> ContinuedAsNew inp"
    by simp
  from decision_ids_count_up [OF shop_env_facts shop_well_behaved shop_decision this] show ?thesis
    by (auto simp: shop_env_def recorded_shapes_def List.map_filter_def)
qed

text \<open>
  C5: What the decision loop decides, the recorder takes: for an open run at the current sequence
  number a decision with valid events is recorded whole, and the run's row is then in the state the
  decision's outcome names.
\<close>

theorem decision_is_recorded:
  assumes "engine_ok d" and "find_run d rid = Some r" and "r_status r = RUNNING"
    and "decide js enc env h = Inr dec" and "find_task_result d rid key = None"
    and "list_all event_valid (map command_to_event (de_commands dec))"
  shows "\<exists>d' r' new. record_workflow_task_result (Some q) clock now rid key (read_current_sequence d rid)
       (map command_to_event (de_commands dec)) d =
         Inr ((True, read_current_sequence d rid + 1, read_current_sequence d rid + length (de_commands dec)), d') \<and>
     engine_ok d' \<and> extends d d' \<and> find_run d' rid = Some r' \<and> r_status r' = outcome_state (de_outcome dec) \<and>
     run_events d' rid = run_events d rid @ new \<and> map stored new = map command_to_event (de_commands dec)"
  by (rule decide_then_record [OF assms])

theorem decision_is_recorded_witness:
  "\<exists>d'. record_workflow_task_result (Some ''main'') 2000 2000 0 ''task-1'' 1
       [StepScheduled ''step-1'' ''charge'' (VNum (Fin 42)), TimerStarted ''timer-1'' 9000 (Some (Fin 7000))] order_db =
         Inr ((True, 2, 3), d') \<and> engine_ok d'"
proof -
  have "list_all event_valid (map command_to_event (de_commands \<lparr>de_outcome = Suspended,
      de_commands = [ScheduleStep ''step-1'' ''charge'' (VNum (Fin 42)), StartTimer ''timer-1'' 9000 (Fin 7000)]\<rparr>))"
    by (simp add: is_finite_num_def)
  from decision_is_recorded [OF order_db_ok order_row_found shop_decision order_db_no_task this, of "''main''" 2000 2000]
  show ?thesis by auto
qed

section \<open>Recording\<close>



text \<open>
  C7: However often and with whatever contents it is delivered, an outcome is recorded at most once
  per key: the result of a step, the decision of a workflow task, the child of a parent, the trigger
  of a schedule's instant.
\<close>

theorem outcomes_recorded_at_most_once:
  "length (filter (\<lambda>x. x = (k, True)) (deliver record_step steps d)) \<le> 1 \<and>
   length (filter (\<lambda>x. x = (t, True)) (deliver record_task decisions d)) \<le> 1 \<and>
   length (filter (\<lambda>x. x = (c, True)) (deliver record_child starts d)) \<le> 1 \<and>
   length (filter (\<lambda>x. x = (g, True)) (deliver deliver_trigger triggers s)) \<le> 1"
  by (intro conjI step_results.at_most_once task_results.at_most_once children.at_most_once triggers.at_most_once)

section \<open>Closing\<close>

text \<open>
  C8: A termination of an open run always goes through, whatever tree of children hangs below it:
  the run is TERMINATED with the one closing event at the end of its history, no task of it waits
  any more, every open child got what its close policy asks for, and the invariant of the engine
  and the growth of every other history hold.
\<close>

theorem terminate_closes_run:
  assumes "engine_ok d" and "find_run d rid = Some r" and "r_status r = RUNNING"
  shows "\<exists>se d' r'. terminate_run now rid reason d = Inr (sequence_number se, d') \<and>
     engine_ok d' \<and> extends d d' \<and> find_run d' rid = Some r' \<and> r_status r' = TERMINATED \<and>
     waiting_tasks d' rid = {} \<and> run_events d' rid = run_events d rid @ [se] \<and> stored se = RunTerminated reason \<and>
     (\<forall>c. find_run d (r_id c) = Some c \<longrightarrow> r_status c = RUNNING \<longrightarrow> r_parent c = Some rid \<longrightarrow>
        r_id c \<noteq> rid \<longrightarrow> policy_done d' c)"
  by (rule terminate_run_ok [OF assms])

theorem terminate_closes_run_witness:
  "\<exists>n d' r'. terminate_run 5000 0 None family_db = Inr (n, d') \<and> engine_ok d' \<and>
     find_run d' (r_id shipping_row) = Some r' \<and> r_status r' = TERMINATED"
proof -
  have ne: "r_id shipping_row \<noteq> 0" by code_simp
  have "\<exists>n d'. terminate_run 5000 0 None family_db = Inr (n, d') \<and> engine_ok d' \<and> policy_done d' shipping_row"
    using terminate_closes_run [OF family_db_ok family_row_found, of 5000 None] shipping_row_found(1-3) ne by metis
  then show ?thesis using shipping_row_found(4) by (auto simp: policy_done_def)
qed

text \<open>
  C9: The open parent of a run that closes hears of it in the same transaction: the outcome of the
  child is the next event of its history and a workflow task waits for it. A run that continues as
  new tells its parent nothing; the last run of the chain does.
\<close>

theorem parent_hears_of_child:
  assumes "runs_ok d" and "child_link d rid = Some (prid, cid)"
    and "find_run d prid = Some q" and "r_status q = RUNNING" and "p_state p \<noteq> CONTINUED_AS_NEW"
  shows "\<exists>se d' t. notify_parent now rid p d = Inr ((), d') \<and> runs_ok d' \<and> extends d d' \<and>
     run_events d' prid = run_events d prid @ [se] \<and> stored se = child_outcome_event cid (p_state p) p \<and>
     t \<in> waiting_tasks d' prid \<and> t_type t = WORKFLOW_TASK \<and> t_visible_at t = now"
  by (rule notify_parent_delivers [OF assms])

theorem parent_hears_of_child_witness:
  "\<exists>d' t. notify_parent 6000 (r_id shipping_row) (create_initial_projection\<lparr>p_state := COMPLETED\<rparr>) family_db = Inr ((), d') \<and>
     t \<in> waiting_tasks d' 0"
proof -
  have "runs_ok family_db" using family_db_ok by (simp add: engine_ok_def del: family_db_ok)
  moreover have "child_link family_db (r_id shipping_row) = Some (0, ''child-1'')" by code_simp
  ultimately show ?thesis
    using parent_hears_of_child [OF _ _ family_row_found, of "r_id shipping_row" "''child-1''"
        "create_initial_projection\<lparr>p_state := COMPLETED\<rparr>" 6000] by (auto simp: create_initial_projection_def)
qed

section \<open>Starting\<close>



section \<open>The log and its read model\<close>

text \<open>
  C11: The incrementally refreshed read model and the one rebuilt from the log (or from its
  snapshot) are the same, result and rows, and the row is then at the end of the history.
\<close>

theorem refresh_equals_rebuild:
  assumes "engine_ok d" and "find_run d rid = Some r"
  shows "refresh_projection rid d = rebuild_projection rid d \<and>
     (\<forall>p d'. refresh_projection rid d = Inr (p, d') \<longrightarrow>
        (\<exists>r'. find_run d' rid = Some r' \<and> row_synced d' r' \<and> projection_from_row r' = p \<and>
           p_last_seq p = snapshot_seq d rid + length (run_events d rid)))"
proof -
  have log: "log_ok d" and syn: "row_synced d r"
    using assms by (auto simp: engine_ok_def runs_ok_def row_ok_def)
  show ?thesis using refresh_eq_rebuild [OF log assms(2) syn] refresh_synced [OF log assms(2) syn] by blast
qed

theorem refresh_equals_rebuild_witness:
  "refresh_projection 0 family_db = rebuild_projection 0 family_db"
  using refresh_equals_rebuild [OF family_db_ok family_row_found(1)] by blast

section \<open>The task queue\<close>

text \<open>
  C12: A dequeue hands every task out under a token no one had before, and that token is then the
  task's lease: whoever held the task before has lost it. It hands out no more than the limit.
\<close>

theorem dequeue_grants_fresh_leases:
  assumes "queue_ok th d" and "dequeue th now opt d = Inr (out, d')"
  shows "queue_ok th d' \<and> int (length out) \<le> optional (dq_limit opt) 1 \<and>
     list_all (\<lambda>l. lease_holder d' (lt_id l) = Some (lt_lease_token l) \<and> d_next d \<le> lt_lease_token l) out"
  using dequeue_spec(1,6) [OF assms] dequeue_replaces_token [OF assms] by (simp add: list_all_iff)

theorem dequeue_grants_fresh_leases_witness:
  "lease_holder leased_db (lt_id order_lease) = Some (lt_lease_token order_lease)"
  using dequeue_grants_fresh_leases [OF order_queue_ok order_delivered] by simp

text \<open>
  C13: A lease is settled once: after its holder acknowledged the task, neither that token nor any
  other settles it again, be it as an acknowledgement, a retry or a quarantine, and a token that is
  not the lease changes nothing.
\<close>

theorem lease_settled_once:
  assumes "queue_ok th d" and "ack now tid token d = (True, d')"
  shows "queue_ok th d' \<and> ack now' tid k d' = (False, d') \<and> nack_row now' delay tid k d' = (False, d') \<and>
     quarantine now' reason tid k d' = (False, d')"
proof -
  have h: "lease_holder d tid = Some token"
    using acked.settle_applies [OF assms(1), of now tid token] assms(2) by simp
  have e: "lease_holder d' tid = None" and q: "queue_ok th d'"
    using acked.settle_ends [OF assms(1) h, of now] acked.settle_inv [OF assms(1), of now tid token] assms(2) by simp_all
  show ?thesis
    using q e acked.stale_token_refused [OF q, of tid k now'] nacked.stale_token_refused [OF q, of tid k now' delay]
      quarantined.stale_token_refused [OF q, of tid k now' reason] by simp
qed

theorem lease_settled_once_witness:
  "\<exists>d'. ack 3500 2 (lt_lease_token order_lease) leased_db = (True, d') \<and>
     nack_row 3600 0 2 (lt_lease_token order_lease) d' = (False, d')"
proof -
  have "ack 3500 2 (lt_lease_token order_lease) leased_db = (True, snd (ack 3500 2 (lt_lease_token order_lease) leased_db))"
    by code_simp
  then obtain d' where "ack 3500 2 (lt_lease_token order_lease) leased_db = (True, d')" by blast
  with lease_settled_once [OF leased_queue_ok this] show ?thesis by blast
qed

section \<open>Timers, signals\<close>

text \<open>
  C14: Catching up after an outage ends, whatever the clock serves: no firing throws, every timer
  that was due is fired or dropped, and nothing is due at the last reading of the clock.
\<close>

theorem catch_up_ends_with_nothing_due:
  assumes "engine_ok d" and "0 < batch"
  shows "\<exists>rep n d'. catch_up batch q now readings d = (Some (Inr (rep, n)), d') \<and> engine_ok d' \<and> extends d d' \<and>
     0 < n \<and> next_due_timer q (readings (n - 1)) d' = None"
  by (rule catch_up_ok [OF assms])

theorem catch_up_ends_with_nothing_due_witness:
  "\<exists>rep n d'. catch_up 1 ''main'' 10000 (\<lambda>_. 10000) family_db = (Some (Inr (rep, n)), d') \<and>
     next_due_timer ''main'' 10000 d' = None"
  using catch_up_ends_with_nothing_due [OF family_db_ok, of 1 "''main''" 10000 "\<lambda>_. 10000"] by auto

text \<open>
  C15: A due timer of an open run is fired in one transaction: the event is the next one of the run's history,
  the timer is no longer pending, and a workflow task is there that is visible from the instant the timer was due.
\<close>

theorem timer_wakes_run:
  assumes "engine_ok d" and "next_due_timer q reading d = Some t" and "\<not> is_timeout_timer_id (tm_timer t)"
    and "find_run d (tm_run t) = Some r" and "r_status r = RUNNING"
  shows "\<exists>tid d' se task. fire_next q now reading d = Inr (Fired (fired_record t reading (Some tid)), d') \<and>
     engine_ok d' \<and> extends d d' \<and> pending_count d' < pending_count d \<and>
     run_events d' (tm_run t) = run_events d (tm_run t) @ [se] \<and> stored se = TimerFired (tm_timer t) \<and>
     task \<in> waiting_tasks d' (tm_run t) \<and> t_id task = tid \<and> t_type task = WORKFLOW_TASK \<and>
     t_visible_at task = tm_fire_at t"
  by (rule fire_next_wakes [OF assms])

theorem timer_wakes_run_witness:
  "\<exists>out d' task. fire_next ''main'' 10000 10000 family_db = Inr (out, d') \<and> task \<in> waiting_tasks d' 0 \<and> t_visible_at task = 9000"
proof -
  have r: "find_run family_db (tm_run wait_timer) = Some family_row" "r_status family_row = RUNNING"
    by (simp_all add: wait_timer_due(3))
  from timer_wakes_run [OF family_db_ok wait_timer_due(1,2) r, of 10000] show ?thesis
    by (auto simp: wait_timer_due(3,4))
qed

section \<open>Retries\<close>

text \<open>
  C16: Under any policy the code accepts, a wait is never negative and never above the policy's
  maximum as a whole number of milliseconds; without jitter it never shrinks from one attempt to the next.
\<close>

theorem backoff_within_policy:
  assumes "resolve_retry_policy partial = Inr p" and "0 \<le> draw" and "draw \<le> 1"
  shows "0 \<le> compute_backoff_ms p n draw \<and> compute_backoff_ms p n draw \<le> js_round (rp_max_interval p) \<and>
     (rp_jitter p = 0 \<longrightarrow> m \<le> n \<longrightarrow> compute_backoff_ms p m draw \<le> compute_backoff_ms p n draw)"
  using backoff_bounds [OF assms] backoff_grows [OF assms(1)] by simp

theorem backoff_within_policy_witness:
  "compute_backoff_ms DEFAULT_RETRY_POLICY 9 (1 / 2) \<le> 60000"
proof -
  let ?p = "\<lparr>pp_initial = None, pp_coefficient = None, pp_max_interval = None, pp_max_attempts = None,
      pp_jitter = None, pp_non_retryable = None\<rparr>"
  have "resolve_retry_policy ?p = Inr DEFAULT_RETRY_POLICY" by code_simp
  from backoff_within_policy [OF this, of "1 / 2" 9 9]
  have "compute_backoff_ms DEFAULT_RETRY_POLICY 9 (1 / 2) \<le> js_round (rp_max_interval DEFAULT_RETRY_POLICY)" by simp
  moreover have "js_round (rp_max_interval DEFAULT_RETRY_POLICY) = 60000" by code_simp
  ultimately show ?thesis by simp
qed



section \<open>Where the log can break\<close>



section \<open>Schedules\<close>

text \<open>
  C20: In a zone whose offset does not change, the search returns the first whole minute after the
  given instant whose local month, day, hour and minute the expression names; when it gives up, no
  minute within its reach is named.
\<close>

theorem next_cron_time_is_first:
  assumes "fixed_zone zones (cs_time_zone s) off"
  shows "case next_cron_time zones s after of
      Inr t \<Rightarrow> after < t \<and> t mod MINUTE_MS = 0 \<and> cron_matches (\<lambda>_. off) s t \<and>
        (\<forall>u. after < u \<longrightarrow> u < t \<longrightarrow> u mod MINUTE_MS = 0 \<longrightarrow> \<not> cron_matches (\<lambda>_. off) s u)
    | Inl _ \<Rightarrow> \<forall>u. after < u \<longrightarrow> u \<le> after + MAX_SEARCH_STEPS * MINUTE_MS \<longrightarrow> u mod MINUTE_MS = 0 \<longrightarrow>
        \<not> cron_matches (\<lambda>_. off) s u"
  by (rule next_cron_time_first [OF assms])

theorem next_cron_time_is_first_witness:
  "next_cron_time utc_only mondays 1772902800000 = Inr 1773014400000 \<and>
   \<not> cron_matches (\<lambda>_. 0) mondays 1772928000000"
proof -
  have n: "next_cron_time utc_only mondays 1772902800000 = Inr 1773014400000" by code_simp
  have "(1772928000000 :: int) mod MINUTE_MS = 0" by (simp add: MINUTE_MS_def)
  with next_cron_time_is_first [OF utc_is_fixed, of 1772902800000] n show ?thesis by auto
qed

text \<open>
  C21: A parsed expression is well formed: every field names at least one value, and only values of
  its range; day of week 7 has become 0.
\<close>

theorem parsed_cron_in_range:
  assumes "parse_cron zones expression zone = Inr s"
  shows "in_range 0 59 (cs_minutes s) \<and> in_range 0 23 (cs_hours s) \<and> in_range 1 31 (cs_days_of_month s) \<and>
     in_range 1 12 (cs_months s) \<and> in_range 0 6 (cs_days_of_week s)"
  by (intro conjI parse_cron_range [OF assms])

theorem parsed_cron_in_range_witness:
  "in_range 0 6 (cs_days_of_week (projr (parse_cron utc_only ''*/20 9-17 1,15 * sat-7'' ''UTC'')))"
proof -
  let ?s = "projr (parse_cron utc_only ''*/20 9-17 1,15 * sat-7'' ''UTC'')"
  have "parse_cron utc_only ''*/20 9-17 1,15 * sat-7'' ''UTC'' = Inr ?s" by code_simp
  from parsed_cron_in_range [OF this] show ?thesis by blast
qed

text \<open>
  C22: Whatever schedules are created, paused, resumed, ticked and backfilled in whatever order, with
  whatever expressions, zones and readings: no instant of a schedule is handled twice, a schedule whose
  policy forbids overlap has at most one open run, and the engine's invariant holds.
\<close>

theorem schedules_keep_overlap_policy:
  assumes "schedule_step\<^sup>*\<^sup>* s s'" and "schedules_ok s"
  shows "engine_ok (ss_db s') \<and> distinct (trigger_keys s') \<and>
     (\<forall>c \<in> set (ss_schedules s'). sc_overlap c \<noteq> OverlapAllowAll \<longrightarrow> length (open_runs s' (sc_id c)) \<le> 1)"
  using schedule_steps_ok [OF assms] by (simp add: schedules_ok_def one_open_def)

theorem schedules_keep_overlap_policy_witness:
  "distinct (trigger_keys minutely_backfilled)"
  using schedules_keep_overlap_policy [OF minutely_steps no_schedules_ok] by blast


section \<open>Around the engine\<close>



text \<open>
  C25: Compacting a run changes no run's projection: the events cut off are folded into the snapshot, what is
  left of the history goes on from it, every other run is untouched, a rebuild gives the same answer for
  every run, and compacting again cuts nothing more.
\<close>

theorem compaction_keeps_projection:
  assumes "runs_ok d" and "compact_run tail rid d = Inr (res, d')"
  shows "runs_ok d' \<and> d_runs d' = d_runs d \<and> run_events d' rid = drop (cr_pruned res) (run_events d rid) \<and>
     (\<forall>x. x \<noteq> rid \<longrightarrow> run_events d' x = run_events d x) \<and>
     (\<forall>x. map_sum id fst (rebuild_projection x d') = map_sum id fst (rebuild_projection x d)) \<and>
     (\<forall>res' d''. compact_run tail rid d' = Inr (res', d'') \<longrightarrow> cr_pruned res' = 0 \<and> run_events d'' rid = run_events d' rid)"
  using compact_run_ok [OF assms] rebuild_after_compaction [OF assms] compact_run_twice [OF assms] by blast

theorem compaction_keeps_projection_witness:
  "\<exists>res d'. compact_run 2 0 terminated_db = Inr (res, d') \<and> cr_pruned res = 4 \<and> length (run_events d' 0) = 2 \<and>
     map_sum id fst (rebuild_projection 0 d') = map_sum id fst (rebuild_projection 0 terminated_db)"
proof -
  have "map_sum id (\<lambda>(res, d'). (cr_pruned res, length (run_events d' 0))) (compact_run 2 0 terminated_db) = Inr (4, 2)"
    by code_simp
  then obtain res d' where run: "compact_run 2 0 terminated_db = Inr (res, d')" "cr_pruned res = 4" "length (run_events d' 0) = 2"
    by (cases "compact_run 2 0 terminated_db") auto
  have "runs_ok terminated_db" using terminated_db_ok by (simp add: engine_ok_def del: terminated_db_ok)
  from compaction_keeps_projection [OF this run(1)] run show ?thesis by blast
qed

text \<open>
  C26: Recovery wakes every stalled run: after it no run counts as stalled, each run it found has a new
  workflow task in its queue that can be delivered at once, and the engine's invariant and the growth of the
  histories hold.
\<close>

theorem stalled_runs_wake:
  assumes "engine_ok d" and "recover_stalled_runs True now wall grace q d = Inr (out, d')"
  shows "engine_ok d' \<and> extends d d' \<and> find_stalled_runs now grace q d' = Inr [] \<and>
     (\<exists>found. find_stalled_runs now grace q d = Inr found \<and> set out = set found) \<and>
     (\<forall>s \<in> set out. \<exists>t \<in> set (d_tasks d'). t \<notin> set (d_tasks d) \<and> t_run t = sl_run s \<and> t_queue t = q \<and>
        t_type t = WORKFLOW_TASK \<and> t_state t = TPENDING \<and> t_visible_at t = now)"
proof -
  obtain found where "find_stalled_runs now grace q d = Inr found"
    using assms(2) by (auto simp: find_stalled_runs_def recover_stalled_runs_def split: sum.splits)
  with recover_ok [OF assms] recover_wakes [OF assms(2)] show ?thesis by blast
qed

theorem stalled_runs_wake_witness:
  "\<exists>d'. recover_stalled_runs True 9000 9000 5000 ''main'' stuck_db =
      Inr ([\<lparr>sl_run = 0, sl_namespace = 7, sl_workflow_type = ''order''\<rparr>], d') \<and>
     (\<exists>t \<in> set (d_tasks d'). t_run t = 0 \<and> t_type t = WORKFLOW_TASK \<and> t_visible_at t = 9000)"
proof -
  obtain d' where rec: "recover_stalled_runs True 9000 9000 5000 ''main'' stuck_db =
      Inr ([\<lparr>sl_run = 0, sl_namespace = 7, sl_workflow_type = ''order''\<rparr>], d')" using stuck_recovered by blast
  from stalled_runs_wake [OF stuck_db_ok rec] rec show ?thesis by auto
qed

text \<open>
  C27: While a worker's claim of a run lives, it is exclusive: a claim by another worker answers with the
  same claim and changes nothing of it, and the queue delivers the run's workflow tasks to no other
  worker that asks for its own.
\<close>

theorem sticky_claim_is_exclusive:
  assumes "claim_run now rid w timeout d = Inr (cl, d')" and "now' < ck_expires_at cl" and "w' \<noteq> ck_worker cl"
  shows "(1 \<le> timeout' \<longrightarrow> (\<exists>d''. claim_run now' rid w' timeout' d' = Inr (cl, d''))) \<and>
     (queue_ok th d' \<longrightarrow> dequeue th now' opt d' = Inr (out, d2) \<longrightarrow> dq_sticky_for opt = Some w' \<longrightarrow>
        (\<forall>l \<in> set out. \<not> (lt_run l = rid \<and> lt_type l = WORKFLOW_TASK)))"
proof -
  obtain s where s: "claim_of d' rid = Some s" "cl = to_claim s" "st_run s = rid"
    using claim_of_claimed [OF assms(1)] by blast
  have live: "now' < st_expires_at s" "w' \<noteq> st_worker s" using assms(2,3) s(2) by (simp_all add: to_claim_def)
  have "\<exists>d''. claim_run now' rid w' timeout' d' = Inr (cl, d'')" if "1 \<le> timeout'"
    using s live that by (auto simp: claim_run_def claim_of_def renew_claim_def)
  with live_claim_delivers_to_owner [OF s(1) live(1) _ _ _ live(2)] show ?thesis by blast
qed

theorem sticky_claim_is_exclusive_witness:
  "\<exists>d''. claim_run 2000 0 ''w2'' 60000 claimed_db = Inr (\<lparr>ck_run = 0, ck_worker = ''w1'', ck_expires_at = 61500\<rparr>, d'')"
  using sticky_claim_is_exclusive [OF order_claimed(1), of 2000 "''w2''" 60000 0 undefined "[]" claimed_db] by simp

text \<open>
  C28: A run that its timeout closes is reported as broken although nothing is wrong with it: its
  timeout timer is marked fired, and the event that closes the run is \<open>run_timed_out\<close>, not \<open>timer_fired\<close>.
\<close>

theorem timed_out_run_is_reported:
  assumes "engine_ok d" and "next_due_timer q reading d = Some t" and "is_timeout_timer_id (tm_timer t)"
    and "find_run d (tm_run t) = Some r" and "r_status r = RUNNING" and "find_snapshot d (tm_run t) = None"
    and "\<forall>se \<in> set (run_events d (tm_run t)). stored se \<noteq> TimerFired (tm_timer t)"
  shows "\<exists>f d'. fire_next q now reading d = Inr (Fired f, d') \<and> engine_ok d' \<and>
     run_violation TimerFiredOnce (''timer '' @ quoted (tm_timer t) @ '' is marked fired but has no timer_fired event'') (tm_run t)
       \<in> set (ir_violations (check_invariants None None d'))"
  by (rule timeout_reported [OF assms])

theorem timed_out_run_is_reported_witness:
  "\<exists>f d'. fire_next ''main'' 70000 70000 order_db = Inr (Fired f, d') \<and> engine_ok d' \<and>
     ir_violations (check_invariants None None d') \<noteq> []"
  using timed_out_run_is_reported [OF order_db_ok timeout_timer_facts(1-3) order_row_found(2) timeout_timer_facts(4,5), of 70000]
  by fastforce

text \<open>
  C29: The cache of sessions does not show. From an empty cache and a sound database, after any tasks the worker
  handled, any flushes of its cache and whatever the rest of the system committed before, between and during them,
  a workflow task of a run that is open when its history is read ends with the same result and report and leaves the
  same database as at a worker with an empty cache. Only the source of the decision differs.
\<close>

theorem session_cache_is_invisible:
  assumes "worker_reaches opt envs (create_sticky_decider c, d0) (sd, d)" and "ca_entries c = []" and "engine_ok d0"
    and "others_move others" and "same_draws (envs (lt_run task)) (tk_env clk (lt_run task))"
    and "log_in_order (map stored (run_events (others 1 (others 0 d)) (lt_run task)))"
    and "run_closed (others 1 (others 0 d)) (lt_run task) \<longrightarrow> run_closed (others 0 d) (lt_run task)"
    and "workflow_task_handler opt clk others task sd d = (hr, rep, sd', d')"
    and "workflow_task_handler opt clk others task (create_sticky_decider c) d = (hr0, rep0, sd0', d0')"
  shows "hr0 = hr \<and> unsourced rep0 = unsourced rep \<and> d0' = d'"
  by (rule workflow_task_handler_cache [OF assms])

theorem session_cache_is_invisible_witness:
  "\<exists>r r0 d sd sd0. workflow_task_handler pay_options (pay_clock 5000) alone second_lease pay_session pay_paid_db = (HandlerDone, Some r, sd, d) \<and>
     workflow_task_handler pay_options (pay_clock 5000) alone second_lease (create_sticky_decider pay_cache) pay_paid_db = (HandlerDone, Some r0, sd0, d) \<and>
     dr_source r = Some FromCache \<and> dr_source r0 = Some FromReplay \<and> unsourced (Some r0) = unsourced (Some r)"
proof -
  obtain hr rep sd d where h: "workflow_task_handler pay_options (pay_clock 5000) alone second_lease pay_session pay_paid_db = (hr, rep, sd, d)"
    by (metis prod.exhaust)
  obtain hr0 rep0 sd0 e where h0: "workflow_task_handler pay_options (pay_clock 5000) alone second_lease (create_sticky_decider pay_cache) pay_paid_db =
      (hr0, rep0, sd0, e)" by (metis prod.exhaust)
  have "hr0 = hr \<and> unsourced rep0 = unsourced rep \<and> e = d"
    by (rule session_cache_is_invisible [OF pay_worker_reaches _ order_db_ok alone_moves pay_draws _ _ h h0])
       (simp_all add: alone_def pay_second_task order_log_in_order)
  then show ?thesis using pay_second_task(1-3) h h0 by auto
qed

text \<open>
  C30: A decision that was made while an attempt of one of the run's steps failed is lost: the failed attempt moves the history
  on, the decision is superseded and its task counts as done, and nobody has given the run another workflow task.
\<close>

theorem failed_attempt_swallows_decision:
  assumes "engine_ok d" and "find_run d (lt_run task) = Some r" and "r_status r = RUNNING"
    and "map stored (run_events d (lt_run task)) = RunStarted wt inp # rest" and "ho_workflows opt wt = Some code"
    and "fst (sticky_decide (ho_string opt) (ho_enc opt) (ho_threshold opt) (tk_cache_get clk) (tk_cache_set clk)
        (lt_run task) wt (code inp) (task_env clk (lt_run task) (run_events d (lt_run task))) sd) = Inr ((dec, w), src)"
    and "list_all event_valid (map command_to_event (de_commands dec))"
    and "find_task_result d (lt_run task) (show_nat (lt_id task)) = None"
    and "record_failure now (lt_run task) sid attempt e retry_at d = Inr (True, d2)"
    and "others 0 d = d" and "others 1 d = d" and "others 2 d = d2"
  shows "(\<exists>sd'. workflow_task_handler opt clk others task sd d =
     (HandlerDone, Some \<lparr>dr_run = lt_run task, dr_workflow_type = wt, dr_outcome = ''superseded'', dr_recorded = 0, dr_source = None\<rparr>, sd', d2)) \<and>
     workflow_tasks d2 (lt_run task) = workflow_tasks d (lt_run task)"
  using handler_superseded [where others = others, OF assms] record_failure_sequence(4) [OF assms(1-3,9)] by (simp add: workflow_tasks_def)

theorem failed_attempt_swallows_decision_witness:
  "\<exists>sd'. workflow_task_handler pay_options (pay_clock 5000) charge_fails_meanwhile second_lease pay_session pay_suspended_db =
     (HandlerDone, Some \<lparr>dr_run = 0, dr_workflow_type = ''order'', dr_outcome = ''superseded'', dr_recorded = 0, dr_source = None\<rparr>, sd', charge_failed_db)"
proof -
  obtain r where r: "find_run pay_suspended_db 0 = Some r" "r_status r = RUNNING"
    using pay_undecided(4,5) by (auto simp: run_closed_def split: option.splits)
  have lease: "lt_run second_lease = 0" "lt_id second_lease = 50" by (simp_all add: pay_second_task second_lease_def)
  have opt: "ho_string pay_options = no_text" "ho_enc pay_options = no_text" "ho_threshold pay_options = None"
    "ho_workflows pay_options ''order'' = Some (\<lambda>_. pay_code)"
    "tk_cache_get (pay_clock 5000) = 5000" "tk_cache_set (pay_clock 5000) = 5000"
    by (simp_all add: pay_options_def pay_clock_def)
  show ?thesis
    using failed_attempt_swallows_decision [OF pay_suspended_ok, of second_lease r "''order''" _ _ pay_options "\<lambda>_. pay_code" "pay_clock 5000" pay_session
        "\<lparr>de_outcome = Suspended, de_commands = []\<rparr>" None FromCache 4500 "''step-1''" 1 "SerializedError ''Error'' ''down'' None VUndef None"
        "Some 6000" charge_failed_db charge_fails_meanwhile]
      r lease opt pay_undecided charge_failed by (simp add: order_event_def charge_fails_meanwhile_def)
qed

text \<open>
  C31: A step task wakes its run when the step is done, failed for good or had a result already, unless it used all its
  attempts: then the task goes to the dead letters, the failure is in the history, and the run gets no workflow task.
\<close>

theorem dead_lettered_run_is_not_woken:
  assumes "process_step_task env others task d = (Some (Inr out), d1)" and "handle_step_task env others q now task d = (Some (Inr ()), d2)"
    and "others_let_sleep (lt_run task) others" and "\<forall>t \<in> set (workflow_tasks d (lt_run task)). t_id t \<noteq> lt_id task"
  shows "case out of
     DeadLettered n lid \<Rightarrow> d2 = d1 \<and> workflow_tasks d2 (lt_run task) = workflow_tasks d (lt_run task)
   | StepDone n \<Rightarrow> \<exists>t \<in> set (workflow_tasks d2 (lt_run task)). t_state t = TPENDING \<and> t_visible_at t = now
   | StepGaveUp n \<Rightarrow> \<exists>t \<in> set (workflow_tasks d2 (lt_run task)). t_state t = TPENDING \<and> t_visible_at t = now
   | AlreadyRecorded \<Rightarrow> \<exists>t \<in> set (workflow_tasks d2 (lt_run task)). t_state t = TPENDING \<and> t_visible_at t = now
   | _ \<Rightarrow> d2 = d1"
proof (cases out)
  case (DeadLettered n lid)
  with assms(1,2) have "d2 = d1" by (simp add: handle_step_task_def)
  with process_dead_letter [OF assms(1) [unfolded DeadLettered] assms(3,4)] DeadLettered show ?thesis by simp
qed (use assms(1,2) in \<open>auto simp: handle_step_task_def workflow_tasks_def enqueue_def new_task_def Let_def assert_non_negative_integer_def
    split: sum.splits if_splits\<close>)

theorem dead_lettered_run_is_not_woken_witness:
  "\<exists>lid n. process_step_task spent_env alone charge_task charging_db = (Some (Inr (DeadLettered n lid)), spent_db) \<and>
     handle_step_task spent_env alone ''main'' 5000 charge_task charging_db = (Some (Inr ()), spent_db) \<and>
     workflow_tasks spent_db (lt_run charge_task) = workflow_tasks charging_db (lt_run charge_task)"
proof -
  obtain n lid where p: "process_step_task spent_env alone charge_task charging_db = (Some (Inr (DeadLettered n lid)), spent_db)"
    using charge_spent by blast
  then have h: "handle_step_task spent_env alone ''main'' 5000 charge_task charging_db = (Some (Inr ()), spent_db)"
    by (simp add: handle_step_task_def)
  have "others_let_sleep (lt_run charge_task) alone" by (simp add: others_let_sleep_def alone_def)
  from dead_lettered_run_is_not_woken [OF p h this] charge_is_no_workflow_task p h show ?thesis by (auto simp: list_all_iff)
qed

text \<open>C32: A worker never has more tasks in hand than its concurrency, in any order of its steps and whatever the queue answers.\<close>

theorem active_tasks_within_concurrency:
  assumes "resolve_options q identity sticky wi = Inr cfg" and "worker_runs cfg th es (create_worker cfg, d) = Some (w, d')"
  shows "int (active_count w) \<le> wc_concurrency cfg"
  using worker_within_concurrency [OF assms(2)] resolve_options_Inr(1) [OF assms(1)] by simp

theorem active_tasks_within_concurrency_witness:
  "\<exists>w d. worker_runs two_slots 3 late_heartbeat (create_worker two_slots, order_db) = Some (w, d) \<and> active_count w = 2 \<and>
     int (active_count w) \<le> wc_concurrency two_slots"
proof -
  obtain w d where w: "worker_runs two_slots 3 late_heartbeat (create_worker two_slots, order_db) = Some (w, d)" "active_count w = 2"
    using late_heartbeat_run by (auto split: option.splits)
  with active_tasks_within_concurrency [OF two_slots_resolved(1) w(1)] show ?thesis by blast
qed

text \<open>
  C33: Once a worker has stopped it has no task in hand, and every task it launched has settled, was dropped, or was
  delivered to it a second time; if it reports none dropped, and so exits with 0, none was.
\<close>

theorem stopped_worker_left_no_task:
  assumes "worker_runs cfg th es (create_worker cfg, d) = Some (w, d')" and "ws_shutdown w = StopResult completed dropped"
  shows "active_count w = 0 \<and> (exit_code w = Some 0 \<longrightarrow> none_dropped w) \<and>
     (\<forall>i < length (ws_running w). rt_done (ws_running w ! i) = Finished \<or> rt_dropped (ws_running w ! i) \<or> delivered_twice w i)"
  using worker_stops [OF assms] assms(2) by (simp add: exit_code_def)

theorem stopped_worker_left_no_task_witness:
  "\<exists>w d. worker_runs two_slots 3 (late_heartbeat @ then_stopped) (create_worker two_slots, order_db) = Some (w, d) \<and>
     active_count w = 0 \<and> none_dropped w \<and> delivered_twice w 1"
proof -
  obtain w d where w: "worker_runs two_slots 3 (late_heartbeat @ then_stopped) (create_worker two_slots, order_db) = Some (w, d)"
    "ws_shutdown w = StopResult 1 0" "map rt_done (ws_running w) = [Finished, Handling, Finished]"
    using then_stopped_run by (auto split: option.splits)
  then have len: "length (ws_running w) = 3" and one: "rt_done (ws_running w ! 1) = Handling" 
    using map_three [OF w(3)] by simp_all
  note s = stopped_worker_left_no_task [OF w(1,2)]
  then have "none_dropped w" using w(2) by (simp add: exit_code_def)
  moreover from this have "\<not> rt_dropped (ws_running w ! 1)" using len by (simp add: none_dropped_def)
  moreover have "delivered_twice w 1"
  proof -
    have "1 < length (ws_running w)" using len by simp
    with s have "rt_done (ws_running w ! 1) = Finished \<or> rt_dropped (ws_running w ! 1) \<or> delivered_twice w 1" by blast
    then show ?thesis using one \<open>\<not> rt_dropped (ws_running w ! 1)\<close> by simp
  qed
  ultimately show ?thesis using s w(1) by blast
qed


text \<open>
  C35: The latency a worker reports for a task counts from the end of its first lease, not from the instant the
  task became visible: it is negative whenever the task settles within the visibility timeout.
\<close>

theorem reported_latency_counts_from_lease_end:
  assumes "dequeue th now (poll_options cfg n) d = Inr (ts, d')" and "rt_task (ws_running w ! i) \<in> set ts"
    and "clock < now + wc_visibility cfg"
  shows "\<exists>seconds < 0. ws_settled (settle_returns cfg i clock failed True w) =
     ws_settled w @ [(lt_id (rt_task (ws_running w ! i)), failed, seconds)]"
proof -
  have "(of_int (clock - now - wc_visibility cfg) / 1000 :: rat) < 0" using assms(3) by (simp add: divide_less_0_iff)
  with settle_returns_latency [OF assms(1,2), of clock failed] show ?thesis by blast
qed

theorem reported_latency_counts_from_lease_end_witness:
  "\<exists>seconds < 0. ws_settled (settle_returns two_slots 0 4000 False True settling_worker) =
     ws_settled settling_worker @ [(lt_id first_delivery, False, seconds)]"
proof -
  obtain d' where d: "dequeue 3 3000 (poll_options two_slots 2) order_db = Inr ([first_delivery], d')"
    using first_delivered(1) by (auto split: sum.splits)
  from reported_latency_counts_from_lease_end [OF d, of settling_worker 0 4000 False] first_delivered(2)
  show ?thesis by (simp add: first_delivery_def)
qed

section \<open>Values and errors\<close>

text \<open>
  C36: A masked value shows no field of a sensitive name except as the mask, at any depth, and
  masking it again changes nothing.
\<close>

theorem masking_reveals_nothing:
  "\<not> reveals ks (mask_sensitive_fields v ks) \<and>
   mask_sensitive_fields (mask_sensitive_fields v ks) ks = mask_sensitive_fields v ks"
  by (simp add: mask_sensitive_fields_def mask_reveals_nothing mask_idem)

text \<open>
  C37: A recorded error has at most five causes below it, however long the chain of causes of the
  thrown one is; and an error that comes back out of the log and is recorded once more keeps its
  names, messages and causes and loses its details.
\<close>

theorem recorded_errors_bounded:
  "cause_depth (to_recorded_error enc e) \<le> MAX_CAUSE_DEPTH \<and>
   to_recorded_error enc (reconstruct_error (to_recorded_error enc e)) = without_details (to_recorded_error enc e)"
proof -
  have "cause_depth (to_recorded_error enc e) \<le> MAX_CAUSE_DEPTH"
    using cause_depth_serialized [of 0 enc e] by (simp add: to_recorded_error_def serialize_error_def)
  moreover from this have "to_recorded_error enc (reconstruct_error (to_recorded_error enc e)) = without_details (to_recorded_error enc e)"
    using re_record_at_depth [of "to_recorded_error enc e" 0 enc]
    by (simp add: to_recorded_error_def serialize_error_def)
  ultimately show ?thesis by simp
qed

section \<open>Where the engine's contract stops\<close>


text \<open>
  C39: Paging a list of runs loses and repeats nothing. A client that follows \<open>nextCursor\<close> from the first page to the
  last has seen, for whatever filters and limit, every run of its namespace that passes the filters exactly once,
  newest first, and no other run.
\<close>

theorem pages_show_every_run_once:
  assumes "0 < li_limit li" and "distinct (map r_id (d_runs d))" and "\<And>k. dec (enc k) = Some k" and "length (d_runs d) < n"
  shows "\<exists>rows. follow_pages n (answered_page (\<lambda>c. list_runs dec enc ns (li\<lparr>li_cursor := c\<rparr>) d)) None = map to_summary rows \<and>
     mset rows = mset (filter (run_listed ns li) (d_runs d)) \<and> sorted_wrt (\<lambda>a b. run_position b < run_position a) rows"
  by (rule follow_runs_once [where d = d, OF assms])

theorem pages_show_every_run_once_witness:
  "\<exists>rows. follow_pages 5 (answered_page (\<lambda>c. list_runs read_cursor write_cursor 7 ((any_run 1)\<lparr>li_cursor := c\<rparr>) family_db)) None = map to_summary rows \<and>
     mset rows = mset (filter (run_listed 7 (any_run 1)) (d_runs family_db)) \<and> size (mset rows) = 3"
proof -
  have facts: "0 < li_limit (any_run 1)" "length (d_runs family_db) < 5" "length (filter (run_listed 7 (any_run 1)) (d_runs family_db)) = 3"
    by code_simp+
  from pages_show_every_run_once [where dec = read_cursor and enc = write_cursor and ns = 7, OF facts(1) family_runs(1) read_write_cursor facts(2)]
  obtain rows where rows: "follow_pages 5 (answered_page (\<lambda>c. list_runs read_cursor write_cursor 7 ((any_run 1)\<lparr>li_cursor := c\<rparr>) family_db)) None = map to_summary rows"
    "mset rows = mset (filter (run_listed 7 (any_run 1)) (d_runs family_db))" by blast
  have "size (mset rows) = 3" by (simp only: rows(2) size_mset facts(3))
  with rows show ?thesis by blast
qed



end
